(* ===== verification/Prelude.thy ===== *)
theory Prelude
  imports Main "HOL-Library.Word" "HOL-Library.Multiset"
begin

text \<open>
  Shared vocabulary of the development: the C integer types the program uses, the ways
  in which a C function can fail to return, a small state-and-failure monad in which the
  stateful components are written, the rules that carry invariants through it, and generic
  list lemmas.  Nothing here is specific to one component.
\<close>

section \<open>Collections of facts\<close>

named_theorems monad_simps \<open>unfolding rules of the state-and-failure monad\<close>
named_theorems preserves_intros \<open>introduction rules for invariants of programs\<close>
named_theorems wp_simps \<open>weakest preconditions of the monad's operations\<close>

section \<open>C integer types\<close>

type_synonym byte = "8 word"
type_synonym size_t = "64 word"

text \<open>
  \<open>int\<close> values are kept as HOL integers; the conversion from \<open>size_t\<close> to \<open>int\<close> keeps the
  low 32 bits and reads them as two's complement (what GCC, Clang and MSVC define), and
  signed arithmetic is checked against the range of \<open>int\<close>.
\<close>

definition int_of_size :: "size_t \<Rightarrow> int" where
  "int_of_size x =
     (let u = uint x mod 2 ^ 32 in if u < 2 ^ 31 then u else u - 2 ^ 32)"

definition fits_int :: "int \<Rightarrow> bool" where
  "fits_int i \<longleftrightarrow> - (2 ^ 31) \<le> i \<and> i < 2 ^ 31"

lemma int_of_size_range: "fits_int (int_of_size x)"
proof -
  define u where "u = uint x mod 2 ^ 32"
  have "0 \<le> u" "u < 2 ^ 32" by (simp_all add: u_def)
  then show ?thesis by (auto simp: fits_int_def int_of_size_def Let_def simp flip: u_def)
qed

lemma uint_less_iff_unat: "uint x < 2 ^ k \<longleftrightarrow> unat x < 2 ^ k"
  by (simp add: uint_nat del: of_nat_unat)

lemma int_of_size_small: "unat x < 2 ^ 31 \<Longrightarrow> int_of_size x = int (unat x)"
  using uint_less_iff_unat [of x 31] by (simp add: int_of_size_def)

lemma int_of_size_le: "int_of_size x \<le> uint x"
proof -
  have "uint x mod 2 ^ 32 \<le> uint x" by (simp add: zmod_le_nonneg_dividend)
  then show ?thesis by (simp add: int_of_size_def Let_def)
qed

lemma int_of_size_negative:
  "2 ^ 31 \<le> unat x \<Longrightarrow> unat x < 2 ^ 32 \<Longrightarrow> int_of_size x < 0"
  using uint_less_iff_unat [of x 31] uint_less_iff_unat [of x 32] by (simp add: int_of_size_def)

lemma unat_of_nat_size: "n < 2 ^ 64 \<Longrightarrow> unat (word_of_nat n :: size_t) = n"
  by (simp add: unat_of_nat)

lemma word_of_nat_size_nonzero: "0 < n \<Longrightarrow> n < 2 ^ 64 \<Longrightarrow> (word_of_nat n :: size_t) \<noteq> 0"
  using unat_of_nat_size [of n] by (metis less_numeral_extra(3) unat_0)

lemma uint_of_nat_size: "n < 2 ^ 64 \<Longrightarrow> uint (word_of_nat n :: size_t) = int n"
  using unat_of_nat_size [of n] by (metis of_nat_unat of_nat_id)

lemma int_of_size_of_nat: "n < 2 ^ 31 \<Longrightarrow> int_of_size (word_of_nat n) = int n"
  by (subst int_of_size_small) (simp_all add: unat_of_nat_size del: of_nat_unat)

section \<open>Failure\<close>

text \<open>
  A C function that does not return ends the process (\<open>exit\<close>, \<open>abort\<close>) or has no defined
  behaviour (a write outside an object, a use of a freed object, a signed overflow), or it
  turned into another program (a successful \<open>execvp\<close>).  A
  computation yields \<open>Inr\<close> of its result or \<open>Inl\<close> of the reason it stopped.
\<close>

datatype stop = Exit int | Abort | Undefined | Replaced

type_synonym 'a outcome = "stop + 'a"

definition bind_out :: "'a outcome \<Rightarrow> ('a \<Rightarrow> 'b outcome) \<Rightarrow> 'b outcome" where
  "bind_out m f = (case m of Inl e \<Rightarrow> Inl e | Inr x \<Rightarrow> f x)"

lemma bind_out_simps [simp]:
  "bind_out (Inl e) f = Inl e"
  "bind_out (Inr x) f = f x"
  by (simp_all add: bind_out_def)

lemma bind_out_eq_Inr:
  "bind_out m f = Inr y \<longleftrightarrow> (\<exists>x. m = Inr x \<and> f x = Inr y)"
  by (cases m) auto

lemma bind_out_cong [fundef_cong]:
  "m = m' \<Longrightarrow> (\<And>x. m' = Inr x \<Longrightarrow> f x = f' x) \<Longrightarrow> bind_out m f = bind_out m' f'"
  by (cases m') auto

section \<open>The state-and-failure monad\<close>

text \<open>
  A program takes the state it runs in and returns its outcome together with the state it
  leaves; a program that stops leaves the state in which it stopped.
\<close>

type_synonym ('s, 'a) prog = "'s \<Rightarrow> 'a outcome \<times> 's"

definition ret :: "'a \<Rightarrow> ('s, 'a) prog" where
  "ret x = (\<lambda>s. (Inr x, s))"

definition bnd :: "('s, 'a) prog \<Rightarrow> ('a \<Rightarrow> ('s, 'b) prog) \<Rightarrow> ('s, 'b) prog" where
  "bnd m f = (\<lambda>s. case m s of (Inl e, s') \<Rightarrow> (Inl e, s') | (Inr x, s') \<Rightarrow> f x s')"

definition halt :: "stop \<Rightarrow> ('s, 'a) prog" where
  "halt e = (\<lambda>s. (Inl e, s))"

definition gets :: "('s \<Rightarrow> 'a) \<Rightarrow> ('s, 'a) prog" where
  "gets f = (\<lambda>s. (Inr (f s), s))"

definition modify :: "('s \<Rightarrow> 's) \<Rightarrow> ('s, unit) prog" where
  "modify f = (\<lambda>s. (Inr (), f s))"

definition lift :: "'a outcome \<Rightarrow> ('s, 'a) prog" where
  "lift r = (\<lambda>s. (r, s))"

definition guard_do :: "bool \<Rightarrow> ('s, unit) prog \<Rightarrow> ('s, unit) prog" where
  "guard_do b m = (if b then m else ret ())"

fun for_each :: "('a \<Rightarrow> ('s, unit) prog) \<Rightarrow> 'a list \<Rightarrow> ('s, unit) prog" where
  "for_each f [] = ret ()"
| "for_each f (x # xs) = bnd (f x) (\<lambda>_. for_each f xs)"

lemma ret_run [simp, monad_simps]: "ret x s = (Inr x, s)"
  by (simp add: ret_def)

lemma halt_run [simp, monad_simps]: "halt e s = (Inl e, s)"
  by (simp add: halt_def)

lemma gets_run [simp, monad_simps]: "gets g s = (Inr (g s), s)"
  by (simp add: gets_def)

lemma modify_run [simp, monad_simps]: "modify h s = (Inr (), h s)"
  by (simp add: modify_def)

lemma lift_run [simp, monad_simps]: "lift r s = (r, s)"
  by (simp add: lift_def)

lemma guard_do_simps [simp, monad_simps]:
  "guard_do True m = m"
  "guard_do False m = ret ()"
  by (simp_all add: guard_do_def)

lemma bnd_step:
  "m s = (Inr x, s') \<Longrightarrow> bnd m f s = f x s'"
  "m s = (Inl e, s') \<Longrightarrow> bnd m f s = (Inl e, s')"
  by (simp_all add: bnd_def)

lemma bnd_ret_left [simp, monad_simps]: "bnd (ret x) f = f x"
  by (auto simp: bnd_def ret_def halt_def gets_def modify_def lift_def fun_eq_iff split: prod.splits sum.splits)

lemma bnd_halt [simp, monad_simps]: "bnd (halt e) f = halt e"
  by (auto simp: bnd_def ret_def halt_def gets_def modify_def lift_def fun_eq_iff split: prod.splits sum.splits)

lemma bnd_Pair_Inr [simp, monad_simps]: "bnd (Pair (Inr x)) f = f x"
  by (auto simp: bnd_def ret_def halt_def gets_def modify_def lift_def fun_eq_iff split: prod.splits sum.splits)

lemma bnd_Pair_Inl [simp, monad_simps]: "bnd (Pair (Inl e)) f = halt e"
  by (auto simp: bnd_def ret_def halt_def gets_def modify_def lift_def fun_eq_iff split: prod.splits sum.splits)

lemma bnd_lift:
  "bnd (lift (Inr x)) f = f x"
  "bnd (lift (Inl e)) f = halt e"
  by (auto simp: bnd_def lift_def halt_def fun_eq_iff split: prod.splits sum.splits)

lemma bnd_gets [simp, monad_simps]: "bnd (gets g) f s = f (g s) s"
  by (auto simp: bnd_def ret_def halt_def gets_def modify_def lift_def fun_eq_iff split: prod.splits sum.splits)

lemma bnd_modify [simp, monad_simps]: "bnd (modify h) f s = f () (h s)"
  by (auto simp: bnd_def ret_def halt_def gets_def modify_def lift_def fun_eq_iff split: prod.splits sum.splits)

lemma bnd_assoc [simp, monad_simps]: "bnd (bnd m f) g = bnd m (\<lambda>x. bnd (f x) g)"
  by (auto simp: bnd_def ret_def halt_def gets_def modify_def lift_def fun_eq_iff split: prod.splits sum.splits)

lemma bnd_ret [simp]: "bnd m ret = m"
  by (auto simp: bnd_def fun_eq_iff split: prod.splits sum.splits)

lemma bnd_eq_Inr:
  "bnd m f s = (Inr y, t) \<longleftrightarrow> (\<exists>x u. m s = (Inr x, u) \<and> f x u = (Inr y, t))"
  by (auto simp: bnd_def split: prod.splits sum.splits)

lemma for_each_map: "for_each f (map g xs) = for_each (\<lambda>x. f (g x)) xs"
  by (induction xs) simp_all

lemma for_each_cong: "(\<And>x. x \<in> set xs \<Longrightarrow> f x = g x) \<Longrightarrow> for_each f xs = for_each g xs"
  by (induction xs) simp_all

lemma for_each_upt:
  assumes "\<And>i. i < length xs \<Longrightarrow> f i = g (xs ! i)"
  shows "for_each f [0..<length xs] = for_each g xs"
proof -
  have "for_each f [0..<length xs] = for_each (\<lambda>i. g (xs ! i)) [0..<length xs]"
    by (rule for_each_cong) (simp add: assms)
  also have "\<dots> = for_each g (map ((!) xs) [0..<length xs])" by (simp only: for_each_map)
  finally show ?thesis by (simp only: map_nth)
qed

lemma for_each_append:
  "for_each f (xs @ ys) = bnd (for_each f xs) (\<lambda>_. for_each f ys)"
  by (induction xs) simp_all

section \<open>Invariants of programs\<close>

text \<open>
  \<open>preserves P m\<close>: started in a state with \<open>P\<close>, the program \<open>m\<close> leaves a state with \<open>P\<close>,
  whether it returns or stops.
\<close>

definition preserves :: "('s \<Rightarrow> bool) \<Rightarrow> ('s, 'a) prog \<Rightarrow> bool" where
  "preserves P m \<longleftrightarrow> (\<forall>s. P s \<longrightarrow> P (snd (m s)))"

lemma preservesI: "(\<And>s. P s \<Longrightarrow> P (snd (m s))) \<Longrightarrow> preserves P m"
  by (simp add: preserves_def)

lemma preservesD: "preserves P m \<Longrightarrow> P s \<Longrightarrow> P (snd (m s))"
  by (simp add: preserves_def)

lemma preserves_result: "preserves P m \<Longrightarrow> P s \<Longrightarrow> m s = (r, t) \<Longrightarrow> P t"
  using preservesD [of P m s] by simp

lemma preserves_basic [preserves_intros]:
  "preserves P (ret x)"
  "preserves P (halt e)"
  "preserves P (gets g)"
  "preserves P (lift r)"
  "preserves P (Pair r)"
  by (simp_all add: preserves_def)

lemma preserves_modify [preserves_intros]:
  "(\<And>s. P s \<Longrightarrow> P (h s)) \<Longrightarrow> preserves P (modify h)"
  by (simp add: preserves_def)

lemma preserves_bnd [preserves_intros]:
  "preserves P m \<Longrightarrow> (\<And>x. preserves P (f x)) \<Longrightarrow> preserves P (bnd m f)"
  by (force simp: preserves_def bnd_def split: prod.splits sum.splits)

lemma preserves_cond [preserves_intros]:
  "(b \<Longrightarrow> preserves P m) \<Longrightarrow> (\<not> b \<Longrightarrow> preserves P n) \<Longrightarrow> preserves P (if b then m else n)"
  by simp

lemma preserves_guard_do [preserves_intros]:
  "(b \<Longrightarrow> preserves P m) \<Longrightarrow> preserves P (guard_do b m)"
  by (cases b) (simp_all add: preserves_basic)

lemma preserves_option [preserves_intros]:
  "preserves P n \<Longrightarrow> (\<And>x. preserves P (f x)) \<Longrightarrow>
     preserves P (case o' of None \<Rightarrow> n | Some x \<Rightarrow> f x)"
  by (cases o') simp_all

lemma preserves_prod [preserves_intros]:
  "(\<And>x y. preserves P (f x y)) \<Longrightarrow> preserves P (case p of (x, y) \<Rightarrow> f x y)"
  by (cases p) simp_all

lemma preserves_for_each [preserves_intros]:
  "(\<And>x. x \<in> set xs \<Longrightarrow> preserves P (f x)) \<Longrightarrow> preserves P (for_each f xs)"
  by (induction xs) (auto intro: preserves_intros)

section \<open>Weakest preconditions\<close>

text \<open>
  \<open>wp m Q s\<close>: the program \<open>m\<close>, started in \<open>s\<close>, has defined behaviour, and if it returns it
  returns a result and a state with \<open>Q\<close>.
\<close>

definition wp :: "('s, 'a) prog \<Rightarrow> ('a \<Rightarrow> 's \<Rightarrow> bool) \<Rightarrow> 's \<Rightarrow> bool" where
  "wp m Q s \<longleftrightarrow> (case m s of (Inl e, _) \<Rightarrow> e \<noteq> Undefined | (Inr x, t) \<Rightarrow> Q x t)"

lemma wp_ret [wp_simps]: "wp (ret x) Q = Q x"
  by (simp add: wp_def fun_eq_iff)

lemma wp_Pair [wp_simps]:
  "wp (Pair r) Q s \<longleftrightarrow> (case r of Inl e \<Rightarrow> e \<noteq> Undefined | Inr x \<Rightarrow> Q x s)"
  by (simp add: wp_def split: sum.splits)

lemma wp_bnd [wp_simps]: "wp (bnd m f) Q s \<longleftrightarrow> wp m (\<lambda>x. wp (f x) Q) s"
  by (simp add: wp_def bnd_def split: prod.splits sum.splits)

lemma wp_bnd_fun: "wp (bnd m f) Q = wp m (\<lambda>x. wp (f x) Q)"
  by (simp add: fun_eq_iff wp_bnd)

lemma wp_halt [wp_simps]: "wp (halt e) Q s \<longleftrightarrow> e \<noteq> Undefined"
  by (simp add: wp_def)

lemma wp_gets [wp_simps]: "wp (gets g) Q s \<longleftrightarrow> Q (g s) s"
  by (simp add: wp_def)

lemma wp_modify [wp_simps]: "wp (modify h) Q s \<longleftrightarrow> Q () (h s)"
  by (simp add: wp_def)

lemma wp_lift [wp_simps]:
  "wp (lift r) Q s \<longleftrightarrow> (case r of Inl e \<Rightarrow> e \<noteq> Undefined | Inr x \<Rightarrow> Q x s)"
  by (simp add: wp_def split: sum.splits)

lemma wp_guard_do [wp_simps]: "wp (guard_do b m) Q s \<longleftrightarrow> (if b then wp m Q s else Q () s)"
  by (simp add: wp_def)

text \<open>The same as equations of predicates, which rewrite under the bound variables of a sequence.\<close>

lemma wp_funs:
  "wp (bnd m f) Q = wp m (\<lambda>x. wp (f x) Q)"
  "wp (ret x) R1 = R1 x"
  "wp (gets g) R2 = (\<lambda>s. R2 (g s) s)"
  "wp (modify h) R3 = (\<lambda>s. R3 () (h s))"
  "wp (guard_do b u) R3 = (if b then wp u R3 else R3 ())"
  by (simp_all add: fun_eq_iff wp_simps)

lemma wp_mono: "wp m Q s \<Longrightarrow> (\<And>x t. Q x t \<Longrightarrow> R x t) \<Longrightarrow> wp m R s"
  by (auto simp: wp_def split: prod.splits sum.splits)

lemma wp_result: "wp m Q s \<Longrightarrow> m s = (Inr x, t) \<Longrightarrow> Q x t"
  by (simp add: wp_def)

lemma wp_defined: "wp m Q s \<Longrightarrow> fst (m s) \<noteq> Inl Undefined"
  by (auto simp: wp_def split: prod.splits)

lemma wp_for_each:
  assumes "P s" "\<And>x s. x \<in> set xs \<Longrightarrow> P s \<Longrightarrow> wp (f x) (\<lambda>_. P) s"
  shows "wp (for_each f xs) (\<lambda>_. P) s"
  using assms
proof (induction xs arbitrary: s)
  case Nil
  then show ?case by (simp add: wp_simps)
next
  case (Cons x xs)
  have "wp (f x) (\<lambda>_. P) s" using Cons.prems by simp
  then have "wp (f x) (\<lambda>_. wp (for_each f xs) (\<lambda>_. P)) s"
    by (rule wp_mono) (use Cons in simp)
  then show ?case by (simp add: wp_simps)
qed

section \<open>Total correctness\<close>

text \<open>
  \<open>twp m Q s\<close>: the program \<open>m\<close>, started in \<open>s\<close>, returns a result and a state with \<open>Q\<close>.  A program
  that never ends the process, \<open>only_undefined\<close>, returns wherever its behaviour is defined.
\<close>

named_theorems twp_simps \<open>total weakest preconditions of the monad's operations\<close>

definition twp :: "('s, 'a) prog \<Rightarrow> ('a \<Rightarrow> 's \<Rightarrow> bool) \<Rightarrow> 's \<Rightarrow> bool" where
  "twp m Q s \<longleftrightarrow> (case m s of (Inl e, _) \<Rightarrow> False | (Inr x, t) \<Rightarrow> Q x t)"

definition only_undefined :: "('s, 'a) prog \<Rightarrow> bool" where
  "only_undefined m \<longleftrightarrow> (\<forall>s e. fst (m s) = Inl e \<longrightarrow> e = Undefined)"

lemma twp_iff: "twp m Q s \<longleftrightarrow> (\<exists>x t. m s = (Inr x, t) \<and> Q x t)"
  by (auto simp: twp_def split: prod.splits sum.splits)

lemma twp_ret [twp_simps]: "twp (ret x) Q = Q x"
  by (simp add: twp_def fun_eq_iff)

lemma twp_bnd [twp_simps]: "twp (bnd m f) Q s \<longleftrightarrow> twp m (\<lambda>x. twp (f x) Q) s"
  by (simp add: twp_def bnd_def split: prod.splits sum.splits)

lemma twp_bnd_fun: "twp (bnd m f) Q = twp m (\<lambda>x. twp (f x) Q)"
  by (simp add: fun_eq_iff twp_bnd)

lemma twp_basic [twp_simps]:
  "twp (gets g) Q1 s \<longleftrightarrow> Q1 (g s) s"
  "twp (modify h) Q2 s \<longleftrightarrow> Q2 () (h s)"
  "twp (lift r) Q3 s \<longleftrightarrow> (\<exists>x. r = Inr x \<and> Q3 x s)"
  "twp (Pair r) Q3 s \<longleftrightarrow> (\<exists>x. r = Inr x \<and> Q3 x s)"
  "twp (guard_do b m) Q2 s \<longleftrightarrow> (if b then twp m Q2 s else Q2 () s)"
  by (auto simp: twp_iff)

lemma twp_mono: "twp m Q s \<Longrightarrow> (\<And>x t. Q x t \<Longrightarrow> R x t) \<Longrightarrow> twp m R s"
  by (auto simp: twp_iff)

lemma wp_of_twp: "twp m Q s \<Longrightarrow> wp m Q s"
  by (auto simp: twp_iff wp_def)

lemma twp_of_wp: "wp m Q s \<Longrightarrow> only_undefined m \<Longrightarrow> twp m Q s"
proof -
  assume a: "wp m Q s" "only_undefined m"
  obtain r t where r: "m s = (r, t)" by (cases "m s")
  then have "r = Inl e \<Longrightarrow> e = Undefined" for e using a(2) by (metis fst_conv only_undefined_def)
  then show "twp m Q s" using a(1) r by (cases r) (auto simp: wp_def twp_def)
qed

lemma only_undefinedI [preserves_intros]:
  "only_undefined (ret x)"
  "only_undefined (gets g)"
  "only_undefined (modify h)"
  "only_undefined (halt Undefined)"
  "only_undefined (Pair (Inr x))"
  by (simp_all add: only_undefined_def)

lemma only_undefined_lift: "(\<And>e. r = Inl e \<Longrightarrow> e = Undefined) \<Longrightarrow> only_undefined (lift r)"
  by (simp add: only_undefined_def)

lemma only_undefined_bnd [preserves_intros]:
  "only_undefined m \<Longrightarrow> (\<And>x. only_undefined (f x)) \<Longrightarrow> only_undefined (bnd m f)"
  unfolding only_undefined_def bnd_def by (auto split: prod.splits sum.splits) (metis fst_conv)+

lemma only_undefined_cond [preserves_intros]:
  "only_undefined m \<Longrightarrow> only_undefined (guard_do b m)"
  "only_undefined n \<Longrightarrow> (\<And>x. only_undefined (f x)) \<Longrightarrow>
     only_undefined (case o' of None \<Rightarrow> n | Some x \<Rightarrow> f x)"
  by (auto simp: only_undefined_def guard_do_def split: option.splits)

section \<open>Generic lemmas on lists\<close>

lemma take_append_drop_mid:
  "take n xs @ take m (drop n xs) = take (n + m) xs"
  by (simp add: take_add)

lemma map_of_distinct_mset_eq:
  assumes "mset xs = mset ys" "distinct (map fst xs)"
  shows "map_of xs = map_of ys"
proof -
  have "set xs = set ys" using assms(1) by (metis set_mset_mset)
  moreover have "distinct (map fst ys)"
    using assms by (metis mset_map distinct_count_atmost_1 set_mset_mset mset_eq_setD)
  ultimately show ?thesis using assms(2)
    by (intro map_of_inject_set [THEN iffD2]) auto
qed

lemma map_of_filter_key: "map_of (filter (\<lambda>x. fst x \<noteq> k) xs) = (map_of xs)(k := None)"
  by (induction xs) auto

lemma length_filter_distinct:
  "distinct (map f xs) \<Longrightarrow> e \<in> f ` set xs \<Longrightarrow>
     Suc (length (filter (\<lambda>x. f x \<noteq> e) xs)) = length xs"
proof (induction xs)
  case (Cons a xs)
  show ?case
  proof (cases "f a = e")
    case True
    then have "filter (\<lambda>x. f x \<noteq> e) xs = xs" using Cons.prems(1)
      by (auto simp: filter_id_conv) (metis imageI)
    then show ?thesis using True by simp
  next
    case False
    then show ?thesis using Cons by auto
  qed
qed simp

lemma find_eq_map_of:
  "find (\<lambda>e. fst e = k) xs = map_option (Pair k) (map_of xs k)"
  by (induction xs) auto

end
