(* ===== verification/Alloc.thy ===== *)
theory Alloc
  imports Prelude
begin

text \<open>
  Memory blocks and the checked allocator of \<open>src/util/alloc.c\<close>, with the exit codes of
  \<open>src/util/error.h\<close>.  A pointer to a block is \<open>byte list option\<close> (\<open>None\<close> is NULL, the list is
  the whole block, so its length is the size that was allocated).  What C leaves to the
  implementation is a parameter, the record \<open>libc\<close>: which requests are granted, whether
  \<open>realloc(p, 0)\<close> frees the block and returns NULL (as glibc does) or not, and the
  indeterminate bytes of fresh memory.  An access outside a block has no defined behaviour;
  an access to zero bytes has no effect, also through NULL.
\<close>

definition EXIT_FAILURE :: int where
  "EXIT_FAILURE = 1"

definition NON_RECOVERABLE_ERROR :: int where
  "NON_RECOVERABLE_ERROR = 57"

type_synonym block = "byte list"

record libc =
  malloc_ok :: "nat \<Rightarrow> bool"
  realloc0_frees :: bool
  indet :: "nat \<Rightarrow> byte"

section \<open>The C allocator\<close>

definition c_malloc :: "libc \<Rightarrow> size_t \<Rightarrow> block option" where
  "c_malloc L n =
     (if malloc_ok L (unat n) then Some (map (indet L) [0..<unat n]) else None)"

definition c_calloc :: "libc \<Rightarrow> size_t \<Rightarrow> size_t \<Rightarrow> block option" where
  "c_calloc L n sz =
     (if unat n * unat sz < 2 ^ 64 \<and> malloc_ok L (unat n * unat sz)
      then Some (replicate (unat n * unat sz) 0) else None)"

definition c_realloc :: "libc \<Rightarrow> block option \<Rightarrow> size_t \<Rightarrow> block option" where
  "c_realloc L p n =
     (case p of
        None \<Rightarrow> c_malloc L n
      | Some b \<Rightarrow>
          if n = 0 \<and> realloc0_frees L then None
          else if malloc_ok L (unat n)
          then Some (take (unat n) b @ map (indet L) [length b..<unat n])
          else None)"

section \<open>The checked wrappers\<close>

definition check_ptr :: "block option \<Rightarrow> block option outcome" where
  "check_ptr m = (if m = None then Inl (Exit EXIT_FAILURE) else Inr m)"

definition MALLOC :: "libc \<Rightarrow> size_t \<Rightarrow> block option outcome" where
  "MALLOC L size' = check_ptr (c_malloc L size')"

definition CALLOC :: "libc \<Rightarrow> size_t \<Rightarrow> size_t \<Rightarrow> block option outcome" where
  "CALLOC L n size' = check_ptr (c_calloc L n size')"

definition REALLOC :: "libc \<Rightarrow> block option \<Rightarrow> size_t \<Rightarrow> block option outcome" where
  "REALLOC L p size' = check_ptr (c_realloc L p size')"

lemma check_ptr_never_NULL: "check_ptr m \<noteq> Inr None"
  by (simp add: check_ptr_def)

lemma alloc_never_NULL:
  "MALLOC L n \<noteq> Inr None" "CALLOC L n k \<noteq> Inr None" "REALLOC L p n \<noteq> Inr None"
  by (simp_all add: MALLOC_def CALLOC_def REALLOC_def check_ptr_never_NULL)

lemma MALLOC_ok:
  "malloc_ok L (unat n) \<Longrightarrow> MALLOC L n = Inr (Some (map (indet L) [0..<unat n]))"
  by (simp add: MALLOC_def check_ptr_def c_malloc_def)

lemma CALLOC_ok:
  "malloc_ok L (unat n * unat k) \<Longrightarrow> unat n * unat k < 2 ^ 64 \<Longrightarrow>
     CALLOC L n k = Inr (Some (replicate (unat n * unat k) 0))"
  by (simp add: CALLOC_def check_ptr_def c_calloc_def)

text \<open>
  The size-zero corner of \<open>realloc\<close>: on a C library that frees, \<open>REALLOC\<close> of a live block to
  size zero ends the process although memory is not exhausted.
\<close>

lemma REALLOC_ok:
  assumes "malloc_ok L (unat n)" "n = 0 \<and> realloc0_frees L \<longrightarrow> p = None"
  shows "\<exists>b. REALLOC L p n = Inr (Some b) \<and> length b = unat n \<and>
           (\<forall>old. p = Some old \<longrightarrow> take (min (length old) (unat n)) b = take (unat n) old)"
proof (cases p)
  case None
  then show ?thesis
    using assms by (simp add: REALLOC_def c_realloc_def check_ptr_def c_malloc_def)
next
  case (Some old)
  then show ?thesis
    using assms by (auto simp: REALLOC_def c_realloc_def check_ptr_def min_def)
qed

lemma REALLOC_zero_frees:
  "realloc0_frees L \<Longrightarrow> REALLOC L (Some b) 0 = Inl (Exit EXIT_FAILURE)"
  by (simp add: REALLOC_def c_realloc_def check_ptr_def)

lemma REALLOC_fails_only_exit:
  "REALLOC L p n = Inl e \<Longrightarrow> e = Exit EXIT_FAILURE"
  by (auto simp: REALLOC_def check_ptr_def split: if_splits)

section \<open>Reading and writing blocks\<close>

definition mem_write :: "block option \<Rightarrow> nat \<Rightarrow> byte list \<Rightarrow> block option outcome" where
  "mem_write p off src =
     (if src = [] then Inr p
      else case p of
        None \<Rightarrow> Inl Undefined
      | Some b \<Rightarrow>
          if off + length src \<le> length b
          then Inr (Some (take off b @ src @ drop (off + length src) b))
          else Inl Undefined)"

definition mem_read :: "block option \<Rightarrow> nat \<Rightarrow> nat \<Rightarrow> byte list outcome" where
  "mem_read p off n =
     (if n = 0 then Inr []
      else case p of
        None \<Rightarrow> Inl Undefined
      | Some b \<Rightarrow> if off + n \<le> length b then Inr (take n (drop off b)) else Inl Undefined)"

definition block_bytes :: "block option \<Rightarrow> byte list" where
  "block_bytes p = (case p of None \<Rightarrow> [] | Some b \<Rightarrow> b)"

lemma block_bytes_simps [simp]: "block_bytes None = []" "block_bytes (Some b) = b"
  by (simp_all add: block_bytes_def)

lemma mem_read_ok:
  "off + n \<le> length (block_bytes p) \<Longrightarrow> mem_read p off n = Inr (take n (drop off (block_bytes p)))"
  by (cases p) (auto simp: mem_read_def)

lemma mem_write_ok:
  assumes "off + length src \<le> length (block_bytes p)"
  shows "\<exists>p'. mem_write p off src = Inr p' \<and>
           block_bytes p' = take off (block_bytes p) @ src @ drop (off + length src) (block_bytes p)"
  using assms by (cases p) (auto simp: mem_write_def)

text \<open>A C string: the bytes before the first NUL of a block, none if there is no NUL.\<close>

definition c_string :: "byte list \<Rightarrow> byte list outcome" where
  "c_string b = (if 0 \<in> set b then Inr (takeWhile (\<lambda>x. x \<noteq> 0) b) else Inl Undefined)"

lemma takeWhile_nonzero_all: "(0::byte) \<notin> set s \<Longrightarrow> takeWhile (\<lambda>x. x \<noteq> 0) s = s"
  by (rule takeWhile_eq_all_conv [THEN iffD2]) auto

lemma c_string_append0: "c_string (s @ [0]) = Inr (takeWhile (\<lambda>x. x \<noteq> 0) s)"
proof (cases "0 \<in> set s")
  case True
  then show ?thesis by (simp add: c_string_def takeWhile_append1 [of 0])
next
  case False
  then show ?thesis by (auto simp: c_string_def takeWhile_append takeWhile_nonzero_all)
qed

lemma c_string_terminated [simp]:
  "0 \<notin> set s \<Longrightarrow> c_string (s @ [0]) = Inr s"
  by (simp add: c_string_append0 takeWhile_nonzero_all)

text \<open>
  Two concrete C libraries with memory to spare: glibc frees on \<open>realloc(p, 0)\<close>, musl and
  jemalloc return a minimal block.
\<close>

definition glibc :: libc where
  "glibc = \<lparr>malloc_ok = (\<lambda>_. True), realloc0_frees = True, indet = (\<lambda>_. 0)\<rparr>"

definition musl :: libc where
  "musl = \<lparr>malloc_ok = (\<lambda>_. True), realloc0_frees = False, indet = (\<lambda>_. 0)\<rparr>"

lemma glibc_musl_simps [simp]:
  "malloc_ok glibc = (\<lambda>_. True)" "realloc0_frees glibc"
  "malloc_ok musl = (\<lambda>_. True)" "\<not> realloc0_frees musl"
  by (simp_all add: glibc_def musl_def)

end
