(* ===== verification/World.thy ===== *)
theory World
  imports Alloc
begin

unbundle bit_operations_syntax

text \<open>
  The operating system as the program sees it.  A run of the program is a sequence of system
  calls; the system answers each call as it likes, depending on the whole history.  The
  state \<open>io\<close> carries the answering function \<open>env\<close>, the history \<open>log\<close> (oldest call first) and
  the C library \<open>mem\<close>, whose decisions may also depend on the history.  The states of the
  components that make system calls extend \<open>io\<close>, and a theorem about them holds for every
  \<open>env\<close> unless it says otherwise.  The wrappers below state what POSIX documents of the shape
  of an answer (a receive of \<open>n\<close> bytes yields at most \<open>n\<close>); they hold no policy of the program.
\<close>

datatype epoll_op = EPOLL_CTL_ADD | EPOLL_CTL_DEL

text \<open>Calls of OpenSSL, which the program sees as answers like those of the system; a pointer is a number, NULL is 0.\<close>

datatype ssl_call =
    SSL_CTX_new | SSL_CTX_free int | BIO_new_mem_buf string | BIO_free int
  | PEM_read_bio_X509 int | X509_free int | SSL_CTX_use_certificate int int
  | PEM_read_bio_PrivateKey int | EVP_PKEY_free int | SSL_CTX_use_PrivateKey int int
  | SSL_new int | SSL_set_fd int int | SSL_accept int | SSL_free int
  | SSL_read int size_t | SSL_write int int "byte list"

text \<open>Calls of the Windows API; a handle is a number, NULL is 0.\<close>

datatype win_call =
    CreateJobObject | SetInformationJobObject int | CreateProcess string string
  | AssignProcessToJobObject int "32 word" | ResumeThread "32 word"
  | OpenProcess "32 word" | GetExitCodeProcess int | TerminateProcess int | CloseHandle int
  | SleepMs "32 word" | QueryPerformanceFrequency | QueryPerformanceCounter
  | CreateThread | WaitForSingleObject int | GetExitCodeThread int | GetLastError
  | WSAStartup | WSACleanup | Closesocket int
  | InitializeCriticalSection int | EnterCriticalSection int | LeaveCriticalSection int
  | DeleteCriticalSection int
  | InitializeConditionVariable int | WakeConditionVariable int | SleepConditionVariable int int
  | IoctlSocket int | WSAGetLastError
  | GetStdHandle | GetConsoleMode int | SetConsoleMode int "32 word" | SetConsoleTitle string

datatype syscall =
    SysFork | SysExecvp string "string list" | SysSetpgid int int | SysGetpid
  | SysWaitpid int | SysKill int int | SysSignal int
  | SysTime | SysClock | SysUsleep size_t
  | SysRecv int size_t | SysSend int "byte list"
  | SysAccept int | SysFcntl int | SysNonblock int | SysClose int
  | SysGetaddrinfo "string option" int | SysFreeaddrinfo
  | SysSocket nat | SysSetsockopt int | SysBind int nat | SysListen int | SysConnect int nat
  | SysEpollCreate | SysEpollCtl int epoll_op int "32 word" | SysEpollWait int int int
  | SysKqueue | SysKevent int int bool | SysKeventWait int int size_t
  | SysWSAPoll "int list" int
  | SysSsl ssl_call
  | SysWin win_call

record reply =
  rep_ret :: int
  rep_errno :: int
  rep_bytes :: "byte list"
  rep_status :: "32 word"
  rep_events :: "(int \<times> 32 word) list"
  rep_addrs :: "nat list"

type_synonym history = "(syscall \<times> reply) list"

record io =
  env :: "history \<Rightarrow> syscall \<Rightarrow> reply"
  log :: history
  mem :: "history \<Rightarrow> libc"

definition sys :: "syscall \<Rightarrow> ('z io_scheme, reply) prog" where
  "sys c = (\<lambda>s. let r = env s (log s) c in (Inr r, s\<lparr>log := log s @ [(c, r)]\<rparr>))"

definition with_libc :: "(libc \<Rightarrow> 'a outcome) \<Rightarrow> ('z io_scheme, 'a) prog" where
  "with_libc f = (\<lambda>s. (f (mem s (log s)), s))"

lemma sys_run: "sys c s = (Inr (env s (log s) c), s\<lparr>log := log s @ [(c, env s (log s) c)]\<rparr>)"
  by (simp add: sys_def Let_def)

lemma bnd_sys [monad_simps]:
  "bnd (sys c) f s = f (env s (log s) c) (s\<lparr>log := log s @ [(c, env s (log s) c)]\<rparr>)"
  by (simp add: bnd_def sys_run)

lemma with_libc_run [monad_simps]: "with_libc f s = (f (mem s (log s)), s)"
  by (simp add: with_libc_def)

lemma preserves_sys [preserves_intros]:
  "(\<And>s. P s \<Longrightarrow> P (s\<lparr>log := log s @ [(c, env s (log s) c)]\<rparr>)) \<Longrightarrow> preserves P (sys c)"
  by (simp add: preserves_def sys_run)

lemma wp_sys [wp_simps]:
  "wp (sys c) Q s \<longleftrightarrow> Q (env s (log s) c) (s\<lparr>log := log s @ [(c, env s (log s) c)]\<rparr>)"
  by (simp add: wp_def sys_run)

lemma twp_sys [twp_simps]:
  "twp (sys c) Q s \<longleftrightarrow> Q (env s (log s) c) (s\<lparr>log := log s @ [(c, env s (log s) c)]\<rparr>)"
  by (simp add: twp_def sys_run)

lemma wp_with_libc [wp_simps]:
  "wp (with_libc f) Q s \<longleftrightarrow> (case f (mem s (log s)) of Inl e \<Rightarrow> e \<noteq> Undefined | Inr x \<Rightarrow> Q x s)"
  by (simp add: wp_def with_libc_run split: sum.splits)

lemma preserves_with_libc [preserves_intros]: "preserves P (with_libc f)"
  by (simp add: preserves_def with_libc_run)

text \<open>The value of a call whose answer is \<open>-1\<close> or a non-negative number.\<close>

definition ret_of :: "reply \<Rightarrow> int" where
  "ret_of r = (if rep_ret r < 0 then - 1 else rep_ret r)"

lemma ret_of_ge: "- 1 \<le> ret_of r" "ret_of r < 0 \<Longrightarrow> ret_of r = - 1"
  by (auto simp: ret_of_def split: if_splits)

text \<open>
  \<open>recv\<close> on a buffer of \<open>n\<close> bytes: the number of bytes stored (or \<open>-1\<close>) and the bytes;
  \<open>send\<close>: the number of bytes taken (or \<open>-1\<close>).
\<close>

definition recv_result :: "size_t \<Rightarrow> reply \<Rightarrow> int \<times> byte list" where
  "recv_result n r =
     (if rep_ret r < 0 then (- 1, [])
      else (let bs = take (unat n) (rep_bytes r) in (int (length bs), bs)))"

definition send_result :: "byte list \<Rightarrow> reply \<Rightarrow> int" where
  "send_result bs r = (if rep_ret r < 0 then - 1 else min (rep_ret r) (int (length bs)))"

lemma recv_result_bounds:
  "recv_result n r = (k, bs) \<Longrightarrow>
     length bs \<le> unat n \<and> (k = - 1 \<and> bs = [] \<or> k = int (length bs))"
  by (auto simp: recv_result_def Let_def split: if_splits)

lemma send_result_bounds:
  "- 1 \<le> send_result bs r \<and> send_result bs r \<le> int (length bs)"
  by (simp add: send_result_def)

text \<open>Counting calls in a history.\<close>

definition calls :: "(syscall \<Rightarrow> bool) \<Rightarrow> history \<Rightarrow> nat" where
  "calls p h = length (filter (\<lambda>(c, r). p c) h)"

lemma calls_simps [simp]:
  "calls p [] = 0"
  "calls p (h @ h') = calls p h + calls p h'"
  "calls p ((c, r) # h) = (if p c then Suc (calls p h) else calls p h)"
  by (simp_all add: calls_def)

section \<open>Numbers of the C library\<close>

definition EINTR :: int where "EINTR = 4"
definition EAGAIN :: int where "EAGAIN = 11"
definition SIGKILL :: int where "SIGKILL = 9"
definition SIGTERM :: int where "SIGTERM = 15"
definition SIGINT :: int where "SIGINT = 2"
definition EXIT_SUCCESS :: int where "EXIT_SUCCESS = 0"
definition INVALID_SOCKET :: int where "INVALID_SOCKET = - 1"

text \<open>\<open>FATAL_NON_RECOVERABLE\<close> of \<open>src/util/error.h\<close> logs and exits with its own status.\<close>

definition FATAL_NON_RECOVERABLE :: "('s, 'a) prog" where
  "FATAL_NON_RECOVERABLE = halt (Exit NON_RECOVERABLE_ERROR)"

lemma FATAL_run [monad_simps]: "FATAL_NON_RECOVERABLE s = (Inl (Exit NON_RECOVERABLE_ERROR), s)"
  by (simp add: FATAL_NON_RECOVERABLE_def)

lemma preserves_FATAL [preserves_intros]: "preserves P FATAL_NON_RECOVERABLE"
  by (simp add: FATAL_NON_RECOVERABLE_def preserves_basic)

lemma wp_FATAL [wp_simps]: "wp FATAL_NON_RECOVERABLE Q s"
  by (simp add: wp_def FATAL_run)

section \<open>Programs that only make system calls\<close>

text \<open>
  \<open>io_only m\<close>: the program has defined behaviour and changes nothing but the history, which it
  extends.
\<close>

named_theorems io_intros \<open>programs that only make system calls\<close>

definition io_only :: "('z io_scheme, 'a) prog \<Rightarrow> bool" where
  "io_only m \<longleftrightarrow> (\<forall>s. fst (m s) \<noteq> Inl Undefined \<and> (\<exists>h. snd (m s) = s\<lparr>log := log s @ h\<rparr>))"

lemma io_onlyD: "io_only m \<Longrightarrow> \<exists>r h. m s = (r, s\<lparr>log := log s @ h\<rparr>) \<and> r \<noteq> Inl Undefined"
  by (metis io_only_def prod.collapse)

lemma io_only_pure:
  assumes "\<And>s. \<exists>r. m s = (r, s) \<and> r \<noteq> Inl Undefined"
  shows "io_only m"
proof -
  have "s = s\<lparr>log := log s @ []\<rparr>" for s :: "'z io_scheme" by simp
  then show ?thesis unfolding io_only_def using assms by (metis fst_conv snd_conv)
qed

lemma io_only_basic [io_intros]:
  "io_only (ret x)"
  "io_only (gets g)"
  "e \<noteq> Undefined \<Longrightarrow> io_only (halt e)"
  "r \<noteq> Inl Undefined \<Longrightarrow> io_only (lift r)"
  "r \<noteq> Inl Undefined \<Longrightarrow> io_only (Pair r)"
  "io_only FATAL_NON_RECOVERABLE"
  by (rule io_only_pure, simp add: FATAL_run)+

lemma io_only_with_libc [io_intros]: "(\<And>L. f L \<noteq> Inl Undefined) \<Longrightarrow> io_only (with_libc f)"
  by (rule io_only_pure) (simp add: with_libc_run)

lemma io_only_sys [io_intros]: "io_only (sys c)"
  by (auto simp: io_only_def sys_run)

lemma io_only_bnd [io_intros]:
  assumes m: "io_only m" and f: "\<And>x. io_only (f x)"
  shows "io_only (bnd m f)"
proof -
  have "\<exists>r h. bnd m f s = (r, s\<lparr>log := log s @ h\<rparr>) \<and> r \<noteq> Inl Undefined" for s
  proof -
    obtain r h where r: "m s = (r, s\<lparr>log := log s @ h\<rparr>)" "r \<noteq> Inl Undefined" using io_onlyD [OF m] by blast
    show ?thesis
    proof (cases r)
      case (Inl e)
      then show ?thesis using r by (auto simp: bnd_step(2))
    next
      case (Inr x)
      obtain r' h' where "f x (s\<lparr>log := log s @ h\<rparr>) = (r', s\<lparr>log := log s @ h\<rparr>\<lparr>log := (log s @ h) @ h'\<rparr>)"
          "r' \<noteq> Inl Undefined"
        using io_onlyD [OF f [of x], of "s\<lparr>log := log s @ h\<rparr>"] by auto
      then show ?thesis using r(1) Inr by (auto simp: bnd_step(1))
    qed
  qed
  then show ?thesis unfolding io_only_def by (metis fst_conv snd_conv)
qed

lemma io_only_cond [io_intros]:
  "(b \<Longrightarrow> io_only m) \<Longrightarrow> (\<not> b \<Longrightarrow> io_only n) \<Longrightarrow> io_only (if b then m else n)"
  "(b \<Longrightarrow> io_only u) \<Longrightarrow> io_only (guard_do b u)"
  "io_only n \<Longrightarrow> (\<And>x. io_only (f x)) \<Longrightarrow> io_only (case o' of None \<Rightarrow> n | Some x \<Rightarrow> f x)"
  "(\<And>x y. io_only (g x y)) \<Longrightarrow> io_only (case p of (x, y) \<Rightarrow> g x y)"
  by (auto simp: guard_do_def io_only_basic split: option.splits prod.splits)

lemma wp_io:
  assumes "io_only m" "\<And>x h. Q x (s\<lparr>log := log s @ h\<rparr>)"
  shows "wp m Q s"
  using io_onlyD [OF assms(1), of s] assms(2) by (auto simp: wp_def split: sum.splits)

lemma alloc_defined:
  "MALLOC L n \<noteq> Inl Undefined" "CALLOC L n k \<noteq> Inl Undefined" "REALLOC L p n \<noteq> Inl Undefined"
  by (auto simp: MALLOC_def CALLOC_def REALLOC_def check_ptr_def)

section \<open>Descriptors\<close>

text \<open>
  The sockets that \<open>accept\<close> has returned and that have not been closed since, and what the
  kernel guarantees: \<open>accept\<close> returns a descriptor that is not open, and the flags of an open
  socket can be read.
\<close>

definition fd_effect :: "syscall \<times> reply \<Rightarrow> int set \<Rightarrow> int set" where
  "fd_effect = (\<lambda>(c, r) fds.
     (case c of
        SysAccept l \<Rightarrow> if rep_ret r < 0 then fds else insert (rep_ret r) fds
      | SysClose fd \<Rightarrow> fds - {fd}
      | _ \<Rightarrow> fds))"

definition open_fds :: "history \<Rightarrow> int set" where
  "open_fds h = fold fd_effect h {}"

definition quiet :: "history \<Rightarrow> bool" where
  "quiet h \<longleftrightarrow> (\<forall>(c, r) \<in> set h. (\<forall>l. c \<noteq> SysAccept l) \<and> (\<forall>fd. c \<noteq> SysClose fd))"

lemma open_fds_snoc: "open_fds (h @ [x]) = fd_effect x (open_fds h)"
  by (simp add: open_fds_def)

lemma fold_quiet: "quiet h \<Longrightarrow> fold fd_effect h fds = fds"
  by (induction h arbitrary: fds) (auto simp: quiet_def fd_effect_def split: syscall.splits)

lemma open_fds_quiet [simp]: "quiet h' \<Longrightarrow> open_fds (h @ h') = open_fds h"
  by (simp add: open_fds_def fold_quiet)

definition kernel_ok :: "(history \<Rightarrow> syscall \<Rightarrow> reply) \<Rightarrow> bool" where
  "kernel_ok e \<longleftrightarrow>
     (\<forall>h l. 0 \<le> rep_ret (e h (SysAccept l)) \<longrightarrow>
        rep_ret (e h (SysAccept l)) \<notin> open_fds h \<and> rep_ret (e h (SysAccept l)) < 2 ^ 31) \<and>
     (\<forall>h fd. 0 \<le> rep_ret (e h (SysFcntl fd))) \<and>
     (\<forall>h p n ms. \<forall>(fd, ev) \<in> set (rep_events (e h (SysEpollWait p n ms))).
        fits_int fd \<and> ev AND 0x2019 \<noteq> 0)"

end
