(* ===== verification/Process.thy ===== *)
theory Process
  imports World
begin

text \<open>
  Processes, signals and time on POSIX systems: \<open>os/posix/os.c\<close> and \<open>os/posix/timer.c\<close>.  A
  process identifier is the integer the system call returns; \<open>PID_NOT_RUNNING\<close> is \<open>-1\<close>.
\<close>

definition PID_NOT_RUNNING :: int where
  "PID_NOT_RUNNING = - 1"

record os = io +
  logs_verbose :: bool
  termination_requested :: bool

section \<open>Signals and sleeping\<close>

text \<open>
  \<open>bsd\<close> says whether the system is one of those for which the handler ends the process itself
  (macOS and the BSDs).
\<close>

definition handle_sigint :: "bool \<Rightarrow> int \<Rightarrow> ('z os_scheme, unit) prog" where
  "handle_sigint bsd signum =
     bnd (modify (termination_requested_update (\<lambda>_. True))) (\<lambda>_.
     guard_do bsd (halt (Exit EXIT_SUCCESS)))"

text \<open>The handler is installed for both signals; the answers are not looked at.\<close>

definition os_handle_ctrl_c :: "('z io_scheme, unit) prog" where
  "os_handle_ctrl_c = bnd (sys (SysSignal SIGINT)) (\<lambda>_. bnd (sys (SysSignal SIGTERM)) (\<lambda>_. ret ()))"

definition os_sleep_ms :: "size_t \<Rightarrow> ('z io_scheme, unit) prog" where
  "os_sleep_ms ms =
     bnd (sys (SysUsleep (ucast (ucast (ms * 1000) :: 32 word)))) (\<lambda>_. ret ())"

section \<open>Starting a service\<close>

text \<open>
  In verbose mode the command line is collected with \<open>strcat\<close> in a buffer of 1024 bytes, with
  no check of its length.
\<close>

definition strcat_1024 :: "string \<Rightarrow> string \<Rightarrow> string outcome" where
  "strcat_1024 s t = (if length s + length t < 1024 then Inr (s @ t) else Inl Undefined)"

fun cmd_line_of :: "string \<Rightarrow> string list \<Rightarrow> string outcome" where
  "cmd_line_of s [] = Inr s"
| "cmd_line_of s (a # as) =
     bind_out (strcat_1024 s a) (\<lambda>s1. bind_out (strcat_1024 s1 '' '') (\<lambda>s2. cmd_line_of s2 as))"

definition os_start_service :: "string \<Rightarrow> string list \<Rightarrow> ('z os_scheme, int) prog" where
  "os_start_service program args =
     bnd (gets logs_verbose) (\<lambda>verbose.
     bnd (guard_do verbose (bnd (lift (cmd_line_of [] args)) (\<lambda>_. ret ()))) (\<lambda>_.
     bnd (with_libc (\<lambda>L. CALLOC L (word_of_nat (length args) + 2) 8)) (\<lambda>_.
     bnd (sys SysFork) (\<lambda>r.
     let pid = ret_of r in
     bnd
       (if pid = 0
        then bnd (sys (SysExecvp program (program # args))) (\<lambda>e.
             if rep_ret e < 0 then FATAL_NON_RECOVERABLE else halt Replaced)
        else if pid > 0
        then bnd (sys SysGetpid) (\<lambda>own. bnd (sys (SysSetpgid pid (ret_of own))) (\<lambda>_. ret ()))
        else ret ()) (\<lambda>_.
     ret pid)))))"

text \<open>\<open>WEXITSTATUS\<close>: bits 8 to 15 of the status of \<open>waitpid\<close>.\<close>

definition WEXITSTATUS :: "32 word \<Rightarrow> int" where
  "WEXITSTATUS st = uint (drop_bit 8 st) mod 256"

text \<open>\<open>waitpid(pid, status, WNOHANG)\<close>: \<open>-1\<close>, \<open>0\<close> (still running) or the process.\<close>

definition waitpid_result :: "int \<Rightarrow> reply \<Rightarrow> int" where
  "waitpid_result pid r = (if rep_ret r < 0 then - 1 else if rep_ret r = 0 then 0 else pid)"

text \<open>
  The second component is the value left in \<open>*status\<close>, which starts as \<open>status\<close> (\<open>None\<close> when
  the caller passes NULL).
\<close>

definition os_process_still_running ::
  "int \<Rightarrow> int option \<Rightarrow> ('z io_scheme, bool \<times> int option) prog" where
  "os_process_still_running pid status =
     (if pid = PID_NOT_RUNNING then ret (False, status)
      else bnd (sys (SysWaitpid pid)) (\<lambda>r.
        let n = waitpid_result pid r in
        if n < 0 then ret (False, status)
        else ret (n \<noteq> pid,
               map_option (\<lambda>st. WEXITSTATUS (if n = 0 then word_of_int st else rep_status r)) status)))"

definition os_kill :: "int \<Rightarrow> bool \<Rightarrow> ('z io_scheme, unit) prog" where
  "os_kill pid immediate =
     bnd (sys (SysKill pid (if immediate then SIGKILL else SIGTERM))) (\<lambda>_. ret ())"

section \<open>Timers\<close>

text \<open>
  The clock answers in nanoseconds; \<open>now_ms\<close> keeps the milliseconds in 64 bits, and a
  difference of two readings wraps.
\<close>

definition now_ms :: "('z io_scheme, 64 word) prog" where
  "now_ms =
     bnd (sys SysClock) (\<lambda>r.
     let sec = word_of_int (rep_ret r div 1000000000); nsec = word_of_int (rep_ret r mod 1000000000)
     in ret (sec * 1000 + nsec div 1000000))"

record timer =
  timer_start :: "64 word"

definition timer_create :: "('z io_scheme, timer) prog" where
  "timer_create =
     bnd (with_libc (\<lambda>L. Inr (c_malloc L 8))) (\<lambda>p.
     if p = None then halt (Exit EXIT_FAILURE)
     else bnd now_ms (\<lambda>t. ret \<lparr>timer_start = t\<rparr>))"

definition timer_current_ms :: "timer \<Rightarrow> ('z io_scheme, 64 word) prog" where
  "timer_current_ms t = bnd now_ms (\<lambda>n. ret (n - timer_start t))"

section \<open>Facts\<close>

lemmas process_defs = os_start_service_def os_process_still_running_def os_kill_def
  timer_create_def timer_current_ms_def now_ms_def os_sleep_ms_def

lemma cmd_line_of_safe:
  "length s < 1024 \<Longrightarrow>
     (\<exists>t. cmd_line_of s args = Inr t) \<longleftrightarrow> length s + (\<Sum>a\<leftarrow>args. length a + 1) < 1024"
proof (induction args arbitrary: s)
  case Nil
  then show ?case by simp
next
  case (Cons a as)
  show ?case
  proof (cases "length s + length a + 1 < 1024")
    case True
    then show ?thesis using Cons.IH [of "s @ a @ '' ''"] by (simp add: strcat_1024_def add.assoc)
  next
    case False
    then show ?thesis by (auto simp: strcat_1024_def bind_out_eq_Inr)
  qed
qed

lemma cmd_line_of_fails: "cmd_line_of s args = Inl e \<Longrightarrow> e = Undefined"
proof (induction args arbitrary: s)
  case (Cons a as)
  then show ?case
    by (auto simp: strcat_1024_def bind_out_def split: if_splits sum.splits)
qed simp

lemma now_ms_value:
  assumes "0 \<le> t"
  shows "(word_of_int (t div 1000000000) * 1000 +
           word_of_int (t mod 1000000000) div 1000000 :: 64 word) = word_of_int (t div 1000000)"
proof -
  define q r where "q = t div 1000000000" and "r = t mod 1000000000"
  have r: "0 \<le> r" "r < 1000000000" and t: "t = q * 1000000000 + r"
    by (simp_all add: q_def r_def)
  have "uint (word_of_int r div 1000000 :: 64 word) = r div 1000000"
    using r by (simp add: uint_div_distrib uint_word_of_int)
  then have "(word_of_int r div 1000000 :: 64 word) = word_of_int (r div 1000000)"
    by (metis word_of_int_uint)
  moreover have "t div 1000000 = q * 1000 + r div 1000000"
    unfolding t by (simp add: div_add [symmetric])
  ultimately show ?thesis by (simp flip: q_def r_def)
qed

text \<open>The parent never sees process identifier 0: the child does not return.\<close>

lemma os_start_service_nonzero:
  "os_start_service program args s = (Inr pid, t) \<Longrightarrow> pid \<noteq> 0 \<and> (pid = PID_NOT_RUNNING \<or> 0 < pid)"
  by (auto simp: os_start_service_def bnd_eq_Inr sys_run Let_def PID_NOT_RUNNING_def ret_of_def
      FATAL_NON_RECOVERABLE_def guard_do_def with_libc_run halt_def split: if_splits)

end
