(* ===== verification/Watchdog.thy ===== *)
theory Watchdog
  imports Process
begin

text \<open>
  The watchdog (\<open>src/watchdog/watchdog.c\<close>): it starts every service, restarts the ones that
  died, and gives up on a service that dies too often or with the non-recoverable status.
  The static variables of the file are the fields of the record \<open>watchdog\<close>; \<open>tasks\<close> is \<open>None\<close>
  before \<open>watchdog_init\<close> and after \<open>watchdog_finalize\<close> has freed the array.
\<close>

record watchdog_program =
  prog_name :: string
  prog_program :: string
  prog_args :: "string list"

record task =
  program_idx :: nat
  pid :: int
  recent_attempts :: int
  last_attempt :: int

record watchdog = os +
  programs :: "watchdog_program list"
  programs_sz :: nat
  tasks :: "task list option"
  n_tasks :: nat

definition MAX_ATTEMPTS :: int where "MAX_ATTEMPTS = 10"
definition SEC_TO_RESET_ATTEMPS :: int where "SEC_TO_RESET_ATTEMPS = 10"
definition MS_BETWEEN_RETRIES :: size_t where "MS_BETWEEN_RETRIES = 100"

section \<open>Operations\<close>

definition load_task :: "nat \<Rightarrow> (watchdog, task) prog" where
  "load_task i = (\<lambda>s.
     (case tasks s of
        None \<Rightarrow> (Inl Undefined, s)
      | Some ts \<Rightarrow> if i < length ts then (Inr (ts ! i), s) else (Inl Undefined, s)))"

definition store_task :: "nat \<Rightarrow> task \<Rightarrow> (watchdog, unit) prog" where
  "store_task i t = (\<lambda>s.
     (case tasks s of
        None \<Rightarrow> (Inl Undefined, s)
      | Some ts \<Rightarrow>
          if i < length ts then (Inr (), s\<lparr>tasks := Some (ts[i := t])\<rparr>) else (Inl Undefined, s)))"

definition load_program :: "nat \<Rightarrow> (watchdog, watchdog_program) prog" where
  "load_program k = (\<lambda>s.
     if k < length (programs s) then (Inr (programs s ! k), s) else (Inl Undefined, s))"

definition start_task_if_stopped :: "nat \<Rightarrow> (watchdog, unit) prog" where
  "start_task_if_stopped i =
     bnd (load_task i) (\<lambda>t.
     if pid t = PID_NOT_RUNNING then
       if recent_attempts t = MAX_ATTEMPTS
       then store_task i (t\<lparr>recent_attempts := recent_attempts t + 1\<rparr>)
       else if recent_attempts t < MAX_ATTEMPTS
       then bnd (load_program (program_idx t)) (\<lambda>p.
            bnd (os_start_service (prog_program p) (prog_args p)) (\<lambda>new_pid.
            bnd (store_task i (t\<lparr>pid := new_pid\<rparr>)) (\<lambda>_.
            if new_pid = 0 then ret ()
            else bnd (sys SysTime) (\<lambda>r.
              store_task i (t\<lparr>pid := new_pid, last_attempt := rep_ret r,
                recent_attempts := recent_attempts t + 1\<rparr>)))))
       else ret ()
     else ret ())"

definition mark_task_as_terminated_if_dead :: "nat \<Rightarrow> (watchdog, unit) prog" where
  "mark_task_as_terminated_if_dead i =
     bnd (load_task i) (\<lambda>t.
     bnd (os_process_still_running (pid t) (Some 0)) (\<lambda>(alive, status).
     guard_do (\<not> alive)
       (store_task i (t\<lparr>pid := PID_NOT_RUNNING,
          recent_attempts := if status = Some NON_RECOVERABLE_ERROR then MAX_ATTEMPTS
                             else recent_attempts t\<rparr>))))"

definition new_task :: "nat \<Rightarrow> task" where
  "new_task i = \<lparr>program_idx = i, pid = PID_NOT_RUNNING, recent_attempts = 0, last_attempt = 0\<rparr>"

definition watchdog_init :: "watchdog_program list \<Rightarrow> nat \<Rightarrow> (watchdog, unit) prog" where
  "watchdog_init ps n =
     bnd (modify (\<lambda>s. s\<lparr>programs := ps, programs_sz := n\<rparr>)) (\<lambda>_.
     bnd (with_libc (\<lambda>L. CALLOC L (word_of_nat n) 24)) (\<lambda>_.
     bnd (modify (\<lambda>s. s\<lparr>tasks := Some (replicate n
            \<lparr>program_idx = 0, pid = 0, recent_attempts = 0, last_attempt = 0\<rparr>), n_tasks := n\<rparr>)) (\<lambda>_.
     for_each (\<lambda>i. bnd (store_task i (new_task i)) (\<lambda>_. bnd (sys SysTime) (\<lambda>r.
       store_task i ((new_task i)\<lparr>last_attempt := rep_ret r\<rparr>)))) [0..<n])))"

definition reset_attempts_if_quiet :: "int \<Rightarrow> nat \<Rightarrow> (watchdog, unit) prog" where
  "reset_attempts_if_quiet now i =
     bnd (load_task i) (\<lambda>t.
     guard_do (recent_attempts t \<ge> MAX_ATTEMPTS \<and> now - last_attempt t > SEC_TO_RESET_ATTEMPS)
       (store_task i (t\<lparr>recent_attempts := 0\<rparr>)))"

definition watchdog_step :: "(watchdog, unit) prog" where
  "watchdog_step =
     bnd (gets n_tasks) (\<lambda>n.
     bnd (for_each start_task_if_stopped [0..<n]) (\<lambda>_.
     bnd (for_each mark_task_as_terminated_if_dead [0..<n]) (\<lambda>_.
     bnd (sys SysTime) (\<lambda>now.
     bnd (for_each (reset_attempts_if_quiet (rep_ret now)) [0..<n]) (\<lambda>_.
     os_sleep_ms MS_BETWEEN_RETRIES)))))"

text \<open>
  The body of the waiting loop reports whether a child still runs; the loop itself takes
  fuel, and \<open>False\<close> means that the fuel ran out while the loop was still going round.
\<close>

fun any_still_running :: "nat list \<Rightarrow> bool \<Rightarrow> (watchdog, bool) prog" where
  "any_still_running [] acc = ret acc"
| "any_still_running (i # is) acc =
     bnd (load_task i) (\<lambda>t.
     if pid t \<noteq> PID_NOT_RUNNING
     then bnd (os_process_still_running (pid t) None) (\<lambda>(alive, _).
          any_still_running is (acc \<or> alive))
     else any_still_running is acc)"

fun wait_for_death :: "nat \<Rightarrow> timer \<Rightarrow> (watchdog, bool) prog" where
  "wait_for_death 0 tm = ret False"
| "wait_for_death (Suc fuel) tm =
     bnd (timer_current_ms tm) (\<lambda>ms.
     if ms < 5000
     then bnd (gets n_tasks) (\<lambda>n. bnd (any_still_running [0..<n] False) (\<lambda>still_running.
          if still_running then wait_for_death fuel tm else ret True))
     else ret True)"

definition watchdog_finalize :: "nat \<Rightarrow> bool \<Rightarrow> (watchdog, bool) prog" where
  "watchdog_finalize fuel wait =
     bnd (gets n_tasks) (\<lambda>n.
     bnd (for_each (\<lambda>i. bnd (load_task i) (\<lambda>t.
            guard_do (pid t \<noteq> PID_NOT_RUNNING) (os_kill (pid t) False))) [0..<n]) (\<lambda>_.
     bnd (if wait then bnd timer_create (wait_for_death fuel) else ret True) (\<lambda>finished.
     if finished then bnd (modify (tasks_update (\<lambda>_. None))) (\<lambda>_. ret True) else ret False)))"

datatype watchdog_program_status = WPS_RUNNING | WPS_STOPPED | WPS_GAVE_UP

record watchdog_program_state =
  status :: watchdog_program_status
  attempts :: int
  state_pid :: int

definition watchdog_program_state :: "nat \<Rightarrow> (watchdog, watchdog_program_state) prog" where
  "watchdog_program_state idx =
     bnd (load_task idx) (\<lambda>t.
     ret \<lparr>status =
            (if recent_attempts t \<ge> MAX_ATTEMPTS then WPS_GAVE_UP
             else if pid t = PID_NOT_RUNNING then WPS_STOPPED
             else WPS_RUNNING),
          attempts = recent_attempts t, state_pid = pid t\<rparr>)"

section \<open>The life of one service\<close>

text \<open>
  The specification of the watchdog is a machine per service.  \<open>Ts\<close> is the set of times that
  the system may report.
\<close>

datatype task_event =
  Started int int | Fork_failed int | Given_up | Died | Died_for_good | Forgiven int

inductive task_trans :: "int set \<Rightarrow> task \<Rightarrow> task_event \<Rightarrow> task \<Rightarrow> bool" for Ts where
  started: "pid t = PID_NOT_RUNNING \<Longrightarrow> recent_attempts t < MAX_ATTEMPTS \<Longrightarrow> 0 < p \<Longrightarrow> now \<in> Ts \<Longrightarrow>
    task_trans Ts t (Started p now)
      (t\<lparr>pid := p, last_attempt := now, recent_attempts := recent_attempts t + 1\<rparr>)"
| fork_failed: "pid t = PID_NOT_RUNNING \<Longrightarrow> recent_attempts t < MAX_ATTEMPTS \<Longrightarrow> now \<in> Ts \<Longrightarrow>
    task_trans Ts t (Fork_failed now)
      (t\<lparr>last_attempt := now, recent_attempts := recent_attempts t + 1\<rparr>)"
| given_up: "pid t = PID_NOT_RUNNING \<Longrightarrow> recent_attempts t = MAX_ATTEMPTS \<Longrightarrow>
    task_trans Ts t Given_up (t\<lparr>recent_attempts := recent_attempts t + 1\<rparr>)"
| died: "pid t \<noteq> PID_NOT_RUNNING \<Longrightarrow> task_trans Ts t Died (t\<lparr>pid := PID_NOT_RUNNING\<rparr>)"
| died_for_good: "pid t \<noteq> PID_NOT_RUNNING \<Longrightarrow>
    task_trans Ts t Died_for_good (t\<lparr>pid := PID_NOT_RUNNING, recent_attempts := MAX_ATTEMPTS\<rparr>)"
| forgiven: "recent_attempts t \<ge> MAX_ATTEMPTS \<Longrightarrow> now - last_attempt t > SEC_TO_RESET_ATTEMPS \<Longrightarrow>
    now \<in> Ts \<Longrightarrow> task_trans Ts t (Forgiven now) (t\<lparr>recent_attempts := 0\<rparr>)"

inductive_cases task_transE: "task_trans Ts t e t'"

inductive task_path :: "int set \<Rightarrow> task \<Rightarrow> task_event list \<Rightarrow> task \<Rightarrow> bool" for Ts where
  path_nil: "task_path Ts t [] t"
| path_cons: "task_trans Ts t e t' \<Longrightarrow> task_path Ts t' es t'' \<Longrightarrow> task_path Ts t (e # es) t''"

inductive_simps task_path_Nil [simp]: "task_path Ts t [] t'"

declare task_path.intros [intro]

lemma task_path_single: "task_trans Ts t e t' \<Longrightarrow> task_path Ts t [e] t'"
  by (rule path_cons [OF _ path_nil])

lemma task_path_append:
  "task_path Ts t es t' \<Longrightarrow> task_path Ts t' es' t'' \<Longrightarrow> task_path Ts t (es @ es') t''"
  by (induction rule: task_path.induct) auto

text \<open>A start is an attempt to fork.\<close>

fun is_start :: "task_event \<Rightarrow> bool" where
  "is_start (Started p now) = True"
| "is_start (Fork_failed now) = True"
| "is_start _ = False"

definition starts :: "task_event list \<Rightarrow> nat" where
  "starts es = length (filter is_start es)"

lemma starts_simps [simp]:
  "starts [] = 0" "starts (es @ es') = starts es + starts es'"
  "starts (e # es) = (if is_start e then Suc (starts es) else starts es)"
  by (simp_all add: starts_def)

definition task_ok :: "task \<Rightarrow> bool" where
  "task_ok t \<longleftrightarrow>
     0 \<le> recent_attempts t \<and> recent_attempts t \<le> MAX_ATTEMPTS + 1 \<and>
     (pid t = PID_NOT_RUNNING \<or> 0 < pid t) \<and>
     (recent_attempts t = MAX_ATTEMPTS + 1 \<longrightarrow> pid t = PID_NOT_RUNNING)"

lemmas task_consts = MAX_ATTEMPTS_def SEC_TO_RESET_ATTEMPS_def PID_NOT_RUNNING_def

lemma task_trans_ok: "task_trans Ts t e t' \<Longrightarrow> task_ok t \<Longrightarrow> task_ok t'"
  by (erule task_transE) (auto simp: task_ok_def task_consts)

lemma task_path_ok: "task_path Ts t es t' \<Longrightarrow> task_ok t \<Longrightarrow> task_ok t'"
  by (induction rule: task_path.induct) (auto intro: task_trans_ok)

lemma task_path_idx: "task_path Ts t es t' \<Longrightarrow> program_idx t' = program_idx t"
  by (induction rule: task_path.induct) (auto elim: task_transE)

text \<open>While no more than ten seconds pass, each start uses up one of ten attempts.\<close>

lemma task_path_starts:
  assumes "task_path Ts t es t'" "Ts \<subseteq> {T..T + SEC_TO_RESET_ATTEMPS}" "T \<le> last_attempt t"
    "task_ok t"
  shows "int (starts es) \<le> MAX_ATTEMPTS - min MAX_ATTEMPTS (recent_attempts t)"
  using assms
proof (induction rule: task_path.induct)
  case (path_nil t)
  then show ?case by simp
next
  case (path_cons t e t' es t'')
  have "T \<le> last_attempt t'" using path_cons by (auto elim!: task_transE)
  moreover have "task_ok t'" using path_cons task_trans_ok by blast
  ultimately have IH: "int (starts es) \<le> MAX_ATTEMPTS - min MAX_ATTEMPTS (recent_attempts t')"
    using path_cons by blast
  show ?case using path_cons.hyps(1) IH path_cons.prems
    by cases (auto simp: task_ok_def task_consts)
qed

section \<open>The code follows the machine\<close>

text \<open>
  \<open>parent_view\<close>: the system call \<open>fork\<close> returns in the parent, memory is granted, and the
  command lines fit the buffer they are collected in when logging is verbose.
\<close>

definition args_fit :: "bool \<Rightarrow> watchdog_program \<Rightarrow> bool" where
  "args_fit verbose p \<longleftrightarrow>
     length (prog_args p) < 2 ^ 60 \<and> (verbose \<longrightarrow> (\<Sum>a\<leftarrow>prog_args p. length a + 1) < 1024)"

definition parent_view :: "watchdog \<Rightarrow> bool" where
  "parent_view s \<longleftrightarrow>
     (\<forall>h. rep_ret (env s h SysFork) \<noteq> 0) \<and> (\<forall>h n. malloc_ok (mem s h) n) \<and>
     (\<forall>p \<in> set (programs s). args_fit (logs_verbose s) p)"

definition times_of :: "watchdog \<Rightarrow> int set" where
  "times_of s = range (\<lambda>h. rep_ret (env s h SysTime))"

abbreviation is_fork :: "syscall \<Rightarrow> bool" where
  "is_fork c \<equiv> c = SysFork"

lemma os_start_service_parent:
  fixes s :: "('z) os_scheme"
  assumes fork: "rep_ret (env s (log s) SysFork) \<noteq> 0" and mem: "\<And>n. malloc_ok (mem s (log s)) n"
    and len: "length args < 2 ^ 60"
    and fit: "logs_verbose s \<longrightarrow> (\<Sum>a\<leftarrow>args. length a + 1) < 1024"
  shows "\<exists>h p. os_start_service program args s = (Inr p, s\<lparr>log := log s @ h\<rparr>) \<and>
           (p = PID_NOT_RUNNING \<or> 0 < p) \<and> calls is_fork h = 1"
proof -
  let ?w = "word_of_nat (length args) + 2 :: size_t"
  have "unat ?w = length args + 2" using len by (simp add: unat_word_ariths unat_of_nat)
  then obtain b where alloc: "CALLOC (mem s (log s)) ?w 8 = Inr b"
    using CALLOC_ok [OF mem, of ?w 8] len by simp
  define pre :: "('z os_scheme, unit) prog" where
    "pre = guard_do (logs_verbose s) (bnd (lift (cmd_line_of [] args)) (\<lambda>_. ret ()))"
  have pre: "pre s = (Inr (), s)"
    using cmd_line_of_safe [of "[]" args] fit by (cases "logs_verbose s") (auto simp: pre_def bnd_def)
  have run: "os_start_service program args s = (bnd (sys SysFork) (\<lambda>r.
     let pid = ret_of r in
     bnd
       (if pid = 0
        then bnd (sys (SysExecvp program (program # args))) (\<lambda>e.
             if rep_ret e < 0 then FATAL_NON_RECOVERABLE else halt Replaced)
        else if pid > 0
        then bnd (sys SysGetpid) (\<lambda>own. bnd (sys (SysSetpgid pid (ret_of own))) (\<lambda>_. ret ()))
        else ret ()) (\<lambda>_.
     ret pid))) s"
    unfolding os_start_service_def bnd_gets
    by (subst pre_def [symmetric], subst bnd_step(1) [of pre s, OF pre],
        subst bnd_step(1) [of "with_libc (\<lambda>L. CALLOC L ?w 8)" s b s])
      (simp_all add: with_libc_run alloc)
  show ?thesis
  proof (cases "0 < rep_ret (env s (log s) SysFork)")
    case True
    then show ?thesis
      unfolding run by (simp add: bnd_sys Let_def ret_of_def calls_def, intro conjI impI)
        ((rule exI, rule conjI, rule refl, simp)+)
  next
    case False
    then show ?thesis
      using fork unfolding run by (simp add: bnd_sys Let_def ret_of_def PID_NOT_RUNNING_def calls_def)
        (rule exI, rule conjI, rule refl, simp)
  qed
qed

lemma args_fit_program:
  "parent_view s \<Longrightarrow> k < length (programs s) \<Longrightarrow>
     length (prog_args (programs s ! k)) < 2 ^ 60 \<and>
     (logs_verbose s \<longrightarrow> (\<Sum>a\<leftarrow>prog_args (programs s ! k). length a + 1) < 1024)"
  unfolding parent_view_def args_fit_def by (meson nth_mem)

text \<open>What one operation on one task does: a path of the machine, and the calls it makes.\<close>

definition follows ::
  "watchdog \<Rightarrow> (watchdog, unit) prog \<Rightarrow> nat \<Rightarrow> task \<Rightarrow> bool" where
  "follows s m i t \<longleftrightarrow>
     (\<exists>t' h es. m s = (Inr (), s\<lparr>tasks := Some ((the (tasks s))[i := t']), log := log s @ h\<rparr>) \<and>
        task_path (times_of s) t es t' \<and> calls is_fork h = starts es)"

lemma followsI:
  "m s = (Inr (), s\<lparr>tasks := Some ((the (tasks s))[i := t']), log := log s @ h\<rparr>) \<Longrightarrow>
     task_path (times_of s) t es t' \<Longrightarrow> calls is_fork h = starts es \<Longrightarrow> follows s m i t"
  unfolding follows_def by blast

lemma follows_idle: "m s = (Inr (), s) \<Longrightarrow> tasks s = Some ts \<Longrightarrow> follows s m i (ts ! i)"
  by (rule followsI [where t' = "ts ! i" and h = "[]" and es = "[]"]) simp_all

lemma load_task_run: "tasks s = Some ts \<Longrightarrow> i < length ts \<Longrightarrow> load_task i s = (Inr (ts ! i), s)"
  by (simp add: load_task_def)

lemma store_task_run:
  "tasks s = Some ts \<Longrightarrow> i < length ts \<Longrightarrow>
     store_task i t s = (Inr (), s\<lparr>tasks := Some (ts[i := t])\<rparr>)"
  by (simp add: store_task_def)

lemma bnd_load_task [monad_simps]:
  "tasks s = Some ts \<Longrightarrow> i < length ts \<Longrightarrow> bnd (load_task i) f s = f (ts ! i) s"
  by (simp add: bnd_def load_task_run)

lemma bnd_store_task [monad_simps]:
  "tasks s = Some ts \<Longrightarrow> i < length ts \<Longrightarrow>
     bnd (store_task i t) f s = f () (s\<lparr>tasks := Some (ts[i := t])\<rparr>)"
  by (simp add: bnd_def store_task_run)

lemma times_of_member: "rep_ret (env s h SysTime) \<in> times_of s"
  by (simp add: times_of_def)

lemma start_task_attempt:
  assumes s: "parent_view s" "tasks s = Some ts" "i < length ts"
    and idx: "program_idx (ts ! i) < length (programs s)"
    and attempt: "pid (ts ! i) = PID_NOT_RUNNING" "recent_attempts (ts ! i) < MAX_ATTEMPTS"
  shows "\<exists>h q now. start_task_if_stopped i s = (Inr (), s\<lparr>tasks := Some (ts[i :=
        (ts ! i)\<lparr>pid := q, last_attempt := now, recent_attempts := recent_attempts (ts ! i) + 1\<rparr>]),
        log := log s @ h\<rparr>) \<and>
      (q = PID_NOT_RUNNING \<or> 0 < q) \<and> now \<in> times_of s \<and> calls is_fork h = 1"
proof -
  define t where "t = ts ! i"
  define p where "p = programs s ! program_idx t"
  note load = bnd_load_task [OF s(2,3), folded t_def]
  have lp: "load_program (program_idx t) s = (Inr p, s)"
    using idx by (simp add: load_program_def t_def p_def)
  obtain h q where q: "os_start_service (prog_program p) (prog_args p) s = (Inr q, s\<lparr>log := log s @ h\<rparr>)"
      "q = PID_NOT_RUNNING \<or> 0 < q" "calls is_fork h = 1"
    using os_start_service_parent [of s "prog_args p" "prog_program p"] s(1)
      args_fit_program [OF s(1), of "program_idx t"] idx
    by (auto simp: parent_view_def p_def t_def)
  define h' now where "h' = h @ [(SysTime, env s (log s @ h) SysTime)]"
    and "now = rep_ret (env s (log s @ h) SysTime)"
  have q0: "q \<noteq> 0" using q(2) by (auto simp: PID_NOT_RUNNING_def)
  have "start_task_if_stopped i s = (Inr (), s\<lparr>tasks := Some (ts[i :=
      t\<lparr>pid := q, last_attempt := now, recent_attempts := recent_attempts t + 1\<rparr>]), log := log s @ h'\<rparr>)"
    using attempt [folded t_def] q0 s(2,3)
    by (simp add: start_task_if_stopped_def load bnd_step(1) [of "load_program (program_idx t)" s, OF lp]
        bnd_step(1) [of "os_start_service (prog_program p) (prog_args p)" s, OF q(1)]
        bnd_store_task bnd_sys store_task_run h'_def now_def)
  moreover have "now \<in> times_of s" "calls is_fork h' = 1"
    using q(3) by (simp_all add: now_def times_of_def h'_def)
  ultimately show ?thesis using q(2) unfolding t_def by blast
qed

lemma start_task_follows:
  assumes s: "parent_view s" "tasks s = Some ts" "i < length ts"
    and idx: "program_idx (ts ! i) < length (programs s)"
  shows "follows s (start_task_if_stopped i) i (ts ! i)"
proof -
  define t where "t = ts ! i"
  note load = bnd_load_task [OF s(2,3), folded t_def]
  consider (runs) "pid t \<noteq> PID_NOT_RUNNING" | (gone) "pid t = PID_NOT_RUNNING" "recent_attempts t > MAX_ATTEMPTS"
    | (give) "pid t = PID_NOT_RUNNING" "recent_attempts t = MAX_ATTEMPTS"
    | (attempt) "pid t = PID_NOT_RUNNING" "recent_attempts t < MAX_ATTEMPTS" by linarith
  then have "follows s (start_task_if_stopped i) i t"
  proof cases
    case runs
    then show ?thesis using s(2) unfolding t_def
      by (intro follows_idle) (simp_all add: start_task_if_stopped_def load flip: t_def)
  next
    case gone
    then show ?thesis using s(2) unfolding t_def
      by (intro follows_idle) (simp_all add: start_task_if_stopped_def load flip: t_def)
  next
    case give
    then show ?thesis using s
      by (intro followsI [OF _ task_path_single [OF given_up], where h = "[]"])
        (simp_all add: start_task_if_stopped_def load store_task_run)
  next
    case attempt
    obtain h' q now where run: "start_task_if_stopped i s = (Inr (), s\<lparr>tasks := Some ((the (tasks s))[i :=
          t\<lparr>pid := q, last_attempt := now, recent_attempts := recent_attempts t + 1\<rparr>]), log := log s @ h'\<rparr>)"
        and q: "q = PID_NOT_RUNNING \<or> 0 < q" "now \<in> times_of s" "calls is_fork h' = 1"
      using start_task_attempt [OF s idx attempt [unfolded t_def]] s(2) unfolding t_def by auto
    show ?thesis
    proof (cases "q = PID_NOT_RUNNING")
      case True
      have upd: "t\<lparr>pid := q, last_attempt := now, recent_attempts := recent_attempts t + 1\<rparr> =
          t\<lparr>last_attempt := now, recent_attempts := recent_attempts t + 1\<rparr>"
        using True attempt(1) by simp
      show ?thesis
        by (rule followsI, rule run [unfolded upd], rule task_path_single, rule fork_failed)
          (use attempt q(2,3) in simp_all)
    next
      case False
      show ?thesis
        by (rule followsI, rule run, rule task_path_single, rule started)
          (use attempt q False in simp_all)
    qed
  qed
  then show ?thesis by (simp add: t_def)
qed

lemma mark_task_follows:
  assumes s: "tasks s = Some ts" "i < length ts"
  shows "follows s (mark_task_as_terminated_if_dead i) i (ts ! i)"
proof -
  define t where "t = ts ! i"
  note load = bnd_load_task [OF s, folded t_def]
  have same: "s\<lparr>tasks := Some (ts[i := t])\<rparr> = s" using s by (simp add: t_def)
  have "follows s (mark_task_as_terminated_if_dead i) i t"
  proof (cases "pid t = PID_NOT_RUNNING")
    case True
    then have upd: "t\<lparr>pid := PID_NOT_RUNNING\<rparr> = t" by simp
    have "mark_task_as_terminated_if_dead i s = (Inr (), s)"
      using True same upd s NON_RECOVERABLE_ERROR_def
      by (simp add: upd mark_task_as_terminated_if_dead_def load os_process_still_running_def
          store_task_run NON_RECOVERABLE_ERROR_def)
    then show ?thesis using follows_idle [OF _ s(1)] by (simp add: t_def)
  next
    case False
    define r where "r = env s (log s) (SysWaitpid (pid t))"
    define s1 where "s1 = s\<lparr>log := log s @ [(SysWaitpid (pid t), r)]\<rparr>"
    have s1: "tasks s1 = Some ts" using s(1) by (simp add: s1_def)
    define alive where "alive \<longleftrightarrow> 0 \<le> waitpid_result (pid t) r \<and> waitpid_result (pid t) r \<noteq> pid t"
    obtain st where os: "os_process_still_running (pid t) (Some 0) s = (Inr (alive, st), s1)"
      using False by (cases "waitpid_result (pid t) r < 0")
        (auto simp: os_process_still_running_def bnd_sys Let_def alive_def s1_def r_def)
    have run: "mark_task_as_terminated_if_dead i s = guard_do (\<not> alive)
        (store_task i (t\<lparr>pid := PID_NOT_RUNNING, recent_attempts :=
           if st = Some NON_RECOVERABLE_ERROR then MAX_ATTEMPTS else recent_attempts t\<rparr>)) s1"
      by (simp add: mark_task_as_terminated_if_dead_def load
          bnd_step(1) [of "os_process_still_running (pid t) (Some 0)" s, OF os])
    have h: "calls is_fork [(SysWaitpid (pid t), r)] = 0" by simp
    consider "alive" | "\<not> alive" "st = Some NON_RECOVERABLE_ERROR" | "\<not> alive" "st \<noteq> Some NON_RECOVERABLE_ERROR"
      by blast
    then show ?thesis
    proof cases
      case 1
      then have "mark_task_as_terminated_if_dead i s = (Inr (), s\<lparr>tasks :=
          Some ((the (tasks s))[i := t]), log := log s @ [(SysWaitpid (pid t), r)]\<rparr>)"
        using s by (simp add: run s1_def t_def)
      then show ?thesis by (rule followsI [where es = "[]"]) simp_all
    next
      case 2
      then have "mark_task_as_terminated_if_dead i s = (Inr (), s\<lparr>tasks :=
          Some ((the (tasks s))[i := t\<lparr>pid := PID_NOT_RUNNING, recent_attempts := MAX_ATTEMPTS\<rparr>]),
          log := log s @ [(SysWaitpid (pid t), r)]\<rparr>)"
        using s by (simp add: run s1_def store_task_run)
      then show ?thesis by (rule followsI) (rule task_path_single [OF died_for_good [OF False]], simp)
    next
      case 3
      then have "mark_task_as_terminated_if_dead i s = (Inr (), s\<lparr>tasks :=
          Some ((the (tasks s))[i := t\<lparr>pid := PID_NOT_RUNNING\<rparr>]),
          log := log s @ [(SysWaitpid (pid t), r)]\<rparr>)"
        using s by (simp add: run s1_def store_task_run)
      then show ?thesis by (rule followsI) (rule task_path_single [OF died [OF False]], simp)
    qed
  qed
  then show ?thesis by (simp add: t_def)
qed

lemma reset_task_follows:
  assumes s: "tasks s = Some ts" "i < length ts" and now: "now \<in> times_of s"
  shows "follows s (reset_attempts_if_quiet now i) i (ts ! i)"
proof (cases "recent_attempts (ts ! i) \<ge> MAX_ATTEMPTS \<and> now - last_attempt (ts ! i) > SEC_TO_RESET_ATTEMPS")
  case True
  then have "reset_attempts_if_quiet now i s =
      (Inr (), s\<lparr>tasks := Some ((the (tasks s))[i := (ts ! i)\<lparr>recent_attempts := 0\<rparr>]), log := log s @ []\<rparr>)"
    using s by (simp add: reset_attempts_if_quiet_def bnd_load_task store_task_run)
  then show ?thesis
    by (rule followsI) (rule task_path_single [OF forgiven [OF _ _ now]], use True in simp_all)
next
  case False
  then have "reset_attempts_if_quiet now i s = (Inr (), s)"
    using s by (auto simp: reset_attempts_if_quiet_def bnd_load_task guard_do_def)
  then show ?thesis by (rule follows_idle [OF _ s(1)])
qed

section \<open>Rounds over all tasks\<close>

text \<open>
  \<open>run_rel s es s'\<close>: \<open>s'\<close> differs from \<open>s\<close> only in the history and in the tasks, and task \<open>i\<close>
  has taken the path \<open>es i\<close>.
\<close>

definition run_rel :: "watchdog \<Rightarrow> (nat \<Rightarrow> task_event list) \<Rightarrow> watchdog \<Rightarrow> bool" where
  "run_rel s es s' \<longleftrightarrow>
     (\<exists>ts ts' h. tasks s = Some ts \<and> s' = s\<lparr>tasks := Some ts', log := log s @ h\<rparr> \<and>
        length ts' = length ts \<and>
        (\<forall>i < length ts. task_path (times_of s) (ts ! i) (es i) (ts' ! i)) \<and>
        calls is_fork h = (\<Sum>i < length ts. starts (es i)))"

lemma run_rel_refl: "tasks s = Some ts \<Longrightarrow> run_rel s (\<lambda>_. []) s"
  unfolding run_rel_def by (rule exI [of _ ts], rule exI [of _ ts], rule exI [of _ "[]"]) simp

lemma run_rel_trans:
  assumes "run_rel s es s1" "run_rel s1 es1 s2"
  shows "run_rel s (\<lambda>i. es i @ es1 i) s2"
proof -
  obtain ts ts1 h where 1: "tasks s = Some ts" "s1 = s\<lparr>tasks := Some ts1, log := log s @ h\<rparr>"
      "length ts1 = length ts" "\<forall>i < length ts. task_path (times_of s) (ts ! i) (es i) (ts1 ! i)"
      "calls is_fork h = (\<Sum>i < length ts. starts (es i))"
    using assms(1) unfolding run_rel_def by blast
  obtain ts2 h2 where 2: "s2 = s1\<lparr>tasks := Some ts2, log := log s1 @ h2\<rparr>" "length ts2 = length ts"
      "\<forall>i < length ts. task_path (times_of s1) (ts1 ! i) (es1 i) (ts2 ! i)"
      "calls is_fork h2 = (\<Sum>i < length ts. starts (es1 i))"
    using assms(2) 1(2,3) unfolding run_rel_def by auto
  have "times_of s1 = times_of s" by (simp add: 1(2) times_of_def)
  then have "\<forall>i < length ts. task_path (times_of s) (ts ! i) (es i @ es1 i) (ts2 ! i)"
    using 1(4) 2(3) task_path_append by metis
  moreover have "s2 = s\<lparr>tasks := Some ts2, log := log s @ (h @ h2)\<rparr>" by (simp add: 1(2) 2(1))
  ultimately show ?thesis
    unfolding run_rel_def using 1 2 by (intro exI conjI) (assumption | simp add: sum.distrib)+
qed

lemma run_rel_calls: "tasks s = Some ts \<Longrightarrow> calls is_fork h = 0 \<Longrightarrow> run_rel s (\<lambda>_. []) (s\<lparr>log := log s @ h\<rparr>)"
  unfolding run_rel_def by (rule exI [of _ ts], rule exI [of _ ts], rule exI [of _ h]) simp

lemma follows_run_rel:
  assumes "follows s m i (ts ! i)" "tasks s = Some ts" "i < length ts"
  shows "\<exists>s' es. m s = (Inr (), s') \<and> run_rel s (\<lambda>j. if j = i then es else []) s'"
proof -
  obtain t' h es where f: "m s = (Inr (), s\<lparr>tasks := Some (ts[i := t']), log := log s @ h\<rparr>)"
      "task_path (times_of s) (ts ! i) es t'" "calls is_fork h = starts es"
    using assms(1,2) unfolding follows_def by auto
  have "(\<Sum>j < length ts. starts (if j = i then es else [])) = (\<Sum>j < length ts. if j = i then starts es else 0)"
    by (rule sum.cong) simp_all
  then have "run_rel s (\<lambda>j. if j = i then es else []) (s\<lparr>tasks := Some (ts[i := t']), log := log s @ h\<rparr>)"
    unfolding run_rel_def using f assms(2,3)
    by (intro exI [of _ ts] exI [of _ "ts[i := t']"] exI [of _ h]) (simp add: nth_list_update)
  then show ?thesis using f(1) by blast
qed

text \<open>What every operation relies on and keeps.\<close>

definition tasks_ok :: "watchdog \<Rightarrow> bool" where
  "tasks_ok s \<longleftrightarrow>
     (\<exists>ts. tasks s = Some ts \<and> n_tasks s = length ts \<and> length ts \<le> length (programs s) \<and>
        (\<forall>i < length ts. program_idx (ts ! i) = i \<and> task_ok (ts ! i)))"

lemma run_rel_parent_view: "run_rel s es s' \<Longrightarrow> parent_view s \<Longrightarrow> parent_view s'"
  unfolding run_rel_def parent_view_def by auto

lemma run_rel_tasks_ok: "run_rel s es s' \<Longrightarrow> tasks_ok s \<Longrightarrow> tasks_ok s'"
  unfolding run_rel_def tasks_ok_def by clarsimp (metis task_path_idx task_path_ok)

lemma run_rel_good:
  "parent_view s \<and> tasks_ok s \<Longrightarrow> run_rel s es s' \<Longrightarrow> parent_view s' \<and> tasks_ok s'"
  by (blast intro: run_rel_parent_view run_rel_tasks_ok)

lemma run_rel_times: "run_rel s es s' \<Longrightarrow> times_of s' = times_of s"
  unfolding run_rel_def times_of_def by auto

text \<open>
  The interface of an operation on one task that \<open>watchdog_step\<close> runs on each task in turn:
  it follows the machine, and what it relies on survives the other tasks' paths.
\<close>

locale task_round =
  fixes relies :: "watchdog \<Rightarrow> bool"
    and op :: "nat \<Rightarrow> (watchdog, unit) prog"
  assumes op_follows: "relies s \<Longrightarrow> tasks s = Some ts \<Longrightarrow> i < length ts \<Longrightarrow> follows s (op i) i (ts ! i)"
    and relies_kept: "relies s \<Longrightarrow> run_rel s es s' \<Longrightarrow> relies s'"
begin

lemma first_tasks:
  assumes s: "relies s" "tasks s = Some ts" "k \<le> length ts"
  shows "\<exists>s' es. for_each op [0..<k] s = (Inr (), s') \<and> run_rel s es s' \<and> relies s'"
  using s(3)
proof (induction k)
  case 0
  then show ?case using s run_rel_refl by force
next
  case (Suc k)
  then obtain s1 es where 1: "for_each op [0..<k] s = (Inr (), s1)" "run_rel s es s1" "relies s1"
    by auto
  then obtain ts1 where ts1: "tasks s1 = Some ts1" "length ts1 = length ts"
    using s(2) unfolding run_rel_def by auto
  have "follows s1 (op k) k (ts1 ! k)" using op_follows 1(3) ts1 Suc.prems by simp
  then obtain s2 es2 where 2: "op k s1 = (Inr (), s2)" "run_rel s1 (\<lambda>j. if j = k then es2 else []) s2"
    using follows_run_rel [OF _ ts1(1)] ts1(2) Suc.prems by (metis Suc_le_eq)
  have "for_each op [0..<Suc k] s = (Inr (), s2)"
    using 1(1) 2(1) by (simp add: for_each_append bnd_def)
  then show ?case using run_rel_trans [OF 1(2) 2(2)] relies_kept 1(3) 2(2) by blast
qed

lemma all_tasks:
  assumes "relies s" "tasks s = Some ts" "n = length ts"
  obtains s' es ts' where "for_each op [0..<n] s = (Inr (), s')" "run_rel s es s'" "relies s'"
    "tasks s' = Some ts'" "n = length ts'"
proof -
  obtain s' es where 1: "for_each op [0..<n] s = (Inr (), s')" "run_rel s es s'" "relies s'"
    using first_tasks [OF assms(1,2) order_refl] assms(3) by blast
  then obtain ts' where "tasks s' = Some ts'" "n = length ts'"
    using assms(2,3) unfolding run_rel_def by auto
  then show thesis using that 1 by blast
qed

end

interpretation start_round: task_round "\<lambda>s. parent_view s \<and> tasks_ok s" start_task_if_stopped
proof (unfold_locales, goal_cases)
  case (1 s ts i)
  then show ?case by (intro start_task_follows) (auto simp: tasks_ok_def)
qed (rule run_rel_good)

interpretation mark_round: task_round "\<lambda>s. parent_view s \<and> tasks_ok s" mark_task_as_terminated_if_dead
  by unfold_locales (blast intro: mark_task_follows, rule run_rel_good)

interpretation reset_round: task_round
  "\<lambda>s. parent_view s \<and> tasks_ok s \<and> now \<in> times_of s" "reset_attempts_if_quiet now" for now
  by unfold_locales (blast intro: reset_task_follows, use run_rel_good run_rel_times in blast)

lemma watchdog_step_follows:
  assumes "parent_view s" "tasks_ok s"
  shows "\<exists>s' es. watchdog_step s = (Inr (), s') \<and> run_rel s es s' \<and> parent_view s' \<and> tasks_ok s'"
proof -
  obtain ts n where ts: "tasks s = Some ts" "n_tasks s = n" "n = length ts"
    using assms by (auto simp: tasks_ok_def)
  obtain s1 es1 ts1 where 1: "for_each start_task_if_stopped [0..<n] s = (Inr (), s1)" "run_rel s es1 s1"
      "parent_view s1 \<and> tasks_ok s1" "tasks s1 = Some ts1" "n = length ts1"
    using start_round.all_tasks [OF conjI [OF assms] ts(1,3)] .
  obtain s2 es2 ts2 where 2: "for_each mark_task_as_terminated_if_dead [0..<n] s1 = (Inr (), s2)"
      "run_rel s1 es2 s2" "parent_view s2 \<and> tasks_ok s2" "tasks s2 = Some ts2" "n = length ts2"
    using mark_round.all_tasks [OF 1(3-5)] .
  define r where "r = env s2 (log s2) SysTime"
  define s3 where "s3 = s2\<lparr>log := log s2 @ [(SysTime, r)]\<rparr>"
  have 3: "run_rel s2 (\<lambda>_. []) s3" unfolding s3_def by (rule run_rel_calls [OF 2(4)]) simp
  have s3: "parent_view s3 \<and> tasks_ok s3 \<and> rep_ret r \<in> times_of s3" "tasks s3 = Some ts2"
    using run_rel_good [OF 2(3) 3] run_rel_times [OF 3] times_of_member [of s2 "log s2"] 2(4)
    by (simp_all add: r_def) (simp add: s3_def)
  obtain s4 es4 ts4 where
    4: "for_each (reset_attempts_if_quiet (rep_ret r)) [0..<n] s3 = (Inr (), s4)" "run_rel s3 es4 s4"
      "parent_view s4 \<and> tasks_ok s4 \<and> rep_ret r \<in> times_of s4" "tasks s4 = Some ts4" "n = length ts4"
    using reset_round.all_tasks [OF s3 2(5)] .
  define c where "c = SysUsleep (ucast (ucast (MS_BETWEEN_RETRIES * 1000) :: 32 word))"
  define s5 where "s5 = s4\<lparr>log := log s4 @ [(c, env s4 (log s4) c)]\<rparr>"
  have 5: "run_rel s4 (\<lambda>_. []) s5" unfolding s5_def by (rule run_rel_calls [OF 4(4)]) (simp add: c_def)
  have "watchdog_step s = (Inr (), s5)"
    using 1(1) 2(1) 4(1) by (simp add: watchdog_step_def ts(2) bnd_def gets_def sys_run os_sleep_ms_def
      s3_def r_def s5_def c_def)
  moreover have "run_rel s (\<lambda>i. (((es1 i @ es2 i) @ []) @ es4 i) @ []) s5"
    by (intro run_rel_trans [OF _ 5] run_rel_trans [OF _ 4(2)] run_rel_trans [OF _ 3]
        run_rel_trans [OF 1(2) 2(2)])
  ultimately show ?thesis using run_rel_good [OF _ 5] 4(3) by blast
qed

section \<open>Runs\<close>

fun watchdog_steps :: "nat \<Rightarrow> (watchdog, unit) prog" where
  "watchdog_steps 0 = ret ()"
| "watchdog_steps (Suc k) = bnd watchdog_step (\<lambda>_. watchdog_steps k)"

lemma watchdog_steps_follow:
  assumes "parent_view s" "tasks_ok s"
  shows "\<exists>s' es. watchdog_steps k s = (Inr (), s') \<and> run_rel s es s' \<and> parent_view s' \<and> tasks_ok s'"
  using assms
proof (induction k arbitrary: s)
  case 0
  then show ?case using run_rel_refl by (fastforce simp: tasks_ok_def)
next
  case (Suc k)
  obtain s1 es where 1: "watchdog_step s = (Inr (), s1)" "run_rel s es s1" "parent_view s1" "tasks_ok s1"
    using watchdog_step_follows [OF Suc.prems] by blast
  obtain s2 es2 where 2: "watchdog_steps k s1 = (Inr (), s2)" "run_rel s1 es2 s2" "parent_view s2" "tasks_ok s2"
    using Suc.IH [OF 1(3,4)] by blast
  show ?case using 1(1) 2 run_rel_trans [OF 1(2) 2(2)] by (auto simp: bnd_def)
qed

lemma init_loop:
  assumes "tasks s = Some ts" "k \<le> length ts"
  shows "\<exists>ts' h. for_each (\<lambda>i. bnd (store_task i (new_task i)) (\<lambda>_. bnd (sys SysTime) (\<lambda>r.
       store_task i ((new_task i)\<lparr>last_attempt := rep_ret r\<rparr>)))) [0..<k] s =
         (Inr (), s\<lparr>tasks := Some ts', log := log s @ h\<rparr>) \<and>
       length ts' = length ts \<and> calls is_fork h = 0 \<and>
       (\<forall>i < k. \<exists>now \<in> times_of s. ts' ! i = (new_task i)\<lparr>last_attempt := now\<rparr>)"
  using assms(2)
proof (induction k)
  case 0
  then show ?case using assms(1) by (intro exI [of _ ts] exI [of _ "[]"]) simp
next
  case (Suc k)
  define body where "body i = bnd (store_task i (new_task i)) (\<lambda>_. bnd (sys SysTime) (\<lambda>r.
       store_task i ((new_task i)\<lparr>last_attempt := rep_ret r\<rparr>)))" for i
  obtain ts' h where IH: "for_each body [0..<k] s = (Inr (), s\<lparr>tasks := Some ts', log := log s @ h\<rparr>)"
      "length ts' = length ts" "calls is_fork h = 0"
      "\<forall>i < k. \<exists>now \<in> times_of s. ts' ! i = (new_task i)\<lparr>last_attempt := now\<rparr>"
    using Suc unfolding body_def by auto
  define r where "r = env s (log s @ h) SysTime"
  define t where "t = (new_task k)\<lparr>last_attempt := rep_ret r\<rparr>"
  have "body k (s\<lparr>tasks := Some ts', log := log s @ h\<rparr>) =
      (Inr (), s\<lparr>tasks := Some (ts'[k := t]), log := log s @ (h @ [(SysTime, r)])\<rparr>)"
    using Suc.prems IH(2) by (simp add: body_def bnd_store_task bnd_sys store_task_run r_def t_def)
  then have "for_each body [0..<Suc k] s =
      (Inr (), s\<lparr>tasks := Some (ts'[k := t]), log := log s @ (h @ [(SysTime, r)])\<rparr>)"
    using IH(1) by (simp add: for_each_append bnd_def)
  moreover have "\<exists>now \<in> times_of s. ts'[k := t] ! i = (new_task i)\<lparr>last_attempt := now\<rparr>" if "i < Suc k" for i
    using that IH(2,4) Suc.prems times_of_member [of s "log s @ h"]
    by (cases "i = k") (auto simp: t_def r_def)
  moreover have "length (ts'[k := t]) = length ts" "calls is_fork (h @ [(SysTime, r)]) = 0"
    using IH by simp_all
  ultimately show ?case unfolding body_def by blast
qed

definition fits_watchdog :: "watchdog_program list \<Rightarrow> nat \<Rightarrow> watchdog \<Rightarrow> bool" where
  "fits_watchdog ps n s \<longleftrightarrow>
     (\<forall>h. rep_ret (env s h SysFork) \<noteq> 0) \<and> (\<forall>h n. malloc_ok (mem s h) n) \<and>
     (\<forall>p \<in> set ps. args_fit (logs_verbose s) p) \<and> n \<le> length ps \<and> n < 2 ^ 59"

lemma watchdog_init_follows:
  assumes fits: "fits_watchdog ps n s"
  shows "\<exists>ts h. watchdog_init ps n s =
        (Inr (), s\<lparr>programs := ps, programs_sz := n, tasks := Some ts, n_tasks := n, log := log s @ h\<rparr>) \<and>
      length ts = n \<and> calls is_fork h = 0 \<and>
      (\<forall>i < n. \<exists>now \<in> times_of s. ts ! i = (new_task i)\<lparr>last_attempt := now\<rparr>)"
proof -
  define s0 where "s0 = s\<lparr>programs := ps, programs_sz := n, tasks := Some (replicate n
      \<lparr>program_idx = 0, pid = 0, recent_attempts = 0, last_attempt = 0\<rparr>), n_tasks := n\<rparr>"
  have u: "unat (word_of_nat n :: size_t) = n"
    using fits by (intro unat_of_nat_size) (simp add: fits_watchdog_def)
  then obtain b where "CALLOC (mem s (log s)) (word_of_nat n) 24 = Inr b"
    using CALLOC_ok [of "mem s (log s)" "word_of_nat n" 24] fits by (auto simp: fits_watchdog_def)
  then have run: "watchdog_init ps n s = for_each (\<lambda>i. bnd (store_task i (new_task i)) (\<lambda>_.
      bnd (sys SysTime) (\<lambda>r. store_task i ((new_task i)\<lparr>last_attempt := rep_ret r\<rparr>)))) [0..<n] s0"
    by (simp add: watchdog_init_def s0_def bnd_def with_libc_run modify_def)
  have "tasks s0 = Some (replicate n \<lparr>program_idx = 0, pid = 0, recent_attempts = 0, last_attempt = 0\<rparr>)"
    by (simp add: s0_def)
  from init_loop [OF this, of n] obtain ts h where l: "watchdog_init ps n s =
        (Inr (), s0\<lparr>tasks := Some ts, log := log s0 @ h\<rparr>)"
      "length ts = n" "calls is_fork h = 0"
      "\<forall>i < n. \<exists>now \<in> times_of s0. ts ! i = (new_task i)\<lparr>last_attempt := now\<rparr>"
    unfolding run by auto
  have "s0\<lparr>tasks := Some ts, log := log s0 @ h\<rparr> =
      s\<lparr>programs := ps, programs_sz := n, tasks := Some ts, n_tasks := n, log := log s @ h\<rparr>"
    "times_of s0 = times_of s"
    by (simp_all add: s0_def times_of_def)
  then show ?thesis using l by (intro exI [of _ ts] exI [of _ h]) simp
qed

lemma watchdog_init_ok:
  assumes "fits_watchdog ps n s" "watchdog_init ps n s = (r, s')"
  shows "r = Inr () \<and> parent_view s' \<and> tasks_ok s' \<and> times_of s' = times_of s \<and>
    calls is_fork (log s') = calls is_fork (log s) \<and>
    (\<exists>ts. tasks s' = Some ts \<and> length ts = n \<and> (\<forall>i < n. last_attempt (ts ! i) \<in> times_of s))"
proof -
  obtain ts h where i: "watchdog_init ps n s =
        (Inr (), s\<lparr>programs := ps, programs_sz := n, tasks := Some ts, n_tasks := n, log := log s @ h\<rparr>)"
      "length ts = n" "calls is_fork h = 0"
      "\<forall>i < n. \<exists>now \<in> times_of s. ts ! i = (new_task i)\<lparr>last_attempt := now\<rparr>"
    using watchdog_init_follows [OF assms(1)] by blast
  have "\<forall>i < n. program_idx (ts ! i) = i \<and> task_ok (ts ! i) \<and> last_attempt (ts ! i) \<in> times_of s"
    using i(4) by (auto simp: new_task_def task_ok_def task_consts)
  moreover have s': "s' = s\<lparr>programs := ps, programs_sz := n, tasks := Some ts, n_tasks := n, log := log s @ h\<rparr>"
      "r = Inr ()" using assms(2) i(1) by simp_all
  ultimately show ?thesis using assms(1) i(2,3)
    by (simp add: fits_watchdog_def parent_view_def tasks_ok_def times_of_def)
qed

end
