(* ===== verification/Watchdog_Laws.thy ===== *)
theory Watchdog_Laws
  imports Watchdog
begin

text \<open>
  The properties of the watchdog: how often it starts a service, when it gives up and when it
  tries again, what it reports, and that its shutdown ends.
\<close>

section \<open>Shutdown\<close>

lemma kill_loop:
  assumes "tasks s = Some ts" "k \<le> length ts"
  shows "\<exists>h. for_each (\<lambda>i. bnd (load_task i) (\<lambda>t.
            guard_do (pid t \<noteq> PID_NOT_RUNNING) (os_kill (pid t) False))) [0..<k] s =
          (Inr (), s\<lparr>log := log s @ h\<rparr>) \<and>
        map fst h = map (\<lambda>t. SysKill (pid t) SIGTERM)
          (filter (\<lambda>t. pid t \<noteq> PID_NOT_RUNNING) (take k ts))"
  using assms(2)
proof (induction k)
  case 0
  then show ?case by (intro exI [of _ "[]"]) simp
next
  case (Suc k)
  define body where "body i = bnd (load_task i) (\<lambda>t.
      guard_do (pid t \<noteq> PID_NOT_RUNNING) (os_kill (pid t) False))" for i
  obtain h where IH: "for_each body [0..<k] s = (Inr (), s\<lparr>log := log s @ h\<rparr>)"
      "map fst h = map (\<lambda>t. SysKill (pid t) SIGTERM)
        (filter (\<lambda>t. pid t \<noteq> PID_NOT_RUNNING) (take k ts))"
    using Suc unfolding body_def by auto
  have load: "bnd (load_task k) f (s\<lparr>log := log s @ h\<rparr>) = f (ts ! k) (s\<lparr>log := log s @ h\<rparr>)" for f :: "task \<Rightarrow> (watchdog, unit) prog"
    using assms(1) Suc.prems by (intro bnd_load_task) simp_all
  define c where "c = SysKill (pid (ts ! k)) SIGTERM"
  define h' where "h' = (if pid (ts ! k) = PID_NOT_RUNNING then h else h @ [(c, env s (log s @ h) c)])"
  have "body k (s\<lparr>log := log s @ h\<rparr>) = (Inr (), s\<lparr>log := log s @ h'\<rparr>)"
    unfolding body_def load by (simp add: guard_do_def os_kill_def bnd_sys h'_def c_def)
  then have "for_each body [0..<Suc k] s = (Inr (), s\<lparr>log := log s @ h'\<rparr>)"
    using IH(1) by (simp add: for_each_append bnd_def)
  moreover have "map fst h' = map (\<lambda>t. SysKill (pid t) SIGTERM)
        (filter (\<lambda>t. pid t \<noteq> PID_NOT_RUNNING) (take (Suc k) ts))"
    using Suc.prems IH(2) by (simp add: h'_def c_def take_Suc_conv_app_nth)
  ultimately show ?case unfolding body_def by blast
qed

abbreviation is_clock :: "syscall \<Rightarrow> bool" where
  "is_clock c \<equiv> c = SysClock"

lemma any_still_running_run:
  assumes "tasks s = Some ts" "\<forall>i \<in> set is. i < length ts"
  shows "\<exists>b h. any_still_running is acc s = (Inr b, s\<lparr>log := log s @ h\<rparr>) \<and> calls is_clock h = 0"
  using assms
proof (induction "is" arbitrary: s acc)
  case Nil
  then show ?case by (intro exI [of _ acc] exI [of _ "[]"]) simp
next
  case (Cons i "is")
  define t where "t = ts ! i"
  have load: "bnd (load_task i) f s = f t s" for f :: "task \<Rightarrow> (watchdog, bool) prog"
    using Cons.prems by (simp add: bnd_load_task t_def)
  show ?case
  proof (cases "pid t = PID_NOT_RUNNING")
    case True
    then show ?thesis using Cons by (simp add: load)
  next
    case False
    define r where "r = env s (log s) (SysWaitpid (pid t))"
    define s1 where "s1 = s\<lparr>log := log s @ [(SysWaitpid (pid t), r)]\<rparr>"
    define alive where "alive \<longleftrightarrow> 0 \<le> waitpid_result (pid t) r \<and> waitpid_result (pid t) r \<noteq> pid t"
    have os: "os_process_still_running (pid t) None s = (Inr (alive, None), s1)"
      using False by (auto simp: os_process_still_running_def bnd_sys Let_def alive_def s1_def r_def)
    obtain b h where IH: "any_still_running is (acc \<or> alive) s1 = (Inr b, s1\<lparr>log := log s1 @ h\<rparr>)"
        "calls is_clock h = 0"
      using Cons.IH [of s1 "acc \<or> alive"] Cons.prems by (auto simp: s1_def)
    have "any_still_running (i # is) acc s =
        (Inr b, s\<lparr>log := log s @ ((SysWaitpid (pid t), r) # h)\<rparr>)"
      using IH(1) False by (simp add: load bnd_step(1) [of "os_process_still_running (pid t) None" s, OF os] s1_def)
    moreover have "calls is_clock ((SysWaitpid (pid t), r) # h) = 0" using IH(2) by simp
    ultimately show ?thesis by blast
  qed
qed

text \<open>
  The clock: nanoseconds, below \<open>2 ^ 63\<close>, and once it has been read \<open>K\<close> times more than the
  \<open>c\<close> times before the timer was started, five seconds have gone by.
\<close>

definition clock_advances :: "nat \<Rightarrow> nat \<Rightarrow> watchdog \<Rightarrow> bool" where
  "clock_advances K c s \<longleftrightarrow>
     (\<forall>h. 0 \<le> rep_ret (env s h SysClock) \<and> rep_ret (env s h SysClock) < 2 ^ 63) \<and>
     (\<forall>h h'. calls is_clock h = c \<and> K \<le> calls is_clock h' \<longrightarrow>
        rep_ret (env s h SysClock) div 1000000 + 5000 \<le> rep_ret (env s (h @ h') SysClock) div 1000000)"

definition ms_of :: "int \<Rightarrow> 64 word" where
  "ms_of t = word_of_int (t div 1000000)"

lemma now_ms_run:
  fixes s :: watchdog
  assumes "clock_advances K c s"
  shows "now_ms s = (Inr (ms_of (rep_ret (env s (log s) SysClock))),
           s\<lparr>log := log s @ [(SysClock, env s (log s) SysClock)]\<rparr>)"
  using assms now_ms_value by (simp add: now_ms_def bnd_sys Let_def clock_advances_def ms_of_def)

lemma ms_elapsed:
  assumes "a div 1000000 + 5000 \<le> b div 1000000" "0 \<le> a" "b < 2 ^ 63"
  shows "\<not> ms_of b - ms_of a < 5000"
proof -
  define d where "d = b div 1000000 - a div 1000000"
  have d: "5000 \<le> d" "d < 2 ^ 64" using assms by (simp_all add: d_def)
  have "ms_of b - ms_of a = word_of_int d" by (simp add: ms_of_def d_def)
  moreover have "uint (word_of_int d :: 64 word) = d" using d by (simp add: uint_word_of_int)
  ultimately show ?thesis using d by (simp add: word_less_def)
qed

lemma wait_for_death_ends:
  assumes clock: "clock_advances K c s" "calls is_clock h0 = c" and ts: "tasks s = Some ts" "n_tasks s = length ts"
    and start: "timer_start tm = ms_of (rep_ret (env s h0 SysClock))" "log s = h0 @ h"
    and fuel: "K < fuel + calls is_clock h" "0 < fuel"
  shows "\<exists>h'. wait_for_death fuel tm s = (Inr True, s\<lparr>log := log s @ h'\<rparr>)"
  using assms
proof (induction fuel arbitrary: s h)
  case 0
  then show ?case by simp
next
  case (Suc fuel)
  define r where "r = env s (log s) SysClock"
  define s1 where "s1 = s\<lparr>log := log s @ [(SysClock, r)]\<rparr>"
  define ms where "ms = ms_of (rep_ret r) - timer_start tm"
  have tick: "timer_current_ms tm s = (Inr ms, s1)"
    using now_ms_run [OF Suc.prems(1)] by (simp add: timer_current_ms_def bnd_def ms_def r_def s1_def)
  note step = bnd_step(1) [of "timer_current_ms tm" s, OF tick]
  show ?case
  proof (cases "ms < 5000")
    case False
    then show ?thesis by (auto simp: step s1_def)
  next
    case True
    have small: "calls is_clock h < K"
    proof (rule ccontr)
      assume "\<not> calls is_clock h < K"
      then have "rep_ret (env s h0 SysClock) div 1000000 + 5000 \<le> rep_ret r div 1000000"
        using Suc.prems(1,2,6) unfolding clock_advances_def r_def by simp
      moreover have "0 \<le> rep_ret (env s h0 SysClock)" "rep_ret r < 2 ^ 63"
        using Suc.prems(1) unfolding clock_advances_def r_def by blast+
      ultimately show False
        using ms_elapsed [of "rep_ret (env s h0 SysClock)" "rep_ret r"] True Suc.prems(5) by (simp add: ms_def)
    qed
    have s1: "tasks s1 = Some ts" "n_tasks s1 = length ts" using Suc.prems by (simp_all add: s1_def)
    obtain b h1 where any: "any_still_running [0..<length ts] False s1 = (Inr b, s1\<lparr>log := log s1 @ h1\<rparr>)"
        "calls is_clock h1 = 0"
      using any_still_running_run [OF s1(1), of "[0..<length ts]" False] by auto
    define s2 where "s2 = s1\<lparr>log := log s1 @ h1\<rparr>"
    have run: "wait_for_death (Suc fuel) tm s = (if b then wait_for_death fuel tm s2 else (Inr True, s2))"
      using True by (simp add: step s1(2) bnd_step(1) [of "any_still_running [0..<length ts] False" s1, OF any(1)] s2_def)
    show ?thesis
    proof (cases b)
      case False
      then show ?thesis using run by (auto simp: s2_def s1_def)
    next
      case True
      have "clock_advances K c s2" using Suc.prems(1) by (simp add: clock_advances_def s2_def s1_def)
      moreover have "tasks s2 = Some ts" "n_tasks s2 = length ts" using s1 by (simp_all add: s2_def)
      moreover have "log s2 = h0 @ (h @ (SysClock, r) # h1)" using Suc.prems(6) by (simp add: s2_def s1_def)
      moreover have "env s2 = env s" by (simp add: s2_def s1_def)
      ultimately obtain h' where "wait_for_death fuel tm s2 = (Inr True, s2\<lparr>log := log s2 @ h'\<rparr>)"
        using Suc.IH [of s2 "h @ (SysClock, r) # h1"] Suc.prems(2,5,7) small any(2) by auto
      then show ?thesis using run True by (auto simp: s2_def s1_def)
    qed
  qed
qed

section \<open>Properties\<close>


definition quiet_reply :: reply where
  "quiet_reply = \<lparr>rep_ret = 0, rep_errno = 0, rep_bytes = [], rep_status = 0, rep_events = [], rep_addrs = []\<rparr>"

text \<open>A system on which every service dies at once with the status in \<open>st\<close>.\<close>

definition crash_env :: "32 word \<Rightarrow> history \<Rightarrow> syscall \<Rightarrow> reply" where
  "crash_env st h c =
     (case c of
        SysFork \<Rightarrow> quiet_reply\<lparr>rep_ret := 100\<rparr>
      | SysWaitpid p \<Rightarrow> quiet_reply\<lparr>rep_ret := 100, rep_status := st\<rparr>
      | SysTime \<Rightarrow> quiet_reply\<lparr>rep_ret := 1000\<rparr>
      | SysClock \<Rightarrow> quiet_reply\<lparr>rep_ret := min (2 ^ 62) (int (calls is_clock h) * 1000000000)\<rparr>
      | _ \<Rightarrow> quiet_reply)"

definition one_service :: watchdog where
  "one_service =
     \<lparr>env = crash_env 0, log = [], mem = (\<lambda>_. glibc), logs_verbose = False,
      termination_requested = False,
      programs = [\<lparr>prog_name = ''echo'', prog_program = ''echo'', prog_args = []\<rparr>],
      programs_sz = 1,
      tasks = Some [\<lparr>program_idx = 0, pid = - 1, recent_attempts = 0, last_attempt = 1000\<rparr>],
      n_tasks = 1\<rparr>"

lemma one_service_ok: "parent_view one_service" "tasks_ok one_service"
  by (simp_all add: one_service_def parent_view_def args_fit_def crash_env_def quiet_reply_def
      tasks_ok_def task_ok_def task_consts)




text \<open>
  What starting does on every branch: a running service and one that was given up are left
  alone; one that has used its ten attempts is given up with no call to the system; any other
  stopped service is forked exactly once, and the new process, the time and the attempt are
  recorded (a failed fork is counted as an attempt and leaves the service stopped).
\<close>

theorem start_task_if_stopped_cases:
  assumes s: "parent_view s" "tasks_ok s" "tasks s = Some ts" "i < length ts"
  shows "\<exists>h t'. start_task_if_stopped i s = (Inr (), s\<lparr>tasks := Some (ts[i := t']), log := log s @ h\<rparr>) \<and>
    (pid (ts ! i) \<noteq> PID_NOT_RUNNING \<or> recent_attempts (ts ! i) > 10 \<longrightarrow> t' = ts ! i \<and> h = []) \<and>
    (pid (ts ! i) = PID_NOT_RUNNING \<and> recent_attempts (ts ! i) = 10 \<longrightarrow>
       t' = (ts ! i)\<lparr>recent_attempts := 11\<rparr> \<and> h = []) \<and>
    (pid (ts ! i) = PID_NOT_RUNNING \<and> recent_attempts (ts ! i) < 10 \<longrightarrow>
       calls is_fork h = 1 \<and>
       (\<exists>p now. (p = PID_NOT_RUNNING \<or> 0 < p) \<and> now \<in> times_of s \<and>
          t' = (ts ! i)\<lparr>pid := p, last_attempt := now,
            recent_attempts := recent_attempts (ts ! i) + 1\<rparr>))"
proof -
  let ?t = "ts ! i"
  note load = bnd_load_task [OF s(3,4)]
  have idx: "program_idx ?t < length (programs s)" using s by (auto simp: tasks_ok_def)
  have same: "s\<lparr>tasks := Some (ts[i := ?t]), log := log s @ []\<rparr> = s" using s(3) by simp
  show ?thesis
  proof (cases "pid ?t = PID_NOT_RUNNING \<and> recent_attempts ?t < 10")
    case True
    then obtain h q now where run: "start_task_if_stopped i s = (Inr (), s\<lparr>tasks := Some (ts[i :=
          ?t\<lparr>pid := q, last_attempt := now, recent_attempts := recent_attempts ?t + 1\<rparr>]), log := log s @ h\<rparr>)"
        and q: "q = PID_NOT_RUNNING \<or> 0 < q" "now \<in> times_of s" "calls is_fork h = 1"
      using start_task_attempt [OF s(1,3,4) idx] by (auto simp: MAX_ATTEMPTS_def)
    define t' where "t' = ?t\<lparr>pid := q, last_attempt := now, recent_attempts := recent_attempts ?t + 1\<rparr>"
    have new: "\<exists>p now. (p = PID_NOT_RUNNING \<or> 0 < p) \<and> now \<in> times_of s \<and>
        t' = ?t\<lparr>pid := p, last_attempt := now, recent_attempts := recent_attempts ?t + 1\<rparr>"
      using q unfolding t'_def by blast
    show ?thesis using run [folded t'_def] new q(3) True
      by (intro exI [of _ h] exI [of _ t'] conjI impI) simp_all
  next
    case False
    show ?thesis
    proof (cases "pid ?t = PID_NOT_RUNNING \<and> recent_attempts ?t = 10")
      case True
      then have "start_task_if_stopped i s =
          (Inr (), s\<lparr>tasks := Some (ts[i := ?t\<lparr>recent_attempts := 11\<rparr>]), log := log s @ []\<rparr>)"
        using s(3,4) by (simp add: start_task_if_stopped_def load task_consts store_task_run)
      then show ?thesis using True by (intro exI conjI) (assumption | simp)+
    next
      case False2: False
      then have "start_task_if_stopped i s = (Inr (), s)"
        using False s(3,4) by (auto simp: start_task_if_stopped_def load task_consts)
      then show ?thesis using False False2 same by (intro exI [of _ "[]"] exI [of _ ?t]) auto
    qed
  qed
qed

theorem start_task_if_stopped_cases_witness:
  "\<exists>s'. start_task_if_stopped 0 one_service = (Inr (), s') \<and> calls is_fork (log s') = 1"
  using start_task_if_stopped_cases [OF one_service_ok, of
      "[\<lparr>program_idx = 0, pid = - 1, recent_attempts = 0, last_attempt = 1000\<rparr>]" 0]
  by (auto simp: one_service_def PID_NOT_RUNNING_def)

definition watchdog_step_tail :: "nat \<Rightarrow> (watchdog, unit) prog" where
  "watchdog_step_tail n =
     bnd (for_each mark_task_as_terminated_if_dead [0..<n]) (\<lambda>_.
     bnd (sys SysTime) (\<lambda>now.
     bnd (for_each (reset_attempts_if_quiet (rep_ret now)) [0..<n]) (\<lambda>_.
     os_sleep_ms MS_BETWEEN_RETRIES)))"

lemma watchdog_step_start:
  "watchdog_step s =
     bnd (for_each start_task_if_stopped [0..<n_tasks s]) (\<lambda>_. watchdog_step_tail (n_tasks s)) s"
  by (simp add: watchdog_step_def watchdog_step_tail_def)

lemma preserves_task_access:
  "(\<And>s ts. P s \<Longrightarrow> P (s\<lparr>tasks := ts\<rparr>)) \<Longrightarrow> preserves P (store_task i t)"
  by (auto simp: preserves_def store_task_def split: option.splits)

lemma preserves_load_task [preserves_intros]: "preserves P (load_task i)"
  by (auto simp: preserves_def load_task_def split: option.splits)

lemma tail_keeps_log: "preserves (\<lambda>s. N \<le> calls p (log s)) (watchdog_step_tail n)"
  unfolding watchdog_step_tail_def mark_task_as_terminated_if_dead_def reset_attempts_if_quiet_def
    os_process_still_running_def os_sleep_ms_def Let_def
  by (intro preserves_intros preserves_task_access; simp)

text \<open>
  A service that the watchdog gave up on is started again: once the time of day is more
  than ten seconds after its last start, two steps fork it anew, whatever status it last
  exited with.  The non-recoverable status therefore only delays the restart.
\<close>

theorem given_up_service_is_restarted:
  assumes s: "parent_view s" "tasks_ok s" "tasks s = Some [t]"
    and gave_up: "pid t = PID_NOT_RUNNING" "recent_attempts t \<ge> MAX_ATTEMPTS"
    and later: "\<forall>h. rep_ret (env s h SysTime) > last_attempt t + 10"
  shows "\<exists>s'. watchdog_steps 2 s = (Inr (), s') \<and> calls is_fork (log s') > calls is_fork (log s)"
proof -
  obtain s1 es where 1: "watchdog_step s = (Inr (), s1)" "run_rel s es s1" "parent_view s1" "tasks_ok s1"
    using watchdog_step_follows [OF s(1,2)] by blast
  have n: "n_tasks s = 1" using s(2,3) by (simp add: tasks_ok_def)
  define t1 where "t1 = (if recent_attempts t = MAX_ATTEMPTS then t\<lparr>recent_attempts := recent_attempts t + 1\<rparr> else t)"
  have t1: "pid t1 = PID_NOT_RUNNING" "recent_attempts t1 \<ge> MAX_ATTEMPTS" "last_attempt t1 = last_attempt t"
    using gave_up by (simp_all add: t1_def)
  have same: "s\<lparr>tasks := Some [t]\<rparr> = s" using s(3) by simp
  have start: "start_task_if_stopped 0 s = (Inr (), s\<lparr>tasks := Some [t1]\<rparr>)"
    using gave_up s(3) same
    by (simp add: start_task_if_stopped_def bnd_load_task [of s "[t]"] store_task_run t1_def)
  have t1': "t1\<lparr>pid := PID_NOT_RUNNING\<rparr> = t1" using t1(1) by simp
  have mark: "mark_task_as_terminated_if_dead 0 (s\<lparr>tasks := Some [t1]\<rparr>) = (Inr (), s\<lparr>tasks := Some [t1]\<rparr>)"
    using t1(1) t1' by (simp add: mark_task_as_terminated_if_dead_def bnd_load_task [of _ "[t1]"]
        os_process_still_running_def store_task_run NON_RECOVERABLE_ERROR_def)
  define r where "r = env s (log s) SysTime"
  define t2 where "t2 = t1\<lparr>recent_attempts := 0\<rparr>"
  define c where "c = SysUsleep (ucast (ucast (MS_BETWEEN_RETRIES * 1000) :: 32 word))"
  have "rep_ret r > last_attempt t + 10" using later by (simp add: r_def)
  then have reset: "reset_attempts_if_quiet (rep_ret r) 0 (s\<lparr>tasks := Some [t1], log := log s @ [(SysTime, r)]\<rparr>) =
      (Inr (), s\<lparr>tasks := Some [t2], log := log s @ [(SysTime, r)]\<rparr>)"
    using t1 by (simp add: reset_attempts_if_quiet_def bnd_load_task [of _ "[t1]"] store_task_run
        SEC_TO_RESET_ATTEMPS_def t2_def)
  have step: "watchdog_step s = (Inr (), s\<lparr>tasks := Some [t2],
      log := log s @ [(SysTime, r), (c, env s (log s @ [(SysTime, r)]) c)]\<rparr>)"
    using start mark reset
    by (simp add: watchdog_step_def n bnd_def gets_def sys_run os_sleep_ms_def c_def flip: r_def)
  have s1: "tasks s1 = Some [t2]" "calls is_fork (log s1) = calls is_fork (log s)" "n_tasks s1 = 1"
    using 1(1) step n by (auto simp: c_def)
  have t2: "pid t2 = PID_NOT_RUNNING" "recent_attempts t2 < MAX_ATTEMPTS" "program_idx t2 = 0"
    using t1 1(4) s1(1) by (auto simp: t2_def MAX_ATTEMPTS_def tasks_ok_def)
  have idx: "program_idx ([t2] ! 0) < length (programs s1)" using 1(4) s1(1) by (auto simp: tasks_ok_def)
  obtain h t3 where f: "start_task_if_stopped 0 s1 = (Inr (), s1\<lparr>tasks := Some [t3], log := log s1 @ h\<rparr>)"
      "calls is_fork h = 1"
    using start_task_attempt [OF 1(3) s1(1) _ idx] t2 by auto
  obtain s2 es2 where 2: "watchdog_step s1 = (Inr (), s2)" "run_rel s1 es2 s2"
    using watchdog_step_follows [OF 1(3,4)] by blast
  have "watchdog_step s1 = watchdog_step_tail 1 (s1\<lparr>tasks := Some [t3], log := log s1 @ h\<rparr>)"
    using f(1) s1(3) by (simp add: watchdog_step_start bnd_step(1) [of "start_task_if_stopped 0" s1, OF f(1)])
  then have tail: "watchdog_step_tail 1 (s1\<lparr>tasks := Some [t3], log := log s1 @ h\<rparr>) = (Inr (), s2)"
    using 2(1) by simp
  have "calls is_fork (log s1 @ h) \<le>
      calls is_fork (log (snd (watchdog_step_tail 1 (s1\<lparr>tasks := Some [t3], log := log s1 @ h\<rparr>))))"
    by (rule preservesD [OF tail_keeps_log]) simp
  then have "calls is_fork (log s1 @ h) \<le> calls is_fork (log s2)" unfolding tail by simp
  then show ?thesis using 1(1) 2(1) f(2) s1(2) by (auto simp: bnd_def numeral_2_eq_2)
qed

definition given_up_service :: watchdog where
  "given_up_service = one_service\<lparr>tasks := Some
     [\<lparr>program_idx = 0, pid = - 1, recent_attempts = 10, last_attempt = 900\<rparr>]\<rparr>"

theorem given_up_service_is_restarted_witness:
  "\<exists>s'. watchdog_steps 2 given_up_service = (Inr (), s') \<and> calls is_fork (log s') > 0"
proof -
  have "parent_view given_up_service" "tasks_ok given_up_service"
    by (simp_all add: given_up_service_def one_service_def parent_view_def args_fit_def crash_env_def
        quiet_reply_def tasks_ok_def task_ok_def task_consts)
  moreover have "tasks given_up_service =
      Some [\<lparr>program_idx = 0, pid = - 1, recent_attempts = 10, last_attempt = 900\<rparr>]"
    by (simp add: given_up_service_def)
  ultimately have "\<exists>s'. watchdog_steps 2 given_up_service = (Inr (), s') \<and>
      calls is_fork (log s') > calls is_fork (log given_up_service)"
    by (rule given_up_service_is_restarted)
      (simp_all add: given_up_service_def one_service_def crash_env_def quiet_reply_def task_consts)
  then show ?thesis by (simp add: given_up_service_def one_service_def)
qed

text \<open>
  C35. Shutdown ends: \<open>watchdog_finalize\<close> sends SIGTERM to exactly the services that run, in
  order, waits at most until the clock shows five seconds, and frees the tasks, even when
  the services ignore the signal.  Any fuel above the number of clock readings that five
  seconds take is enough.
\<close>

theorem watchdog_finalize_ends:
  assumes ok: "tasks_ok s" "tasks s = Some ts" "\<forall>h n. malloc_ok (mem s h) n"
    and clock: "clock_advances K (calls is_clock (log s)) s" "K < fuel"
  shows "\<exists>h h'. watchdog_finalize fuel True s = (Inr True, s\<lparr>tasks := None, log := log s @ h @ h'\<rparr>) \<and>
    map fst h = map (\<lambda>t. SysKill (pid t) SIGTERM) (filter (\<lambda>t. pid t \<noteq> PID_NOT_RUNNING) ts)"
proof -
  have n: "n_tasks s = length ts" using ok by (simp add: tasks_ok_def)
  obtain h where kill: "for_each (\<lambda>i. bnd (load_task i) (\<lambda>t.
        guard_do (pid t \<noteq> PID_NOT_RUNNING) (os_kill (pid t) False))) [0..<length ts] s =
        (Inr (), s\<lparr>log := log s @ h\<rparr>)"
      "map fst h = map (\<lambda>t. SysKill (pid t) SIGTERM) (filter (\<lambda>t. pid t \<noteq> PID_NOT_RUNNING) ts)"
    using kill_loop [OF ok(2) order_refl] by auto
  define s1 where "s1 = s\<lparr>log := log s @ h\<rparr>"
  have "calls is_clock h = length (filter is_clock (map fst h))"
    by (simp add: calls_def filter_map comp_def case_prod_unfold)
  then have noclock: "calls is_clock h = 0" by (simp add: kill(2) filter_map comp_def)
  define r where "r = env s1 (log s1) SysClock"
  define s2 where "s2 = s1\<lparr>log := log s1 @ [(SysClock, r)]\<rparr>"
  have clock1: "clock_advances K (calls is_clock (log s)) s1"
    using clock(1) by (simp add: clock_advances_def s1_def)
  have "c_malloc (mem s1 (log s1)) 8 \<noteq> None" using ok(3) by (simp add: c_malloc_def s1_def)
  then have create: "timer_create s1 = (Inr \<lparr>timer_start = ms_of (rep_ret r)\<rparr>, s2)"
    using now_ms_run [OF clock1] by (simp add: timer_create_def bnd_def with_libc_run r_def s2_def)
  have "\<exists>h'. wait_for_death fuel \<lparr>timer_start = ms_of (rep_ret r)\<rparr> s2 = (Inr True, s2\<lparr>log := log s2 @ h'\<rparr>)"
  proof (rule wait_for_death_ends [where K = K and c = "calls is_clock (log s)" and ?h0.0 = "log s1" and h = "[(SysClock, r)]"])
    show "clock_advances K (calls is_clock (log s)) s2"
      using clock1 by (simp add: clock_advances_def s2_def)
    show "calls is_clock (log s1) = calls is_clock (log s)" using noclock by (simp add: s1_def)
  qed (use ok n clock in \<open>simp_all add: s1_def s2_def r_def\<close>)
  then obtain h' where wait: "wait_for_death fuel \<lparr>timer_start = ms_of (rep_ret r)\<rparr> s2 =
      (Inr True, s2\<lparr>log := log s2 @ h'\<rparr>)" by blast
  have "watchdog_finalize fuel True s =
      (Inr True, s\<lparr>tasks := None, log := log s @ h @ ((SysClock, r) # h')\<rparr>)"
    using kill(1) create wait by (simp add: watchdog_finalize_def n bnd_def gets_def modify_def s1_def s2_def)
  then show ?thesis using kill(2) by blast
qed

theorem watchdog_finalize_ends_witness:
  "\<exists>s'. watchdog_finalize 7 True one_service = (Inr True, s') \<and> tasks s' = None"
proof -
  have "clock_advances 6 0 one_service"
    by (auto simp: clock_advances_def one_service_def crash_env_def quiet_reply_def min_def)
  then show ?thesis
    using watchdog_finalize_ends [of one_service, OF one_service_ok(2), of _ 6 7]
    by (auto simp: one_service_def)
qed

text \<open>
  The reported state of a service: for every service of a watchdog that has been set up
  and has run any number of steps, the report exists, counts 0 to 11 attempts, and says
  running of exactly the services with a process and fewer than ten attempts; a service in its
  tenth attempt is reported as given up, also while its process runs.
\<close>

theorem watchdog_program_state_reports:
  assumes ok: "parent_view s" "tasks_ok s" "tasks s = Some ts" "idx < length ts"
  shows "\<exists>s' st. bnd (watchdog_steps k) (\<lambda>_. watchdog_program_state idx) s = (Inr st, s') \<and>
    0 \<le> attempts st \<and> attempts st \<le> 11 \<and>
    (status st = WPS_RUNNING \<longleftrightarrow> attempts st < 10 \<and> 0 < state_pid st) \<and>
    (status st = WPS_GAVE_UP \<longleftrightarrow> 10 \<le> attempts st)"
proof -
  obtain s1 es where 1: "watchdog_steps k s = (Inr (), s1)" "run_rel s es s1" "tasks_ok s1"
    using watchdog_steps_follow [OF ok(1,2)] by blast
  then obtain ts1 where ts1: "tasks s1 = Some ts1" "length ts1 = length ts"
    using ok(3) unfolding run_rel_def by auto
  then have "task_ok (ts1 ! idx)" using 1(3) ok(4) by (simp add: tasks_ok_def)
  then show ?thesis
    using 1(1) ts1 ok(4)
    by (auto simp: bnd_def watchdog_program_state_def load_task_run task_ok_def task_consts)
qed

theorem watchdog_program_state_reports_witness:
  "\<exists>s' st. bnd (watchdog_steps 3) (\<lambda>_. watchdog_program_state 0) one_service = (Inr st, s') \<and>
     attempts st \<le> 11"
  using watchdog_program_state_reports [OF one_service_ok, of
      "[\<lparr>program_idx = 0, pid = - 1, recent_attempts = 0, last_attempt = 1000\<rparr>]" 0 3]
  by (auto simp: one_service_def)

end
