(* ===== verification/Uthash.thy ===== *)
theory Uthash
  imports Alloc
begin

unbundle bit_operations_syntax

text \<open>
  The intrusive hash table \<open>src/contrib/uthash/uthash.h\<close> as the program instantiates it: no Bloom
  filter, fatal out-of-memory, Jenkins' hash function.  A handle holds the element it is
  embedded in (a pointer, here any type \<open>'e\<close>), the bytes of the key and its hash value.  The
  doubly linked list in order of insertion is the list \<open>app_order\<close>, the chain of a bucket is a
  list too, and \<open>None\<close> is the NULL head of an empty table.  The element counters are natural
  numbers; the number of buckets is checked against its 32 bits when it doubles.
\<close>

section \<open>Jenkins' hash function\<close>

definition hash_jen_mix :: "32 word \<Rightarrow> 32 word \<Rightarrow> 32 word \<Rightarrow> 32 word \<times> 32 word \<times> 32 word" where
  "hash_jen_mix a0 b0 c0 =
     (let a = a0 - b0 - c0; a = a XOR drop_bit 13 c0;
          b = b0 - c0 - a; b = b XOR push_bit 8 a;
          c = c0 - a - b; c = c XOR drop_bit 13 b;
          a = a - b - c; a = a XOR drop_bit 12 c;
          b = b - c - a; b = b XOR push_bit 16 a;
          c = c - a - b; c = c XOR drop_bit 5 b;
          a = a - b - c; a = a XOR drop_bit 3 c;
          b = b - c - a; b = b XOR push_bit 10 a;
          c = c - a - b; c = c XOR drop_bit 15 b
      in (a, b, c))"

text \<open>Four bytes at an offset, least significant first; bytes beyond the end do not count.\<close>

definition key_byte :: "byte list \<Rightarrow> nat \<Rightarrow> 32 word" where
  "key_byte k i = (if i < length k then ucast (k ! i) else 0)"

definition key_word :: "byte list \<Rightarrow> nat \<Rightarrow> 32 word" where
  "key_word k i = key_byte k i + push_bit 8 (key_byte k (i + 1)) +
     push_bit 16 (key_byte k (i + 2)) + push_bit 24 (key_byte k (i + 3))"

text \<open>The tail of the key: the bytes 8 to 10 go into the upper three bytes of \<open>hashv\<close>.\<close>

function hash_jen_loop :: "byte list \<Rightarrow> 32 word \<Rightarrow> 32 word \<Rightarrow> 32 word \<Rightarrow>
    byte list \<times> 32 word \<times> 32 word \<times> 32 word" where
  "hash_jen_loop k i j h =
     (if 12 \<le> length k
      then (case hash_jen_mix (i + key_word k 0) (j + key_word k 4) (h + key_word k 8) of
              (i', j', h') \<Rightarrow> hash_jen_loop (drop 12 k) i' j' h')
      else (k, i, j, h))"
  by pat_completeness auto
termination by (relation "measure (\<lambda>(k, i, j, h). length k)") auto

declare hash_jen_loop.simps [simp del]

definition hash_jen :: "byte list \<Rightarrow> 32 word" where
  "hash_jen key =
     (case hash_jen_loop key 0x9e3779b9 0x9e3779b9 0xfeedbeef of
        (k, i, j, h) \<Rightarrow>
          (let h = h + word_of_nat (length key);
               h = h + push_bit 24 (key_byte k 10) + push_bit 16 (key_byte k 9) + push_bit 8 (key_byte k 8);
               j = j + key_word k 4;
               i = i + key_word k 0
           in snd (snd (hash_jen_mix i j h))))"

section \<open>Tables\<close>

record 'e hash_handle =
  elem :: 'e
  hh_key :: "byte list"
  hashv :: "32 word"

record 'e hash_bucket =
  chain :: "'e hash_handle list"
  count' :: nat
  expand_mult :: nat

record 'e hash_table =
  buckets :: "'e hash_bucket list"
  num_buckets :: nat
  log2_num_buckets :: nat
  num_items :: nat
  app_order :: "'e hash_handle list"
  ideal_chain_maxlen :: nat
  nonideal_items :: nat
  ineff_expands :: nat
  noexpand :: bool

type_synonym 'e hash_head = "'e hash_table option"

definition HASH_INITIAL_NUM_BUCKETS :: nat where "HASH_INITIAL_NUM_BUCKETS = 32"
definition HASH_INITIAL_NUM_BUCKETS_LOG2 :: nat where "HASH_INITIAL_NUM_BUCKETS_LOG2 = 5"
definition HASH_BKT_CAPACITY_THRESH :: nat where "HASH_BKT_CAPACITY_THRESH = 10"

definition HASH_TO_BKT :: "32 word \<Rightarrow> nat \<Rightarrow> nat" where
  "HASH_TO_BKT hv num_bkts = unat (hv AND (word_of_nat num_bkts - 1))"

definition empty_bucket :: "'e hash_bucket" where
  "empty_bucket = \<lparr>chain = [], count' = 0, expand_mult = 0\<rparr>"

text \<open>\<open>uthash_malloc\<close> that fails ends the process with \<open>exit(-1)\<close>.\<close>

definition uthash_malloc :: "libc \<Rightarrow> nat \<Rightarrow> unit outcome" where
  "uthash_malloc L n = (if malloc_ok L n then Inr () else Inl (Exit (- 1)))"

definition HASH_MAKE_TABLE :: "libc \<Rightarrow> 'e hash_handle \<Rightarrow> 'e hash_table outcome" where
  "HASH_MAKE_TABLE L h =
     bind_out (uthash_malloc L 64) (\<lambda>_.
     bind_out (uthash_malloc L (HASH_INITIAL_NUM_BUCKETS * 16)) (\<lambda>_.
     Inr \<lparr>buckets = replicate HASH_INITIAL_NUM_BUCKETS empty_bucket,
          num_buckets = HASH_INITIAL_NUM_BUCKETS, log2_num_buckets = HASH_INITIAL_NUM_BUCKETS_LOG2,
          num_items = 0, app_order = [h], ideal_chain_maxlen = 0, nonideal_items = 0,
          ineff_expands = 0, noexpand = False\<rparr>))"

text \<open>One round of the inner loop of \<open>HASH_EXPAND_BUCKETS\<close>: move a handle to its new bucket.\<close>

definition expand_item ::
  "nat \<Rightarrow> nat \<Rightarrow> 'e hash_handle \<Rightarrow> 'e hash_bucket list \<times> nat \<Rightarrow> 'e hash_bucket list \<times> nat" where
  "expand_item nb ideal h = (\<lambda>(bs, nonideal).
     (let i = HASH_TO_BKT (hashv h) nb; b = bs ! i; c = count' b + 1 in
      (bs[i := \<lparr>chain = h # chain b, count' = c,
                expand_mult = (if c > ideal \<and> c > expand_mult b * ideal
                               then expand_mult b + 1 else expand_mult b)\<rparr>],
       if c > ideal then nonideal + 1 else nonideal)))"

text \<open>\<open>ceil(n / b)\<close> for the doubled number of buckets \<open>nb\<close>, by a shift and a mask.\<close>

definition ideal_chain :: "'e hash_table \<Rightarrow> nat \<Rightarrow> nat" where
  "ideal_chain t nb =
     drop_bit (log2_num_buckets t + 1) (num_items t) +
       (if num_items t AND (nb - 1) \<noteq> 0 then 1 else 0)"

definition HASH_EXPAND_BUCKETS :: "libc \<Rightarrow> 'e hash_table \<Rightarrow> 'e hash_table outcome" where
  "HASH_EXPAND_BUCKETS L t =
     bind_out (uthash_malloc L (16 * num_buckets t * 2)) (\<lambda>_.
     if num_buckets t * 2 \<ge> 2 ^ 32 then Inl Undefined
     else
       let nb = num_buckets t * 2;
           ideal = ideal_chain t nb in
       case fold (expand_item nb ideal) (concat (map chain (buckets t)))
              (replicate nb empty_bucket, 0) of
         (bs, nonideal) \<Rightarrow>
           let ineff = (if nonideal > drop_bit 1 (num_items t) then ineff_expands t + 1 else 0) in
           Inr (t\<lparr>buckets := bs, num_buckets := nb, log2_num_buckets := log2_num_buckets t + 1,
                  ideal_chain_maxlen := ideal, nonideal_items := nonideal, ineff_expands := ineff,
                  noexpand := (if ineff > 1 then True else noexpand t)\<rparr>))"

definition HASH_ADD_TO_BKT :: "libc \<Rightarrow> 'e hash_handle \<Rightarrow> nat \<Rightarrow> 'e hash_table \<Rightarrow> 'e hash_table outcome" where
  "HASH_ADD_TO_BKT L h i t =
     (let b = buckets t ! i;
          b' = b\<lparr>count' := count' b + 1, chain := h # chain b\<rparr>;
          t' = t\<lparr>buckets := (buckets t)[i := b']\<rparr> in
      if count' b' \<ge> (expand_mult b' + 1) * HASH_BKT_CAPACITY_THRESH \<and> \<not> noexpand t'
      then HASH_EXPAND_BUCKETS L t' else Inr t')"

definition HASH_ADD_TO_TABLE :: "libc \<Rightarrow> 'e hash_handle \<Rightarrow> 'e hash_table \<Rightarrow> 'e hash_table outcome" where
  "HASH_ADD_TO_TABLE L h t =
     (let t' = t\<lparr>num_items := num_items t + 1\<rparr> in
      HASH_ADD_TO_BKT L h (HASH_TO_BKT (hashv h) (num_buckets t')) t')"

definition HASH_APPEND_LIST :: "'e hash_handle \<Rightarrow> 'e hash_table \<Rightarrow> 'e hash_table" where
  "HASH_APPEND_LIST h t = t\<lparr>app_order := app_order t @ [h]\<rparr>"

definition HASH_ADD_KEYPTR_BYHASHVALUE ::
  "libc \<Rightarrow> byte list \<Rightarrow> 32 word \<Rightarrow> 'e \<Rightarrow> 'e hash_head \<Rightarrow> 'e hash_head outcome" where
  "HASH_ADD_KEYPTR_BYHASHVALUE L key hv e head =
     (let h = \<lparr>elem = e, hh_key = key, hashv = hv\<rparr> in
      bind_out (case head of
                  None \<Rightarrow> HASH_MAKE_TABLE L h
                | Some t \<Rightarrow> Inr (HASH_APPEND_LIST h t)) (\<lambda>t.
      bind_out (HASH_ADD_TO_TABLE L h t) (\<lambda>t'. Inr (Some t'))))"

definition HASH_ADD :: "libc \<Rightarrow> byte list \<Rightarrow> 'e \<Rightarrow> 'e hash_head \<Rightarrow> 'e hash_head outcome" where
  "HASH_ADD L key e head = HASH_ADD_KEYPTR_BYHASHVALUE L key (hash_jen key) e head"

fun HASH_FIND_IN_BKT :: "byte list \<Rightarrow> 32 word \<Rightarrow> 'e hash_handle list \<Rightarrow> 'e hash_handle option" where
  "HASH_FIND_IN_BKT key hv [] = None"
| "HASH_FIND_IN_BKT key hv (h # hs) =
     (if hashv h = hv \<and> length (hh_key h) = length key \<and> hh_key h = key then Some h
      else HASH_FIND_IN_BKT key hv hs)"

definition HASH_FIND_BYHASHVALUE :: "byte list \<Rightarrow> 32 word \<Rightarrow> 'e hash_head \<Rightarrow> 'e option" where
  "HASH_FIND_BYHASHVALUE key hv head =
     (case head of
        None \<Rightarrow> None
      | Some t \<Rightarrow> map_option elem
          (HASH_FIND_IN_BKT key hv (chain (buckets t ! HASH_TO_BKT hv (num_buckets t)))))"

definition HASH_FIND :: "byte list \<Rightarrow> 'e hash_head \<Rightarrow> 'e option" where
  "HASH_FIND key head = HASH_FIND_BYHASHVALUE key (hash_jen key) head"

definition HASH_DEL_IN_BKT :: "'e hash_handle \<Rightarrow> 'e hash_bucket \<Rightarrow> 'e hash_bucket" where
  "HASH_DEL_IN_BKT h b = b\<lparr>count' := count' b - 1, chain := filter (\<lambda>h'. elem h' \<noteq> elem h) (chain b)\<rparr>"

text \<open>Deleting an element that is not in the table follows wild pointers.\<close>

definition HASH_DELETE :: "'e \<Rightarrow> 'e hash_head \<Rightarrow> 'e hash_head outcome" where
  "HASH_DELETE e head =
     (case head of
        None \<Rightarrow> Inl Undefined
      | Some t \<Rightarrow>
          (case find (\<lambda>h. elem h = e) (app_order t) of
             None \<Rightarrow> Inl Undefined
           | Some h \<Rightarrow>
               if length (app_order t) = 1 then Inr None
               else let i = HASH_TO_BKT (hashv h) (num_buckets t) in
                 Inr (Some (t\<lparr>app_order := filter (\<lambda>h'. elem h' \<noteq> e) (app_order t),
                   buckets := (buckets t)[i := HASH_DEL_IN_BKT h (buckets t ! i)],
                   num_items := num_items t - 1\<rparr>))))"

definition HASH_COUNT :: "'e hash_head \<Rightarrow> nat" where
  "HASH_COUNT head = (case head of None \<Rightarrow> 0 | Some t \<Rightarrow> num_items t)"

section \<open>Keys\<close>

text \<open>The bytes of an \<open>int\<close> and of a pointer in memory (little endian).\<close>

definition word_bytes :: "'a::len word \<Rightarrow> byte list" where
  "word_bytes w = map (\<lambda>i. ucast (drop_bit (8 * i) w)) [0..<LENGTH('a) div 8]"

definition int_key :: "int \<Rightarrow> byte list" where
  "int_key i = word_bytes (word_of_int i :: 32 word)"

definition ptr_key :: "nat \<Rightarrow> byte list" where
  "ptr_key p = word_bytes (word_of_nat p :: 64 word)"

definition HASH_FIND_INT :: "int \<Rightarrow> 'e hash_head \<Rightarrow> 'e option" where
  "HASH_FIND_INT i head = HASH_FIND (int_key i) head"

definition HASH_ADD_INT :: "libc \<Rightarrow> int \<Rightarrow> 'e \<Rightarrow> 'e hash_head \<Rightarrow> 'e hash_head outcome" where
  "HASH_ADD_INT L i e head = HASH_ADD L (int_key i) e head"

definition HASH_FIND_PTR :: "nat \<Rightarrow> 'e hash_head \<Rightarrow> 'e option" where
  "HASH_FIND_PTR p head = HASH_FIND (ptr_key p) head"

definition HASH_ADD_PTR :: "libc \<Rightarrow> nat \<Rightarrow> 'e \<Rightarrow> 'e hash_head \<Rightarrow> 'e hash_head outcome" where
  "HASH_ADD_PTR L p e head = HASH_ADD L (ptr_key p) e head"

section \<open>The invariant\<close>

definition bucket_ok :: "nat \<Rightarrow> nat \<Rightarrow> 'e hash_bucket \<Rightarrow> bool" where
  "bucket_ok nb i b \<longleftrightarrow>
     (\<forall>h \<in> set (chain b). HASH_TO_BKT (hashv h) nb = i) \<and> count' b = length (chain b)"

definition buckets_ok :: "nat \<Rightarrow> 'e hash_bucket list \<Rightarrow> 'e hash_handle list \<Rightarrow> bool" where
  "buckets_ok nb bs hs \<longleftrightarrow>
     length bs = nb \<and> (\<forall>i < nb. bucket_ok nb i (bs ! i)) \<and>
     mset (concat (map chain bs)) = mset hs"

definition table_ok :: "'e hash_table \<Rightarrow> bool" where
  "table_ok t \<longleftrightarrow>
     buckets_ok (num_buckets t) (buckets t) (app_order t) \<and>
     num_buckets t = 2 ^ log2_num_buckets t \<and> num_buckets t < 2 ^ 32 \<and>
     num_items t = length (app_order t)"

text \<open>The same without the number of items.\<close>

definition placed :: "'e hash_table \<Rightarrow> bool" where
  "placed t \<longleftrightarrow>
     buckets_ok (num_buckets t) (buckets t) (app_order t) \<and>
     num_buckets t = 2 ^ log2_num_buckets t \<and> num_buckets t < 2 ^ 32"

lemma placed_items [simp]: "placed (t\<lparr>num_items := n\<rparr>) = placed t"
  by (simp add: placed_def)

lemma table_ok_placed: "table_ok t \<longleftrightarrow> placed t \<and> num_items t = length (app_order t)"
  by (auto simp: table_ok_def placed_def)

definition handles :: "'e hash_head \<Rightarrow> 'e hash_handle list" where
  "handles head = (case head of None \<Rightarrow> [] | Some t \<Rightarrow> app_order t)"

definition hash_ok :: "'e hash_head \<Rightarrow> bool" where
  "hash_ok head \<longleftrightarrow>
     (\<forall>t. head = Some t \<longrightarrow> table_ok t \<and> app_order t \<noteq> []) \<and>
     distinct (map elem (handles head)) \<and>
     (\<forall>h \<in> set (handles head). hashv h = hash_jen (hh_key h))"

lemma table_okD:
  assumes "table_ok t"
  shows "buckets_ok (num_buckets t) (buckets t) (app_order t)" "0 < num_buckets t"
    "num_buckets t < 2 ^ 32" "num_items t = length (app_order t)"
  using assms by (auto simp only: table_ok_def) simp

lemma hash_ok_Some: "hash_ok (Some t) \<Longrightarrow> table_ok t"
  by (simp add: hash_ok_def)

lemma HASH_TO_BKT_less:
  assumes "0 < nb" "nb < 2 ^ 32"
  shows "HASH_TO_BKT hv nb < nb"
proof -
  have nb: "unat (word_of_nat nb :: 32 word) = nb" using assms(2) by (simp add: unat_of_nat)
  have "unat (word_of_nat nb - 1 :: 32 word) = nb - 1"
    using assms(1) nb by (metis One_nat_def gr0_conv_Suc less_numeral_extra(3) unat_0 unat_minus_one)
  moreover have "unat (hv AND (word_of_nat nb - 1)) \<le> unat (word_of_nat nb - 1 :: 32 word)"
    by (simp add: word_and_le1 word_le_nat_alt [symmetric])
  ultimately show ?thesis using assms(1) unfolding HASH_TO_BKT_def by linarith
qed

lemma mset_concat_update:
  "i < length bs \<Longrightarrow>
     mset (concat (map f (bs[i := b]))) + mset (f (bs ! i)) = mset (concat (map f bs)) + mset (f b)"
  by (induction bs arbitrary: i) (auto split: nat.splits)

lemma buckets_ok_push:
  assumes "buckets_ok nb bs hs" "i = HASH_TO_BKT (hashv h) nb" "i < nb"
    and "chain b = h # chain (bs ! i)" "count' b = count' (bs ! i) + 1"
  shows "buckets_ok nb (bs[i := b]) (h # hs)"
proof -
  have "length bs = nb" and b: "\<forall>j < nb. bucket_ok nb j (bs ! j)"
      and m: "mset (concat (map chain bs)) = mset hs"
    using assms(1) by (simp_all add: buckets_ok_def)
  moreover have "bucket_ok nb j (bs[i := b] ! j)" if "j < nb" for j
    using that assms(2-5) b \<open>length bs = nb\<close> by (cases "j = i") (auto simp: bucket_ok_def)
  moreover have "mset (concat (map chain (bs[i := b]))) + mset (chain (bs ! i)) =
      mset (h # hs) + mset (chain (bs ! i))"
    using mset_concat_update [of i bs chain b] assms(3,4) \<open>length bs = nb\<close> m by simp
  ultimately show ?thesis by (simp add: buckets_ok_def)
qed

lemma buckets_ok_remove:
  assumes "buckets_ok nb bs hs" "i = HASH_TO_BKT (hashv h) nb" "i < nb" "h \<in> set hs"
    and "distinct (map elem hs)"
  shows "buckets_ok nb (bs[i := HASH_DEL_IN_BKT h (bs ! i)]) (filter (\<lambda>h'. elem h' \<noteq> elem h) hs)"
proof -
  have len: "length bs = nb" and b: "\<forall>j < nb. bucket_ok nb j (bs ! j)"
      and m: "mset (concat (map chain bs)) = mset hs"
    using assms(1) by (simp_all add: buckets_ok_def)
  have eq: "elem h' = elem h \<longleftrightarrow> h' = h" if "h' \<in> set hs" for h'
    using assms(4,5) that by (auto simp: distinct_map inj_on_def)
  have sub: "set (chain (bs ! j)) \<subseteq> set hs" if "j < nb" for j
    using that len m by (metis (no_types, lifting) UN_I image_eqI nth_mem set_concat set_map
        mset_eq_setD subsetI)
  have "h \<in> set (concat (map chain bs))" using m assms(4) by (metis mset_eq_setD)
  then obtain b1 where "b1 \<in> set bs" "h \<in> set (chain b1)" by auto
  then obtain j where j: "j < nb" "h \<in> set (chain (bs ! j))" using len by (metis in_set_conv_nth)
  then have hi: "h \<in> set (chain (bs ! i))" using b assms(2) by (auto simp: bucket_ok_def)
  have filt: "filter (\<lambda>h'. elem h' \<noteq> elem h) hs' = filter (\<lambda>h'. h' \<noteq> h) hs'" if "set hs' \<subseteq> set hs" for hs'
    using that eq by (intro filter_cong) auto
  have "distinct hs" using assms(5) by (simp add: distinct_map)
  then have one: "count (mset hs) h = 1" using assms(4) by (simp add: distinct_count_atmost_1)
  have rem: "mset (filter (\<lambda>h'. h' \<noteq> h) hs') + {#h#} = mset hs'"
    if "h \<in> set hs'" "count (mset hs') h = 1" for hs'
  proof -
    have "filter_mset (\<lambda>h'. h' = h) (mset hs') = {#h#}"
      using that(2) by (simp add: filter_eq_replicate_mset)
    then show ?thesis using multiset_partition [of "mset hs'" "\<lambda>h'. h' \<noteq> h"] by (simp add: mset_filter)
  qed
  have sub': "mset (chain (bs ! i)) \<subseteq># mset hs"
    using mset_concat_update [of i bs chain "(bs ! i)\<lparr>chain := []\<rparr>"] assms(3) len m
    by (metis add.right_neutral hash_bucket.select_convs(1) hash_bucket.surjective
        hash_bucket.update_convs(1) mset.simps(1) mset_subset_eq_add_right)
  then have onei: "count (mset (chain (bs ! i))) h = 1"
    using one hi mset_subset_eq_count [OF sub', of h] by (simp add: count_mset_0_iff le_antisym Suc_leI)
  have remi: "mset (filter (\<lambda>h'. h' \<noteq> h) (chain (bs ! i))) + {#h#} = mset (chain (bs ! i))"
    by (rule rem [OF hi onei])
  then have leni: "length (filter (\<lambda>h'. h' \<noteq> h) (chain (bs ! i))) = length (chain (bs ! i)) - 1"
    by (metis add_diff_cancel_right' size_add_mset size_mset add_mset_add_single diff_Suc_1)
  have "bucket_ok nb j (bs[i := HASH_DEL_IN_BKT h (bs ! i)] ! j)" if "j < nb" for j
    using that b assms(3) len leni filt [OF sub [OF assms(3)]]
    by (cases "j = i") (auto simp: bucket_ok_def HASH_DEL_IN_BKT_def)
  moreover have "mset (concat (map chain (bs[i := HASH_DEL_IN_BKT h (bs ! i)]))) = mset (filter (\<lambda>h'. h' \<noteq> h) hs)"
  proof -
    have "mset (concat (map chain (bs[i := HASH_DEL_IN_BKT h (bs ! i)]))) + mset (chain (bs ! i)) =
        mset hs + mset (filter (\<lambda>h'. h' \<noteq> h) (chain (bs ! i)))"
      using mset_concat_update [of i bs chain "HASH_DEL_IN_BKT h (bs ! i)"] assms(3) len m
        filt [OF sub [OF assms(3)]] by (simp add: HASH_DEL_IN_BKT_def)
    also have "\<dots> = mset (filter (\<lambda>h'. h' \<noteq> h) hs) + mset (chain (bs ! i))"
      unfolding rem [OF assms(4) one, symmetric] remi [symmetric] by (simp only: add.assoc add.commute add.left_commute)
    finally show ?thesis by simp
  qed
  ultimately show ?thesis using len filt [OF order_refl] by (simp add: buckets_ok_def)
qed

section \<open>The operations keep the invariant\<close>

lemma buckets_ok_empty: "buckets_ok nb (replicate nb empty_bucket) []"
  by (simp add: buckets_ok_def bucket_ok_def empty_bucket_def)

lemma buckets_ok_mset: "buckets_ok nb bs hs \<Longrightarrow> mset hs = mset hs' \<Longrightarrow> buckets_ok nb bs hs'"
  by (simp add: buckets_ok_def)

lemma expand_item_ok:
  assumes "buckets_ok nb bs hs" "0 < nb" "nb < 2 ^ 32" "expand_item nb ideal h (bs, n) = (bs', n')"
  shows "buckets_ok nb bs' (h # hs)"
  using assms(4) buckets_ok_push [OF assms(1) refl HASH_TO_BKT_less [OF assms(2,3)]]
  by (auto simp: expand_item_def Let_def)

lemma expand_fold_ok:
  assumes "buckets_ok nb bs hs" "0 < nb" "nb < 2 ^ 32"
    "fold (expand_item nb ideal) xs (bs, n) = (bs', n')"
  shows "buckets_ok nb bs' (rev xs @ hs)"
  using assms(1,4)
proof (induction xs arbitrary: bs n hs)
  case (Cons x xs)
  obtain bs1 n1 where e: "expand_item nb ideal x (bs, n) = (bs1, n1)" by fastforce
  then show ?case
    using Cons.IH [of bs1 "x # hs" n1] Cons.prems expand_item_ok [OF Cons.prems(1) assms(2,3) e] by simp
qed simp

text \<open>Expanding changes neither the elements nor their order, and finds each its bucket.\<close>

lemma HASH_EXPAND_BUCKETS_placed:
  assumes "placed t" "HASH_EXPAND_BUCKETS L t = Inr t'"
  shows "placed t' \<and> app_order t' = app_order t \<and> num_items t' = num_items t"
proof -
  define nb where "nb = num_buckets t * 2"
  have nb: "0 < nb" "nb < 2 ^ 32" "nb = 2 ^ (log2_num_buckets t + 1)"
    using assms by (auto simp: HASH_EXPAND_BUCKETS_def bind_out_eq_Inr placed_def nb_def split: if_splits)
  define ideal where "ideal = ideal_chain t nb"
  obtain bs n where f: "fold (expand_item nb ideal) (concat (map chain (buckets t)))
      (replicate nb empty_bucket, 0) = (bs, n)" by fastforce
  have "buckets_ok nb bs (rev (concat (map chain (buckets t))) @ [])"
    by (rule expand_fold_ok [OF buckets_ok_empty nb(1,2) f])
  then have bs: "buckets_ok nb bs (app_order t)"
    using assms(1) by (auto simp: placed_def buckets_ok_def)
  have t': "buckets t' = bs \<and> num_buckets t' = nb \<and> log2_num_buckets t' = log2_num_buckets t + 1 \<and>
      num_items t' = num_items t \<and> app_order t' = app_order t"
    using assms(2) f nb(2) by (auto simp: HASH_EXPAND_BUCKETS_def bind_out_eq_Inr Let_def
        simp flip: nb_def ideal_def)
  then show ?thesis using bs nb by (simp add: placed_def)
qed

lemma HASH_EXPAND_BUCKETS_ok:
  "table_ok t \<Longrightarrow> HASH_EXPAND_BUCKETS L t = Inr t' \<Longrightarrow> table_ok t' \<and> app_order t' = app_order t"
  using HASH_EXPAND_BUCKETS_placed [of t L t'] by (simp add: table_ok_placed)

text \<open>A table whose list holds \<open>h\<close>, before \<open>h\<close> has been put into a bucket.\<close>

lemma HASH_ADD_TO_TABLE_ok:
  assumes bs: "buckets_ok (num_buckets t) (buckets t) hs" "mset (app_order t) = add_mset h (mset hs)"
    and nb: "num_buckets t = 2 ^ log2_num_buckets t" "num_buckets t < 2 ^ 32" "num_items t = length hs"
    and add: "HASH_ADD_TO_TABLE L h t = Inr t'"
  shows "table_ok t' \<and> app_order t' = app_order t"
proof -
  define i where "i = HASH_TO_BKT (hashv h) (num_buckets t)"
  define b where "b = (buckets t ! i)\<lparr>count' := count' (buckets t ! i) + 1, chain := h # chain (buckets t ! i)\<rparr>"
  define t1 where "t1 = t\<lparr>num_items := num_items t + 1, buckets := (buckets t)[i := b]\<rparr>"
  have "i < num_buckets t" using nb by (simp add: i_def HASH_TO_BKT_less)
  then have "buckets_ok (num_buckets t) ((buckets t)[i := b]) (h # hs)"
    by (intro buckets_ok_push [OF bs(1) i_def]) (simp_all add: b_def)
  then have t1: "table_ok t1" "app_order t1 = app_order t"
    using bs(2) nb mset_eq_length [of "app_order t" "h # hs"] by (auto simp: table_ok_def t1_def intro: buckets_ok_mset)
  have "HASH_EXPAND_BUCKETS L t1 = Inr t' \<or> t' = t1"
    using add by (auto simp: HASH_ADD_TO_TABLE_def HASH_ADD_TO_BKT_def Let_def t1_def b_def i_def split: if_splits)
  then show ?thesis using t1 HASH_EXPAND_BUCKETS_ok [of t1 L t'] by auto
qed

text \<open>An insertion, wherever \<open>place\<close> puts the new handle into the order of the elements.\<close>

lemma hash_insert_ok:
  assumes ok: "hash_ok head" "e \<notin> elem ` set (handles head)" "hv = hash_jen key"
    and h: "h = \<lparr>elem = e, hh_key = key, hashv = hv\<rparr>"
    and place: "\<And>hs. mset (place hs) = add_mset h (mset hs)"
    and link: "\<And>t. link t = t\<lparr>app_order := place (app_order t)\<rparr>"
    and table: "(case head of None \<Rightarrow> HASH_MAKE_TABLE L h | Some t \<Rightarrow> Inr (link t)) = Inr t"
    and add: "HASH_ADD_TO_TABLE L h t = Inr t'"
  shows "hash_ok (Some t') \<and> handles (Some t') = place (handles head)"
proof -
  have "place [] = [h]" using place [of "[]"] by simp
  then have "buckets_ok (num_buckets t) (buckets t) (handles head) \<and> app_order t = place (handles head) \<and>
      num_buckets t = 2 ^ log2_num_buckets t \<and> num_buckets t < 2 ^ 32 \<and> num_items t = length (handles head)"
    using table link ok(1) buckets_ok_empty [of HASH_INITIAL_NUM_BUCKETS]
    by (cases head) (auto simp: HASH_MAKE_TABLE_def bind_out_eq_Inr handles_def HASH_INITIAL_NUM_BUCKETS_def
          HASH_INITIAL_NUM_BUCKETS_LOG2_def hash_ok_def table_ok_def)
  then have t': "table_ok t' \<and> app_order t' = place (handles head)"
    using HASH_ADD_TO_TABLE_ok [OF _ _ _ _ _ add] place by metis
  have p: "mset (place (handles head)) = mset (h # handles head)" using place by simp
  have "distinct (map elem (place (handles head)))"
    using ok(1,2) mset_eq_imp_distinct_iff [of "map elem (place (handles head))" "map elem (h # handles head)"] p
    by (simp add: hash_ok_def h)
  then show ?thesis using ok t' mset_eq_setD [OF p] p by (auto simp: hash_ok_def handles_def [of "Some _"] h)
qed

lemma HASH_ADD_ok:
  assumes "hash_ok head" "e \<notin> elem ` set (handles head)" "HASH_ADD L key e head = Inr head'"
  shows "hash_ok head' \<and> handles head' = handles head @ [\<lparr>elem = e, hh_key = key, hashv = hash_jen key\<rparr>]"
proof -
  define h where "h = \<lparr>elem = e, hh_key = key, hashv = hash_jen key\<rparr>"
  obtain t t' where t: "(case head of None \<Rightarrow> HASH_MAKE_TABLE L h | Some t \<Rightarrow> Inr (HASH_APPEND_LIST h t)) = Inr t"
      "HASH_ADD_TO_TABLE L h t = Inr t'" "head' = Some t'"
    using assms(3) by (auto simp: HASH_ADD_def HASH_ADD_KEYPTR_BYHASHVALUE_def Let_def
        bind_out_eq_Inr simp flip: h_def)
  show ?thesis using hash_insert_ok [OF assms(1,2) refl h_def _ HASH_APPEND_LIST_def t(1,2)] t(3) by (simp add: h_def)
qed

lemma HASH_DELETE_ok:
  assumes ok: "hash_ok head" and e: "e \<in> elem ` set (handles head)"
  shows "\<exists>head'. HASH_DELETE e head = Inr head' \<and> hash_ok head' \<and>
    handles head' = filter (\<lambda>h. elem h \<noteq> e) (handles head)"
proof -
  obtain t where head: "head = Some t" using e by (cases head) (auto simp: handles_def)
  have t: "table_ok t" "app_order t \<noteq> []" "distinct (map elem (app_order t))"
      "\<forall>h \<in> set (app_order t). hashv h = hash_jen (hh_key h)"
    using ok by (simp_all add: head hash_ok_def handles_def)
  have "\<exists>h. find (\<lambda>h. elem h = e) (app_order t) = Some h"
    using e by (cases "find (\<lambda>h. elem h = e) (app_order t)") (auto simp: head handles_def find_None_iff)
  then obtain h where f: "find (\<lambda>h. elem h = e) (app_order t) = Some h" by blast
  then have h: "h \<in> set (app_order t)" "elem h = e" by (auto simp: find_Some_iff)
  have small: "filter (\<lambda>h'. elem h' \<noteq> e) (app_order t) = [] \<longleftrightarrow> length (app_order t) = 1"
  proof
    assume "filter (\<lambda>h'. elem h' \<noteq> e) (app_order t) = []"
    then have "elem ` set (app_order t) \<subseteq> {e}" by (auto simp: filter_empty_conv)
    then have "card (elem ` set (app_order t)) \<le> 1" by (metis card_mono card.empty card_insert_disjoint
          empty_iff finite.emptyI finite_insert One_nat_def)
    moreover have "card (elem ` set (app_order t)) = length (app_order t)"
      using t(3) by (metis distinct_card length_map list.set_map)
    ultimately show "length (app_order t) = 1" using t(2) by (simp add: le_Suc_eq)
  next
    assume "length (app_order t) = 1"
    then show "filter (\<lambda>h'. elem h' \<noteq> e) (app_order t) = []"
      using h by (cases "app_order t") auto
  qed
  show ?thesis
  proof (cases "length (app_order t) = 1")
    case True
    then show ?thesis using f small by (simp add: HASH_DELETE_def head hash_ok_def handles_def)
  next
    case False
    define i where "i = HASH_TO_BKT (hashv h) (num_buckets t)"
    define t' where "t' = t\<lparr>app_order := filter (\<lambda>h'. elem h' \<noteq> e) (app_order t),
        buckets := (buckets t)[i := HASH_DEL_IN_BKT h (buckets t ! i)], num_items := num_items t - 1\<rparr>"
    have "i < num_buckets t" using t(1) by (simp add: i_def HASH_TO_BKT_less table_ok_def)
    then have "buckets_ok (num_buckets t) (buckets t') (app_order t')"
      using buckets_ok_remove [OF table_okD(1) [OF t(1)] i_def _ h(1) t(3)] h(2) by (simp add: t'_def)
    moreover have "length (filter (\<lambda>h'. elem h' \<noteq> e) (app_order t)) = length (app_order t) - 1"
      using length_filter_distinct [OF t(3), of e] h by auto
    ultimately have "table_ok t'" using t(1) by (simp add: table_ok_def t'_def)
    moreover have "HASH_DELETE e head = Inr (Some t')"
      using f False by (simp add: HASH_DELETE_def head t'_def i_def Let_def)
    moreover have "distinct (map elem (app_order t'))"
      using t(3) by (simp add: t'_def distinct_map_filter)
    ultimately show ?thesis
      using small False t(4) by (auto simp: hash_ok_def handles_def head t'_def)
  qed
qed

section \<open>Lookup\<close>

lemma HASH_FIND_IN_BKT_Some:
  "HASH_FIND_IN_BKT key hv hs = Some h \<Longrightarrow> h \<in> set hs \<and> hh_key h = key \<and> hashv h = hv"
  by (induction hs) (auto split: if_splits)

lemma HASH_FIND_IN_BKT_None:
  "HASH_FIND_IN_BKT key hv hs = None \<Longrightarrow> h \<in> set hs \<Longrightarrow> \<not> (hh_key h = key \<and> hashv h = hv)"
  by (induction hs) (auto split: if_splits)

lemma bucket_of_handle:
  assumes "buckets_ok nb bs hs" "h \<in> set hs"
  shows "HASH_TO_BKT (hashv h) nb < nb \<and> h \<in> set (chain (bs ! HASH_TO_BKT (hashv h) nb))"
proof -
  have "h \<in> set (concat (map chain bs))" using assms by (metis buckets_ok_def mset_eq_setD)
  then obtain b1 where "b1 \<in> set bs" "h \<in> set (chain b1)" by auto
  then obtain j where "j < nb" "h \<in> set (chain (bs ! j))" using assms(1) by (metis in_set_conv_nth buckets_ok_def)
  then show ?thesis using assms(1) by (auto simp: buckets_ok_def bucket_ok_def)
qed

lemma handle_of_bucket:
  assumes "buckets_ok nb bs hs" "i < nb" "h \<in> set (chain (bs ! i))"
  shows "h \<in> set hs"
proof -
  have "h \<in> set (concat (map chain bs))" using assms by (auto simp: buckets_ok_def)
  then show ?thesis using assms(1) by (metis buckets_ok_def mset_eq_setD)
qed

lemma HASH_FIND_Some:
  assumes "hash_ok head" "HASH_FIND key head = Some e"
  shows "\<exists>h \<in> set (handles head). hh_key h = key \<and> elem h = e"
proof -
  obtain t h where t: "head = Some t" "elem h = e"
      "HASH_FIND_IN_BKT key (hash_jen key) (chain (buckets t ! HASH_TO_BKT (hash_jen key) (num_buckets t))) = Some h"
    using assms(2) by (auto simp: HASH_FIND_def HASH_FIND_BYHASHVALUE_def split: option.splits)
  have ok: "buckets_ok (num_buckets t) (buckets t) (app_order t)" "0 < num_buckets t" "num_buckets t < 2 ^ 32"
    using table_okD [OF hash_ok_Some] assms(1) t(1) by blast+
  then show ?thesis
    using HASH_FIND_IN_BKT_Some [OF t(3)] handle_of_bucket [OF ok(1) HASH_TO_BKT_less [OF ok(2,3)]] t(1,2)
    by (auto simp: handles_def)
qed

lemma HASH_FIND_None:
  assumes "hash_ok head" "HASH_FIND key head = None"
  shows "key \<notin> hh_key ` set (handles head)"
proof
  assume "key \<in> hh_key ` set (handles head)"
  then obtain h where h: "h \<in> set (handles head)" "hh_key h = key" by blast
  then obtain t where t: "head = Some t" by (cases head) (auto simp: handles_def)
  have hv: "hashv h = hash_jen key" using assms(1) h by (auto simp: hash_ok_def)
  have "buckets_ok (num_buckets t) (buckets t) (app_order t)" "h \<in> set (app_order t)"
    using table_okD(1) [OF hash_ok_Some] assms(1) h(1) t by (auto simp: handles_def)
  from bucket_of_handle [OF this] show False
    using HASH_FIND_IN_BKT_None [of key "hash_jen key" _ h] assms(2) h(2) hv t
    by (auto simp: HASH_FIND_def HASH_FIND_BYHASHVALUE_def)
qed

section \<open>Keys are injective\<close>

lemma word_bytes_bit:
  fixes w :: "'a::len word"
  assumes "n < LENGTH('a)" "LENGTH('a) mod 8 = 0"
  shows "bit w n = bit (word_bytes w ! (n div 8)) (n mod 8)"
proof -
  have "n div 8 < LENGTH('a) div 8" using assms by (metis less_mult_imp_div_less mult.commute mult_div_mod_eq add.right_neutral)
  then have "word_bytes w ! (n div 8) = ucast (drop_bit (8 * (n div 8)) w)"
    by (simp add: word_bytes_def)
  then show ?thesis using assms by (simp add: bit_ucast_iff bit_drop_bit_eq)
qed

lemma word_bytes_inj:
  fixes v w :: "'a::len word"
  assumes "word_bytes v = word_bytes w" "LENGTH('a) mod 8 = 0"
  shows "v = w"
proof (rule bit_word_eqI)
  fix n assume "n < LENGTH('a)"
  then show "bit v n = bit w n"
    using word_bytes_bit [of n v] word_bytes_bit [of n w] assms by simp
qed

lemma int_key_eq_iff:
  assumes "fits_int i" "fits_int j"
  shows "int_key i = int_key j \<longleftrightarrow> i = j"
proof
  assume "int_key i = int_key j"
  then have "(word_of_int i :: 32 word) = word_of_int j"
    unfolding int_key_def by (rule word_bytes_inj) simp
  then have "i mod 2 ^ 32 = j mod 2 ^ 32" by (simp add: word_of_int_eq_iff take_bit_eq_mod)
  then have "(i - j) mod 2 ^ 32 = 0" by (simp add: mod_eq_dvd_iff dvd_imp_mod_0)
  then obtain k where "i - j = 2 ^ 32 * k" by (metis mod_0_imp_dvd dvdE)
  moreover have "- (2 ^ 32) < i - j" "i - j < 2 ^ 32" using assms by (auto simp: fits_int_def)
  ultimately show "i = j" by auto
qed simp

lemma ptr_key_eq_iff:
  assumes "p < 2 ^ 64" "q < 2 ^ 64"
  shows "ptr_key p = ptr_key q \<longleftrightarrow> p = q"
proof
  assume "ptr_key p = ptr_key q"
  then have "(word_of_nat p :: 64 word) = word_of_nat q"
    unfolding ptr_key_def by (rule word_bytes_inj) simp
  then show "p = q" using assms unat_of_nat_size by metis
qed simp

section \<open>The dictionary interface\<close>

text \<open>
  What the clients of the table rely on: elements are kept in order of insertion, an element
  is added once and deleted while present, and a lookup finds an element with the key if and
  only if there is one.
\<close>

locale dictionary =
  fixes ok :: "'t \<Rightarrow> bool"
    and entries :: "'t \<Rightarrow> ('k \<times> 'e) list"
    and find_key :: "'k \<Rightarrow> 't \<Rightarrow> 'e option"
    and add :: "libc \<Rightarrow> 'k \<Rightarrow> 'e \<Rightarrow> 't \<Rightarrow> 't outcome"
    and del :: "'e \<Rightarrow> 't \<Rightarrow> 't outcome"
  assumes find_some: "ok t \<Longrightarrow> find_key k t = Some e \<Longrightarrow> (k, e) \<in> set (entries t)"
    and find_none: "ok t \<Longrightarrow> find_key k t = None \<Longrightarrow> k \<notin> fst ` set (entries t)"
    and add_entry: "ok t \<Longrightarrow> e \<notin> snd ` set (entries t) \<Longrightarrow> add L k e t = Inr t' \<Longrightarrow>
      ok t' \<and> entries t' = entries t @ [(k, e)]"
    and del_entry: "ok t \<Longrightarrow> e \<in> snd ` set (entries t) \<Longrightarrow>
      \<exists>t'. del e t = Inr t' \<and> ok t' \<and> entries t' = filter (\<lambda>x. snd x \<noteq> e) (entries t)"
begin

lemma find_key_map_of:
  assumes "ok t" "distinct (map fst (entries t))"
  shows "find_key k t = map_of (entries t) k"
proof (cases "find_key k t")
  case None
  then show ?thesis using find_none [OF assms(1)] by (metis map_of_eq_None_iff)
next
  case (Some e)
  then show ?thesis using find_some [OF assms(1) Some] assms(2) by simp
qed

lemma find_after_add:
  assumes "ok t" "distinct (map fst (entries t))" "e \<notin> snd ` set (entries t)"
    "k \<notin> fst ` set (entries t)" "add L k e t = Inr t'"
  shows "find_key k' t' = (if k' = k then Some e else find_key k' t) \<and> distinct (map fst (entries t'))"
proof -
  have t': "ok t'" "entries t' = entries t @ [(k, e)]" using add_entry [OF assms(1,3,5)] by simp_all
  moreover have "distinct (map fst (entries t'))" using assms(2,4) t'(2) by auto
  ultimately show ?thesis
    using assms(1,2,4) find_key_map_of [of t' k'] find_key_map_of [of t k']
    by (auto simp: map_add_def map_of_eq_None_iff [symmetric] split: option.splits)
qed

lemma find_after_del:
  assumes "ok t" "distinct (map fst (entries t))" "distinct (map snd (entries t))" "(k, e) \<in> set (entries t)"
  shows "\<exists>t'. del e t = Inr t' \<and> ok t' \<and> distinct (map fst (entries t')) \<and>
    find_key k' t' = (if k' = k then None else find_key k' t)"
proof -
  have "e \<in> snd ` set (entries t)" using assms(4) by force
  then obtain t' where t': "del e t = Inr t'" "ok t'" "entries t' = filter (\<lambda>x. snd x \<noteq> e) (entries t)"
    using del_entry [OF assms(1)] by blast
  have uniq: "snd x = e \<longleftrightarrow> x = (k, e)" if "x \<in> set (entries t)" for x
    using that assms(3,4) by (auto simp: distinct_map inj_on_def)
  have d': "distinct (map fst (entries t'))" using assms(2) t'(3) by (simp add: distinct_map_filter)
  have "map_of (entries t') k' = (if k' = k then None else map_of (entries t) k')"
  proof (cases "map_of (entries t') k'")
    case None
    have "map_of (entries t) k' = None" if "k' \<noteq> k"
    proof (rule ccontr)
      assume "map_of (entries t) k' \<noteq> None"
      then obtain e' where e': "(k', e') \<in> set (entries t)" using map_of_SomeD by fastforce
      then have "e' \<noteq> e" using uniq [OF e'] that by auto
      then have "(k', e') \<in> set (entries t')" using e' t'(3) by simp
      then show False using None weak_map_of_SomeI by force
    qed
    then show ?thesis using None by auto
  next
    case (Some e')
    then have m: "(k', e') \<in> set (entries t)" "e' \<noteq> e" using map_of_SomeD [OF Some] t'(3) by auto
    then have "k' \<noteq> k" using assms(2,4) by (metis eq_key_imp_eq_value)
    then show ?thesis using Some m(1) assms(2) by simp
  qed
  then show ?thesis
    using t'(1,2) d' find_key_map_of [OF t'(2) d'] find_key_map_of [OF assms(1,2)] by simp
qed

end

definition hash_entries :: "'e hash_head \<Rightarrow> (byte list \<times> 'e) list" where
  "hash_entries head = map (\<lambda>h. (hh_key h, elem h)) (handles head)"

lemma hash_entries_None [simp]: "hash_entries None = []"
  by (simp add: hash_entries_def handles_def)

lemma hash_ok_None [simp]: "hash_ok None"
  by (simp add: hash_ok_def handles_def)

lemma hash_entries_snd: "snd ` set (hash_entries head) = elem ` set (handles head)"
  by (force simp: hash_entries_def)

lemma hash_ok_distinct: "hash_ok head \<Longrightarrow> distinct (map snd (hash_entries head))"
  by (simp add: hash_ok_def hash_entries_def comp_def)

interpretation uthash: dictionary hash_ok hash_entries HASH_FIND HASH_ADD HASH_DELETE
proof (unfold_locales, goal_cases)
  case (1 t k e)
  then show ?case using HASH_FIND_Some [OF 1] by (force simp: hash_entries_def)
next
  case (2 t k)
  then show ?case using HASH_FIND_None [OF 2] by (auto simp: hash_entries_def)
next
  case (3 t e L k t')
  then show ?case using HASH_ADD_ok [of t e L k t'] by (simp add: hash_entries_snd) (simp add: hash_entries_def)
next
  case (4 t e)
  then show ?case using HASH_DELETE_ok [of t e]
    by (fastforce simp: hash_entries_snd hash_entries_def filter_map comp_def)
qed

end
