(* ===== verification/Uthash_Laws.thy ===== *)
theory Uthash_Laws
  imports Uthash
begin

text \<open>
  The properties of the hash table over sequences of operations: it refines a dictionary kept
  as an association list in order of insertion, through any number of bucket expansions, and
  the only way it can fail is \<open>exit(-1)\<close> when \<open>malloc\<close> refuses.
\<close>

section \<open>Failure and success of an insertion\<close>

text \<open>
  \<open>bounded_memory\<close>: the allocator never grants 64 GiB at once, so the count of buckets never
  reaches the \<open>2 ^ 32\<close> at which it would wrap to 0.
\<close>

definition bounded_memory :: "libc \<Rightarrow> bool" where
  "bounded_memory L \<longleftrightarrow> (\<forall>n. malloc_ok L n \<longrightarrow> n < 2 ^ 36)"

lemmas hash_add_defs = HASH_ADD_def HASH_ADD_KEYPTR_BYHASHVALUE_def HASH_ADD_TO_TABLE_def
  HASH_ADD_TO_BKT_def HASH_MAKE_TABLE_def uthash_malloc_def

lemma uthash_malloc_cases:
  "uthash_malloc L n = Inl x \<Longrightarrow> x = Exit (- 1)"
  "uthash_malloc L n = Inr u \<Longrightarrow> malloc_ok L n"
  by (auto simp: uthash_malloc_def split: if_splits)

lemma HASH_EXPAND_BUCKETS_fails:
  assumes "bounded_memory L" "HASH_EXPAND_BUCKETS L t = Inl x"
  shows "x = Exit (- 1)"
proof (cases "uthash_malloc L (16 * num_buckets t * 2)")
  case (Inl y)
  then show ?thesis using assms(2) uthash_malloc_cases(1) [OF Inl] by (simp add: HASH_EXPAND_BUCKETS_def)
next
  case (Inr u)
  have "num_buckets t * 2 < 2 ^ 32" using uthash_malloc_cases(2) [OF Inr] assms(1)
    by (auto simp: bounded_memory_def)
  then show ?thesis using assms(2) Inr
    by (simp add: HASH_EXPAND_BUCKETS_def Let_def split: prod.splits)
qed

lemma HASH_ADD_TO_TABLE_fails:
  "bounded_memory L \<Longrightarrow> HASH_ADD_TO_TABLE L h t = Inl x \<Longrightarrow> x = Exit (- 1)"
  by (auto simp: HASH_ADD_TO_TABLE_def HASH_ADD_TO_BKT_def Let_def split: if_splits dest: HASH_EXPAND_BUCKETS_fails)

lemma HASH_MAKE_TABLE_fails: "HASH_MAKE_TABLE L h = Inl x \<Longrightarrow> x = Exit (- 1)"
  by (auto simp: HASH_MAKE_TABLE_def bind_out_def uthash_malloc_def split: if_splits)

lemma HASH_ADD_fails:
  "bounded_memory L \<Longrightarrow> HASH_ADD L k e head = Inl x \<Longrightarrow> x = Exit (- 1)"
  by (cases head)
    (auto simp: hash_add_defs Let_def bind_out_def split: if_splits sum.splits
      dest: HASH_EXPAND_BUCKETS_fails)

definition hash_log2 :: "'e hash_head \<Rightarrow> nat" where
  "hash_log2 head = (case head of None \<Rightarrow> HASH_INITIAL_NUM_BUCKETS_LOG2 | Some t \<Rightarrow> log2_num_buckets t)"

lemma HASH_ADD_total:
  assumes "\<forall>n. malloc_ok L n" "hash_ok head" "hash_log2 head < 31"
  shows "\<exists>head'. HASH_ADD L k e head = Inr head'"
proof -
  have ex: "\<exists>t'. HASH_EXPAND_BUCKETS L t = Inr t'" if "num_buckets t = 2 ^ log2_num_buckets t" "log2_num_buckets t < 31"
    for t :: "'a hash_table"
  proof -
    have "num_buckets t * 2 = 2 ^ (log2_num_buckets t + 1)" using that(1) by simp
    also have "\<dots> < 2 ^ 32" using that(2) by (intro power_strict_increasing) simp_all
    finally show ?thesis using assms(1)
      by (simp add: HASH_EXPAND_BUCKETS_def uthash_malloc_def Let_def split: prod.splits)
  qed
  show ?thesis
  proof (cases head)
    case None
    then show ?thesis using assms(1)
      by (auto simp: hash_add_defs Let_def HASH_INITIAL_NUM_BUCKETS_def HASH_INITIAL_NUM_BUCKETS_LOG2_def
          bind_out_eq_Inr intro!: ex)
  next
    case (Some t)
    then have "num_buckets t = 2 ^ log2_num_buckets t" "log2_num_buckets t < 31"
      using assms(2,3) by (auto simp: hash_ok_def table_ok_def hash_log2_def)
    then show ?thesis using Some
      by (auto simp: hash_add_defs Let_def HASH_APPEND_LIST_def bind_out_eq_Inr intro!: ex)
  qed
qed

text \<open>The first insertion needs the table and its 32 buckets and expands nothing.\<close>

lemma first_add:
  assumes "malloc_ok L 64" "malloc_ok L (HASH_INITIAL_NUM_BUCKETS * 16)"
  shows "\<exists>head. HASH_ADD L k e None = Inr head"
proof -
  have "HASH_TO_BKT (hash_jen k) HASH_INITIAL_NUM_BUCKETS < HASH_INITIAL_NUM_BUCKETS"
    by (rule HASH_TO_BKT_less) (simp_all add: HASH_INITIAL_NUM_BUCKETS_def)
  then have "replicate HASH_INITIAL_NUM_BUCKETS empty_bucket ! HASH_TO_BKT (hash_jen k) HASH_INITIAL_NUM_BUCKETS =
      (empty_bucket :: 'a hash_bucket)" by simp
  then show ?thesis using assms
    by (simp add: hash_add_defs Let_def bind_out_def empty_bucket_def HASH_BKT_CAPACITY_THRESH_def)
qed

section \<open>Sequences of operations\<close>

datatype 'e hash_op = Hash_add "byte list" 'e | Hash_del 'e

fun hash_run :: "libc \<Rightarrow> 'e hash_op list \<Rightarrow> 'e hash_head \<Rightarrow> 'e hash_head outcome" where
  "hash_run L [] head = Inr head"
| "hash_run L (Hash_add k e # ops) head = bind_out (HASH_ADD L k e head) (hash_run L ops)"
| "hash_run L (Hash_del e # ops) head = bind_out (HASH_DELETE e head) (hash_run L ops)"

fun assoc_run :: "'e hash_op list \<Rightarrow> (byte list \<times> 'e) list \<Rightarrow> (byte list \<times> 'e) list" where
  "assoc_run [] es = es"
| "assoc_run (Hash_add k e # ops) es = assoc_run ops (es @ [(k, e)])"
| "assoc_run (Hash_del e # ops) es = assoc_run ops (filter (\<lambda>x. snd x \<noteq> e) es)"

fun ops_valid :: "'e hash_op list \<Rightarrow> (byte list \<times> 'e) list \<Rightarrow> bool" where
  "ops_valid [] es = True"
| "ops_valid (Hash_add k e # ops) es =
     (k \<notin> fst ` set es \<and> e \<notin> snd ` set es \<and> ops_valid ops (es @ [(k, e)]))"
| "ops_valid (Hash_del e # ops) es =
     (e \<in> snd ` set es \<and> ops_valid ops (filter (\<lambda>x. snd x \<noteq> e) es))"

lemma hash_run_refines:
  assumes "bounded_memory L" "hash_ok head" "distinct (map fst (hash_entries head))"
    "ops_valid ops (hash_entries head)"
  shows "case hash_run L ops head of
      Inl x \<Rightarrow> x = Exit (- 1)
    | Inr head' \<Rightarrow> hash_ok head' \<and> hash_entries head' = assoc_run ops (hash_entries head) \<and>
        distinct (map fst (hash_entries head'))"
  using assms(2-4)
proof (induction ops arbitrary: head)
  case Nil
  then show ?case by simp
next
  case (Cons op ops)
  show ?case
  proof (cases op)
    case (Hash_add k e)
    show ?thesis
    proof (cases "HASH_ADD L k e head")
      case (Inl x)
      then show ?thesis using HASH_ADD_fails [OF assms(1) Inl] Hash_add by simp
    next
      case (Inr head1)
      then have "hash_ok head1 \<and> hash_entries head1 = hash_entries head @ [(k, e)]"
        using uthash.add_entry [OF _ _ Inr] Cons.prems Hash_add by simp
      then show ?thesis using Cons.IH [of head1] Cons.prems Inr Hash_add
        by (auto split: sum.splits)
    qed
  next
    case (Hash_del e)
    obtain head1 where "HASH_DELETE e head = Inr head1" "hash_ok head1"
        "hash_entries head1 = filter (\<lambda>x. snd x \<noteq> e) (hash_entries head)"
      using uthash.del_entry [of head e] Cons.prems Hash_del by auto
    then show ?thesis using Cons.IH [of head1] Cons.prems Hash_del
      by (auto simp: distinct_map_filter split: sum.splits)
  qed
qed

section \<open>Properties\<close>

text \<open>
  The hash table is a dictionary: after any sequence of insertions of fresh keys and
  deletions of present elements, through every bucket expansion on the way, the elements in
  iteration order are those of an association list under the same operations, the count is
  its length, and every lookup gives what the list gives.  The only failure is \<open>exit(-1)\<close>.
\<close>

theorem hash_table_refines_dictionary:
  assumes "bounded_memory L" "ops_valid ops []"
  shows "case hash_run L ops None of
      Inl x \<Rightarrow> x = Exit (- 1)
    | Inr head \<Rightarrow> hash_entries head = assoc_run ops [] \<and> HASH_COUNT head = length (assoc_run ops []) \<and>
        (\<forall>k. HASH_FIND k head = map_of (assoc_run ops []) k)"
proof -
  have "HASH_COUNT head = length (hash_entries head)" if "hash_ok head" for head :: "'a hash_head"
    using that table_okD(4) by (auto simp: HASH_COUNT_def hash_ok_def hash_entries_def handles_def split: option.splits)
  then show ?thesis
    using hash_run_refines [OF assms(1), of None ops] assms(2)
    by (auto simp: uthash.find_key_map_of split: sum.splits)
qed

definition small_libc :: libc where
  "small_libc = \<lparr>malloc_ok = (\<lambda>n. n < 2 ^ 36), realloc0_frees = True, indet = (\<lambda>_. 0)\<rparr>"

theorem hash_table_refines_dictionary_witness:
  "case hash_run small_libc [Hash_add [1] (10::nat), Hash_add [2] 20, Hash_del 10] None of
      Inl x \<Rightarrow> x = Exit (- 1)
    | Inr head \<Rightarrow> hash_entries head = [([2], 20)] \<and> HASH_FIND [1] head = None \<and> HASH_FIND [2] head = Some 20"
  using hash_table_refines_dictionary [of small_libc "[Hash_add [1] (10::nat), Hash_add [2] 20, Hash_del 10]"]
  by (simp add: bounded_memory_def small_libc_def split: sum.splits)

text \<open>
  Adding under an \<open>int\<close> key that is not in use succeeds while memory lasts and there are
  fewer than \<open>2 ^ 31\<close> buckets; the new element is then found under its key, and the lookup of
  every other \<open>int\<close> is as before, also when the insertion expanded the buckets.
\<close>

theorem hash_add_int_then_find:
  assumes "\<forall>n. malloc_ok L n" "hash_log2 head < 31"
    and "hash_ok head" "distinct (map fst (hash_entries head))"
    and "e \<notin> snd ` set (hash_entries head)" "HASH_FIND_INT i head = None" "fits_int i"
  shows "\<exists>head'. HASH_ADD_INT L i e head = Inr head' \<and> hash_ok head' \<and>
    HASH_FIND_INT i head' = Some e \<and>
    (\<forall>j. fits_int j \<and> j \<noteq> i \<longrightarrow> HASH_FIND_INT j head' = HASH_FIND_INT j head)"
proof -
  obtain head' where h: "HASH_ADD L (int_key i) e head = Inr head'"
    using HASH_ADD_total [OF assms(1,3,2)] by blast
  have "int_key i \<notin> fst ` set (hash_entries head)"
    using assms(3,6) uthash.find_none by (simp add: HASH_FIND_INT_def)
  then show ?thesis
    using uthash.find_after_add [OF assms(3-5) _ h] uthash.add_entry [OF assms(3,5) h] h
      int_key_eq_iff assms(7) by (auto simp: HASH_FIND_INT_def HASH_ADD_INT_def)
qed

theorem hash_add_int_then_find_witness:
  "\<exists>head'. HASH_ADD_INT glibc 7 (1::nat) None = Inr head' \<and> HASH_FIND_INT 7 head' = Some 1 \<and>
     HASH_FIND_INT 8 head' = None"
proof -
  have none: "HASH_FIND_INT j (None :: nat hash_head) = None" for j
    by (simp add: HASH_FIND_INT_def HASH_FIND_def HASH_FIND_BYHASHVALUE_def)
  have "\<exists>head'. HASH_ADD_INT glibc 7 (1::nat) None = Inr head' \<and> hash_ok head' \<and>
      HASH_FIND_INT 7 head' = Some 1 \<and>
      (\<forall>j. fits_int j \<and> j \<noteq> 7 \<longrightarrow> HASH_FIND_INT j head' = HASH_FIND_INT j (None :: nat hash_head))"
    by (rule hash_add_int_then_find)
      (simp_all add: none hash_log2_def HASH_INITIAL_NUM_BUCKETS_LOG2_def fits_int_def)
  moreover have "fits_int 8" by (simp add: fits_int_def)
  ultimately show ?thesis using none by fastforce
qed

text \<open>
  Deleting an element that is in the table succeeds, makes its key unfindable and changes
  no other lookup; deleting the last element frees the table.
\<close>

theorem hash_delete_then_find:
  assumes "hash_ok head" "distinct (map fst (hash_entries head))" "(k, e) \<in> set (hash_entries head)"
  shows "\<exists>head'. HASH_DELETE e head = Inr head' \<and> hash_ok head' \<and> HASH_FIND k head' = None \<and>
    (\<forall>k'. k' \<noteq> k \<longrightarrow> HASH_FIND k' head' = HASH_FIND k' head) \<and>
    (length (hash_entries head) = 1 \<longrightarrow> head' = None)"
proof -
  have "e \<in> snd ` set (hash_entries head)" using assms(3) by force
  then obtain head' where h: "HASH_DELETE e head = Inr head'" "hash_ok head'"
      "hash_entries head' = filter (\<lambda>x. snd x \<noteq> e) (hash_entries head)"
    using uthash.del_entry [OF assms(1)] by blast
  have "HASH_FIND k' head' = (if k' = k then None else HASH_FIND k' head)" for k'
    using uthash.find_after_del [OF assms(1,2) hash_ok_distinct [OF assms(1)] assms(3), of k'] h(1) by auto
  moreover have "head' = None" if "length (hash_entries head) = 1"
  proof -
    have "hash_entries head = [(k, e)]" using that assms(3) by (cases "hash_entries head") auto
    then have "handles head' = []" using h(3) by (simp add: hash_entries_def)
    then show ?thesis using h(2) by (cases head') (auto simp: hash_ok_def handles_def)
  qed
  ultimately show ?thesis using h(1,2) by simp
qed

theorem hash_delete_then_find_witness:
  "\<exists>head head'. HASH_ADD glibc [7] (1::nat) None = Inr head \<and> HASH_DELETE 1 head = Inr head' \<and> head' = None"
proof -
  obtain head where h: "HASH_ADD glibc [7] (1::nat) None = Inr head"
    using HASH_ADD_total [of glibc "None :: nat hash_head"]
    by (auto simp: hash_log2_def HASH_INITIAL_NUM_BUCKETS_LOG2_def)
  have "hash_ok head \<and> hash_entries head = hash_entries (None :: nat hash_head) @ [([7], 1)]"
    by (rule uthash.add_entry [OF hash_ok_None _ h]) simp
  then show ?thesis using hash_delete_then_find [of head "[7]" 1] h by auto
qed

end
