(* ===== verification/Lines.thy ===== *)
theory Lines
  imports Prelude
begin

text \<open>
  The reference meaning of line splitting, on plain lists: the first occurrence of a
  separator, the line it ends, all complete lines and the rest.  The main fact is that
  splitting is insensitive to how a stream is cut into pieces.
\<close>

fun first_occ :: "'a list \<Rightarrow> 'a list \<Rightarrow> nat option" where
  "first_occ sep [] = (if sep = [] then Some 0 else None)"
| "first_occ sep (x # xs) =
     (if take (length sep) (x # xs) = sep then Some 0
      else map_option Suc (first_occ sep xs))"

definition occurs_at :: "'a list \<Rightarrow> 'a list \<Rightarrow> nat \<Rightarrow> bool" where
  "occurs_at sep xs i \<longleftrightarrow> i + length sep \<le> length xs \<and> take (length sep) (drop i xs) = sep"

lemma occurs_at_0: "occurs_at sep xs 0 \<longleftrightarrow> take (length sep) xs = sep"
  by (auto simp: occurs_at_def) (metis length_take min.cobounded1)

lemma occurs_at_Suc: "occurs_at sep (x # xs) (Suc i) \<longleftrightarrow> occurs_at sep xs i"
  by (simp add: occurs_at_def)

lemma occurs_at_Nil: "occurs_at sep [] i \<longleftrightarrow> sep = [] \<and> i = 0"
  by (auto simp: occurs_at_def)

lemma first_occ_Some_iff:
  "first_occ sep xs = Some i \<longleftrightarrow> occurs_at sep xs i \<and> (\<forall>j < i. \<not> occurs_at sep xs j)"
proof (induction xs arbitrary: i)
  case Nil
  then show ?case by (auto simp: occurs_at_Nil)
next
  case (Cons x xs)
  show ?case
  proof (cases "occurs_at sep (x # xs) 0")
    case True
    then show ?thesis by (auto simp: occurs_at_0 [of sep "x # xs"])
  next
    case False
    then have "first_occ sep (x # xs) = map_option Suc (first_occ sep xs)"
      by (simp add: occurs_at_0)
    then show ?thesis
      using Cons.IH False
      by (cases i) (auto simp: occurs_at_Suc All_less_Suc2)
  qed
qed

lemma first_occ_None_iff: "first_occ sep xs = None \<longleftrightarrow> (\<forall>i. \<not> occurs_at sep xs i)"
proof (induction xs)
  case Nil
  then show ?case by (auto simp: occurs_at_Nil)
next
  case (Cons x xs)
  have "(\<forall>i. \<not> occurs_at sep (x # xs) i) \<longleftrightarrow>
      \<not> occurs_at sep (x # xs) 0 \<and> (\<forall>i. \<not> occurs_at sep xs i)"
    by (metis occurs_at_Suc not0_implies_Suc)
  then show ?case using Cons.IH by (simp add: occurs_at_0)
qed

lemma occurs_at_append:
  "i + length sep \<le> length xs \<Longrightarrow> occurs_at sep (xs @ ys) i \<longleftrightarrow> occurs_at sep xs i"
  by (auto simp: occurs_at_def)

lemma first_occ_bound: "first_occ sep xs = Some i \<Longrightarrow> i + length sep \<le> length xs"
  by (simp add: first_occ_Some_iff occurs_at_def)

lemma first_occ_append: "first_occ sep xs = Some i \<Longrightarrow> first_occ sep (xs @ ys) = Some i"
proof -
  assume f: "first_occ sep xs = Some i"
  then have le: "i + length sep \<le> length xs"
    by (simp add: first_occ_Some_iff occurs_at_def)
  with f show ?thesis
    unfolding first_occ_Some_iff by (auto simp: occurs_at_append)
qed

section \<open>One line\<close>

definition split_line :: "'a list \<Rightarrow> 'a list \<Rightarrow> ('a list \<times> 'a list) option" where
  "split_line sep xs =
     (case first_occ sep xs of
        None \<Rightarrow> None
      | Some i \<Rightarrow> Some (take (i + length sep) xs, drop (i + length sep) xs))"

text \<open>A line is a shortest prefix that ends in the separator.\<close>

definition is_line :: "'a list \<Rightarrow> 'a list \<Rightarrow> bool" where
  "is_line sep l \<longleftrightarrow> (\<exists>i. first_occ sep l = Some i \<and> i + length sep = length l)"

lemma split_line_append:
  "split_line sep xs = Some (l, r) \<Longrightarrow> split_line sep (xs @ ys) = Some (l, r @ ys)"
  by (auto simp: split_line_def first_occ_append dest: first_occ_bound split: option.splits)

lemma split_line_concat: "split_line sep xs = Some (l, r) \<Longrightarrow> l @ r = xs"
  by (auto simp: split_line_def split: option.splits)

lemma split_line_is_line: "split_line sep xs = Some (l, r) \<Longrightarrow> is_line sep l"
proof -
  assume s: "split_line sep xs = Some (l, r)"
  then obtain i where i: "first_occ sep xs = Some i" and l: "l = take (i + length sep) xs"
    by (auto simp: split_line_def split: option.splits)
  then have le: "i + length sep \<le> length xs"
    by (simp add: first_occ_Some_iff occurs_at_def)
  have "xs = l @ drop (i + length sep) xs" using l by simp
  moreover have "length l = i + length sep" using l le by simp
  ultimately have "first_occ sep l = Some i"
    using i unfolding first_occ_Some_iff
    by (metis add_le_mono1 nat_less_le occurs_at_append order_refl)
  with \<open>length l = i + length sep\<close> show ?thesis by (auto simp: is_line_def)
qed

lemma split_line_length:
  "split_line sep xs = Some (l, r) \<Longrightarrow> sep \<noteq> [] \<Longrightarrow> l \<noteq> [] \<and> length r < length xs"
  by (cases sep) (auto simp: split_line_def dest: first_occ_bound split: option.splits)

section \<open>All lines\<close>

function split_lines :: "'a list \<Rightarrow> 'a list \<Rightarrow> 'a list list \<times> 'a list" where
  "split_lines sep xs =
     (if sep = [] then ([], xs)
      else case split_line sep xs of
        None \<Rightarrow> ([], xs)
      | Some (l, r) \<Rightarrow> (let (ls, rest) = split_lines sep r in (l # ls, rest)))"
  by pat_completeness auto
termination
  by (relation "measure (\<lambda>(sep, xs). length xs)") (auto dest: split_line_length)

declare split_lines.simps [simp del]

lemma split_lines_None: "split_line sep xs = None \<Longrightarrow> split_lines sep xs = ([], xs)"
  by (simp add: split_lines.simps)

lemma split_lines_Some:
  "split_line sep xs = Some (l, r) \<Longrightarrow> sep \<noteq> [] \<Longrightarrow> split_lines sep r = (ls, rest) \<Longrightarrow>
     split_lines sep xs = (l # ls, rest)"
  by (simp add: split_lines.simps [of sep xs])

lemma split_lines_concat:
  "split_lines sep xs = (ls, rest) \<Longrightarrow> concat ls @ rest = xs"
proof (induction sep xs arbitrary: ls rest rule: split_lines.induct)
  case (1 sep xs)
  then show ?case
    by (cases "split_line sep xs")
      (auto simp: split_lines.simps [of sep xs] dest: split_line_concat
        split: if_splits prod.splits)
qed

lemma split_lines_lines:
  "split_lines sep xs = (ls, rest) \<Longrightarrow> \<forall>l \<in> set ls. is_line sep l"
proof (induction sep xs arbitrary: ls rest rule: split_lines.induct)
  case (1 sep xs)
  then show ?case
    by (cases "split_line sep xs")
      (auto simp: split_lines.simps [of sep xs] dest: split_line_is_line
        split: if_splits prod.splits)
qed

lemma split_lines_rest:
  "split_lines sep xs = (ls, rest) \<Longrightarrow> sep \<noteq> [] \<Longrightarrow> split_line sep rest = None"
proof (induction sep xs arbitrary: ls rest rule: split_lines.induct)
  case (1 sep xs)
  then show ?case
    by (cases "split_line sep xs")
      (auto simp: split_lines.simps [of sep xs] split: if_splits prod.splits)
qed

text \<open>Cutting a stream in two does not change its lines.\<close>

lemma split_lines_append:
  "sep \<noteq> [] \<Longrightarrow> split_lines sep xs = (ls, r) \<Longrightarrow> split_lines sep (r @ ys) = (ls', rest) \<Longrightarrow>
     split_lines sep (xs @ ys) = (ls @ ls', rest)"
proof (induction sep xs arbitrary: ls r rule: split_lines.induct)
  case (1 sep xs)
  show ?case
  proof (cases "split_line sep xs")
    case None
    then show ?thesis using "1.prems" by (simp add: split_lines_None)
  next
    case (Some p)
    then obtain l r1 where p: "split_line sep xs = Some (l, r1)" by (cases p) auto
    obtain ls1 rest1 where r1: "split_lines sep r1 = (ls1, rest1)" by fastforce
    have ls: "ls = l # ls1" "r = rest1"
      using "1.prems"(1,2) split_lines_Some [OF p _ r1] by auto
    have "split_lines sep (r1 @ ys) = (ls1 @ ls', rest)"
      using "1.IH" [OF "1.prems"(1) p refl "1.prems"(1) r1] "1.prems"(3) ls by simp
    then show ?thesis
      using split_lines_Some [OF split_line_append [OF p] "1.prems"(1)] ls by simp
  qed
qed

end
