(* ===== verification/Commbuf.thy ===== *)
theory Commbuf
  imports Alloc Lines
begin

text \<open>
  The communication buffer of \<open>src/server/commbuf.c\<close>: one block for what arrived on a socket
  and one for what is to be sent, each with the number of bytes in use.  The model keeps the
  block and the size apart, as the code does: clearing only resets the size, and extraction
  leaves stale bytes behind.  The abstraction (\<open>recv_view\<close>, \<open>send_view\<close>) is the byte string in
  use; every operation refines an operation on these strings, and line extraction refines
  the search for the first separator.
\<close>

record commbuf =
  cb_fd :: int
  recv_buf :: "block option"
  recv_buf_sz :: size_t
  send_buf :: "block option"
  send_buf_sz :: size_t

section \<open>Operations\<close>

definition commbuf_create :: "libc \<Rightarrow> commbuf outcome" where
  "commbuf_create L =
     bind_out (CALLOC L 1 40)
       (\<lambda>_. Inr \<lparr>cb_fd = 0, recv_buf = None, recv_buf_sz = 0, send_buf = None, send_buf_sz = 0\<rparr>)"

text \<open>Destroying frees both blocks and the object: what is left is a dangling pointer.\<close>

definition commbuf_destroy :: "commbuf \<Rightarrow> commbuf option" where
  "commbuf_destroy c = None"

definition commbuf_add_to_recv_buffer :: "libc \<Rightarrow> commbuf \<Rightarrow> byte list \<Rightarrow> commbuf outcome" where
  "commbuf_add_to_recv_buffer L c data =
     (let data_sz = word_of_nat (length data) in
      bind_out (REALLOC L (recv_buf c) (recv_buf_sz c + data_sz)) (\<lambda>p.
      if p = None then Inl (Exit NON_RECOVERABLE_ERROR)
      else bind_out (mem_write p (unat (recv_buf_sz c)) data) (\<lambda>p'.
      Inr (c\<lparr>recv_buf := p', recv_buf_sz := recv_buf_sz c + data_sz\<rparr>))))"

definition commbuf_add_to_send_buffer :: "libc \<Rightarrow> commbuf \<Rightarrow> byte list \<Rightarrow> commbuf outcome" where
  "commbuf_add_to_send_buffer L c data =
     (let data_sz = word_of_nat (length data) in
      bind_out (REALLOC L (send_buf c) (send_buf_sz c + data_sz)) (\<lambda>p.
      if p = None then Inl (Exit NON_RECOVERABLE_ERROR)
      else bind_out (mem_write p (unat (send_buf_sz c)) data) (\<lambda>p'.
      Inr (c\<lparr>send_buf := p', send_buf_sz := send_buf_sz c + data_sz\<rparr>))))"

definition commbuf_add_text_to_send_buffer :: "libc \<Rightarrow> commbuf \<Rightarrow> byte list \<Rightarrow> commbuf outcome" where
  "commbuf_add_text_to_send_buffer L c text' =
     bind_out (c_string text') (commbuf_add_to_send_buffer L c)"

definition commbuf_clear_send_buffer :: "commbuf \<Rightarrow> commbuf" where
  "commbuf_clear_send_buffer c = c\<lparr>send_buf_sz := 0\<rparr>"

definition commbuf_clear_recv_buffer :: "commbuf \<Rightarrow> commbuf" where
  "commbuf_clear_recv_buffer c = c\<lparr>recv_buf_sz := 0\<rparr>"

definition commbuf_recv_buffer :: "commbuf \<Rightarrow> block option \<times> size_t" where
  "commbuf_recv_buffer c = (recv_buf c, recv_buf_sz c)"

definition commbuf_send_buffer :: "commbuf \<Rightarrow> block option \<times> size_t" where
  "commbuf_send_buffer c = (send_buf c, send_buf_sz c)"

text \<open>The second component is \<open>*data\<close> when the code assigns it.\<close>

definition commbuf_extract_from_recv_buffer ::
  "libc \<Rightarrow> commbuf \<Rightarrow> (size_t \<times> block option \<times> commbuf) outcome" where
  "commbuf_extract_from_recv_buffer L c =
     (let sz = recv_buf_sz c in
      if recv_buf_sz c > 0
      then bind_out (MALLOC L (recv_buf_sz c)) (\<lambda>d.
           bind_out (mem_read (recv_buf c) 0 (unat (recv_buf_sz c))) (\<lambda>bytes.
           bind_out (mem_write d 0 bytes) (\<lambda>d'.
           Inr (sz, d', c\<lparr>recv_buf_sz := 0\<rparr>))))
      else Inr (sz, None, c))"

text \<open>The search loop: \<open>i\<close> runs up to \<open>limit\<close>, the result is the index or \<open>-1\<close>.\<close>

function find_separator :: "block option \<Rightarrow> byte list \<Rightarrow> int \<Rightarrow> int \<Rightarrow> int outcome" where
  "find_separator p sep i limit =
     (if i < limit
      then bind_out (mem_read p (nat i) (length sep)) (\<lambda>bytes.
           if bytes = sep then Inr i else find_separator p sep (i + 1) limit)
      else Inr (- 1))"
  by pat_completeness auto
termination
  by (relation "measure (\<lambda>(p, sep, i, limit). nat (limit - i))") auto

declare find_separator.simps [simp del]

definition commbuf_extract_line_from_recv_buffer ::
  "libc \<Rightarrow> commbuf \<Rightarrow> byte list \<Rightarrow> (size_t \<times> block option \<times> commbuf) outcome" where
  "commbuf_extract_line_from_recv_buffer L c separator =
     bind_out (c_string separator) (\<lambda>sep.
     let sep_len = int_of_size (word_of_nat (length sep));
         avail = int_of_size (recv_buf_sz c) in
     if \<not> fits_int (avail - sep_len) \<or> \<not> fits_int (avail - sep_len + 1) then Inl Undefined
     else bind_out (find_separator (recv_buf c) sep 0 (avail - sep_len + 1)) (\<lambda>found.
     if found = - 1 then Inr (0, None, c)
     else let len_to_return = found + sep_len in
       if \<not> fits_int (len_to_return + 1) then Inl Undefined
       else bind_out (CALLOC L 1 (word_of_int (len_to_return + 1))) (\<lambda>d.
       bind_out (mem_read (recv_buf c) 0 (nat len_to_return)) (\<lambda>line.
       bind_out (mem_write d 0 line) (\<lambda>d'.
       bind_out
         (if avail > len_to_return
          then bind_out (mem_read (recv_buf c) (nat len_to_return)
                           (unat (recv_buf_sz c - word_of_int len_to_return)))
                 (mem_write (recv_buf c) 0)
          else Inr (recv_buf c)) (\<lambda>p'.
       Inr (word_of_int len_to_return, d',
            c\<lparr>recv_buf := p', recv_buf_sz := recv_buf_sz c - word_of_int len_to_return\<rparr>)))))))"

section \<open>The bytes in use\<close>

definition recv_view :: "commbuf \<Rightarrow> byte list" where
  "recv_view c = take (unat (recv_buf_sz c)) (block_bytes (recv_buf c))"

definition send_view :: "commbuf \<Rightarrow> byte list" where
  "send_view c = take (unat (send_buf_sz c)) (block_bytes (send_buf c))"

text \<open>
  The invariant: a size in use never exceeds its block.  \<open>can_grow\<close> says when adding \<open>n\<close>
  bytes to a buffer neither runs out of memory, nor wraps \<open>size_t\<close>, nor asks \<open>realloc\<close> for
  size zero on a C library that frees.
\<close>

definition commbuf_ok :: "commbuf \<Rightarrow> bool" where
  "commbuf_ok c \<longleftrightarrow>
     unat (recv_buf_sz c) \<le> length (block_bytes (recv_buf c)) \<and>
     unat (send_buf_sz c) \<le> length (block_bytes (send_buf c))"

definition can_grow :: "libc \<Rightarrow> block option \<Rightarrow> size_t \<Rightarrow> nat \<Rightarrow> bool" where
  "can_grow L p used n \<longleftrightarrow>
     unat used + n < 2 ^ 64 \<and> malloc_ok L (unat used + n) \<and>
     (used = 0 \<and> n = 0 \<and> realloc0_frees L \<longrightarrow> p = None)"

lemma recv_view_length: "commbuf_ok c \<Longrightarrow> length (recv_view c) = unat (recv_buf_sz c)"
  by (simp add: commbuf_ok_def recv_view_def)

lemma send_view_length: "commbuf_ok c \<Longrightarrow> length (send_view c) = unat (send_buf_sz c)"
  by (simp add: commbuf_ok_def send_view_def)

lemma commbuf_create_ok:
  "commbuf_create L = Inr c \<Longrightarrow> commbuf_ok c \<and> recv_view c = [] \<and> send_view c = []"
  by (auto simp: commbuf_create_def commbuf_ok_def recv_view_def send_view_def bind_out_eq_Inr)

text \<open>Growing a block: the bytes in use followed by the added data.\<close>

lemma grow_block:
  assumes used: "unat used \<le> length (block_bytes p)" and grow: "can_grow L p used (length data)"
  shows "\<exists>q q'. REALLOC L p (used + word_of_nat (length data)) = Inr (Some q) \<and>
           mem_write (Some q) (unat used) data = Inr (Some q') \<and>
           unat (used + word_of_nat (length data)) = unat used + length data \<and>
           length q' = unat used + length data \<and>
           take (unat used + length data) q' = take (unat used) (block_bytes p) @ data"
proof -
  have sz: "unat (used + word_of_nat (length data)) = unat used + length data"
    using grow by (simp add: can_grow_def unat_word_ariths unat_of_nat)
  have zero: "used + word_of_nat (length data) = 0 \<longleftrightarrow> used = 0 \<and> length data = 0"
    using sz by (metis add_is_0 unat_0 unat_eq_zero)
  obtain q where q: "REALLOC L p (used + word_of_nat (length data)) = Inr (Some q)"
      and len: "length q = unat used + length data"
      and keep: "\<forall>old. p = Some old \<longrightarrow>
        take (min (length old) (unat used + length data)) q = take (unat used + length data) old"
    using REALLOC_ok [of L "used + word_of_nat (length data)" p] grow zero
    by (auto simp: can_grow_def sz)
  have pre: "take (unat used) q = take (unat used) (block_bytes p)"
  proof (cases p)
    case None
    then show ?thesis using used by simp
  next
    case (Some old)
    then have "take (unat used) (take (min (length old) (unat used + length data)) q) =
        take (unat used) (take (unat used + length data) old)"
      using keep by simp
    then show ?thesis using Some used by (simp add: min_def split: if_splits)
  qed
  show ?thesis using q sz len pre
    by (cases "data = []") (simp_all add: mem_write_def min_absorb2 [OF used])
qed

section \<open>Refinement of the operations\<close>

lemma commbuf_add_recv_refines:
  assumes "commbuf_ok c" "can_grow L (recv_buf c) (recv_buf_sz c) (length data)"
  shows "\<exists>c'. commbuf_add_to_recv_buffer L c data = Inr c' \<and> commbuf_ok c' \<and>
           recv_view c' = recv_view c @ data \<and> send_view c' = send_view c \<and>
           unat (recv_buf_sz c') = unat (recv_buf_sz c) + length data"
  using grow_block [of "recv_buf_sz c" "recv_buf c" L data] assms
  by (auto simp: commbuf_add_to_recv_buffer_def commbuf_ok_def recv_view_def send_view_def)

lemma commbuf_add_send_refines:
  assumes "commbuf_ok c" "can_grow L (send_buf c) (send_buf_sz c) (length data)"
  shows "\<exists>c'. commbuf_add_to_send_buffer L c data = Inr c' \<and> commbuf_ok c' \<and>
           send_view c' = send_view c @ data \<and> recv_view c' = recv_view c \<and>
           recv_buf_sz c' = recv_buf_sz c \<and>
           unat (send_buf_sz c') = unat (send_buf_sz c) + length data"
  using grow_block [of "send_buf_sz c" "send_buf c" L data] assms
  by (auto simp: commbuf_add_to_send_buffer_def commbuf_ok_def recv_view_def send_view_def)

lemma commbuf_add_text_refines:
  assumes "commbuf_ok c"
    and "can_grow L (send_buf c) (send_buf_sz c) (length (takeWhile (\<lambda>x. x \<noteq> 0) s))"
  shows "\<exists>c'. commbuf_add_text_to_send_buffer L c (s @ [0]) = Inr c' \<and> commbuf_ok c' \<and>
           send_view c' = send_view c @ takeWhile (\<lambda>x. x \<noteq> 0) s \<and> recv_view c' = recv_view c \<and>
           recv_buf_sz c' = recv_buf_sz c \<and>
           unat (send_buf_sz c') = unat (send_buf_sz c) + length (takeWhile (\<lambda>x. x \<noteq> 0) s)"
  using commbuf_add_send_refines [OF assms]
  by (simp add: commbuf_add_text_to_send_buffer_def c_string_append0)

lemma commbuf_clear_send_refines:
  "commbuf_ok c \<Longrightarrow> commbuf_ok (commbuf_clear_send_buffer c) \<and>
     send_view (commbuf_clear_send_buffer c) = [] \<and>
     recv_view (commbuf_clear_send_buffer c) = recv_view c"
  by (simp add: commbuf_ok_def commbuf_clear_send_buffer_def send_view_def recv_view_def)

text \<open>
  The sizes are set after the copy, so both buffers out of memory and the size-zero corner
  end the process with \<open>EXIT_FAILURE\<close>, never with the non-recoverable status the code names.
\<close>

lemma commbuf_add_never_non_recoverable:
  "commbuf_add_to_recv_buffer L c data \<noteq> Inl (Exit NON_RECOVERABLE_ERROR)"
  "commbuf_add_to_send_buffer L c data \<noteq> Inl (Exit NON_RECOVERABLE_ERROR)"
  by (auto simp: commbuf_add_to_recv_buffer_def commbuf_add_to_send_buffer_def bind_out_def
      Let_def mem_write_def EXIT_FAILURE_def NON_RECOVERABLE_ERROR_def alloc_never_NULL
      dest!: REALLOC_fails_only_exit split: sum.splits option.splits)

lemma commbuf_extract_refines:
  assumes ok: "commbuf_ok c" and mem: "malloc_ok L (unat (recv_buf_sz c))"
  shows "\<exists>d c'. commbuf_extract_from_recv_buffer L c = Inr (recv_buf_sz c, d, c') \<and>
           block_bytes d = recv_view c \<and> commbuf_ok c' \<and> recv_view c' = [] \<and>
           send_view c' = send_view c"
proof (cases "recv_buf_sz c = 0")
  case True
  then show ?thesis
    using ok by (simp add: commbuf_extract_from_recv_buffer_def recv_view_def)
next
  case False
  let ?n = "unat (recv_buf_sz c)"
  have n: "?n \<noteq> 0" using False by (simp add: unat_eq_zero)
  have rd: "mem_read (recv_buf c) 0 ?n = Inr (recv_view c)"
    using ok by (simp add: mem_read_ok commbuf_ok_def recv_view_def)
  have "mem_write (Some (map (indet L) [0..<?n])) 0 (recv_view c) = Inr (Some (recv_view c))"
    using recv_view_length [OF ok] n by (auto simp: mem_write_def)
  then show ?thesis
    using False ok rd MALLOC_ok [of L "recv_buf_sz c"] mem
    by (simp add: commbuf_extract_from_recv_buffer_def commbuf_ok_def word_neq_0_conv
        send_view_def recv_view_def [of "c\<lparr>recv_buf_sz := 0\<rparr>"])
qed

section \<open>Line extraction\<close>

lemma first_occ_unfold:
  "first_occ sep xs =
     (if take (length sep) xs = sep then Some 0
      else case xs of [] \<Rightarrow> None | x # ys \<Rightarrow> map_option Suc (first_occ sep ys))"
  by (cases xs) auto

lemma first_occ_short: "length xs < length sep \<Longrightarrow> first_occ sep xs = None"
  by (simp add: first_occ_None_iff occurs_at_def)

text \<open>The loop computes the first occurrence in the bytes in use.\<close>

lemma find_separator_first_occ:
  assumes "n \<le> length (block_bytes p)" "0 \<le> i" "limit = int n - int (length sep) + 1" "sep \<noteq> []"
  shows "find_separator p sep i limit =
    Inr (case first_occ sep (drop (nat i) (take n (block_bytes p))) of
           None \<Rightarrow> - 1 | Some j \<Rightarrow> i + int j)"
  using assms
proof (induction p sep i limit rule: find_separator.induct)
  case (1 p sep i limit)
  let ?xs = "take n (block_bytes p)"
  show ?case
  proof (cases "i < limit")
    case False
    moreover have "0 < length sep" using "1.prems"(4) by simp
    ultimately have "n - nat i < length sep" using "1.prems"(2,3) by linarith
    then have "length (drop (nat i) ?xs) < length sep" using "1.prems"(1) by simp
    then show ?thesis
      using False by (simp add: find_separator.simps [of p sep i limit] first_occ_short)
  next
    case True
    then have le: "nat i + length sep \<le> n" using "1.prems" by linarith
    then have rd: "mem_read p (nat i) (length sep) = Inr (take (length sep) (drop (nat i) ?xs))"
      using "1.prems"(1) by (simp add: mem_read_ok drop_take min_def)
    show ?thesis
    proof (cases "take (length sep) (drop (nat i) ?xs) = sep")
      case True
      then show ?thesis
        using \<open>i < limit\<close> rd
        by (simp add: find_separator.simps [of p sep i limit] first_occ_unfold [of sep])
    next
      case False
      then have lt: "nat i < length ?xs"
        using le "1.prems"(1) by (cases "length sep") auto
      then have d: "drop (nat i) ?xs = ?xs ! nat i # drop (nat (i + 1)) ?xs"
        using "1.prems"(2) by (simp add: Cons_nth_drop_Suc [symmetric] nat_add_distrib)
      have "find_separator p sep i limit = find_separator p sep (i + 1) limit"
        using \<open>i < limit\<close> rd False by (simp add: find_separator.simps [of p sep i limit])
      also have "\<dots> = Inr (case first_occ sep (drop (nat (i + 1)) ?xs) of
           None \<Rightarrow> - 1 | Some j \<Rightarrow> i + 1 + int j)"
        using "1.IH" [OF \<open>i < limit\<close> _ _ "1.prems"(1) _ "1.prems"(3,4)] False "1.prems"(2) rd by simp
      also have "\<dots> = Inr (case first_occ sep (drop (nat i) ?xs) of
           None \<Rightarrow> - 1 | Some j \<Rightarrow> i + int j)"
        using False unfolding d
        by (simp add: first_occ_unfold [of sep "_ # _"] split: option.split)
      finally show ?thesis .
    qed
  qed
qed


text \<open>
  Extraction returns the first line, separator included and NUL-terminated, and leaves the
  rest; it returns 0 exactly when there is no complete line.
\<close>

lemma commbuf_extract_line_None:
  assumes ok: "commbuf_ok c" and small: "unat (recv_buf_sz c) < 2 ^ 31 - 1"
    and sep: "sep \<noteq> []" "0 \<notin> set sep" "length sep < 2 ^ 31"
    and none: "split_line sep (recv_view c) = None"
  shows "commbuf_extract_line_from_recv_buffer L c (sep @ [0]) = Inr (0, None, c)"
proof -
  have sl: "int_of_size (word_of_nat (length sep)) = int (length sep)"
    using sep(3) by (rule int_of_size_of_nat)
  have av: "int_of_size (recv_buf_sz c) = int (unat (recv_buf_sz c))"
    using small by (simp add: int_of_size_small)
  have "first_occ sep (recv_view c) = None"
    using none by (auto simp: split_line_def split: option.splits)
  then have f: "find_separator (recv_buf c) sep 0
      (int (unat (recv_buf_sz c)) - int (length sep) + 1) = Inr (- 1)"
    using find_separator_first_occ [of "unat (recv_buf_sz c)" "recv_buf c" 0 _ sep] ok sep(1)
    by (simp add: commbuf_ok_def recv_view_def)
  have "fits_int (int (unat (recv_buf_sz c)) - int (length sep))"
       "fits_int (int (unat (recv_buf_sz c)) - int (length sep) + 1)"
    using small sep(3) by (simp_all add: fits_int_def del: of_nat_unat)
  then show ?thesis
    using f by (simp add: commbuf_extract_line_from_recv_buffer_def sep(2) sl av Let_def)
qed

lemma commbuf_extract_line_Some:
  assumes ok: "commbuf_ok c" and small: "unat (recv_buf_sz c) < 2 ^ 31 - 1"
    and sep: "sep \<noteq> []" "0 \<notin> set sep"
    and line: "split_line sep (recv_view c) = Some (l, r)"
    and mem: "malloc_ok L (length l + 1)"
  shows "\<exists>c'. commbuf_extract_line_from_recv_buffer L c (sep @ [0]) =
             Inr (word_of_nat (length l), Some (l @ [0]), c') \<and>
           commbuf_ok c' \<and> recv_view c' = r \<and> send_view c' = send_view c \<and>
           send_buf c' = send_buf c \<and> send_buf_sz c' = send_buf_sz c \<and>
           unat (recv_buf_sz c') = length r"
proof -
  define n where "n = unat (recv_buf_sz c)"
  define b where "b = block_bytes (recv_buf c)"
  obtain i where i: "first_occ sep (recv_view c) = Some i"
    and l: "l = take (i + length sep) (recv_view c)" and r: "r = drop (i + length sep) (recv_view c)"
    using line by (auto simp: split_line_def split: option.splits)
  define k where "k = i + length sep"
  have v: "recv_view c = take n b" and n: "n \<le> length b" "n < 2 ^ 31 - 1"
    using ok small by (simp_all add: commbuf_ok_def recv_view_def n_def b_def)
  have k: "k \<le> n" "0 < k" and ik: "int i + int (length sep) = int k"
    using first_occ_bound [OF i] recv_view_length [OF ok] sep(1) by (simp_all add: k_def n_def)
  have len_l: "length l = k" and l': "l = take k b" and r': "r = take (n - k) (drop k b)"
      and len_r: "length r = n - k"
    using k n(1) by (simp_all add: l r v drop_take flip: k_def)
  have unk: "unat (word_of_nat k :: size_t) = k"
    using k n(2) by (intro unat_of_nat_size) simp
  have rest: "unat (recv_buf_sz c - word_of_nat k) = n - k"
    using unk k by (subst unat_sub) (simp_all add: word_le_nat_alt n_def)
  have sl: "int_of_size (word_of_nat (length sep)) = int (length sep)"
    using k n(2) k_def by (intro int_of_size_of_nat) simp
  have av: "int_of_size (recv_buf_sz c) = int n"
    using n by (simp add: int_of_size_small n_def)
  have f: "find_separator (recv_buf c) sep 0 (int n - int (length sep) + 1) = Inr (int i)"
    using find_separator_first_occ [of n "recv_buf c" 0 _ sep] i n(1) sep(1)
    by (simp add: v flip: b_def)
  have fits: "fits_int (int n - int (length sep))" "fits_int (int n - int (length sep) + 1)"
      "fits_int (int k + 1)"
    using n(2) k k_def by (simp_all add: fits_int_def)
  have "word_of_int (int k + 1) = (word_of_nat (k + 1) :: size_t)" by simp
  then have cal: "CALLOC L 1 (word_of_int (int k + 1)) = Inr (Some (replicate (k + 1) 0))"
    using CALLOC_ok [of L 1 "word_of_nat (k + 1)"] unat_of_nat_size [of "k + 1"] mem len_l k n(2)
    by (simp add: add.commute)
  have rd: "mem_read (recv_buf c) 0 k = Inr l"
    using mem_read_ok [of 0 k "recv_buf c"] k n(1) l' by (simp flip: b_def)
  have wr: "mem_write (Some (replicate (k + 1) 0)) 0 l = Inr (Some (l @ [0]))"
    using len_l k(2) by (auto simp: mem_write_def simp flip: replicate_append_same)
  have "\<exists>q. (if int n > int k
            then bind_out (mem_read (recv_buf c) k (n - k)) (mem_write (recv_buf c) 0)
            else Inr (recv_buf c)) = Inr q \<and>
         length (block_bytes q) = length b \<and> take (n - k) (block_bytes q) = r"
  proof (cases "k < n")
    case False
    then show ?thesis using k r' by (simp add: b_def)
  next
    case True
    have "mem_read (recv_buf c) k (n - k) = Inr r"
      using mem_read_ok [of k "n - k" "recv_buf c"] k n(1) r' by (simp flip: b_def)
    moreover have "0 + length r \<le> length (block_bytes (recv_buf c))"
      using len_r n(1) by (simp flip: b_def)
    note mem_write_ok [OF this]
    then obtain q where "mem_write (recv_buf c) 0 r = Inr q" "block_bytes q = r @ drop (n - k) b"
      using len_r by (auto simp flip: b_def)
    ultimately show ?thesis
      using True n(1) len_r by (intro exI [of _ q]) simp
  qed
  then obtain q where q: "(if int n > int k
            then bind_out (mem_read (recv_buf c) k (n - k)) (mem_write (recv_buf c) 0)
            else Inr (recv_buf c)) = Inr q"
    "length (block_bytes q) = length b" "take (n - k) (block_bytes q) = r" by blast
  define c' where "c' = c\<lparr>recv_buf := q, recv_buf_sz := recv_buf_sz c - word_of_nat k\<rparr>"
  have found: "int i \<noteq> - 1" by simp
  have "commbuf_extract_line_from_recv_buffer L c (sep @ [0]) =
      Inr (word_of_nat k, Some (l @ [0]), c')"
    using f fits cal rd wr q(1) found unfolding c'_def
    by (simp only: commbuf_extract_line_from_recv_buffer_def c_string_terminated [OF sep(2)]
        sl av Let_def ik bind_out_simps if_False if_True simp_thms nat_int rest of_int_of_nat_eq)
  moreover have "commbuf_ok c'" "recv_view c' = r"
    using ok q(2,3) n(1) rest by (auto simp: c'_def commbuf_ok_def recv_view_def)
  ultimately show ?thesis
    using rest len_r len_l by (intro exI [of _ c']) (simp add: c'_def send_view_def)
qed

section \<open>Every operation keeps the invariant\<close>

datatype commbuf_op =
    Add_recv "byte list"
  | Add_send "byte list"
  | Add_text "byte list"
  | Clear_send
  | Clear_recv
  | Extract_all
  | Extract_line "byte list"

fun commbuf_exec :: "libc \<Rightarrow> commbuf \<Rightarrow> commbuf_op \<Rightarrow> commbuf outcome" where
  "commbuf_exec L c (Add_recv d) = commbuf_add_to_recv_buffer L c d"
| "commbuf_exec L c (Add_send d) = commbuf_add_to_send_buffer L c d"
| "commbuf_exec L c (Add_text t) = commbuf_add_text_to_send_buffer L c t"
| "commbuf_exec L c Clear_send = Inr (commbuf_clear_send_buffer c)"
| "commbuf_exec L c Clear_recv = Inr (commbuf_clear_recv_buffer c)"
| "commbuf_exec L c Extract_all =
     bind_out (commbuf_extract_from_recv_buffer L c) (\<lambda>(_, _, c'). Inr c')"
| "commbuf_exec L c (Extract_line sep) =
     bind_out (commbuf_extract_line_from_recv_buffer L c sep) (\<lambda>(_, _, c'). Inr c')"

fun commbuf_run :: "libc \<Rightarrow> commbuf \<Rightarrow> commbuf_op list \<Rightarrow> commbuf outcome" where
  "commbuf_run L c [] = Inr c"
| "commbuf_run L c (x # xs) = bind_out (commbuf_exec L c x) (\<lambda>c'. commbuf_run L c' xs)"

fun small_separator :: "commbuf_op \<Rightarrow> bool" where
  "small_separator (Extract_line sep) = (length sep < 2 ^ 31)"
| "small_separator _ = True"

lemma REALLOC_length: "REALLOC L p n = Inr (Some q) \<Longrightarrow> length q = unat n"
  by (auto simp: REALLOC_def check_ptr_def c_realloc_def c_malloc_def min_def
      split: option.splits if_splits)

lemma mem_write_length:
  "mem_write p off src = Inr q \<Longrightarrow> length (block_bytes q) = length (block_bytes p)"
  by (auto simp: mem_write_def split: if_splits option.splits)

lemma find_separator_range:
  "find_separator p sep i limit = Inr k \<Longrightarrow> k = - 1 \<or> i \<le> k \<and> k < limit"
proof (induction p sep i limit rule: find_separator.induct)
  case (1 p sep i limit)
  then show ?case
    by (cases "i < limit")
      (force simp: find_separator.simps [of p sep i limit] bind_out_eq_Inr split: if_splits)+
qed

lemma unat_minus_int:
  assumes "0 \<le> k" "k \<le> uint (x :: size_t)"
  shows "int (unat (x - word_of_int k)) = uint x - k"
proof -
  have k: "uint (word_of_int k :: size_t) = k"
    using assms uint_lt2p [of x] by (simp add: word_of_int_inverse)
  then have "uint (x - word_of_int k) = uint x - k"
    using assms by (subst uint_sub_lem [THEN iffD1]) simp_all
  then show ?thesis by simp
qed

text \<open>
  A call that finds a line takes \<open>k\<close> bytes off the front, \<open>0 \<le> k \<le>\<close> the bytes in use; a call
  that finds none changes nothing.
\<close>

lemma commbuf_extract_line_shape:
  assumes x: "commbuf_extract_line_from_recv_buffer L c sep = Inr (n, d, c')"
    and sep: "length sep < 2 ^ 31"
  shows "n = 0 \<and> c' = c \<or>
    (\<exists>k. 0 \<le> k \<and> k \<le> uint (recv_buf_sz c) \<and> n = word_of_int k \<and>
       length (block_bytes (recv_buf c')) = length (block_bytes (recv_buf c)) \<and>
       recv_buf_sz c' = recv_buf_sz c - word_of_int k \<and>
       send_buf c' = send_buf c \<and> send_buf_sz c' = send_buf_sz c)"
proof -
  let ?t = "takeWhile (\<lambda>x. x \<noteq> 0) sep"
  let ?a = "int_of_size (recv_buf_sz c)"
  have "length ?t < 2 ^ 31" using length_takeWhile_le [of _ sep] sep by (rule order_le_less_trans)
  then have sl: "int_of_size (word_of_nat (length ?t)) = int (length ?t)"
    by (rule int_of_size_of_nat)
  have "c_string sep = Inr ?t"
    using x by (auto simp: commbuf_extract_line_from_recv_buffer_def c_string_def split: if_splits)
  then obtain k where k: "find_separator (recv_buf c) ?t 0 (?a - int (length ?t) + 1) = Inr k"
      "n = 0 \<and> c' = c \<or> k \<noteq> - 1 \<and> n = word_of_int (k + int (length ?t)) \<and>
        length (block_bytes (recv_buf c')) = length (block_bytes (recv_buf c)) \<and>
        recv_buf_sz c' = recv_buf_sz c - word_of_int (k + int (length ?t)) \<and>
        send_buf c' = send_buf c \<and> send_buf_sz c' = send_buf_sz c"
    using x by (auto simp: commbuf_extract_line_from_recv_buffer_def Let_def sl bind_out_eq_Inr
        dest: mem_write_length split: if_splits)
  show ?thesis
  proof (cases "k = - 1")
    case True
    then show ?thesis using k(2) by auto
  next
    case False
    then have "0 \<le> k" "k < ?a - int (length ?t) + 1" using find_separator_range [OF k(1)] by auto
    then have "0 \<le> k + int (length ?t)" "k + int (length ?t) \<le> uint (recv_buf_sz c)"
      using int_of_size_le [of "recv_buf_sz c"] by linarith+
    then show ?thesis using k(2) by blast
  qed
qed

lemma commbuf_exec_ok:
  assumes "commbuf_ok c" "small_separator x" "commbuf_exec L c x = Inr c'"
  shows "commbuf_ok c'"
proof (cases x)
  case (Extract_line sep)
  then obtain n d where x: "commbuf_extract_line_from_recv_buffer L c sep = Inr (n, d, c')"
    using assms(3) by (auto simp: bind_out_eq_Inr)
  have sep: "length sep < 2 ^ 31" using assms(2) Extract_line by simp
  from commbuf_extract_line_shape [OF x sep] show ?thesis
  proof (elim disjE conjE exE)
    fix k
    assume k: "0 \<le> k" "k \<le> uint (recv_buf_sz c)"
      and p: "length (block_bytes (recv_buf c')) = length (block_bytes (recv_buf c))"
        "recv_buf_sz c' = recv_buf_sz c - word_of_int k"
        "send_buf c' = send_buf c" "send_buf_sz c' = send_buf_sz c"
    have "int (unat (recv_buf_sz c - word_of_int k)) \<le> int (unat (recv_buf_sz c))"
      using unat_minus_int [OF k] k(1) by simp
    then show ?thesis using assms(1) p by (simp add: commbuf_ok_def del: of_nat_unat)
  qed (use assms in auto)
qed (use assms in \<open>auto simp: commbuf_ok_def commbuf_add_to_recv_buffer_def
      commbuf_add_to_send_buffer_def commbuf_add_text_to_send_buffer_def Let_def
      commbuf_clear_send_buffer_def commbuf_clear_recv_buffer_def
      commbuf_extract_from_recv_buffer_def bind_out_eq_Inr
      dest!: REALLOC_length mem_write_length split: if_splits\<close>)

lemma commbuf_run_ok:
  "commbuf_ok c \<Longrightarrow> list_all small_separator xs \<Longrightarrow> commbuf_run L c xs = Inr c' \<Longrightarrow> commbuf_ok c'"
proof (induction xs arbitrary: c)
  case (Cons x xs)
  then show ?case by (auto simp: bind_out_eq_Inr dest: commbuf_exec_ok)
qed simp

section \<open>Properties\<close>

text \<open>
  C6. Line extraction implements the search for the first separator: with no complete line
  it returns 0 and changes nothing; otherwise it returns the first line with its separator,
  NUL-terminated, its length, and a buffer that holds exactly the rest.
\<close>

theorem extract_line_refines_split_line:
  assumes "commbuf_ok c" "unat (recv_buf_sz c) < 2 ^ 31 - 1"
    and "sep \<noteq> []" "0 \<notin> set sep" "length sep < 2 ^ 31"
    and "\<forall>n. malloc_ok L n"
  shows "case split_line sep (recv_view c) of
      None \<Rightarrow> commbuf_extract_line_from_recv_buffer L c (sep @ [0]) = Inr (0, None, c)
    | Some (l, r) \<Rightarrow> (\<exists>c'.
        commbuf_extract_line_from_recv_buffer L c (sep @ [0]) =
          Inr (word_of_nat (length l), Some (l @ [0]), c') \<and>
        commbuf_ok c' \<and> recv_view c' = r \<and> send_view c' = send_view c \<and> l @ r = recv_view c)"
proof (cases "split_line sep (recv_view c)")
  case None
  then show ?thesis using commbuf_extract_line_None assms by simp
next
  case (Some p)
  then obtain l r where lr: "split_line sep (recv_view c) = Some (l, r)" by (cases p) auto
  show ?thesis
    using commbuf_extract_line_Some [OF assms(1-4) lr] assms(6) split_line_concat [OF lr]
    by (auto simp: lr)
qed

definition two_lines :: commbuf where
  "two_lines = \<lparr>cb_fd = 0, recv_buf = Some [104, 105, 10, 121, 111, 10, 7], recv_buf_sz = 6,
     send_buf = None, send_buf_sz = 0\<rparr>"

theorem extract_line_refines_split_line_witness:
  "\<exists>c'. commbuf_extract_line_from_recv_buffer glibc two_lines [10, 0] =
      Inr (3, Some [104, 105, 10, 0], c') \<and> recv_view c' = [121, 111, 10]"
proof -
  have v: "recv_view two_lines = [104, 105, 10, 121, 111, 10]"
    by (simp add: recv_view_def two_lines_def)
  have "split_line [10] (recv_view two_lines) = Some ([104, 105, 10], [121, 111, 10])"
    unfolding v by (simp add: split_line_def)
  then show ?thesis
    using extract_line_refines_split_line [of two_lines "[10]" glibc]
    by (auto simp: commbuf_ok_def two_lines_def)
qed

text \<open>
  What is added to a fresh receive buffer in two pieces comes out as their
  concatenation, in order and complete, and the buffer is empty afterwards.
\<close>

theorem recv_buffer_roundtrip:
  assumes "\<forall>n. malloc_ok L n" "\<not> realloc0_frees L \<or> a @ b \<noteq> []"
    and "length a + length b < 2 ^ 64" "commbuf_create L = Inr c"
  shows "\<exists>c1 c2 d c3. commbuf_add_to_recv_buffer L c a = Inr c1 \<and>
    commbuf_add_to_recv_buffer L c1 b = Inr c2 \<and>
    commbuf_extract_from_recv_buffer L c2 = Inr (word_of_nat (length a + length b), d, c3) \<and>
    block_bytes d = a @ b \<and> recv_view c3 = []"
proof -
  have c: "commbuf_ok c" "recv_view c = []" "recv_buf c = None" "recv_buf_sz c = 0"
    using commbuf_create_ok [OF assms(4)] assms(4) by (auto simp: commbuf_create_def bind_out_eq_Inr)
  obtain c1 where c1: "commbuf_add_to_recv_buffer L c a = Inr c1" "commbuf_ok c1"
      "recv_view c1 = a" "unat (recv_buf_sz c1) = length a"
    using commbuf_add_recv_refines [of c L a] c assms(1,3) by (auto simp: can_grow_def)
  have "recv_buf_sz c1 = 0 \<longleftrightarrow> a = []"
    using c1(4) by (metis length_0_conv unat_eq_zero)
  then have "can_grow L (recv_buf c1) (recv_buf_sz c1) (length b)"
    using c1(4) assms by (auto simp: can_grow_def)
  from commbuf_add_recv_refines [OF c1(2) this] obtain c2 where
    c2: "commbuf_add_to_recv_buffer L c1 b = Inr c2" "commbuf_ok c2" "recv_view c2 = a @ b"
      "unat (recv_buf_sz c2) = length a + length b"
    using c1(3,4) by auto
  have "recv_buf_sz c2 = word_of_nat (length a + length b)"
    by (simp flip: c2(4))
  then show ?thesis
    using commbuf_extract_refines [OF c2(2), of L] assms(1) c1(1) c2(1,3) by auto
qed

theorem recv_buffer_roundtrip_witness:
  "\<exists>c c1 c2 d c3. commbuf_create glibc = Inr c \<and>
    commbuf_add_to_recv_buffer glibc c [72, 101] = Inr c1 \<and>
    commbuf_add_to_recv_buffer glibc c1 [108] = Inr c2 \<and>
    commbuf_extract_from_recv_buffer glibc c2 = Inr (3, d, c3) \<and>
    block_bytes d = [72, 101, 108] \<and> recv_view c3 = []"
proof -
  obtain c where "commbuf_create glibc = Inr c"
    by (simp add: commbuf_create_def CALLOC_ok)
  then show ?thesis
    using recv_buffer_roundtrip [of glibc "[72, 101]" "[108]" c] by auto
qed

text \<open>
  C21. Whatever sequence of operations a session performs on a buffer, the bytes in use never
  exceed the allocated block, on both sides.
\<close>

theorem commbuf_invariant:
  assumes "commbuf_create L = Inr c" "list_all small_separator xs" "commbuf_run L c xs = Inr c'"
  shows "commbuf_ok c'"
  using commbuf_run_ok [OF _ assms(2,3)] commbuf_create_ok [OF assms(1)] by blast

theorem commbuf_invariant_witness:
  "\<exists>c c'. commbuf_create musl = Inr c \<and>
     commbuf_run musl c [Add_send [1, 2], Clear_send, Add_send []] = Inr c' \<and> commbuf_ok c'"
proof -
  obtain c where c: "commbuf_create musl = Inr c"
    by (simp add: commbuf_create_def CALLOC_ok)
  then have "commbuf_run musl c [Add_send [1, 2], Clear_send, Add_send []] =
      Inr (c\<lparr>send_buf := Some [], send_buf_sz := 0\<rparr>)"
    by (auto simp: commbuf_create_def commbuf_add_to_send_buffer_def REALLOC_def c_realloc_def
        c_malloc_def check_ptr_def mem_write_def commbuf_clear_send_buffer_def CALLOC_ok)
  with c show ?thesis
    using commbuf_invariant [OF c, of "[Add_send [1, 2], Clear_send, Add_send []]"] by auto
qed

text \<open>
  A receive buffer between 2 GiB and 4 GiB never yields a line, whatever it holds: the
  size is narrowed to \<open>int\<close>, turns negative and the search loop does not run.
\<close>

theorem oversize_buffer_yields_no_line:
  assumes "2 ^ 31 + length sep \<le> unat (recv_buf_sz c)" "unat (recv_buf_sz c) < 2 ^ 32"
    and "0 \<notin> set sep" "length sep < 2 ^ 31"
  shows "commbuf_extract_line_from_recv_buffer L c (sep @ [0]) = Inr (0, None, c)"
proof -
  let ?a = "int_of_size (recv_buf_sz c)" and ?s = "int (length sep)"
  define u where "u = uint (recv_buf_sz c)"
  have u: "u = int (unat (recv_buf_sz c))" by (simp add: u_def)
  have "2 ^ 31 + ?s \<le> u" "u < 2 ^ 32"
    using assms(1,2) unfolding u by (simp_all del: of_nat_unat)
  moreover from this have "?a = u - 2 ^ 32" by (simp add: int_of_size_def flip: u_def)
  ultimately have a: "- (2 ^ 31) + ?s \<le> ?a \<and> ?a < 0" by auto
  then have "fits_int (?a - ?s)" "fits_int (?a - ?s + 1)" by (auto simp: fits_int_def)
  moreover have "find_separator (recv_buf c) sep 0 (?a - ?s + 1) = Inr (- 1)"
    using a by (simp add: find_separator.simps)
  ultimately show ?thesis
    using assms(3) int_of_size_of_nat [OF assms(4)]
    by (simp add: commbuf_extract_line_from_recv_buffer_def)
qed

theorem oversize_buffer_yields_no_line_witness:
  "commbuf_extract_line_from_recv_buffer glibc
     \<lparr>cb_fd = 0, recv_buf = None, recv_buf_sz = 3000000000, send_buf = None, send_buf_sz = 0\<rparr>
     [10, 0] =
   Inr (0, None,
     \<lparr>cb_fd = 0, recv_buf = None, recv_buf_sz = 3000000000, send_buf = None, send_buf_sz = 0\<rparr>)"
  using oversize_buffer_yields_no_line [of "[10]"
    "\<lparr>cb_fd = 0, recv_buf = None, recv_buf_sz = 3000000000, send_buf = None, send_buf_sz = 0\<rparr>" glibc]
  by simp

text \<open>
  Running out of memory while a buffer grows ends the process with the ordinary failure
  status, never with the non-recoverable status the calling code asks for: the checked
  allocator exits first.
\<close>

theorem allocation_failure_exit_status:
  "commbuf_add_to_recv_buffer L c data = Inl (Exit e) \<Longrightarrow> e = EXIT_FAILURE"
  by (auto simp: commbuf_add_to_recv_buffer_def bind_out_def Let_def mem_write_def
      alloc_never_NULL dest!: REALLOC_fails_only_exit split: sum.splits option.splits if_splits)

theorem allocation_failure_exit_status_witness:
  "commbuf_add_to_recv_buffer (glibc\<lparr>malloc_ok := (\<lambda>_. False)\<rparr>) two_lines [1] = Inl (Exit 1) \<and>
   (1::int) = EXIT_FAILURE"
proof -
  have "commbuf_add_to_recv_buffer (glibc\<lparr>malloc_ok := (\<lambda>_. False)\<rparr>) two_lines [1] = Inl (Exit 1)"
    by (simp add: commbuf_add_to_recv_buffer_def REALLOC_def c_realloc_def check_ptr_def
        two_lines_def EXIT_FAILURE_def)
  then show ?thesis using allocation_failure_exit_status by blast
qed

end
