(* ===== verification/Session.thy ===== *)
theory Session
  imports Commbuf
begin

text \<open>
  Sessions (\<open>src/service/session.c\<close>) and the line-echo service \<open>parrot\<close> that the program ships
  as its example and test service (\<open>tmp/tests/parrot.c\<close>, also in \<open>tests/tcp.cc\<close>).  A session's
  behaviour is its table of callbacks; the data of a concrete service is the type parameter.
  \<open>connection\<close> is \<open>None\<close> once the buffer is freed, and every use of a freed buffer has no
  defined behaviour.
\<close>

record 'd session_vtable =
  on_recv :: "libc \<Rightarrow> int \<Rightarrow> 'd \<Rightarrow> commbuf \<Rightarrow> (int \<times> 'd \<times> commbuf) outcome"
  finalize :: "(commbuf option \<Rightarrow> 'd \<Rightarrow> 'd outcome) option"

record 'd session =
  session_vt :: "'d session_vtable"
  session_fd :: int
  connection :: "commbuf option"
  session_data :: 'd

definition session_init ::
  "libc \<Rightarrow> int \<Rightarrow> 'd session_vtable \<Rightarrow> 'd \<Rightarrow> 'd session outcome" where
  "session_init L fd vt d =
     bind_out (commbuf_create L) (\<lambda>c.
     Inr \<lparr>session_vt = vt, session_fd = fd, connection = Some c, session_data = d\<rparr>)"

definition session_on_recv :: "libc \<Rightarrow> 'd session \<Rightarrow> (int \<times> 'd session) outcome" where
  "session_on_recv L s =
     (case connection s of
        None \<Rightarrow> Inl Undefined
      | Some c \<Rightarrow>
          bind_out (on_recv (session_vt s) L (session_fd s) (session_data s) c) (\<lambda>(r, d, c').
          Inr (r, s\<lparr>connection := Some c', session_data := d\<rparr>)))"

text \<open>The buffer is destroyed before the service's own finalizer runs.\<close>

definition session_finalize :: "'d session \<Rightarrow> 'd session outcome" where
  "session_finalize s =
     (case connection s of
        None \<Rightarrow> Inl Undefined
      | Some c \<Rightarrow>
          (let s1 = s\<lparr>connection := commbuf_destroy c\<rparr> in
           case finalize (session_vt s) of
             None \<Rightarrow> Inr s1
           | Some f \<Rightarrow> bind_out (f (connection s1) (session_data s1)) (\<lambda>d.
               Inr (s1\<lparr>session_data := d\<rparr>))))"

lemma session_finalize_dangling:
  "session_finalize s = Inr s' \<Longrightarrow>
     connection s' = None \<and> session_on_recv L s' = Inl Undefined \<and> session_finalize s' = Inl Undefined"
  by (auto simp: session_finalize_def session_on_recv_def commbuf_destroy_def Let_def
      bind_out_eq_Inr split: option.splits)

section \<open>Line extraction consumes\<close>

lemma commbuf_add_text_keeps_recv:
  "commbuf_add_text_to_send_buffer L c t = Inr c' \<Longrightarrow> recv_buf_sz c' = recv_buf_sz c"
  by (auto simp: commbuf_add_text_to_send_buffer_def commbuf_add_to_send_buffer_def Let_def
      bind_out_eq_Inr split: if_splits)

lemma commbuf_extract_line_decreases:
  assumes x: "commbuf_extract_line_from_recv_buffer L c sep = Inr (n, d, c')"
    and n: "n \<noteq> 0" and sep: "length sep < 2 ^ 31"
  shows "unat (recv_buf_sz c') < unat (recv_buf_sz c)"
proof -
  obtain k where k: "0 \<le> k" "k \<le> uint (recv_buf_sz c)" "n = word_of_int k"
      "recv_buf_sz c' = recv_buf_sz c - word_of_int k"
    using commbuf_extract_line_shape [OF x sep] n by blast
  then have "k \<noteq> 0" using n by auto
  then have "int (unat (recv_buf_sz c')) < int (unat (recv_buf_sz c))"
    using unat_minus_int [OF k(1,2)] k(1,4) by simp
  then show ?thesis by (simp del: of_nat_unat)
qed

section \<open>The parrot services\<close>

text \<open>
  The parrot (\<open>tmp/tests/parrot.c\<close>) and its twin over SSL (\<open>tmp/tests/sparrot.c\<close>) answer every line
  with itself; they differ in what ends a line.  The loop of the handler extracts a line, echoes
  it as a C string and frees it.
\<close>

definition crlf :: "byte list" where
  "crlf = [13, 10]"

definition lf :: "byte list" where
  "lf = [10]"

lemma crlf_facts [simp]: "crlf \<noteq> []" "0 \<notin> set crlf" "length crlf = 2"
  by (simp_all add: crlf_def)

lemma lf_facts [simp]: "lf \<noteq> []" "0 \<notin> set lf" "length lf = 1"
  by (simp_all add: lf_def)

lemma echo_decreases:
  assumes "commbuf_extract_line_from_recv_buffer L c (sep @ [0]) = Inr (n, line, c1)" "n \<noteq> 0"
    and "length sep < 2 ^ 31 - 1" "commbuf_add_text_to_send_buffer L c1 t = Inr c2"
  shows "unat (recv_buf_sz c2) < unat (recv_buf_sz c)"
  using commbuf_extract_line_decreases [OF assms(1,2)] assms(3)
    commbuf_add_text_keeps_recv [OF assms(4)] by auto

function parrot_loop :: "libc \<Rightarrow> commbuf \<Rightarrow> commbuf outcome" where
  "parrot_loop L c =
     bind_out (commbuf_extract_line_from_recv_buffer L c (crlf @ [0])) (\<lambda>(n, line, c').
     if n = 0 then Inr c'
     else bind_out (commbuf_add_text_to_send_buffer L c' (block_bytes line)) (parrot_loop L))"
  by pat_completeness auto
termination
  by (relation "measure (\<lambda>(L, c). unat (recv_buf_sz c))") (auto elim!: echo_decreases)

function sparrot_loop :: "libc \<Rightarrow> commbuf \<Rightarrow> commbuf outcome" where
  "sparrot_loop L c =
     bind_out (commbuf_extract_line_from_recv_buffer L c (lf @ [0])) (\<lambda>(n, line, c').
     if n = 0 then Inr c'
     else bind_out (commbuf_add_text_to_send_buffer L c' (block_bytes line)) (sparrot_loop L))"
  by pat_completeness auto
termination
  by (relation "measure (\<lambda>(L, c). unat (recv_buf_sz c))") (auto elim!: echo_decreases)

declare parrot_loop.simps [simp del] sparrot_loop.simps [simp del]

definition parrot_on_recv :: "libc \<Rightarrow> int \<Rightarrow> unit \<Rightarrow> commbuf \<Rightarrow> (int \<times> unit \<times> commbuf) outcome" where
  "parrot_on_recv L fd d c = bind_out (parrot_loop L c) (\<lambda>c'. Inr (0, (), c'))"

definition sparrot_on_recv :: "libc \<Rightarrow> int \<Rightarrow> unit \<Rightarrow> commbuf \<Rightarrow> (int \<times> unit \<times> commbuf) outcome" where
  "sparrot_on_recv L fd d c = bind_out (sparrot_loop L c) (\<lambda>c'. Inr (0, (), c'))"

definition parrot_vtable :: "unit session_vtable" where
  "parrot_vtable = \<lparr>on_recv = parrot_on_recv, finalize = None\<rparr>"

definition sparrot_vtable :: "unit session_vtable" where
  "sparrot_vtable = \<lparr>on_recv = sparrot_on_recv, finalize = None\<rparr>"

definition parrot_session_create :: "libc \<Rightarrow> int \<Rightarrow> unit session outcome" where
  "parrot_session_create L fd = session_init L fd parrot_vtable ()"

definition sparrot_session_create :: "libc \<Rightarrow> int \<Rightarrow> unit session outcome" where
  "sparrot_session_create L fd = session_init L fd sparrot_vtable ()"

text \<open>
  What the two have in common: a handler whose loop echoes the lines that \<open>sep\<close> ends.
\<close>

locale echo_service =
  fixes sep :: "byte list"
    and loop :: "libc \<Rightarrow> commbuf \<Rightarrow> commbuf outcome"
    and vtable :: "unit session_vtable"
    and create :: "libc \<Rightarrow> int \<Rightarrow> unit session outcome"
  assumes sep: "sep \<noteq> []" "0 \<notin> set sep" "length sep < 2 ^ 31 - 1"
    and loop_step: "loop L c =
      bind_out (commbuf_extract_line_from_recv_buffer L c (sep @ [0])) (\<lambda>(n, line, c').
      if n = 0 then Inr c'
      else bind_out (commbuf_add_text_to_send_buffer L c' (block_bytes line)) (loop L))"
    and vtable: "on_recv vtable L fd d c = bind_out (loop L c) (\<lambda>c'. Inr (0, (), c'))"
      "finalize vtable = None"
    and create: "create L fd = session_init L fd vtable ()"

section \<open>What the parrots compute\<close>

abbreviation upto_nul :: "byte list \<Rightarrow> byte list" where
  "upto_nul l \<equiv> takeWhile (\<lambda>x. x \<noteq> 0) l"

text \<open>
  \<open>line_room\<close>: memory is granted, the buffers stay below the sizes at which the code's
  \<open>int\<close> and \<open>size_t\<close> arithmetic wraps, and \<open>realloc\<close> is never asked for size zero on a C
  library that frees.
\<close>

definition line_room :: "byte list \<Rightarrow> libc \<Rightarrow> commbuf \<Rightarrow> bool" where
  "line_room sep L c \<longleftrightarrow>
     (\<forall>n. malloc_ok L n) \<and> unat (recv_buf_sz c) < 2 ^ 31 - 1 \<and>
     unat (recv_buf_sz c) + unat (send_buf_sz c) < 2 ^ 64 \<and>
     (\<forall>l \<in> set (fst (split_lines sep (recv_view c))). realloc0_frees L \<longrightarrow> upto_nul l \<noteq> [])"

abbreviation echo_room :: "libc \<Rightarrow> commbuf \<Rightarrow> bool" where
  "echo_room \<equiv> line_room crlf"

lemma upto_nul_length: "length (upto_nul l) \<le> length l"
  by (rule length_takeWhile_le)

context echo_service
begin

lemma sep_facts [simp]: "sep \<noteq> []" "0 \<notin> set sep" "length sep < 2147483648"
  using sep by simp_all

lemma loop_echo:
  assumes "commbuf_ok c" "line_room sep L c" "split_lines sep (recv_view c) = (ls, rest)"
  shows "\<exists>c'. loop L c = Inr c' \<and> commbuf_ok c' \<and> recv_view c' = rest \<and>
           send_view c' = send_view c @ concat (map upto_nul ls)"
  using assms
proof (induction ls arbitrary: c)
  case Nil
  have "split_line sep (recv_view c) = None"
    using Nil.prems(3) by (auto simp: split_lines.simps [of sep] split: option.splits prod.splits)
  moreover have "rest = recv_view c" using split_lines_concat [OF Nil.prems(3)] by simp
  ultimately show ?case
    using Nil.prems sep commbuf_extract_line_None [of c sep L]
    by (simp add: loop_step [of L c] line_room_def)
next
  case (Cons l ls)
  obtain r where sl: "split_line sep (recv_view c) = Some (l, r)"
      and r: "split_lines sep r = (ls, rest)"
    using Cons.prems(3) by (auto simp: split_lines.simps [of sep "recv_view c"]
      split: option.splits prod.splits)
  have room: "\<And>n. malloc_ok L n" "unat (recv_buf_sz c) < 2 ^ 31 - 1"
      "unat (recv_buf_sz c) + unat (send_buf_sz c) < 2 ^ 64"
      "\<And>k. k \<in> set (l # ls) \<Longrightarrow> realloc0_frees L \<Longrightarrow> upto_nul k \<noteq> []"
    using Cons.prems(2,3) by (auto simp: line_room_def)
  obtain c1 where c1: "commbuf_extract_line_from_recv_buffer L c (sep @ [0]) =
        Inr (word_of_nat (length l), Some (l @ [0]), c1)"
      "commbuf_ok c1" "recv_view c1 = r" "send_view c1 = send_view c"
      "send_buf c1 = send_buf c" "send_buf_sz c1 = send_buf_sz c" "unat (recv_buf_sz c1) = length r"
    using commbuf_extract_line_Some [OF Cons.prems(1) room(2) sep(1,2) sl room(1)] by auto
  have len: "length l + length r = unat (recv_buf_sz c)"
    using split_line_concat [OF sl] recv_view_length [OF Cons.prems(1)]
    by (metis length_append)
  have "l \<noteq> []" using split_line_length [OF sl sep(1)] by simp
  then have nz: "(word_of_nat (length l) :: size_t) \<noteq> 0"
    using len room(2) by (intro word_of_nat_size_nonzero) auto
  have "can_grow L (send_buf c1) (send_buf_sz c1) (length (upto_nul l))"
    using room len c1(6) upto_nul_length [of l] by (auto simp: can_grow_def)
  from commbuf_add_text_refines [OF c1(2) this] obtain c2 where
    c2: "commbuf_add_text_to_send_buffer L c1 (l @ [0]) = Inr c2" "commbuf_ok c2"
      "send_view c2 = send_view c @ upto_nul l" "recv_view c2 = r"
      "recv_buf_sz c2 = recv_buf_sz c1"
      "unat (send_buf_sz c2) = unat (send_buf_sz c) + length (upto_nul l)"
    using c1 by auto
  have "line_room sep L c2"
    using room len c1(7) c2 upto_nul_length [of l] r by (auto simp: line_room_def)
  from Cons.IH [OF c2(2) this] obtain c' where "loop L c2 = Inr c'" "commbuf_ok c'"
      "recv_view c' = rest" "send_view c' = send_view c @ upto_nul l @ concat (map upto_nul ls)"
    using c2 r by auto
  then show ?case using c1(1) c2(1) nz by (simp add: loop_step [of L c])
qed

lemma echoes:
  assumes "commbuf_ok c" "line_room sep L c"
  shows "\<exists>c'. on_recv vtable L fd () c = Inr (0, (), c') \<and> commbuf_ok c' \<and>
    send_view c' = send_view c @ concat (map upto_nul (fst (split_lines sep (recv_view c)))) \<and>
    recv_view c' = snd (split_lines sep (recv_view c)) \<and>
    split_line sep (recv_view c') = None"
proof -
  obtain ls rest where s: "split_lines sep (recv_view c) = (ls, rest)" by fastforce
  then show ?thesis using loop_echo [OF assms s] split_lines_rest [OF s sep(1)] by (auto simp: vtable)
qed

lemma chunk_independent:
  assumes "commbuf_ok c1" "line_room sep L c1" "commbuf_ok c2" "line_room sep L c2" "commbuf_ok c3"
    "line_room sep L c3"
    and first: "recv_view c1 = a" "on_recv vtable L fd () c1 = Inr (0, (), c1')"
    and second: "recv_view c2 = recv_view c1' @ b" "send_view c2 = send_view c1'"
      "on_recv vtable L fd () c2 = Inr (0, (), c2')"
    and whole: "recv_view c3 = a @ b" "send_view c3 = send_view c1"
      "on_recv vtable L fd () c3 = Inr (0, (), c3')"
  shows "send_view c2' = send_view c3' \<and> recv_view c2' = recv_view c3'"
proof -
  obtain l1 r1 where s1: "split_lines sep a = (l1, r1)" by fastforce
  obtain l2 r2 where s2: "split_lines sep (r1 @ b) = (l2, r2)" by fastforce
  have s3: "split_lines sep (a @ b) = (l1 @ l2, r2)" by (rule split_lines_append [OF sep(1) s1 s2])
  have 1: "send_view c1' = send_view c1 @ concat (map upto_nul l1)" "recv_view c1' = r1"
    using echoes [OF assms(1,2), of fd] first s1 by auto
  have 2: "send_view c2' = send_view c2 @ concat (map upto_nul l2)" "recv_view c2' = r2"
    using echoes [OF assms(3,4), of fd] second s2 1 by auto
  have 3: "send_view c3' = send_view c3 @ concat (map upto_nul (l1 @ l2))" "recv_view c3' = r2"
    using echoes [OF assms(5,6), of fd] whole s3 by auto
  show ?thesis using 1 2 3 second(2) whole(2) by simp
qed

end

interpretation parrot_echo: echo_service crlf parrot_loop parrot_vtable parrot_session_create
  by unfold_locales (simp_all add: parrot_vtable_def parrot_on_recv_def parrot_session_create_def
      parrot_loop.simps)

interpretation sparrot_echo: echo_service lf sparrot_loop sparrot_vtable sparrot_session_create
  by unfold_locales (simp_all add: sparrot_vtable_def sparrot_on_recv_def sparrot_session_create_def
      sparrot_loop.simps)

lemma parrot_handler: "on_recv parrot_vtable = parrot_on_recv"
  by (simp add: parrot_vtable_def)

section \<open>Properties\<close>

text \<open>
  C18. On new data the parrot answers every complete line that has arrived, each up to its
  first NUL byte, in order, and keeps exactly the incomplete rest for the next call.
\<close>

theorem parrot_echoes_complete_lines:
  assumes "commbuf_ok c" "echo_room L c"
  shows "\<exists>c'. parrot_on_recv L fd () c = Inr (0, (), c') \<and> commbuf_ok c' \<and>
    send_view c' = send_view c @ concat (map upto_nul (fst (split_lines crlf (recv_view c)))) \<and>
    recv_view c' = snd (split_lines crlf (recv_view c)) \<and>
    split_line crlf (recv_view c') = None"
  by (rule parrot_echo.echoes [OF assms, unfolded parrot_handler])

definition hello_buffer :: commbuf where
  "hello_buffer = \<lparr>cb_fd = 0, recv_buf = Some [104, 105, 13, 10, 121, 13], recv_buf_sz = 6,
     send_buf = None, send_buf_sz = 0\<rparr>"

lemma hello_buffer_lines:
  "split_lines crlf (recv_view hello_buffer) = ([[104, 105, 13, 10]], [121, 13])"
proof -
  have "split_line crlf (recv_view hello_buffer) = Some ([104, 105, 13, 10], [121, 13])"
    by (simp add: hello_buffer_def recv_view_def split_line_def crlf_def)
  moreover have "split_line crlf [121, 13] = None"
    by (simp add: split_line_def crlf_def)
  ultimately show ?thesis
    using split_lines_Some split_lines_None by (metis crlf_facts(1))
qed

theorem parrot_echoes_complete_lines_witness:
  "\<exists>c'. parrot_on_recv glibc 5 () hello_buffer = Inr (0, (), c') \<and>
     send_view c' = [104, 105, 13, 10] \<and> recv_view c' = [121, 13]"
proof -
  have "commbuf_ok hello_buffer" "send_view hello_buffer = []"
    by (simp_all add: hello_buffer_def commbuf_ok_def send_view_def)
  moreover have "echo_room glibc hello_buffer"
    unfolding line_room_def hello_buffer_lines by (simp add: hello_buffer_def)
  ultimately show ?thesis
    using parrot_echoes_complete_lines [of hello_buffer glibc 5] by (auto simp: hello_buffer_lines)
qed

text \<open>The parrot over SSL answers the lines that end in a line feed.\<close>

lemma sparrot_echoes_complete_lines:
  assumes "commbuf_ok c" "line_room lf L c"
  shows "\<exists>c'. sparrot_on_recv L fd () c = Inr (0, (), c') \<and> commbuf_ok c' \<and>
    send_view c' = send_view c @ concat (map upto_nul (fst (split_lines lf (recv_view c)))) \<and>
    recv_view c' = snd (split_lines lf (recv_view c))"
  using sparrot_echo.echoes [OF assms, of fd] by (auto simp: sparrot_vtable_def)

text \<open>
  C29. The echo does not depend on how the stream is cut: receiving \<open>a\<close>, answering, then
  receiving \<open>b\<close> and answering leaves the same bytes to send and the same rest as receiving
  \<open>a @ b\<close> at once.
\<close>

theorem parrot_chunk_independent:
  assumes "commbuf_ok c1" "echo_room L c1" "commbuf_ok c2" "echo_room L c2" "commbuf_ok c3"
    "echo_room L c3"
    and first: "recv_view c1 = a" "parrot_on_recv L fd () c1 = Inr (0, (), c1')"
    and second: "recv_view c2 = recv_view c1' @ b" "send_view c2 = send_view c1'"
      "parrot_on_recv L fd () c2 = Inr (0, (), c2')"
    and whole: "recv_view c3 = a @ b" "send_view c3 = send_view c1"
      "parrot_on_recv L fd () c3 = Inr (0, (), c3')"
  shows "send_view c2' = send_view c3' \<and> recv_view c2' = recv_view c3'"
  by (rule parrot_echo.chunk_independent [unfolded parrot_handler, OF assms])

definition rest_buffer :: commbuf where
  "rest_buffer = \<lparr>cb_fd = 0, recv_buf = Some [121, 13, 10], recv_buf_sz = 3,
     send_buf = Some [104, 105, 13, 10], send_buf_sz = 4\<rparr>"

definition whole_buffer :: commbuf where
  "whole_buffer = \<lparr>cb_fd = 0, recv_buf = Some [104, 105, 13, 10, 121, 13, 10], recv_buf_sz = 7,
     send_buf = None, send_buf_sz = 0\<rparr>"

lemma chunk_example_views:
  "recv_view rest_buffer = [121, 13, 10]" "send_view rest_buffer = [104, 105, 13, 10]"
  "recv_view whole_buffer = [104, 105, 13, 10, 121, 13, 10]" "send_view whole_buffer = []"
  "recv_view hello_buffer = [104, 105, 13, 10, 121, 13]" "send_view hello_buffer = []"
  by (simp_all add: rest_buffer_def whole_buffer_def hello_buffer_def recv_view_def send_view_def)

lemma chunk_example_lines:
  "split_lines crlf [121, 13, 10] = ([[121, 13, 10]], [])"
  "split_lines crlf [104, 105, 13, 10, 121, 13, 10] = ([[104, 105, 13, 10], [121, 13, 10]], [])"
proof -
  have nil: "split_lines crlf [] = ([], [])"
    by (rule split_lines_None) (simp add: split_line_def)
  show one: "split_lines crlf [121, 13, 10] = ([[121, 13, 10]], [])"
    by (rule split_lines_Some [OF _ _ nil]) (simp_all add: split_line_def crlf_def)
  show "split_lines crlf [104, 105, 13, 10, 121, 13, 10] = ([[104, 105, 13, 10], [121, 13, 10]], [])"
    by (rule split_lines_Some [OF _ _ one]) (simp_all add: split_line_def crlf_def)
qed

lemma chunk_example_ok:
  "commbuf_ok hello_buffer" "commbuf_ok rest_buffer" "commbuf_ok whole_buffer"
  "echo_room glibc hello_buffer" "echo_room glibc rest_buffer" "echo_room glibc whole_buffer"
  unfolding line_room_def chunk_example_views chunk_example_lines
    hello_buffer_lines [unfolded chunk_example_views]
  by (simp_all add: hello_buffer_def rest_buffer_def whole_buffer_def commbuf_ok_def)

theorem parrot_chunk_independent_witness:
  "\<exists>c1 c2 c3. parrot_on_recv glibc 5 () hello_buffer = Inr (0, (), c1) \<and>
     parrot_on_recv glibc 5 () rest_buffer = Inr (0, (), c2) \<and>
     parrot_on_recv glibc 5 () whole_buffer = Inr (0, (), c3) \<and>
     send_view c2 = send_view c3 \<and> recv_view c2 = recv_view c3"
proof -
  obtain c1 where c1: "parrot_on_recv glibc 5 () hello_buffer = Inr (0, (), c1)"
      "recv_view c1 = [121, 13]" "send_view c1 = [104, 105, 13, 10]"
    using parrot_echo.loop_echo [OF chunk_example_ok(1,4) hello_buffer_lines]
    by (auto simp: parrot_on_recv_def chunk_example_views)
  obtain c2 where c2: "parrot_on_recv glibc 5 () rest_buffer = Inr (0, (), c2)"
    using parrot_echo.loop_echo [OF chunk_example_ok(2,5)] chunk_example_lines
    by (auto simp: parrot_on_recv_def chunk_example_views)
  obtain c3 where c3: "parrot_on_recv glibc 5 () whole_buffer = Inr (0, (), c3)"
    using parrot_echo.loop_echo [OF chunk_example_ok(3,6)] chunk_example_lines
    by (auto simp: parrot_on_recv_def chunk_example_views)
  show ?thesis
    using parrot_chunk_independent [OF chunk_example_ok(1,4,2,5,3,6), of _ 5 c1 "[10]" c2 c3]
      c1 c2 c3 by (auto simp: chunk_example_views)
qed

text \<open>
  On a C library whose \<open>realloc(p, 0)\<close> frees, one line that starts with a NUL byte ends
  the server process, once an earlier answer has been sent and cleared.
\<close>

theorem parrot_nul_line_ends_process:
  assumes "realloc0_frees L" "\<forall>n. malloc_ok L n" "commbuf_ok c" "unat (recv_buf_sz c) < 2 ^ 31 - 1"
    and "send_buf c \<noteq> None" "send_buf_sz c = 0"
    and "recv_view c = 0 # xs" "split_line crlf (recv_view c) \<noteq> None"
  shows "parrot_on_recv L fd () c = Inl (Exit EXIT_FAILURE)"
proof -
  obtain l r where lr: "split_line crlf (recv_view c) = Some (l, r)" using assms(8) by auto
  have "l \<noteq> []" "l @ r = 0 # xs"
    using split_line_length [OF lr] split_line_concat [OF lr] assms(7) by auto
  then obtain ys where l: "l = 0 # ys" by (cases l) auto
  obtain c1 where c1: "commbuf_extract_line_from_recv_buffer L c (crlf @ [0]) =
        Inr (word_of_nat (length l), Some (l @ [0]), c1)"
      "send_buf c1 = send_buf c" "send_buf_sz c1 = send_buf_sz c"
    using commbuf_extract_line_Some [OF assms(3,4) _ _ lr spec [OF assms(2)]] by auto
  have "length l \<le> unat (recv_buf_sz c)"
    using split_line_concat [OF lr] recv_view_length [OF assms(3)] by (metis length_append le_add1)
  then have nz: "(word_of_nat (length l) :: size_t) \<noteq> 0"
    using assms(4) l by (intro word_of_nat_size_nonzero) auto
  obtain b where "send_buf c1 = Some b" using assms(5) c1(2) by auto
  moreover have "c_string (l @ [0]) = Inr []" unfolding c_string_append0 l by simp
  ultimately have "commbuf_add_text_to_send_buffer L c1 (l @ [0]) = Inl (Exit EXIT_FAILURE)"
    using REALLOC_zero_frees [OF assms(1)] c1(3) assms(6)
    by (simp add: commbuf_add_text_to_send_buffer_def commbuf_add_to_send_buffer_def)
  then show ?thesis using c1(1) nz by (simp add: parrot_on_recv_def parrot_loop.simps [of L c])
qed

definition nul_line_buffer :: commbuf where
  "nul_line_buffer = \<lparr>cb_fd = 0, recv_buf = Some [0, 13, 10], recv_buf_sz = 3,
     send_buf = Some [104], send_buf_sz = 0\<rparr>"

theorem parrot_nul_line_ends_process_witness:
  "parrot_on_recv glibc 5 () nul_line_buffer = Inl (Exit EXIT_FAILURE)"
proof -
  have v: "recv_view nul_line_buffer = [0, 13, 10]"
    by (simp add: nul_line_buffer_def recv_view_def)
  have "split_line crlf [0, 13, 10] \<noteq> None" by (simp add: split_line_def crlf_def)
  then show ?thesis
    using parrot_nul_line_ends_process [of glibc nul_line_buffer "[13, 10]" 5] v
    by (simp add: nul_line_buffer_def commbuf_ok_def)
qed

end
