(* ===== verification/Poller.thy ===== *)
theory Poller
  imports World
begin

unbundle bit_operations_syntax

text \<open>
  The pollers: \<open>os/linux/poller.c\<close> on epoll, \<open>os/bsd/poller.c\<close> on kqueue and
  \<open>os/win32/poller.c\<close> on WSAPoll.  A wait returns the number of events and the slots it wrote
  in the caller's array; \<open>None\<close> is a slot of the array that was not assigned.
\<close>

datatype poller_event_type = PT_NEW_CONNECTION | PT_NEW_DATA | PT_DISCONNECTED

record poller_event =
  evt_type :: poller_event_type
  evt_fd :: int

section \<open>Linux\<close>

definition EPOLLIN :: "32 word" where "EPOLLIN = 1"
definition EPOLLERR :: "32 word" where "EPOLLERR = 8"
definition EPOLLHUP :: "32 word" where "EPOLLHUP = 16"
definition EPOLLRDHUP :: "32 word" where "EPOLLRDHUP = 8192"
definition EPOLLET :: "32 word" where "EPOLLET = 2147483648"

lemmas epoll_flags = EPOLLIN_def EPOLLERR_def EPOLLHUP_def EPOLLRDHUP_def EPOLLET_def

record poller =
  epoll_fd :: int
  fs_socket :: int

definition poller_create :: "int \<Rightarrow> ('z io_scheme, poller) prog" where
  "poller_create fd_listener =
     bnd (with_libc (\<lambda>L. CALLOC L 1 8)) (\<lambda>_.
     bnd (sys SysEpollCreate) (\<lambda>r.
     let efd = ret_of r in
     bnd (guard_do (efd < - 1) FATAL_NON_RECOVERABLE) (\<lambda>_.
     bnd (sys (SysEpollCtl efd EPOLL_CTL_ADD fd_listener EPOLLIN)) (\<lambda>r.
     bnd (guard_do (ret_of r < 0) FATAL_NON_RECOVERABLE) (\<lambda>_.
     ret \<lparr>epoll_fd = efd, fs_socket = fd_listener\<rparr>)))))"

definition poller_destroy :: "poller \<Rightarrow> ('z io_scheme, unit) prog" where
  "poller_destroy p = bnd (sys (SysClose (epoll_fd p))) (\<lambda>_. ret ())"

definition poller_add_connection :: "poller \<Rightarrow> int \<Rightarrow> ('z io_scheme, unit) prog" where
  "poller_add_connection p fd =
     bnd (sys (SysEpollCtl (epoll_fd p) EPOLL_CTL_ADD fd
            (EPOLLIN OR EPOLLET OR EPOLLRDHUP OR EPOLLHUP OR EPOLLERR))) (\<lambda>r.
     guard_do (ret_of r < 0) FATAL_NON_RECOVERABLE)"

definition poller_remove_connection :: "poller \<Rightarrow> int \<Rightarrow> ('z io_scheme, unit) prog" where
  "poller_remove_connection p fd =
     bnd (sys (SysEpollCtl (epoll_fd p) EPOLL_CTL_DEL fd 0)) (\<lambda>r.
     guard_do (ret_of r < 0) FATAL_NON_RECOVERABLE)"

text \<open>The body of the loop over the events: what is stored for one of them.\<close>

definition epoll_event :: "int \<Rightarrow> int \<times> 32 word \<Rightarrow> poller_event option" where
  "epoll_event listener = (\<lambda>(fd, events).
     if fd = listener then Some \<lparr>evt_type = PT_NEW_CONNECTION, evt_fd = listener\<rparr>
     else if events AND (EPOLLERR OR EPOLLHUP OR EPOLLRDHUP) \<noteq> 0
     then Some \<lparr>evt_type = PT_DISCONNECTED, evt_fd = fd\<rparr>
     else if events AND (EPOLLIN OR EPOLLET) \<noteq> 0
     then Some \<lparr>evt_type = PT_NEW_DATA, evt_fd = fd\<rparr>
     else None)"

definition poller_wait ::
  "poller \<Rightarrow> size_t \<Rightarrow> size_t \<Rightarrow> ('z io_scheme, size_t \<times> poller_event option list) prog" where
  "poller_wait p evt_sz timeout_ms =
     bnd (with_libc (\<lambda>L. CALLOC L evt_sz 12)) (\<lambda>_.
     bnd (sys (SysEpollWait (epoll_fd p) (int_of_size evt_sz) (int_of_size timeout_ms))) (\<lambda>r.
     if ret_of r < 0
     then if rep_errno r = EINTR then ret (0, []) else FATAL_NON_RECOVERABLE
     else
       let events = take (nat (int_of_size evt_sz)) (rep_events r) in
       ret (word_of_nat (length events), map (epoll_event (fs_socket p)) events)))"

section \<open>BSD\<close>

definition EV_EOF :: "32 word" where "EV_EOF = 32768"

record bsd_poller =
  kqueue_fd :: int
  bsd_fs_socket :: int

definition bsd_poller_create :: "int \<Rightarrow> ('z io_scheme, bsd_poller) prog" where
  "bsd_poller_create fd_listener =
     bnd (with_libc (\<lambda>L. CALLOC L 1 8)) (\<lambda>_.
     bnd (sys SysKqueue) (\<lambda>r.
     let kfd = ret_of r in
     bnd (guard_do (kfd < - 1) FATAL_NON_RECOVERABLE) (\<lambda>_.
     bnd (sys (SysKevent kfd fd_listener True)) (\<lambda>r.
     bnd (guard_do (ret_of r < 0) FATAL_NON_RECOVERABLE) (\<lambda>_.
     ret \<lparr>kqueue_fd = kfd, bsd_fs_socket = fd_listener\<rparr>)))))"

definition bsd_poller_destroy :: "bsd_poller \<Rightarrow> ('z io_scheme, unit) prog" where
  "bsd_poller_destroy p = bnd (sys (SysClose (kqueue_fd p))) (\<lambda>_. ret ())"

definition bsd_poller_add_connection :: "bsd_poller \<Rightarrow> int \<Rightarrow> ('z io_scheme, unit) prog" where
  "bsd_poller_add_connection p fd =
     bnd (sys (SysKevent (kqueue_fd p) fd True)) (\<lambda>r.
     guard_do (ret_of r < 0) FATAL_NON_RECOVERABLE)"

definition bsd_poller_remove_connection :: "bsd_poller \<Rightarrow> int \<Rightarrow> ('z io_scheme, unit) prog" where
  "bsd_poller_remove_connection p fd =
     bnd (sys (SysKevent (kqueue_fd p) fd False)) (\<lambda>r.
     guard_do (ret_of r \<noteq> 0) FATAL_NON_RECOVERABLE)"

definition kqueue_event :: "int \<Rightarrow> int \<times> 32 word \<Rightarrow> poller_event option" where
  "kqueue_event listener = (\<lambda>(fd, flags).
     Some (if fd = listener then \<lparr>evt_type = PT_NEW_CONNECTION, evt_fd = listener\<rparr>
           else if flags AND EV_EOF \<noteq> 0 then \<lparr>evt_type = PT_DISCONNECTED, evt_fd = fd\<rparr>
           else \<lparr>evt_type = PT_NEW_DATA, evt_fd = fd\<rparr>))"

text \<open>The count is an \<open>int\<close> that is returned as \<open>size_t\<close>, also when it is \<open>-1\<close>.\<close>

definition bsd_poller_wait ::
  "bsd_poller \<Rightarrow> size_t \<Rightarrow> size_t \<Rightarrow> ('z io_scheme, size_t \<times> poller_event option list) prog" where
  "bsd_poller_wait p evt_sz timeout_ms =
     bnd (sys (SysKeventWait (kqueue_fd p) (int_of_size evt_sz) (timeout_ms * 1000000))) (\<lambda>r.
     if ret_of r < 0 \<and> rep_errno r \<noteq> EINTR then FATAL_NON_RECOVERABLE
     else
       let events = (if ret_of r < 0 then [] else take (nat (int_of_size evt_sz)) (rep_events r));
           n_events = (if ret_of r < 0 then - 1 else int (length events)) in
       ret (word_of_int n_events, map (kqueue_event (bsd_fs_socket p)) events))"

section \<open>Windows\<close>

definition FD_SETSIZE :: nat where "FD_SETSIZE = 64"
definition POLLERR :: "32 word" where "POLLERR = 1"
definition POLLHUP :: "32 word" where "POLLHUP = 2"
definition POLLIN :: "32 word" where "POLLIN = 768"

text \<open>\<open>poll_fds\<close> are the first \<open>poll_count\<close> sockets of the array.\<close>

record win_poller =
  win_fs_socket :: int
  poll_fds :: "int list"

definition win_poller_create :: "int \<Rightarrow> ('z io_scheme, win_poller) prog" where
  "win_poller_create fd_listener =
     bnd (with_libc (\<lambda>L. MALLOC L 1040)) (\<lambda>_.
     ret \<lparr>win_fs_socket = fd_listener, poll_fds = [fd_listener]\<rparr>)"

definition win_poller_destroy :: "win_poller \<Rightarrow> ('z io_scheme, unit) prog" where
  "win_poller_destroy p = bnd (sys (SysClose (win_fs_socket p))) (\<lambda>_. ret ())"

definition win_poller_add_connection :: "win_poller \<Rightarrow> int \<Rightarrow> win_poller outcome" where
  "win_poller_add_connection p fd =
     (if length (poll_fds p) \<ge> FD_SETSIZE then Inl (Exit NON_RECOVERABLE_ERROR)
      else Inr (p\<lparr>poll_fds := poll_fds p @ [fd]\<rparr>))"

text \<open>The first entry with the socket is removed by shifting the later ones left.\<close>

definition win_poller_remove_connection :: "win_poller \<Rightarrow> int \<Rightarrow> win_poller outcome" where
  "win_poller_remove_connection p fd =
     (if fd \<in> set (poll_fds p) then Inr (p\<lparr>poll_fds := remove1 fd (poll_fds p)\<rparr>)
      else Inl (Exit NON_RECOVERABLE_ERROR))"

definition wsapoll_events :: "int \<Rightarrow> int \<times> 32 word \<Rightarrow> poller_event list" where
  "wsapoll_events listener = (\<lambda>(fd, revents).
     if revents = 0 then []
     else
       (if fd = listener then [\<lparr>evt_type = PT_NEW_CONNECTION, evt_fd = listener\<rparr>] else []) @
       (if fd \<noteq> listener \<and> revents AND (POLLERR OR POLLHUP) \<noteq> 0
        then [\<lparr>evt_type = PT_DISCONNECTED, evt_fd = fd\<rparr>] else []) @
       (if fd \<noteq> listener \<and> revents AND POLLIN \<noteq> 0
        then [\<lparr>evt_type = PT_NEW_DATA, evt_fd = fd\<rparr>] else []))"

text \<open>
  The loop over the sockets: it stops when the array is full, but one socket may store two
  events, and a store past the end of the array has no defined behaviour.
\<close>

fun win_collect :: "int \<Rightarrow> nat \<Rightarrow> (int \<times> 32 word) list \<Rightarrow> poller_event list \<Rightarrow> poller_event list outcome" where
  "win_collect listener evt_sz [] out = Inr out"
| "win_collect listener evt_sz (x # xs) out =
     (if length out < evt_sz
      then let out' = out @ wsapoll_events listener x in
           if length out' \<le> evt_sz then win_collect listener evt_sz xs out' else Inl Undefined
      else Inr out)"

text \<open>The system fills in \<open>revents\<close>, one for each socket.\<close>

definition win_revents :: "int list \<Rightarrow> reply \<Rightarrow> (int \<times> 32 word) list" where
  "win_revents fds r = zip fds (map snd (rep_events r) @ replicate (length fds) 0)"

definition win_poller_wait ::
  "win_poller \<Rightarrow> size_t \<Rightarrow> size_t \<Rightarrow> ('z io_scheme, size_t \<times> poller_event option list) prog" where
  "win_poller_wait p evt_sz timeout_ms =
     bnd (sys (SysWSAPoll (poll_fds p) (int_of_size timeout_ms))) (\<lambda>r.
     if ret_of r < 0 then ret (0, [])
     else
       bnd (lift (win_collect (win_fs_socket p) (unat evt_sz) (win_revents (poll_fds p) r) [])) (\<lambda>out.
       ret (word_of_nat (length out), map Some out)))"

section \<open>The interface of the three systems\<close>

text \<open>
  What the server relies on: an event of the listening socket is a new connection, and an
  event of another socket is that socket's and is never a new connection.
\<close>

locale event_source =
  fixes events_of :: "int \<Rightarrow> int \<times> 32 word \<Rightarrow> poller_event list"
  assumes listener_events: "ev \<in> set (events_of l (l, flags)) \<Longrightarrow>
      ev = \<lparr>evt_type = PT_NEW_CONNECTION, evt_fd = l\<rparr>"
    and client_events: "fd \<noteq> l \<Longrightarrow> ev \<in> set (events_of l (fd, flags)) \<Longrightarrow>
      evt_fd ev = fd \<and> evt_type ev \<noteq> PT_NEW_CONNECTION"
begin

lemma new_connection_iff_listener:
  assumes "ev \<in> set (concat (map (events_of l) raw))"
  shows "evt_type ev = PT_NEW_CONNECTION \<longleftrightarrow> evt_fd ev = l"
proof -
  obtain fd flags where "ev \<in> set (events_of l (fd, flags))" using assms by auto
  then show ?thesis
    using listener_events [of ev l flags] client_events [of fd l ev flags] by (cases "fd = l") auto
qed

lemma event_of_reported_socket:
  assumes "ev \<in> set (concat (map (events_of l) raw))"
  shows "evt_fd ev \<in> fst ` set raw"
proof -
  obtain fd flags where m: "(fd, flags) \<in> set raw" "ev \<in> set (events_of l (fd, flags))" using assms by auto
  then have "evt_fd ev = fd"
    using listener_events [of ev l flags] client_events [of fd l ev flags] by (cases "fd = l") auto
  then show ?thesis using m(1) by force
qed

end

definition opt_list :: "'a option \<Rightarrow> 'a list" where
  "opt_list x = (case x of None \<Rightarrow> [] | Some y \<Rightarrow> [y])"

lemma set_opt_list [simp]: "set (opt_list x) = set_option x"
  by (cases x) (simp_all add: opt_list_def)

interpretation epoll: event_source "\<lambda>l x. opt_list (epoll_event l x)"
  by unfold_locales (auto simp: epoll_event_def split: if_splits)

interpretation kqueue: event_source "\<lambda>l x. opt_list (kqueue_event l x)"
  by unfold_locales (auto simp: kqueue_event_def split: if_splits)

interpretation wsapoll: event_source wsapoll_events
  by unfold_locales (auto simp: wsapoll_events_def split: if_splits)

lemma concat_opt_list: "set (concat (map (\<lambda>x. opt_list (f x)) xs)) = {y. Some y \<in> f ` set xs}"
  by (auto simp: image_iff) (metis option.set_intros)+

text \<open>If the kernel reports only what was asked for, every slot is assigned.\<close>

lemma epoll_slots:
  assumes asked: "\<forall>(fd, ev) \<in> set raw. ev AND (EPOLLIN OR EPOLLERR OR EPOLLHUP OR EPOLLRDHUP) \<noteq> 0"
  shows "\<exists>out. map (epoll_event l) raw = map Some out \<and>
    (\<forall>ev \<in> set out. (evt_type ev = PT_NEW_CONNECTION \<longleftrightarrow> evt_fd ev = l) \<and> evt_fd ev \<in> fst ` set raw)"
proof -
  have some: "epoll_event l x \<noteq> None" if "x \<in> set raw" for x
  proof (cases x)
    case (Pair fd ev)
    then have "ev AND (EPOLLIN OR EPOLLERR OR EPOLLHUP OR EPOLLRDHUP) \<noteq> 0" using that asked by auto
    then have "ev AND (EPOLLERR OR EPOLLHUP OR EPOLLRDHUP) \<noteq> 0 \<or> ev AND (EPOLLIN OR EPOLLET) \<noteq> 0"
      by (auto simp: bit.conj_disj_distrib word_bw_assocs or_eq_0_iff)
    then show ?thesis using Pair by (auto simp: epoll_event_def)
  qed
  define out where "out = map (the \<circ> epoll_event l) raw"
  have out: "map (epoll_event l) raw = map Some out" using some by (auto simp: out_def)
  have "set (concat (map (\<lambda>x. opt_list (epoll_event l x)) raw)) = set out"
    unfolding concat_opt_list using arg_cong [OF out, of set] by auto
  then have "\<forall>ev \<in> set out. (evt_type ev = PT_NEW_CONNECTION \<longleftrightarrow> evt_fd ev = l) \<and> evt_fd ev \<in> fst ` set raw"
    using epoll.new_connection_iff_listener [of _ l raw] epoll.event_of_reported_socket [of _ l raw] by blast
  then show ?thesis using out by blast
qed

lemma linux_wait_slots:
  assumes "\<forall>h. malloc_ok (mem s h) (unat evt_sz * 12)" "unat evt_sz < 2 ^ 31"
    and "poller_wait p evt_sz ms s = (r, s')"
    and asked: "\<forall>(fd, ev) \<in> set (rep_events (env s (log s)
        (SysEpollWait (epoll_fd p) (int_of_size evt_sz) (int_of_size ms)))).
      ev AND (EPOLLIN OR EPOLLERR OR EPOLLHUP OR EPOLLRDHUP) \<noteq> 0"
  shows "r = Inl (Exit NON_RECOVERABLE_ERROR) \<or>
    (\<exists>out. r = Inr (word_of_nat (length out), map Some out) \<and> length out \<le> unat evt_sz \<and>
      (\<forall>ev \<in> set out. (evt_type ev = PT_NEW_CONNECTION \<longleftrightarrow> evt_fd ev = fs_socket p) \<and>
        evt_fd ev \<in> fst ` set (rep_events (env s (log s)
          (SysEpollWait (epoll_fd p) (int_of_size evt_sz) (int_of_size ms))))))"
proof -
  define rep where "rep = env s (log s) (SysEpollWait (epoll_fd p) (int_of_size evt_sz) (int_of_size ms))"
  have "unat evt_sz * 12 < 2 ^ 64" using assms(2) by simp
  then obtain b where "CALLOC (mem s (log s)) evt_sz 12 = Inr b"
    using CALLOC_ok [of "mem s (log s)" evt_sz 12] assms(1) by auto
  then have run: "r = (if ret_of rep < 0
      then if rep_errno rep = EINTR then Inr (0, []) else Inl (Exit NON_RECOVERABLE_ERROR)
      else Inr (word_of_nat (length (take (unat evt_sz) (rep_events rep))),
             map (epoll_event (fs_socket p)) (take (unat evt_sz) (rep_events rep))))"
    using assms(3) int_of_size_small [OF assms(2)]
    by (auto simp: poller_wait_def bnd_def with_libc_run sys_run Let_def FATAL_run rep_def
        split: if_splits simp del: of_nat_unat)
  show ?thesis
  proof (cases "ret_of rep < 0")
    case True
    then show ?thesis using run by (cases "rep_errno rep = EINTR") (auto intro: exI [of _ "[]"])
  next
    case False
    define raw where "raw = take (unat evt_sz) (rep_events rep)"
    have "\<forall>(fd, ev) \<in> set raw. ev AND (EPOLLIN OR EPOLLERR OR EPOLLHUP OR EPOLLRDHUP) \<noteq> 0"
      using asked unfolding raw_def rep_def by (auto dest: in_set_takeD)
    from epoll_slots [OF this] obtain out where out: "map (epoll_event (fs_socket p)) raw = map Some out"
        "\<forall>ev \<in> set out. (evt_type ev = PT_NEW_CONNECTION \<longleftrightarrow> evt_fd ev = fs_socket p) \<and> evt_fd ev \<in> fst ` set raw"
      by blast
    then have "length raw = length out" by (metis length_map)
    moreover note out(2)
    moreover have "fst ` set raw \<subseteq> fst ` set (rep_events rep)" unfolding raw_def by (intro image_mono set_take_subset)
    moreover have "length raw \<le> unat evt_sz" by (simp add: raw_def)
    ultimately show ?thesis using run False out(1)
      by (auto simp: raw_def [symmetric] rep_def [symmetric])
  qed
qed

section \<open>Properties\<close>

text \<open>
  On Linux, whatever the kernel answers, a wait returns a count of at most \<open>evt_sz\<close> (below
  \<open>2 ^ 31\<close>) that is the number of slots it went through, or ends with the non-recoverable
  status; an interrupted wait is no event.  If the kernel reports only what was asked for,
  every slot is assigned; a new connection is reported for the listener only, and every event
  is that of a reported socket, disconnection taking precedence over data.
\<close>

theorem linux_wait_reports_events:
  assumes "\<forall>h. malloc_ok (mem s h) (unat evt_sz * 12)" "unat evt_sz < 2 ^ 31"
    and "poller_wait p evt_sz ms s = (r, s')"
    and asked: "\<forall>(fd, ev) \<in> set (rep_events (env s (log s)
        (SysEpollWait (epoll_fd p) (int_of_size evt_sz) (int_of_size ms)))).
      ev AND (EPOLLIN OR EPOLLERR OR EPOLLHUP OR EPOLLRDHUP) \<noteq> 0"
  shows "r = Inl (Exit NON_RECOVERABLE_ERROR) \<or>
    (\<exists>out. r = Inr (word_of_nat (length out), map Some out) \<and> length out \<le> unat evt_sz \<and>
      (\<forall>ev \<in> set out. (evt_type ev = PT_NEW_CONNECTION \<longleftrightarrow> evt_fd ev = fs_socket p) \<and>
        evt_fd ev \<in> fst ` set (rep_events (env s (log s)
          (SysEpollWait (epoll_fd p) (int_of_size evt_sz) (int_of_size ms))))))"
  by (rule linux_wait_slots [OF assms])

definition example_poller :: poller where
  "example_poller = \<lparr>epoll_fd = 4, fs_socket = 3\<rparr>"

definition example_events :: reply where
  "example_events = \<lparr>rep_ret = 2, rep_errno = 0, rep_bytes = [], rep_status = 0,
     rep_events = [(3, EPOLLIN), (7, EPOLLIN OR EPOLLRDHUP)], rep_addrs = []\<rparr>"

definition example_io :: io where
  "example_io = \<lparr>env = (\<lambda>_ _. example_events), log = [], mem = (\<lambda>_. glibc)\<rparr>"

theorem linux_wait_reports_events_witness:
  "\<exists>n out s'. poller_wait example_poller 64 50 example_io = (Inr (n, map Some out), s') \<and>
     (\<forall>ev \<in> set out. evt_type ev = PT_NEW_CONNECTION \<longleftrightarrow> evt_fd ev = 3)"
proof -
  obtain r s' where run: "poller_wait example_poller 64 50 example_io = (r, s')" by fastforce
  have "\<forall>(fd, ev) \<in> set (rep_events (env example_io (log example_io)
        (SysEpollWait (epoll_fd example_poller) (int_of_size 64) (int_of_size 50)))).
      ev AND (EPOLLIN OR EPOLLERR OR EPOLLHUP OR EPOLLRDHUP) \<noteq> 0"
    by (simp add: example_io_def example_events_def epoll_flags)
  from linux_wait_reports_events [OF _ _ run this] have
    "r = Inl (Exit NON_RECOVERABLE_ERROR) \<or>
     (\<exists>out. r = Inr (word_of_nat (length out), map Some out) \<and>
       (\<forall>ev \<in> set out. evt_type ev = PT_NEW_CONNECTION \<longleftrightarrow> evt_fd ev = 3))"
    by (auto simp: example_io_def example_poller_def)
  moreover have "r = Inr (2, map (epoll_event 3) [(3, EPOLLIN), (7, EPOLLIN OR EPOLLRDHUP)])"
    using run by (simp add: poller_wait_def bnd_def with_libc_run sys_run Let_def example_io_def
        example_events_def example_poller_def ret_of_def CALLOC_def c_calloc_def check_ptr_def int_of_size_def)
  moreover from this have "r \<noteq> Inl (Exit NON_RECOVERABLE_ERROR)" by (simp del: list.map)
  ultimately show ?thesis using run by blast
qed

text \<open>
  On BSD an interrupted wait is not "no event": the count \<open>-1\<close> is returned as the largest
  \<open>size_t\<close>, with no slot assigned.
\<close>

theorem bsd_interrupted_wait_returns_max:
  assumes "rep_ret (env s (log s) (SysKeventWait (kqueue_fd p) (int_of_size evt_sz) (ms * 1000000))) < 0"
    and "rep_errno (env s (log s) (SysKeventWait (kqueue_fd p) (int_of_size evt_sz) (ms * 1000000))) = EINTR"
  shows "\<exists>s' n. bsd_poller_wait p evt_sz ms s = (Inr (n, []), s') \<and> unat n = 2 ^ 64 - 1"
  using assms by (simp add: bsd_poller_wait_def bnd_sys Let_def ret_of_def unsigned_minus_1_eq_mask
      mask_eq_exp_minus_1)

theorem bsd_interrupted_wait_returns_max_witness:
  "\<exists>s' n. bsd_poller_wait \<lparr>kqueue_fd = 4, bsd_fs_socket = 3\<rparr> 64 50
      (example_io\<lparr>env := (\<lambda>_ _. example_events\<lparr>rep_ret := - 1, rep_errno := EINTR\<rparr>)\<rparr>) =
     (Inr (n, []), s') \<and> unat n = 2 ^ 64 - 1"
  by (rule bsd_interrupted_wait_returns_max) (simp_all add: example_io_def)

lemma win_collect_overflows:
  assumes "\<forall>(fd, rev) \<in> set xs. fd \<noteq> l \<and> rev AND (POLLERR OR POLLHUP) \<noteq> 0 \<and> rev AND POLLIN \<noteq> 0"
    and "length out < n" "n < length out + 2 * length xs" "odd (n - length out)"
  shows "win_collect l n xs out = Inl Undefined"
  using assms
proof (induction xs arbitrary: out)
  case (Cons x xs)
  obtain fd rev where x: "x = (fd, rev)" by (cases x)
  then have "rev \<noteq> 0" using Cons.prems(1) by auto
  then have two: "length (wsapoll_events l x) = 2" using Cons.prems(1) x by (simp add: wsapoll_events_def)
  show ?case
  proof (cases "length out + 2 \<le> n")
    case True
    then have "length out + 2 < n" using Cons.prems(4) by (cases "length out + 2 = n") auto
    then have "win_collect l n xs (out @ wsapoll_events l x) = Inl Undefined"
      using Cons.prems two by (intro Cons.IH) (auto simp: Nat.diff_diff_left [symmetric] even_diff_nat)
    then show ?thesis using Cons.prems(2) True two by (simp add: Let_def)
  next
    case False
    then show ?thesis using Cons.prems(2) two by (simp add: Let_def)
  qed
qed simp

text \<open>
  On Windows the array of events overflows: when a new connection is pending and enough
  sockets have hung up with data still to read (each stores two events), the wait stores past
  the end of an array of even size, such as the server's 64.
\<close>

theorem windows_wait_overflows_event_array:
  assumes "0 \<le> rep_ret (env s (log s) (SysWSAPoll (poll_fds p) (int_of_size ms)))"
    and "win_revents (poll_fds p) (env s (log s) (SysWSAPoll (poll_fds p) (int_of_size ms))) =
           (win_fs_socket p, rev0) # xs" "rev0 \<noteq> 0"
    and "\<forall>(fd, rev) \<in> set xs. fd \<noteq> win_fs_socket p \<and> rev AND (POLLERR OR POLLHUP) \<noteq> 0 \<and> rev AND POLLIN \<noteq> 0"
    and "even (unat evt_sz)" "2 \<le> unat evt_sz" "unat evt_sz \<le> 2 * length xs"
  shows "fst (win_poller_wait p evt_sz ms s) = Inl Undefined"
proof -
  define out where "out = wsapoll_events (win_fs_socket p) (win_fs_socket p, rev0)"
  have out: "length out = 1" using assms(3) by (simp add: out_def wsapoll_events_def)
  have "win_collect (win_fs_socket p) (unat evt_sz) xs out = Inl Undefined"
    by (rule win_collect_overflows [OF assms(4)]) (use out assms(5-7) in auto)
  then have "win_collect (win_fs_socket p) (unat evt_sz) ((win_fs_socket p, rev0) # xs) [] = Inl Undefined"
    using assms(6) out by (simp add: Let_def out_def)
  then show ?thesis using assms(1,2)
    by (simp add: win_poller_wait_def bnd_sys ret_of_def) (simp add: bnd_def)
qed

theorem windows_wait_overflows_event_array_witness:
  "fst (win_poller_wait \<lparr>win_fs_socket = 3, poll_fds = 3 # replicate 32 9\<rparr> 64 50
     (example_io\<lparr>env := (\<lambda>_ _. example_events\<lparr>rep_events := (3, POLLIN) # replicate 32 (9, POLLIN OR POLLHUP)\<rparr>)\<rparr>)) =
   Inl Undefined"
  using zip_append [of "replicate 32 (9 :: int)" "replicate 32 (770 :: 32 word)" "[]" "replicate 33 0"]
  by (intro windows_wait_overflows_event_array [where ?rev0.0 = POLLIN and xs = "replicate 32 (9, POLLIN OR POLLHUP)"])
    (simp_all add: example_io_def example_events_def win_revents_def POLLIN_def POLLHUP_def POLLERR_def)

end
