(* ===== verification/Server_State.thy ===== *)
theory Server_State
  imports Session Uthash Poller Process
begin

text \<open>
  The state of a server and of its session pool (\<open>src/server/server_priv.h\<close>,
  \<open>src/server/spool/spool.c\<close>).  The objects the program allocates, and to which it keeps
  pointers, live in maps from addresses: \<open>sessions\<close> are the \<open>Session\<close> objects, \<open>hash_elems\<close> the
  \<open>SessionHash\<close> and \<open>thread_elems\<close> the \<open>SessionThread\<close> objects, and an address outside the map
  is a dangling pointer, whose use has no defined behaviour.  Addresses come from a counter, and
  an address space that is used up is memory that is used up.
  The two intrusive tables hold the addresses of their elements.  The fields of the derived
  \<open>SSLServer\<close> (\<open>ssl_ctx\<close>, \<open>ssl_fd_map\<close> and its objects) are in the record as well; only the SSL
  transport touches them.
\<close>

record session_thread =
  st_session :: nat
  thread_n :: nat
  ready :: bool

text \<open>Per thread: \<open>thread_running[i]\<close> and \<open>ctx[i].should_wake\<close>.\<close>

record thread_context =
  running :: bool
  should_wake :: bool

record 'd server = os +
  server_fd :: int
  server_poller :: poller
  session_hash :: "nat hash_head"
  hash_elems :: "nat \<Rightarrow> (int \<times> nat) option"
  sessions :: "nat \<Rightarrow> 'd session option"
  n_threads :: nat
  session_thread_map :: "nat hash_head"
  thread_elems :: "nat \<Rightarrow> session_thread option"
  ctx :: "thread_context list"
  ssl_ctx :: int
  ssl_fd_map :: "nat hash_head"
  ssl_elems :: "nat \<Rightarrow> (int \<times> int) option"
  next_addr :: nat

text \<open>
  The transport (\<open>ServerVTable\<close>) and the function that creates the sessions of the service.
  \<open>vt_recv\<close> returns what \<open>recv\<close> returned and the bytes it stored; \<open>vt_send\<close> gets a block and a size.
\<close>

record 'd server_vtable =
  vt_recv :: "int \<Rightarrow> ('d server, int \<times> byte list) prog"
  vt_send :: "int \<Rightarrow> block option \<Rightarrow> size_t \<Rightarrow> ('d server, int) prog"
  vt_accept :: "('d server, int) prog"
  vt_client_disconnected :: "(int \<Rightarrow> ('d server, unit) prog) option"
  vt_create_session :: "libc \<Rightarrow> int \<Rightarrow> 'd session outcome"

definition close_socket :: "int \<Rightarrow> ('z io_scheme, unit) prog" where
  "close_socket fd = bnd (sys (SysClose fd)) (\<lambda>_. ret ())"

definition server_close_socket :: "int \<Rightarrow> ('z io_scheme, unit) prog" where
  "server_close_socket fd = close_socket fd"

section \<open>Objects\<close>

definition deref :: "('s \<Rightarrow> nat \<Rightarrow> 'a option) \<Rightarrow> nat \<Rightarrow> ('s, 'a) prog" where
  "deref m a = (\<lambda>s. case m s a of None \<Rightarrow> (Inl Undefined, s) | Some x \<Rightarrow> (Inr x, s))"

definition fresh_addr :: "('d server, nat) prog" where
  "fresh_addr = (\<lambda>s.
     if next_addr s + 1 < 2 ^ 64 then (Inr (next_addr s), s\<lparr>next_addr := next_addr s + 1\<rparr>)
     else (Inl (Exit EXIT_FAILURE), s))"

definition set_session :: "nat \<Rightarrow> 'd session option \<Rightarrow> ('d server, unit) prog" where
  "set_session a x = modify (\<lambda>s. s\<lparr>sessions := (sessions s)(a := x)\<rparr>)"

lemma deref_run [monad_simps]:
  "m s a = Some x \<Longrightarrow> deref m a s = (Inr x, s)"
  "m s a = None \<Longrightarrow> deref m a s = (Inl Undefined, s)"
  by (simp_all add: deref_def)

lemma bnd_deref [monad_simps]:
  "m s a = Some x \<Longrightarrow> bnd (deref m a) f s = f x s"
  by (simp add: bnd_def deref_def)

lemma preserves_deref [preserves_intros]: "preserves P (deref m a)"
  by (auto simp: preserves_def deref_def split: option.splits)

lemma wp_deref [wp_simps]: "wp (deref m a) Q s \<longleftrightarrow> (\<exists>x. m s a = Some x \<and> Q x s)"
  by (simp add: wp_def deref_def split: option.splits)

lemma twp_deref [twp_simps]: "twp (deref m a) Q s \<longleftrightarrow> (\<exists>x. m s a = Some x \<and> Q x s)"
  by (simp add: twp_def deref_def split: option.splits)

lemma only_undefined_deref [preserves_intros]: "only_undefined (deref m a)"
  by (auto simp: only_undefined_def deref_def split: option.splits)

lemma twp_set_session [twp_simps]:
  "twp (set_session a x) Q s \<longleftrightarrow> Q () (s\<lparr>sessions := (sessions s)(a := x)\<rparr>)"
  by (simp add: set_session_def twp_simps)

lemma wp_fresh_addr [wp_simps]:
  "wp fresh_addr Q s \<longleftrightarrow>
     (next_addr s + 1 < 2 ^ 64 \<longrightarrow> Q (next_addr s) (s\<lparr>next_addr := next_addr s + 1\<rparr>))"
  by (simp add: wp_def fresh_addr_def)

lemma wp_set_session [wp_simps]:
  "wp (set_session a x) Q s \<longleftrightarrow> Q () (s\<lparr>sessions := (sessions s)(a := x)\<rparr>)"
  by (simp add: set_session_def wp_modify)

lemma wp_close_socket [wp_simps]:
  "wp (close_socket fd) Q s \<longleftrightarrow>
     Q () (s\<lparr>log := log s @ [(SysClose fd, env s (log s) (SysClose fd))]\<rparr>)"
  by (simp add: close_socket_def wp_simps)

section \<open>Processing a session\<close>

definition server_is_session_active :: "nat \<Rightarrow> ('d server, bool) prog" where
  "server_is_session_active a =
     bnd (deref sessions a) (\<lambda>x.
     gets (\<lambda>s. HASH_FIND_INT (session_fd x) (session_hash s) \<noteq> None))"

text \<open>
  Received bytes go to the session, which answers; a negative answer closes the socket and
  the function goes on.  What waits in the send buffer is then sent, and the buffer is
  cleared whatever part of it the system took.
\<close>

definition deliver_received :: "nat \<Rightarrow> byte list \<Rightarrow> ('d server, unit) prog" where
  "deliver_received a data =
     bnd (deref sessions a) (\<lambda>x.
     case connection x of
       None \<Rightarrow> halt Undefined
     | Some c \<Rightarrow>
         bnd (with_libc (\<lambda>L. commbuf_add_to_recv_buffer L c data)) (\<lambda>c'.
         bnd (set_session a (Some (x\<lparr>connection := Some c'\<rparr>))) (\<lambda>_.
         bnd (with_libc (\<lambda>L. session_on_recv L (x\<lparr>connection := Some c'\<rparr>))) (\<lambda>(rr, x').
         bnd (set_session a (Some x')) (\<lambda>_.
         guard_do (rr < 0) (close_socket (session_fd x')))))))"

definition send_pending :: "'d server_vtable \<Rightarrow> nat \<Rightarrow> ('d server, int) prog" where
  "send_pending vt a =
     bnd (deref sessions a) (\<lambda>x.
     case connection x of
       None \<Rightarrow> halt Undefined
     | Some c \<Rightarrow>
         bnd (vt_send vt (session_fd x) (fst (commbuf_send_buffer c)) (snd (commbuf_send_buffer c))) (\<lambda>r.
         if r < 0 then ret r
         else bnd (set_session a (Some (x\<lparr>connection := Some (commbuf_clear_send_buffer c)\<rparr>))) (\<lambda>_.
              ret 0)))"

definition server_process_session :: "'d server_vtable \<Rightarrow> nat \<Rightarrow> ('d server, int) prog" where
  "server_process_session vt a =
     bnd (server_is_session_active a) (\<lambda>active.
     if \<not> active then ret 0
     else bnd (deref sessions a) (\<lambda>x.
     bnd (vt_recv vt (session_fd x)) (\<lambda>(r, data).
     if r < 0 then ret r
     else bnd (guard_do (r > 0) (deliver_received a data)) (\<lambda>_. send_pending vt a))))"

end
