(* ===== verification/Spool.thy ===== *)
theory Spool
  imports Server_State
begin

text \<open>
  The session pool (\<open>src/server/spool/spool.c\<close>).  Every function here runs with the lock
  \<open>session_threads_mutex\<close> where the code takes it; a worker thread is the function
  \<open>spool_worker_pass\<close>, one round of \<open>thread_function\<close> after it was woken.  With no threads the
  pool processes a session on the spot.
\<close>

definition SINGLE_THREADED :: nat where "SINGLE_THREADED = 0"

section \<open>Worker threads\<close>

text \<open>
  The list of the sessions that are ready for this thread, in the order of the table; the
  array that holds them grows by \<open>REALLOC\<close>.
\<close>

fun collect_ready ::
  "nat \<Rightarrow> nat list \<Rightarrow> block option \<Rightarrow> nat list \<Rightarrow> ('d server, nat list) prog" where
  "collect_ready t [] arr acc = ret acc"
| "collect_ready t (e # es) arr acc =
     bnd (deref thread_elems e) (\<lambda>st.
     if ready st \<and> thread_n st = t
     then bnd (with_libc (\<lambda>L. REALLOC L arr (word_of_nat ((length acc + 1) * 8)))) (\<lambda>arr'.
          bnd (modify (\<lambda>s. s\<lparr>thread_elems := (thread_elems s)(e := Some (st\<lparr>ready := False\<rparr>))\<rparr>)) (\<lambda>_.
          collect_ready t es arr' (acc @ [st_session st])))
     else collect_ready t es arr acc)"

definition spool_worker_pass :: "'d server_vtable \<Rightarrow> nat \<Rightarrow> ('d server, unit) prog" where
  "spool_worker_pass vt t =
     bnd (modify (\<lambda>s. s\<lparr>ctx := (ctx s)[t := (ctx s ! t)\<lparr>should_wake := False\<rparr>]\<rparr>)) (\<lambda>_.
     bnd (gets (\<lambda>s. map elem (handles (session_thread_map s)))) (\<lambda>es.
     bnd (collect_ready t es None []) (\<lambda>ss.
     for_each (\<lambda>a. bnd (server_process_session vt a) (\<lambda>_. ret ())) ss)))"

section \<open>Operations of the main thread\<close>

definition spool_create :: "(int \<Rightarrow> bool) \<Rightarrow> nat \<Rightarrow> ('d server, unit) prog" where
  "spool_create thread_ok n =
     bnd (with_libc (\<lambda>L. CALLOC L 1 96)) (\<lambda>_.
     bnd (modify (\<lambda>s. s\<lparr>n_threads := n, session_thread_map := None, ctx := []\<rparr>)) (\<lambda>_.
     guard_do (n \<noteq> SINGLE_THREADED)
       (bnd (with_libc (\<lambda>L. CALLOC L (word_of_nat n) 1)) (\<lambda>_.
        bnd (with_libc (\<lambda>L. CALLOC L (word_of_nat n) 8)) (\<lambda>_.
        bnd (with_libc (\<lambda>L. CALLOC L (word_of_nat n) 112)) (\<lambda>_.
        for_each (\<lambda>i.
          bnd (modify (\<lambda>s. s\<lparr>ctx := ctx s @ [\<lparr>running = True, should_wake = False\<rparr>]\<rparr>)) (\<lambda>_.
          guard_do (\<not> thread_ok (int i)) FATAL_NON_RECOVERABLE)) [0..<n]))))))"

text \<open>
  The thread with the fewest sessions, the first of them: the counts are taken over the
  elements of the table, and a thread number outside the array has no defined behaviour.
\<close>

fun count_per_thread :: "nat list \<Rightarrow> nat list \<Rightarrow> ('d server, nat list) prog" where
  "count_per_thread [] counts = ret counts"
| "count_per_thread (e # es) counts =
     bnd (deref thread_elems e) (\<lambda>st.
     if thread_n st < length counts
     then count_per_thread es (counts[thread_n st := counts ! thread_n st + 1])
     else halt Undefined)"

fun least_index :: "nat list \<Rightarrow> nat \<Rightarrow> nat \<Rightarrow> nat \<Rightarrow> nat" where
  "least_index [] i min_sz min_thread = min_thread"
| "least_index (c # cs) i min_sz min_thread =
     (if c < min_sz then least_index cs (i + 1) c i else least_index cs (i + 1) min_sz min_thread)"

lemma least_index_range:
  "least_index cs i m t = t \<or> (i \<le> least_index cs i m t \<and> least_index cs i m t < i + length cs)"
proof (induction cs arbitrary: i m t)
  case (Cons c cs)
  then show ?case using Cons.IH [of "i + 1" c i] Cons.IH [of "i + 1" m t] by auto
qed simp

definition cpool_least_populated_thread :: "('d server, nat) prog" where
  "cpool_least_populated_thread =
     bnd (gets n_threads) (\<lambda>n.
     bnd (with_libc (\<lambda>L. CALLOC L (word_of_nat n) 8)) (\<lambda>_.
     bnd (gets (\<lambda>s. map elem (handles (session_thread_map s)))) (\<lambda>es.
     bnd (count_per_thread es (replicate n 0)) (\<lambda>counts.
     ret (least_index counts 0 (2 ^ 64 - 1) 0)))))"

definition spool_add_session :: "nat \<Rightarrow> ('d server, unit) prog" where
  "spool_add_session a =
     bnd (gets n_threads) (\<lambda>n.
     guard_do (n \<noteq> SINGLE_THREADED)
       (bnd cpool_least_populated_thread (\<lambda>t.
        bnd (with_libc (\<lambda>L. MALLOC L 80)) (\<lambda>_.
        bnd fresh_addr (\<lambda>e.
        bnd (modify (\<lambda>s. s\<lparr>thread_elems := (thread_elems s)
               (e := Some \<lparr>st_session = a, thread_n = t, ready = False\<rparr>)\<rparr>)) (\<lambda>_.
        bnd (gets session_thread_map) (\<lambda>h.
        bnd (with_libc (\<lambda>L. HASH_ADD_PTR L a e h)) (\<lambda>h'.
        modify (\<lambda>s. s\<lparr>session_thread_map := h'\<rparr>)))))))))"

definition spool_remove_session :: "nat \<Rightarrow> ('d server, unit) prog" where
  "spool_remove_session a =
     bnd (gets n_threads) (\<lambda>n.
     guard_do (n \<noteq> SINGLE_THREADED)
       (bnd (gets session_thread_map) (\<lambda>h.
        case HASH_FIND_PTR a h of
          None \<Rightarrow> ret ()
        | Some e \<Rightarrow>
            bnd (deref thread_elems e) (\<lambda>st.
            bnd (gets (\<lambda>s. length (ctx s))) (\<lambda>k.
            bnd (guard_do (\<not> thread_n st < k) (halt Undefined)) (\<lambda>_.
            bnd (lift (HASH_DELETE e h)) (\<lambda>h'.
            modify (\<lambda>s. s\<lparr>session_thread_map := h',
              thread_elems := (thread_elems s)(e := None)\<rparr>))))))))"

definition spool_flush_session :: "'d server_vtable \<Rightarrow> nat \<Rightarrow> ('d server, unit) prog" where
  "spool_flush_session vt a =
     bnd (gets n_threads) (\<lambda>n.
     if n \<noteq> SINGLE_THREADED
     then bnd (gets session_thread_map) (\<lambda>h.
       case HASH_FIND_PTR a h of
         None \<Rightarrow> ret ()
       | Some e \<Rightarrow>
           bnd (deref thread_elems e) (\<lambda>st.
           bnd (modify (\<lambda>s. s\<lparr>thread_elems := (thread_elems s)(e := Some (st\<lparr>ready := True\<rparr>))\<rparr>)) (\<lambda>_.
           bnd (gets (\<lambda>s. length (ctx s))) (\<lambda>k.
           bnd (guard_do (\<not> thread_n st < k) (halt Undefined)) (\<lambda>_.
           modify (\<lambda>s. s\<lparr>ctx := (ctx s)[thread_n st := (ctx s ! thread_n st)\<lparr>should_wake := True\<rparr>]\<rparr>))))))
     else bnd (server_process_session vt a) (\<lambda>_. ret ()))"

text \<open>
  Shutdown: every thread is told to end and woken, takes one more round and is joined; then
  the pool is freed.
\<close>

definition spool_destroy :: "'d server_vtable \<Rightarrow> ('d server, unit) prog" where
  "spool_destroy vt =
     bnd (gets n_threads) (\<lambda>n.
     bnd (guard_do (n \<noteq> SINGLE_THREADED)
       (bnd (for_each (\<lambda>i. modify (\<lambda>s. s\<lparr>ctx := (ctx s)[i := \<lparr>running = False, should_wake = True\<rparr>]\<rparr>))
               [0..<n]) (\<lambda>_.
        for_each (spool_worker_pass vt) [0..<n]))) (\<lambda>_.
     modify (\<lambda>s. s\<lparr>ctx := []\<rparr>)))"

end
