(* ===== verification/Server.thy ===== *)
theory Server
  imports Spool
begin

text \<open>
  The server (\<open>src/server/server.c\<close>): it turns the poller's events into sessions and lets the
  pool process them.  The server's fields are those of the record \<open>server\<close>; the table of
  sessions is keyed by socket and holds the addresses of \<open>SessionHash\<close> objects, pairs of
  socket and session pointer.
\<close>

definition MAX_EVENTS :: size_t where "MAX_EVENTS = 64"

definition server_initialize ::
  "(int \<Rightarrow> bool) \<Rightarrow> int \<Rightarrow> nat \<Rightarrow> ('d server, unit) prog" where
  "server_initialize thread_ok fd n =
     bnd (spool_create thread_ok n) (\<lambda>_.
     bnd (modify (\<lambda>s. s\<lparr>server_fd := fd\<rparr>)) (\<lambda>_.
     bnd (poller_create fd) (\<lambda>p.
     modify (\<lambda>s. s\<lparr>server_poller := p, session_hash := None\<rparr>))))"

section \<open>Events\<close>

text \<open>Create the session and put it into the table and the pool.\<close>

definition install_session :: "'d server_vtable \<Rightarrow> int \<Rightarrow> ('d server, unit) prog" where
  "install_session vt client_fd =
     bnd (with_libc (\<lambda>L. MALLOC L 72)) (\<lambda>_.
     bnd fresh_addr (\<lambda>e.
     bnd (with_libc (\<lambda>L. vt_create_session vt L client_fd)) (\<lambda>x.
     bnd fresh_addr (\<lambda>a.
     bnd (set_session a (Some x)) (\<lambda>_.
     bnd (modify (\<lambda>s. s\<lparr>hash_elems := (hash_elems s)(e := Some (client_fd, a))\<rparr>)) (\<lambda>_.
     bnd (gets session_hash) (\<lambda>h.
     bnd (with_libc (\<lambda>L. HASH_ADD_INT L client_fd e h)) (\<lambda>h'.
     bnd (modify (\<lambda>s. s\<lparr>session_hash := h'\<rparr>)) (\<lambda>_.
     spool_add_session a)))))))))"

definition handle_new_connection :: "'d server_vtable \<Rightarrow> ('d server, int) prog" where
  "handle_new_connection vt =
     bnd (vt_accept vt) (\<lambda>client_fd.
     if client_fd = INVALID_SOCKET
     then bnd (close_socket client_fd) (\<lambda>_. ret (- 1))
     else
       bnd (gets server_poller) (\<lambda>p.
       bnd (poller_add_connection p client_fd) (\<lambda>_.
       bnd (install_session vt client_fd) (\<lambda>_.
       ret 0))))"

text \<open>Take the session out of the pool and the table, and free both objects.\<close>

definition uninstall_session :: "nat \<Rightarrow> ('d server, unit) prog" where
  "uninstall_session e =
     bnd (deref hash_elems e) (\<lambda>(fd, a).
     bnd (spool_remove_session a) (\<lambda>_.
     bnd (deref sessions a) (\<lambda>x.
     bnd (lift (session_finalize x)) (\<lambda>_.
     bnd (set_session a None) (\<lambda>_.
     bnd (gets session_hash) (\<lambda>h.
     bnd (lift (HASH_DELETE e h)) (\<lambda>h'.
     modify (\<lambda>s. s\<lparr>session_hash := h', hash_elems := (hash_elems s)(e := None)\<rparr>))))))))"

definition handle_disconnect :: "'d server_vtable \<Rightarrow> int \<Rightarrow> ('d server, unit) prog" where
  "handle_disconnect vt client_fd =
     bnd (case vt_client_disconnected vt of None \<Rightarrow> ret () | Some f \<Rightarrow> f client_fd) (\<lambda>_.
     bnd (gets session_hash) (\<lambda>h.
     case HASH_FIND_INT client_fd h of
       None \<Rightarrow> ret ()
     | Some e \<Rightarrow>
         bnd (uninstall_session e) (\<lambda>_.
         bnd (gets server_poller) (\<lambda>p.
         bnd (poller_remove_connection p client_fd) (\<lambda>_.
         server_close_socket client_fd)))))"

definition handle_new_data :: "'d server_vtable \<Rightarrow> int \<Rightarrow> ('d server, unit) prog" where
  "handle_new_data vt client_fd =
     bnd (gets session_hash) (\<lambda>h.
     case HASH_FIND_INT client_fd h of
       None \<Rightarrow> ret ()
     | Some e \<Rightarrow> bnd (deref hash_elems e) (\<lambda>(fd, a). spool_flush_session vt a))"

definition handle_event :: "'d server_vtable \<Rightarrow> poller_event \<Rightarrow> ('d server, unit) prog" where
  "handle_event vt ev =
     (case evt_type ev of
        PT_NEW_CONNECTION \<Rightarrow> bnd (handle_new_connection vt) (\<lambda>_. ret ())
      | PT_NEW_DATA \<Rightarrow> handle_new_data vt (evt_fd ev)
      | PT_DISCONNECTED \<Rightarrow> handle_disconnect vt (evt_fd ev))"

text \<open>
  The loop over \<open>n_events\<close> slots of the array: reading a slot past its end, or one that was
  never assigned, has no defined behaviour.
\<close>

definition handle_slot :: "'d server_vtable \<Rightarrow> poller_event option list \<Rightarrow> nat \<Rightarrow> ('d server, unit) prog" where
  "handle_slot vt slots i =
     (if i < length slots
      then case slots ! i of None \<Rightarrow> halt Undefined | Some ev \<Rightarrow> handle_event vt ev
      else halt Undefined)"

definition server_iterate :: "'d server_vtable \<Rightarrow> size_t \<Rightarrow> ('d server, int) prog" where
  "server_iterate vt timeout_ms =
     bnd (gets server_poller) (\<lambda>p.
     bnd (poller_wait p MAX_EVENTS timeout_ms) (\<lambda>(n_events, slots).
     bnd (for_each (handle_slot vt slots) [0..<unat n_events]) (\<lambda>_.
     ret 0)))"

text \<open>
  The main loop.  The signal handler runs between two rounds; \<open>stops\<close> says after which histories
  a signal has arrived, and the result tells whether the loop ended within the fuel.
\<close>

fun server_run :: "(history \<Rightarrow> bool) \<Rightarrow> 'd server_vtable \<Rightarrow> nat \<Rightarrow> ('d server, bool) prog" where
  "server_run stops vt 0 = ret False"
| "server_run stops vt (Suc fuel) =
     bnd (modify (\<lambda>s. s\<lparr>termination_requested := termination_requested s \<or> stops (log s)\<rparr>)) (\<lambda>_.
     bnd (gets termination_requested) (\<lambda>t.
     if t then ret True
     else bnd (server_iterate vt 50) (\<lambda>_. server_run stops vt fuel)))"

section \<open>Shutdown\<close>

text \<open>
  \<open>HASH_ITER\<close> reads the successor of the next element before the body of the loop deletes the
  current one.  \<open>el\<close> and \<open>tmp\<close> are the loop variables, \<open>None\<close> is NULL; reading a handle of an
  element that has been freed has no defined behaviour.
\<close>

fun next_in :: "nat list \<Rightarrow> nat \<Rightarrow> nat option" where
  "next_in [] e = None"
| "next_in [x] e = None"
| "next_in (x # y # es) e = (if x = e then Some y else next_in (y # es) e)"

definition hash_next :: "nat option \<Rightarrow> ('d server, nat option) prog" where
  "hash_next el =
     (case el of
        None \<Rightarrow> ret None
      | Some e \<Rightarrow> bnd (deref hash_elems e) (\<lambda>_.
          gets (\<lambda>s. next_in (map elem (handles (session_hash s))) e)))"

fun disconnect_all :: "'d server_vtable \<Rightarrow> nat \<Rightarrow> nat option \<Rightarrow> nat option \<Rightarrow> ('d server, bool) prog" where
  "disconnect_all vt 0 el tmp = ret (el = None)"
| "disconnect_all vt (Suc fuel) el tmp =
     (case el of
        None \<Rightarrow> ret True
      | Some e \<Rightarrow>
          bnd (deref hash_elems e) (\<lambda>(fd, a).
          bnd (handle_disconnect vt fd) (\<lambda>_.
          bnd (hash_next tmp) (\<lambda>tmp'.
          disconnect_all vt fuel tmp tmp'))))"

text \<open>The loop takes one round per element; \<open>False\<close> means that the rounds did not suffice.\<close>

definition server_finalize :: "'d server_vtable \<Rightarrow> ('d server, bool) prog" where
  "server_finalize vt =
     bnd (gets (\<lambda>s. map elem (handles (session_hash s)))) (\<lambda>es.
     let el = (case es of [] \<Rightarrow> None | e # _ \<Rightarrow> Some e) in
     bnd (hash_next el) (\<lambda>tmp.
     bnd (disconnect_all vt (length es) el tmp) (\<lambda>finished.
     if \<not> finished then ret False
     else
       bnd (gets server_fd) (\<lambda>fd.
       bnd (server_close_socket fd) (\<lambda>_.
       bnd (gets server_poller) (\<lambda>p.
       bnd (poller_destroy p) (\<lambda>_.
       bnd (spool_destroy vt) (\<lambda>_.
       ret True))))))))"

end
