(* ===== verification/Tcp.thy ===== *)
theory Tcp
  imports Server
begin

text \<open>
  The TCP transport (\<open>src/server/tcp/tcp_server.c\<close>) on POSIX sockets: the functions of its
  table, the listening socket, and creation and destruction of a TCP server.
\<close>

definition RECV_BUF_SZ :: size_t where "RECV_BUF_SZ = 16384"

definition tcp_server_recv :: "int \<Rightarrow> ('z io_scheme, int \<times> byte list) prog" where
  "tcp_server_recv fd =
     bnd (with_libc (\<lambda>L. MALLOC L RECV_BUF_SZ)) (\<lambda>_.
     bnd (sys (SysRecv fd RECV_BUF_SZ)) (\<lambda>r.
     ret (recv_result RECV_BUF_SZ r)))"

text \<open>
  The size is narrowed to \<open>int\<close>; a negative value converts back to a size far beyond the block.
\<close>

definition tcp_server_send :: "int \<Rightarrow> block option \<Rightarrow> size_t \<Rightarrow> ('z io_scheme, int) prog" where
  "tcp_server_send fd data data_sz =
     (let n = int_of_size data_sz in
      if n < 0 then halt Undefined
      else
        bnd (lift (mem_read data 0 (nat n))) (\<lambda>bytes.
        bnd (sys (SysSend fd bytes)) (\<lambda>r.
        ret (send_result bytes r))))"

definition tcp_accept_new_connection :: "('d server, int) prog" where
  "tcp_accept_new_connection =
     bnd (gets server_fd) (\<lambda>fd.
     bnd (sys (SysAccept fd)) (\<lambda>r.
     let client_fd = ret_of r in
     if client_fd = - 1 then ret INVALID_SOCKET
     else
       bnd (sys (SysFcntl client_fd)) (\<lambda>flags.
       if ret_of flags = - 1 then ret 0
       else bnd (sys (SysNonblock client_fd)) (\<lambda>_. ret client_fd))))"

definition tcp_vtable :: "(libc \<Rightarrow> int \<Rightarrow> 'd session outcome) \<Rightarrow> 'd server_vtable" where
  "tcp_vtable create =
     \<lparr>vt_recv = tcp_server_recv, vt_send = tcp_server_send, vt_accept = tcp_accept_new_connection,
      vt_client_disconnected = None, vt_create_session = create\<rparr>"

section \<open>The listening socket\<close>

text \<open>
  The addresses that \<open>getaddrinfo\<close> found are tried in order: the first one that can be bound
  is used.  A socket that cannot be opened or configured ends the search.
\<close>

definition listener_failed :: "int \<Rightarrow> ('z io_scheme, int) prog" where
  "listener_failed listener =
     bnd (guard_do (listener \<noteq> INVALID_SOCKET) (close_socket listener)) (\<lambda>_. ret INVALID_SOCKET)"

fun bind_first :: "nat list \<Rightarrow> int \<Rightarrow> ('z io_scheme, int \<times> bool option) prog" where
  "bind_first [] listener = ret (listener, Some False)"
| "bind_first (a # as) _ =
     bnd (sys (SysSocket a)) (\<lambda>r.
     let listener = ret_of r in
     if listener = INVALID_SOCKET then ret (listener, None)
     else
       bnd (sys (SysSetsockopt listener)) (\<lambda>r.
       if ret_of r = - 1 then ret (listener, None)
       else
         bnd (sys (SysBind listener a)) (\<lambda>r.
         if ret_of r = - 1
         then bnd (server_close_socket listener) (\<lambda>_. bind_first as listener)
         else ret (listener, Some True))))"

definition tcp_server_get_listener :: "int \<Rightarrow> bool \<Rightarrow> ('z io_scheme, int) prog" where
  "tcp_server_get_listener port open_to_world =
     bnd (sys (SysGetaddrinfo (if open_to_world then None else Some ''localhost'') port)) (\<lambda>r.
     if rep_ret r \<noteq> 0 then listener_failed INVALID_SOCKET
     else
       bnd (bind_first (rep_addrs r) INVALID_SOCKET) (\<lambda>(listener, bound).
       case bound of
         None \<Rightarrow> listener_failed listener
       | Some b \<Rightarrow>
           bnd (sys SysFreeaddrinfo) (\<lambda>_.
           if \<not> b then listener_failed listener
           else
             bnd (sys (SysListen listener)) (\<lambda>r.
             if ret_of r = - 1 then listener_failed listener else ret listener))))"

section \<open>Creation and destruction\<close>

definition tcp_server_initialize ::
  "(int \<Rightarrow> bool) \<Rightarrow> int \<Rightarrow> bool \<Rightarrow> nat \<Rightarrow> ('d server, int) prog" where
  "tcp_server_initialize thread_ok port open_to_world n =
     bnd (tcp_server_get_listener port open_to_world) (\<lambda>fd.
     if fd = INVALID_SOCKET then ret (- 1)
     else bnd (server_initialize thread_ok fd n) (\<lambda>_. ret 0))"

definition tcp_server_create ::
  "(int \<Rightarrow> bool) \<Rightarrow> int \<Rightarrow> bool \<Rightarrow> nat \<Rightarrow> ('d server, bool) prog" where
  "tcp_server_create thread_ok port open_to_world n =
     bnd (with_libc (\<lambda>L. CALLOC L 1 64)) (\<lambda>_.
     bnd (tcp_server_initialize thread_ok port open_to_world n) (\<lambda>r. ret (\<not> r < 0)))"

definition tcp_server_destroy :: "'d server_vtable \<Rightarrow> ('d server, bool) prog" where
  "tcp_server_destroy vt = server_finalize vt"

end
