(* ===== verification/Server_Safety.thy ===== *)
theory Server_Safety
  imports Tcp Uthash_Laws
begin

text \<open>
  The server's tables stay consistent.  The abstract state of a server is its list of
  connections, in the order in which they were accepted; \<open>conns_rep\<close> says how the table of
  sessions and the objects it points to represent this list, and \<open>pool_rep\<close> the same for the
  session pool.  Every operation of the server is shown to keep the representation and to have
  defined behaviour, for every service and transport that satisfy the interfaces below.
\<close>

record connection_entry =
  ce_fd :: int
  ce_elem :: nat
  ce_session :: nat

definition conns_rep :: "'d server \<Rightarrow> connection_entry list \<Rightarrow> bool" where
  "conns_rep s cs \<longleftrightarrow>
     hash_ok (session_hash s) \<and>
     hash_entries (session_hash s) = map (\<lambda>c. (int_key (ce_fd c), ce_elem c)) cs \<and>
     hash_elems s = map_of (map (\<lambda>c. (ce_elem c, (ce_fd c, ce_session c))) cs) \<and>
     distinct (map ce_fd cs) \<and> distinct (map ce_elem cs) \<and> distinct (map ce_session cs) \<and>
     dom (sessions s) = ce_session ` set cs \<and>
     (\<forall>c \<in> set cs. 0 \<le> ce_fd c \<and> ce_fd c < 2 ^ 31 \<and> ce_elem c < next_addr s \<and> ce_session c < next_addr s) \<and>
     next_addr s < 2 ^ 64"

definition pool_rep :: "'d server \<Rightarrow> (nat \<times> session_thread) list \<Rightarrow> bool" where
  "pool_rep s ts \<longleftrightarrow>
     hash_ok (session_thread_map s) \<and>
     hash_entries (session_thread_map s) = map (\<lambda>(e, st). (ptr_key (st_session st), e)) ts \<and>
     thread_elems s = map_of ts \<and> distinct (map fst ts) \<and>
     distinct (map (\<lambda>(e, st). st_session st) ts) \<and>
     (\<forall>(e, st) \<in> set ts. thread_n st < n_threads s \<and> st_session st < next_addr s \<and> e < next_addr s) \<and>
     length (ctx s) = n_threads s \<and> next_addr s < 2 ^ 64"

definition pool_sessions :: "(nat \<times> session_thread) list \<Rightarrow> nat set" where
  "pool_sessions ts = (\<lambda>(e, st). st_session st) ` set ts"

text \<open>
  The sessions of the connections satisfy the service's invariant \<open>sinv\<close> and are on the sockets
  of the connections, which are open; the pool knows the sessions \<open>A\<close>, or none if it has no
  threads.
\<close>

definition conns_inv :: "('d session \<Rightarrow> bool) \<Rightarrow> 'd server \<Rightarrow> connection_entry list \<Rightarrow> bool" where
  "conns_inv sinv s cs \<longleftrightarrow>
     conns_rep s cs \<and>
     (\<forall>c \<in> set cs. \<exists>x. sessions s (ce_session c) = Some x \<and> sinv x \<and> session_fd x = ce_fd c) \<and>
     ce_fd ` set cs \<subseteq> open_fds (log s)"

definition pool_inv :: "'d server \<Rightarrow> (nat \<times> session_thread) list \<Rightarrow> nat set \<Rightarrow> bool" where
  "pool_inv s ts A \<longleftrightarrow>
     pool_rep s ts \<and> pool_sessions ts = (if n_threads s = SINGLE_THREADED then {} else A)"

definition world_ok :: "(libc \<Rightarrow> bool) \<Rightarrow> 'd server \<Rightarrow> bool" where
  "world_ok mem_ok s \<longleftrightarrow> kernel_ok (env s) \<and> (\<forall>h. mem_ok (mem s h))"

definition server_inv ::
  "(libc \<Rightarrow> bool) \<Rightarrow> ('d session \<Rightarrow> bool) \<Rightarrow> 'd server \<Rightarrow> connection_entry list \<Rightarrow> bool" where
  "server_inv mem_ok sinv s cs \<longleftrightarrow>
     world_ok mem_ok s \<and> conns_inv sinv s cs \<and> (\<exists>ts. pool_inv s ts (ce_session ` set cs))"

section \<open>Interfaces\<close>

text \<open>
  A service: the sessions it creates satisfy an invariant \<open>sinv\<close> that its callbacks keep, the
  callbacks have defined behaviour and do not report an error, and a session can be finalized.
  \<open>mem_ok\<close> is what the service assumes of the C library.
\<close>

locale service =
  fixes mem_ok :: "libc \<Rightarrow> bool"
    and create :: "libc \<Rightarrow> int \<Rightarrow> 'd session outcome"
    and sinv :: "'d session \<Rightarrow> bool"
  assumes create_defined: "mem_ok L \<Longrightarrow> create L fd \<noteq> Inl Undefined"
    and create_inv: "mem_ok L \<Longrightarrow> create L fd = Inr x \<Longrightarrow> sinv x \<and> session_fd x = fd"
    and inv_buffer: "sinv x \<Longrightarrow> \<exists>c. connection x = Some c \<and> commbuf_ok c \<and> unat (send_buf_sz c) < 2 ^ 31"
    and add_defined: "mem_ok L \<Longrightarrow> sinv x \<Longrightarrow> connection x = Some c \<Longrightarrow> length data \<le> 16384 \<Longrightarrow>
      commbuf_add_to_recv_buffer L c data \<noteq> Inl Undefined"
    and recv_defined: "mem_ok L \<Longrightarrow> mem_ok L' \<Longrightarrow> sinv x \<Longrightarrow> connection x = Some c \<Longrightarrow> length data \<le> 16384 \<Longrightarrow>
      commbuf_add_to_recv_buffer L c data = Inr c' \<Longrightarrow>
      session_on_recv L' (x\<lparr>connection := Some c'\<rparr>) \<noteq> Inl Undefined"
    and recv_inv: "mem_ok L \<Longrightarrow> mem_ok L' \<Longrightarrow> sinv x \<Longrightarrow> connection x = Some c \<Longrightarrow> length data \<le> 16384 \<Longrightarrow>
      commbuf_add_to_recv_buffer L c data = Inr c' \<Longrightarrow>
      session_on_recv L' (x\<lparr>connection := Some c'\<rparr>) = Inr (rr, x') \<Longrightarrow>
      sinv x' \<and> session_fd x' = session_fd x \<and> 0 \<le> rr"
    and sent_inv: "sinv x \<Longrightarrow> connection x = Some c \<Longrightarrow>
      sinv (x\<lparr>connection := Some (commbuf_clear_send_buffer c)\<rparr>)"
    and finalize_defined: "sinv x \<Longrightarrow> \<exists>y. session_finalize x = Inr y"

text \<open>
  A transport: receiving and sending only make calls that open and close no socket, and
  accepting yields a socket that was not open before, or none.
\<close>

locale transport =
  fixes vt :: "'d server_vtable"
  assumes recv_calls: "wp (vt_recv vt fd) (\<lambda>(r, data) s'. length data \<le> 16384 \<and>
      (\<exists>h. s' = s\<lparr>log := log s @ h\<rparr> \<and> quiet h)) s"
    and send_calls: "unat n \<le> length (block_bytes p) \<Longrightarrow> unat n < 2 ^ 31 \<Longrightarrow>
      wp (vt_send vt fd p n) (\<lambda>r s'. \<exists>h. s' = s\<lparr>log := log s @ h\<rparr> \<and> quiet h) s"
    and accept_fresh: "kernel_ok (env s) \<Longrightarrow>
      wp (vt_accept vt) (\<lambda>fd s'. \<exists>h. s' = s\<lparr>log := log s @ h\<rparr> \<and>
        (fd = INVALID_SOCKET \<and> open_fds (log s @ h) = open_fds (log s) \<or>
         0 \<le> fd \<and> fd < 2 ^ 31 \<and> fd \<notin> open_fds (log s) \<and>
         open_fds (log s @ h) = insert fd (open_fds (log s)))) s"
    and no_hook: "vt_client_disconnected vt = None"

interpretation tcp: transport "tcp_vtable create" for create
proof (unfold_locales, goal_cases)
  case (1 fd s)
  have q: "quiet [(SysRecv fd n, r)]" for n r by (simp add: quiet_def)
  have "length (snd (recv_result RECV_BUF_SZ r)) \<le> 16384" for r
    using recv_result_bounds [of RECV_BUF_SZ r] by (cases "recv_result RECV_BUF_SZ r") (simp add: RECV_BUF_SZ_def)
  then show ?case using q
    by (auto simp: tcp_vtable_def tcp_server_recv_def wp_simps MALLOC_def check_ptr_def case_prod_unfold
        split: sum.splits)
next
  case (2 n p fd s)
  have n: "int_of_size n = int (unat n)" by (rule int_of_size_small [OF 2(2)])
  have q: "quiet [(SysSend fd bs, r)]" for bs r by (simp add: quiet_def)
  show ?case using 2 q
    by (auto simp: tcp_vtable_def tcp_server_send_def wp_simps Let_def n mem_read_ok simp del: of_nat_unat)
next
  case (3 s)
  define r where "r = env s (log s) (SysAccept (server_fd s))"
  have acc: "0 \<le> rep_ret r \<Longrightarrow> rep_ret r \<notin> open_fds (log s) \<and> rep_ret r < 2 ^ 31"
    and fc: "0 \<le> rep_ret (env s h (SysFcntl fd))" for h fd
    using 3 by (simp_all add: kernel_ok_def r_def)
  have q: "quiet [(SysFcntl fd, a), (SysNonblock fd', b)]" for fd a fd' b by (simp add: quiet_def)
  show ?case
  proof (cases "rep_ret r < 0")
    case True
    then show ?thesis
      by (simp add: tcp_vtable_def tcp_accept_new_connection_def wp_simps Let_def ret_of_def flip: r_def)
        (auto simp: INVALID_SOCKET_def open_fds_snoc fd_effect_def)
  next
    case False
    have fl: "(rep_ret (env s h (SysFcntl fd)) < 0) = False" "(rep_ret (env s h (SysFcntl fd)) = - 1) = False"
      for h fd using fc [of h fd] by auto
    have "open_fds (log s @ [(SysAccept (server_fd s), r), (SysFcntl fd, a), (SysNonblock fd', b)]) =
        insert (rep_ret r) (open_fds (log s))" for fd a fd' b
      using open_fds_quiet [OF q, of "log s @ [(SysAccept (server_fd s), r)]"] False
      by (simp add: open_fds_snoc fd_effect_def)
    then show ?thesis using False acc
      by (simp add: tcp_vtable_def tcp_accept_new_connection_def wp_simps Let_def ret_of_def fl flip: r_def)
        auto
  qed
next
  case 4
  show ?case by (simp add: tcp_vtable_def)
qed

section \<open>The state changes that keep the representation\<close>

lemma pool_inv_frame [simp]:
  "pool_inv (s\<lparr>log := l\<rparr>) ts A = pool_inv s ts A"
  "pool_inv (s\<lparr>sessions := m\<rparr>) ts A = pool_inv s ts A"
  "pool_inv (s\<lparr>session_hash := h\<rparr>) ts A = pool_inv s ts A"
  "pool_inv (s\<lparr>hash_elems := g\<rparr>) ts A = pool_inv s ts A"
  by (simp_all add: pool_inv_def pool_rep_def)

lemma world_ok_frame [simp]:
  "world_ok mem_ok (s\<lparr>log := l\<rparr>) = world_ok mem_ok s"
  "world_ok mem_ok (s\<lparr>sessions := m\<rparr>) = world_ok mem_ok s"
  "world_ok mem_ok (s\<lparr>session_hash := h\<rparr>) = world_ok mem_ok s"
  "world_ok mem_ok (s\<lparr>hash_elems := g\<rparr>) = world_ok mem_ok s"
  "world_ok mem_ok (s\<lparr>next_addr := n\<rparr>) = world_ok mem_ok s"
  "world_ok mem_ok (s\<lparr>session_thread_map := h\<rparr>) = world_ok mem_ok s"
  "world_ok mem_ok (s\<lparr>thread_elems := e\<rparr>) = world_ok mem_ok s"
  "world_ok mem_ok (s\<lparr>ctx := c\<rparr>) = world_ok mem_ok s"
  by (simp_all add: world_ok_def)

lemma conns_inv_frame [simp]:
  "conns_inv sinv (s\<lparr>session_thread_map := h\<rparr>) cs = conns_inv sinv s cs"
  "conns_inv sinv (s\<lparr>thread_elems := e\<rparr>) cs = conns_inv sinv s cs"
  "conns_inv sinv (s\<lparr>ctx := c\<rparr>) cs = conns_inv sinv s cs"
  "quiet l \<Longrightarrow> conns_inv sinv (s\<lparr>log := log s @ l\<rparr>) cs = conns_inv sinv s cs"
  by (simp_all add: conns_inv_def conns_rep_def)

lemma server_inv_log:
  "server_inv mem_ok sinv s cs \<Longrightarrow> quiet h \<Longrightarrow> server_inv mem_ok sinv (s\<lparr>log := log s @ h\<rparr>) cs"
  by (simp add: server_inv_def)

lemma server_inv_session:
  assumes "server_inv mem_ok sinv s cs" "c \<in> set cs" "sinv x" "session_fd x = ce_fd c"
  shows "server_inv mem_ok sinv (s\<lparr>sessions := (sessions s)(ce_session c \<mapsto> x)\<rparr>) cs"
proof -
  have r: "conns_rep s cs" using assms(1) by (simp add: server_inv_def conns_inv_def)
  have uniq: "c' = c" if "c' \<in> set cs" "ce_session c' = ce_session c" for c'
    using r that assms(2) by (auto simp: conns_rep_def distinct_map inj_on_def)
  have "conns_rep (s\<lparr>sessions := (sessions s)(ce_session c \<mapsto> x)\<rparr>) cs"
    using r assms(2) by (auto simp: conns_rep_def)
  moreover have "\<exists>y. ((sessions s)(ce_session c \<mapsto> x)) (ce_session c') = Some y \<and> sinv y \<and> session_fd y = ce_fd c'"
    if "c' \<in> set cs" for c'
    using that assms uniq by (auto simp: server_inv_def conns_inv_def)
  ultimately show ?thesis
    using assms(1) by (simp add: server_inv_def conns_inv_def)
qed

lemma server_inv_session_at:
  assumes "server_inv mem_ok sinv s cs" "c \<in> set cs"
  obtains x where "sessions s (ce_session c) = Some x" "sinv x" "session_fd x = ce_fd c"
  using assms by (auto simp: server_inv_def conns_inv_def)

lemma server_inv_mem: "server_inv mem_ok sinv s cs \<Longrightarrow> mem_ok (mem s h)"
  by (simp add: server_inv_def world_ok_def)

section \<open>A server for a service over a transport\<close>

locale session_server = service mem_ok create sinv + transport vt
  for mem_ok :: "libc \<Rightarrow> bool" and create :: "libc \<Rightarrow> int \<Rightarrow> 'd session outcome"
    and sinv :: "'d session \<Rightarrow> bool" and vt :: "'d server_vtable" +
  assumes creates: "vt_create_session vt = create"
    and mem_bounded: "mem_ok L \<Longrightarrow> bounded_memory L"
begin

abbreviation good :: "connection_entry list \<Rightarrow> 'd server \<Rightarrow> bool" where
  "good cs s \<equiv> server_inv mem_ok sinv s cs"

lemma deliver_received_good:
  assumes s: "good cs s" "c \<in> set cs" "length data \<le> 16384"
  shows "wp (deliver_received (ce_session c) data) (\<lambda>_. good cs) s"
proof -
  obtain x where x: "sessions s (ce_session c) = Some x" "sinv x" "session_fd x = ce_fd c"
    using server_inv_session_at [OF s(1,2)] .
  obtain b where b: "connection x = Some b" using inv_buffer [OF x(2)] by blast
  define L where "L = mem s (log s)"
  have L: "mem_ok L" using server_inv_mem [OF s(1)] by (simp add: L_def)
  show ?thesis
  proof (cases "commbuf_add_to_recv_buffer L b data")
    case (Inl e)
    then show ?thesis
      using x b add_defined [OF L x(2) b s(3)] by (auto simp: deliver_received_def wp_simps simp flip: L_def)
  next
    case (Inr b')
    let ?x = "x\<lparr>connection := Some b'\<rparr>"
    show ?thesis
    proof (cases "session_on_recv L ?x")
      case (Inl e)
      then show ?thesis using x b Inr recv_defined [OF L L x(2) b s(3) Inr]
        by (auto simp: deliver_received_def wp_simps simp flip: L_def)
    next
      case res: (Inr p)
      obtain rr x' where p: "p = (rr, x')" by (cases p)
      then have x': "sinv x' \<and> session_fd x' = session_fd x \<and> 0 \<le> rr"
        using recv_inv [OF L L x(2) b s(3) Inr] res by simp
      then have "good cs (s\<lparr>sessions := (sessions s)(ce_session c \<mapsto> x')\<rparr>)"
        using server_inv_session [OF s(1,2)] x(3) by simp
      then show ?thesis using x b Inr res p x'
        by (auto simp: deliver_received_def wp_simps simp flip: L_def)
    qed
  qed
qed

lemma send_pending_good:
  assumes s: "good cs s" "c \<in> set cs"
  shows "wp (send_pending vt (ce_session c)) (\<lambda>_. good cs) s"
proof -
  obtain x where x: "sessions s (ce_session c) = Some x" "sinv x" "session_fd x = ce_fd c"
    using server_inv_session_at [OF s] .
  obtain b where b: "connection x = Some b" "commbuf_ok b" "unat (send_buf_sz b) < 2 ^ 31"
    using inv_buffer [OF x(2)] by blast
  have "wp (vt_send vt (session_fd x) (send_buf b) (send_buf_sz b))
      (\<lambda>r s'. \<exists>h. s' = s\<lparr>log := log s @ h\<rparr> \<and> quiet h) s"
    using b by (intro send_calls) (simp_all add: commbuf_ok_def)
  then have "wp (vt_send vt (session_fd x) (send_buf b) (send_buf_sz b))
      (\<lambda>r. wp (if r < 0 then ret r
        else bnd (set_session (ce_session c) (Some (x\<lparr>connection := Some (commbuf_clear_send_buffer b)\<rparr>)))
               (\<lambda>_. ret 0)) (\<lambda>_. good cs)) s"
  proof (rule wp_mono, elim exE conjE)
    fix r s' h
    assume s': "s' = s\<lparr>log := log s @ h\<rparr>" "quiet h"
    then have g: "good cs s'" using server_inv_log [OF s(1)] by simp
    then have "good cs (s'\<lparr>sessions := (sessions s')(ce_session c \<mapsto>
        x\<lparr>connection := Some (commbuf_clear_send_buffer b)\<rparr>)\<rparr>)"
      using server_inv_session [OF g s(2)] sent_inv [OF x(2) b(1)] x(3) by simp
    then show "wp (if r < 0 then ret r
        else bnd (set_session (ce_session c) (Some (x\<lparr>connection := Some (commbuf_clear_send_buffer b)\<rparr>)))
               (\<lambda>_. ret 0)) (\<lambda>_. good cs) s'"
      using g by (simp add: wp_simps)
  qed
  then show ?thesis using x(1) b(1) by (simp add: send_pending_def wp_simps commbuf_send_buffer_def)
qed

lemma process_session_good:
  assumes s: "good cs s" "c \<in> set cs"
  shows "wp (server_process_session vt (ce_session c)) (\<lambda>_. good cs) s"
proof -
  obtain x where x: "sessions s (ce_session c) = Some x" "sinv x" "session_fd x = ce_fd c"
    using server_inv_session_at [OF s] .
  have "wp (vt_recv vt (session_fd x)) (\<lambda>(r, data). wp (if r < 0 then ret r
        else bnd (guard_do (r > 0) (deliver_received (ce_session c) data))
               (\<lambda>_. send_pending vt (ce_session c))) (\<lambda>_. good cs)) s"
  proof (rule wp_mono [OF recv_calls], clarify)
    fix r :: int and data h
    assume d: "length (data :: byte list) \<le> 16384" "quiet h"
    then have g: "good cs (s\<lparr>log := log s @ h\<rparr>)" using server_inv_log [OF s(1)] by simp
    have "wp (guard_do (r > 0) (deliver_received (ce_session c) data)) (\<lambda>_. good cs) (s\<lparr>log := log s @ h\<rparr>)"
      using g deliver_received_good [OF g s(2) d(1)] by (simp add: wp_simps)
    then show "wp (if r < 0 then ret r
        else bnd (guard_do (r > 0) (deliver_received (ce_session c) data))
               (\<lambda>_. send_pending vt (ce_session c))) (\<lambda>_. good cs) (s\<lparr>log := log s @ h\<rparr>)"
      using g by (simp add: wp_ret wp_bnd) (blast intro: wp_mono send_pending_good s(2))
  qed
  then show ?thesis using x(1)
    by (simp add: server_process_session_def server_is_session_active_def wp_simps case_prod_unfold
        server_inv_log s(1))
qed

end

end
