(* ===== verification/Spool_Safety.thy ===== *)
theory Spool_Safety
  imports Server_Safety
begin

text \<open>
  The operations of the session pool keep its representation: adding and removing a session
  add and remove its entry, flagging an entry and a worker's round change flags only.
\<close>

section \<open>Changing one entry\<close>

lemma map_of_map_update:
  "e \<in> fst ` set ts \<Longrightarrow>
     map_of (map (\<lambda>(k, v). if k = e then (e, v') else (k, v)) ts) = (map_of ts)(e \<mapsto> v')"
proof (induction ts)
  case (Cons t ts)
  obtain k v where t: "t = (k, v)" by (cases t)
  have id: "map_of (map (\<lambda>(k, v). if k = e then (e, v') else (k, v)) ts) = map_of ts"
    if "e \<notin> fst ` set ts"
  proof -
    have "map (\<lambda>(k, v). if k = e then (e, v') else (k, v)) ts = ts"
      using that by (induction ts) auto
    then show ?thesis by simp
  qed
  show ?case
  proof (cases "e \<in> fst ` set ts")
    case True
    then show ?thesis using Cons.IH t by auto
  next
    case False
    then show ?thesis using Cons.prems id t by auto
  qed
qed simp

lemma pool_inv_update:
  assumes p: "pool_inv s ts A" and st: "thread_elems s e = Some st"
    and same: "st_session st' = st_session st" "thread_n st' = thread_n st"
  shows "\<exists>ts'. pool_inv (s\<lparr>thread_elems := (thread_elems s)(e \<mapsto> st')\<rparr>) ts' A"
proof -
  define upd where "upd = (\<lambda>(k, v). if k = e then (e, st') else (k, v))"
  have d: "distinct (map fst ts)" and m: "thread_elems s = map_of ts"
    using p by (simp_all add: pool_inv_def pool_rep_def)
  then have mem: "(e, st) \<in> set ts" using st map_of_SomeD by metis
  have only: "v = st" if "(e, v) \<in> set ts" for v using d mem that by (metis eq_key_imp_eq_value)
  have sess: "st_session (snd (upd x)) = st_session (snd x) \<and> thread_n (snd (upd x)) = thread_n (snd x) \<and>
      fst (upd x) = fst x" if "x \<in> set ts" for x
    using that only same by (auto simp: upd_def split: prod.splits)
  have "map_of (map upd ts) = (map_of ts)(e \<mapsto> st')"
    unfolding upd_def by (rule map_of_map_update) (use mem in force)
  moreover have "map fst (map upd ts) = map fst ts" using sess by simp
  moreover have "map (\<lambda>(e, st). st_session st) (map upd ts) = map (\<lambda>(e, st). st_session st) ts"
    using sess by (simp add: case_prod_unfold)
  moreover have "map (\<lambda>(e, st). (ptr_key (st_session st), e)) (map upd ts) =
      map (\<lambda>(e, st). (ptr_key (st_session st), e)) ts"
    using sess by (simp add: case_prod_unfold)
  moreover have "\<forall>(e, st) \<in> set (map upd ts). thread_n st < n_threads s \<and> st_session st < next_addr s \<and> e < next_addr s"
    using p sess by (simp add: pool_inv_def pool_rep_def case_prod_unfold)
  moreover have "pool_sessions (map upd ts) = pool_sessions ts"
    using sess by (simp add: pool_sessions_def case_prod_unfold image_image)
  ultimately have "pool_inv (s\<lparr>thread_elems := (thread_elems s)(e \<mapsto> st')\<rparr>) (map upd ts) A"
    using p unfolding pool_inv_def pool_rep_def m by (simp del: map_map)
  then show ?thesis ..
qed

lemma pool_inv_ctx [simp]: "pool_inv (s\<lparr>ctx := (ctx s)[i := x]\<rparr>) ts A = pool_inv s ts A"
  by (simp add: pool_inv_def pool_rep_def)

lemma server_inv_flag:
  assumes "server_inv mem_ok sinv s cs" "thread_elems s e = Some st"
    "st_session st' = st_session st" "thread_n st' = thread_n st"
  shows "server_inv mem_ok sinv (s\<lparr>thread_elems := (thread_elems s)(e \<mapsto> st')\<rparr>) cs"
  using assms pool_inv_update [OF _ assms(2-4)] by (auto simp: server_inv_def)

lemma server_inv_ctx: "server_inv mem_ok sinv s cs \<Longrightarrow> server_inv mem_ok sinv (s\<lparr>ctx := (ctx s)[i := x]\<rparr>) cs"
  by (simp add: server_inv_def)

text \<open>An entry of the pool is one of a thread of the pool and of a live session.\<close>

lemma server_inv_entry:
  assumes "server_inv mem_ok sinv s cs" "thread_elems s e = Some st"
  shows "thread_n st < length (ctx s)" "st_session st \<in> ce_session ` set cs"
proof -
  obtain ts where ts: "pool_inv s ts (ce_session ` set cs)" using assms(1) by (auto simp: server_inv_def)
  then have mem: "(e, st) \<in> set ts" using assms(2) map_of_SomeD by (auto simp: pool_inv_def pool_rep_def)
  then show "thread_n st < length (ctx s)" using ts by (auto simp: pool_inv_def pool_rep_def)
  have "st_session st \<in> pool_sessions ts" using mem by (force simp: pool_sessions_def)
  then show "st_session st \<in> ce_session ` set cs" using ts by (auto simp: pool_inv_def split: if_splits)
qed

lemma pool_elems:
  "pool_inv s ts A \<Longrightarrow> elem ` set (handles (session_thread_map s)) = dom (thread_elems s)"
proof -
  assume p: "pool_inv s ts A"
  have "elem ` set (handles (session_thread_map s)) = snd ` set (hash_entries (session_thread_map s))"
    by (simp add: hash_entries_snd)
  also have "\<dots> = fst ` set ts" using p by (force simp: pool_inv_def pool_rep_def)
  finally show ?thesis using p by (simp add: pool_inv_def pool_rep_def dom_map_of_conv_image_fst)
qed

section \<open>Adding and removing a session\<close>

lemma hash_add_wp:
  assumes "bounded_memory L"
  shows "HASH_ADD L k e h \<noteq> Inl Undefined"
  using HASH_ADD_fails [OF assms] by fastforce

lemma count_per_thread_wp:
  assumes "\<forall>e \<in> set es. \<exists>st. thread_elems s e = Some st \<and> thread_n st < length counts"
  shows "wp (count_per_thread es counts) (\<lambda>r s'. s' = s \<and> length r = length counts) s"
  using assms
proof (induction es arbitrary: counts)
  case (Cons e es)
  then obtain st where st: "thread_elems s e = Some st" "thread_n st < length counts" by auto
  then show ?case using Cons.IH [of "counts[thread_n st := counts ! thread_n st + 1]"] Cons.prems
    by (auto simp: wp_bnd wp_deref intro!: exI [of _ st])
qed (simp add: wp_simps)

lemma least_populated_wp:
  assumes "pool_inv s ts A" "n_threads s \<noteq> 0"
  shows "wp cpool_least_populated_thread (\<lambda>t s'. s' = s \<and> t < n_threads s) s"
proof -
  define es where "es = map elem (handles (session_thread_map s))"
  have "set es = dom (thread_elems s)" using pool_elems [OF assms(1)] by (simp add: es_def)
  moreover have "thread_n st < n_threads s" if "thread_elems s e = Some st" for e st
    using assms(1) that by (auto simp: pool_inv_def pool_rep_def dest!: map_of_SomeD)
  ultimately have "\<forall>e \<in> set es. \<exists>st. thread_elems s e = Some st \<and> thread_n st < length (replicate (n_threads s) (0 :: nat))"
    by auto
  from count_per_thread_wp [OF this]
  have "wp (count_per_thread es (replicate (n_threads s) 0))
      (\<lambda>r. wp (ret (least_index r 0 (2 ^ 64 - 1) 0)) (\<lambda>t s'. s' = s \<and> t < n_threads s)) s"
  proof (rule wp_mono)
    fix r :: "nat list" and s'
    assume "s' = s \<and> length r = length (replicate (n_threads s) (0 :: nat))"
    then show "wp (ret (least_index r 0 (2 ^ 64 - 1) 0)) (\<lambda>t s'. s' = s \<and> t < n_threads s) s'"
      using assms(2) least_index_range [of r 0 "2 ^ 64 - 1" 0] by (auto simp: wp_ret)
  qed
  then show ?thesis
    by (auto simp: cpool_least_populated_thread_def wp_gets wp_bnd wp_with_libc CALLOC_def check_ptr_def
        simp flip: es_def split: sum.splits)
qed

lemma spool_add_session_wp:
  assumes p: "pool_inv (s :: 'd server) ts A" and a: "a \<notin> A" "a < next_addr s" and L: "\<And>h. bounded_memory (mem s h)"
  shows "wp (spool_add_session a) (\<lambda>_ s'. \<exists>tm te na ts'.
      s' = s\<lparr>session_thread_map := tm, thread_elems := te, next_addr := na\<rparr> \<and>
      next_addr s \<le> na \<and> na < 2 ^ 64 \<and> pool_inv s' ts' (insert a A)) s"
proof (cases "n_threads s = 0")
  case True
  then have "pool_inv s ts (insert a A)" using p by (simp add: pool_inv_def SINGLE_THREADED_def)
  moreover have "next_addr s < 2 ^ 64" using p by (simp add: pool_inv_def pool_rep_def)
  moreover have "s = s\<lparr>session_thread_map := session_thread_map s, thread_elems := thread_elems s,
      next_addr := next_addr s\<rparr>" by simp
  ultimately have "\<exists>tm te na ts'. s = s\<lparr>session_thread_map := tm, thread_elems := te, next_addr := na\<rparr> \<and>
      next_addr s \<le> na \<and> na < 2 ^ 64 \<and> pool_inv s ts' (insert a A)" by blast
  then show ?thesis using True by (simp add: spool_add_session_def wp_simps SINGLE_THREADED_def)
next
  case False
  define rest :: "nat \<Rightarrow> ('d server, unit) prog" where "rest t =
      bnd (with_libc (\<lambda>L. MALLOC L 80)) (\<lambda>_.
      bnd fresh_addr (\<lambda>e.
      bnd (modify (\<lambda>s. s\<lparr>thread_elems := (thread_elems s)
             (e := Some \<lparr>st_session = a, thread_n = t, ready = False\<rparr>)\<rparr>)) (\<lambda>_.
      bnd (gets session_thread_map) (\<lambda>h.
      bnd (with_libc (\<lambda>L. HASH_ADD_PTR L a e h)) (\<lambda>h'.
      modify (\<lambda>s. s\<lparr>session_thread_map := h'\<rparr>))))))" for t
  have new: "wp (rest t) (\<lambda>_ s'. \<exists>tm te na ts'.
      s' = s\<lparr>session_thread_map := tm, thread_elems := te, next_addr := na\<rparr> \<and>
        next_addr s \<le> na \<and> na < 2 ^ 64 \<and> pool_inv s' ts' (insert a A)) s"
    if t: "t < n_threads s" for t
  proof -
    define e where "e = next_addr s"
    define st where "st = \<lparr>st_session = a, thread_n = t, ready = False\<rparr>"
    define L where "L = mem s (log s)"
    have r: "pool_rep s ts" "pool_sessions ts = A" using p False by (simp_all add: pool_inv_def SINGLE_THREADED_def)
    have fresh: "e \<notin> fst ` set ts" using r(1) by (auto simp: pool_rep_def e_def)
    have ent: "hash_ok (session_thread_map s)"
        "hash_entries (session_thread_map s) = map (\<lambda>(e, st). (ptr_key (st_session st), e)) ts"
      using r(1) by (simp_all add: pool_rep_def)
    have "snd ` set (hash_entries (session_thread_map s)) = fst ` set ts" unfolding ent(2) by force
    then have fresh': "e \<notin> snd ` set (hash_entries (session_thread_map s))" using fresh by simp
    have added: "\<exists>ts'. pool_inv (s\<lparr>session_thread_map := h', thread_elems := (thread_elems s)(e \<mapsto> st),
          next_addr := next_addr s + 1\<rparr>) ts' (insert a A)"
      if h': "HASH_ADD_PTR L a e (session_thread_map s) = Inr h'" and bound: "next_addr s + 1 < 2 ^ 64" for h'
    proof -
      have "hash_ok h' \<and> hash_entries h' = hash_entries (session_thread_map s) @ [(ptr_key a, e)]"
        using uthash.add_entry [OF ent(1) fresh'] h' by (simp add: HASH_ADD_PTR_def)
      moreover have "map_of (ts @ [(e, st)]) = (map_of ts)(e \<mapsto> st)"
        using fresh by (auto simp: map_add_def fun_eq_iff split: option.splits)
          (metis map_of_eq_None_iff option.simps(3))
      moreover have "a \<notin> pool_sessions ts" using a(1) r(2) by simp
      ultimately have "pool_rep (s\<lparr>session_thread_map := h', thread_elems := (thread_elems s)(e \<mapsto> st),
          next_addr := next_addr s + 1\<rparr>) (ts @ [(e, st)])"
        using r(1) fresh t a(2) bound ent(2) unfolding pool_rep_def
        by (auto simp: st_def pool_sessions_def e_def less_Suc_eq)
      then show ?thesis using False r(2)
        by (intro exI [of _ "ts @ [(e, st)]"]) (auto simp: pool_inv_def pool_sessions_def st_def SINGLE_THREADED_def)
    qed
    define Q where "Q s' \<longleftrightarrow> (\<exists>tm te na ts'. s' = s\<lparr>session_thread_map := tm, thread_elems := te, next_addr := na\<rparr> \<and>
        next_addr s \<le> na \<and> na < 2 ^ 64 \<and> pool_inv s' ts' (insert a A))" for s'
    have fin: "Q (s\<lparr>next_addr := next_addr s + 1, thread_elems := (thread_elems s)(e \<mapsto> st), session_thread_map := h'\<rparr>)"
      if h': "HASH_ADD_PTR L a e (session_thread_map s) = Inr h'" and bound: "next_addr s + 1 < 2 ^ 64" for h'
    proof -
      have "s\<lparr>next_addr := next_addr s + 1, thread_elems := (thread_elems s)(e \<mapsto> st), session_thread_map := h'\<rparr> =
          s\<lparr>session_thread_map := h', thread_elems := (thread_elems s)(e \<mapsto> st), next_addr := next_addr s + 1\<rparr>"
        by simp
      then show ?thesis using added [OF that] bound unfolding Q_def by (metis le_add1)
    qed
    have "bounded_memory L" using L by (simp add: L_def)
    then have "HASH_ADD_PTR L a e (session_thread_map s) \<noteq> Inl Undefined"
      using hash_add_wp by (simp add: HASH_ADD_PTR_def)
    then have "wp (rest t) (\<lambda>_. Q) s"
      using fin by (auto simp: rest_def wp_simps MALLOC_def check_ptr_def
          simp flip: st_def e_def L_def split: sum.splits)
    then show ?thesis unfolding Q_def .
  qed
  have "wp cpool_least_populated_thread (\<lambda>t. wp (rest t) (\<lambda>_ s'. \<exists>tm te na ts'.
      s' = s\<lparr>session_thread_map := tm, thread_elems := te, next_addr := na\<rparr> \<and>
      next_addr s \<le> na \<and> na < 2 ^ 64 \<and> pool_inv s' ts' (insert a A))) s"
    by (rule wp_mono [OF least_populated_wp [OF p False]]) (use new in auto)
  then show ?thesis
    using False by (simp add: spool_add_session_def wp_gets wp_bnd wp_guard_do SINGLE_THREADED_def rest_def)
qed

lemma spool_remove_session_wp:
  assumes p: "pool_inv (s :: 'd server) ts A" and a: "a < 2 ^ 64"
  shows "wp (spool_remove_session a) (\<lambda>_ s'. \<exists>tm te ts'.
      s' = s\<lparr>session_thread_map := tm, thread_elems := te\<rparr> \<and> pool_inv s' ts' (A - {a})) s"
proof (cases "n_threads s = 0")
  case True
  then have "pool_inv s ts (A - {a})" using p by (simp add: pool_inv_def SINGLE_THREADED_def)
  moreover have "s = s\<lparr>session_thread_map := session_thread_map s, thread_elems := thread_elems s\<rparr>" by simp
  ultimately have "\<exists>tm te ts'. s = s\<lparr>session_thread_map := tm, thread_elems := te\<rparr> \<and>
      pool_inv s ts' (A - {a})" by blast
  then show ?thesis using True by (simp add: spool_remove_session_def wp_simps SINGLE_THREADED_def)
next
  case False
  have r: "pool_rep s ts" "pool_sessions ts = A" using p False by (simp_all add: pool_inv_def SINGLE_THREADED_def)
  have ent: "hash_ok (session_thread_map s)"
      "hash_entries (session_thread_map s) = map (\<lambda>(e, st). (ptr_key (st_session st), e)) ts"
      "thread_elems s = map_of ts" "distinct (map fst ts)" "distinct (map (\<lambda>(e, st). st_session st) ts)"
    using r(1) by (simp_all add: pool_rep_def)
  have key: "ptr_key (st_session st) = ptr_key a \<longleftrightarrow> st_session st = a" if "(e, st) \<in> set ts" for e st
    using that r(1) a by (intro ptr_key_eq_iff) (auto simp: pool_rep_def)
  show ?thesis
  proof (cases "HASH_FIND_PTR a (session_thread_map s)")
    case None
    have "a \<notin> pool_sessions ts"
    proof
      assume "a \<in> pool_sessions ts"
      then obtain e st where "(e, st) \<in> set ts" "st_session st = a" by (auto simp: pool_sessions_def)
      then have "ptr_key a \<in> fst ` set (hash_entries (session_thread_map s))" unfolding ent(2) by force
      then show False using uthash.find_none [OF ent(1)] None by (simp add: HASH_FIND_PTR_def)
    qed
    then have "pool_inv s ts (A - {a})" using p r(2) by (simp add: pool_inv_def)
    moreover have "s = s\<lparr>session_thread_map := session_thread_map s, thread_elems := thread_elems s\<rparr>" by simp
    ultimately have "\<exists>tm te ts'. s = s\<lparr>session_thread_map := tm, thread_elems := te\<rparr> \<and>
      pool_inv s ts' (A - {a})" by blast
    then show ?thesis using False None by (simp add: spool_remove_session_def wp_simps SINGLE_THREADED_def)
  next
    case (Some e)
    then have "(ptr_key a, e) \<in> set (hash_entries (session_thread_map s))"
      using uthash.find_some [OF ent(1)] by (simp add: HASH_FIND_PTR_def)
    then obtain st where "(e, st) \<in> set ts" "ptr_key (st_session st) = ptr_key a" unfolding ent(2) by auto
    then have st: "(e, st) \<in> set ts" "st_session st = a" using key by auto
    have te: "thread_elems s e = Some st" using st(1) ent(3,4) by simp
    have tn: "thread_n st < length (ctx s)" using r(1) st(1) by (auto simp: pool_rep_def)
    have "e \<in> snd ` set (hash_entries (session_thread_map s))" unfolding ent(2) using st(1) by force
    then obtain h' where h': "HASH_DELETE e (session_thread_map s) = Inr h'" "hash_ok h'"
        "hash_entries h' = filter (\<lambda>x. snd x \<noteq> e) (hash_entries (session_thread_map s))"
      using uthash.del_entry [OF ent(1)] by blast
    define ts' where "ts' = filter (\<lambda>x. fst x \<noteq> e) ts"
    have "hash_entries h' = map (\<lambda>(e, st). (ptr_key (st_session st), e)) ts'"
      unfolding h'(3) ent(2) ts'_def by (simp add: filter_map comp_def case_prod_unfold)
    moreover have "map_of ts' = (map_of ts)(e := None)"
      by (simp add: ts'_def map_of_filter_key)
    ultimately have "pool_rep (s\<lparr>session_thread_map := h', thread_elems := (thread_elems s)(e := None)\<rparr>) ts'"
      using r(1) h'(2) unfolding pool_rep_def ts'_def by (auto simp: distinct_map_filter)
    moreover have "pool_sessions ts' = A - {a}"
    proof -
      have "fst x = e \<longleftrightarrow> st_session (snd x) = a" if "x \<in> set ts" for x
      proof
        assume "fst x = e"
        then have "x = (e, st)" using that st(1) ent(4) by (metis eq_key_imp_eq_value prod.collapse)
        then show "st_session (snd x) = a" using st(2) by simp
      next
        assume "st_session (snd x) = a"
        then have "x = (e, st)" using that st ent(5) by (auto simp: distinct_map inj_on_def case_prod_unfold)
        then show "fst x = e" by simp
      qed
      then show ?thesis using r(2) by (auto simp: pool_sessions_def ts'_def case_prod_unfold image_iff)
    qed
    ultimately have "pool_inv (s\<lparr>session_thread_map := h', thread_elems := (thread_elems s)(e := None)\<rparr>) ts' (A - {a})"
      using False by (simp add: pool_inv_def SINGLE_THREADED_def)
    then show ?thesis using False Some te tn h'(1)
      by (auto simp: spool_remove_session_def wp_simps SINGLE_THREADED_def)
  qed
qed

section \<open>Flushing a session and a worker's round\<close>

context session_server
begin

lemma collect_ready_good:
  assumes "good cs s" "set es \<subseteq> dom (thread_elems s)" "set acc \<subseteq> ce_session ` set cs"
  shows "wp (collect_ready t es arr acc) (\<lambda>ss s'. good cs s' \<and> set ss \<subseteq> ce_session ` set cs) s"
  using assms
proof (induction es arbitrary: s arr acc)
  case Nil
  then show ?case by (simp add: wp_simps)
next
  case (Cons e es)
  then obtain st where st: "thread_elems s e = Some st" by auto
  define s' where "s' = s\<lparr>thread_elems := (thread_elems s)(e \<mapsto> st\<lparr>ready := False\<rparr>)\<rparr>"
  have g: "good cs s'" unfolding s'_def using server_inv_flag [OF Cons.prems(1) st] by simp
  have dom: "dom (thread_elems s') = dom (thread_elems s)" using st by (auto simp: s'_def)
  have acc: "set (acc @ [st_session st]) \<subseteq> ce_session ` set cs"
    using Cons.prems(3) server_inv_entry(2) [OF Cons.prems(1) st] by simp
  have "wp (collect_ready t es arr' (acc @ [st_session st]))
      (\<lambda>ss s'. good cs s' \<and> set ss \<subseteq> ce_session ` set cs) s'" for arr'
    using Cons.IH [OF g _ acc] Cons.prems(2) dom by simp
  then show ?case using st Cons.IH [OF Cons.prems(1) _ Cons.prems(3)] Cons.prems(2)
    by (auto simp: wp_simps s'_def split: sum.splits dest: REALLOC_fails_only_exit)
qed

lemma process_all_good:
  assumes "good cs s" "set ss \<subseteq> ce_session ` set cs"
  shows "wp (for_each (\<lambda>a. bnd (server_process_session vt a) (\<lambda>_. ret ())) ss) (\<lambda>_. good cs) s"
proof (rule wp_for_each [of "good cs", OF assms(1)])
  fix a s
  assume "a \<in> set ss" "good cs s"
  then obtain c where c: "c \<in> set cs" "a = ce_session c" using assms(2) by auto
  show "wp (bnd (server_process_session vt a) (\<lambda>_. ret ())) (\<lambda>_. good cs) s"
    using process_session_good [OF \<open>good cs s\<close> c(1)] c(2) by (simp add: wp_bnd wp_ret)
qed

lemma worker_pass_good:
  assumes s: "good cs s"
  shows "wp (spool_worker_pass vt t) (\<lambda>_. good cs) s"
proof -
  define s' where "s' = s\<lparr>ctx := (ctx s)[t := (ctx s ! t)\<lparr>should_wake := False\<rparr>]\<rparr>"
  have g: "good cs s'" unfolding s'_def by (rule server_inv_ctx [OF s])
  then obtain ts where "pool_inv s' ts (ce_session ` set cs)" by (auto simp: server_inv_def)
  then have "set (map elem (handles (session_thread_map s'))) \<subseteq> dom (thread_elems s')"
    using pool_elems by fastforce
  from collect_ready_good [OF g this, of "[]" t None]
  have "wp (collect_ready t (map elem (handles (session_thread_map s'))) None [])
      (\<lambda>ss s'. good cs s' \<and> set ss \<subseteq> ce_session ` set cs) s'" by simp
  then have "wp (collect_ready t (map elem (handles (session_thread_map s'))) None [])
      (\<lambda>ss. wp (for_each (\<lambda>a. bnd (server_process_session vt a) (\<lambda>_. ret ())) ss) (\<lambda>_. good cs)) s'"
    by (rule wp_mono) (blast intro: process_all_good)
  then show ?thesis by (simp add: spool_worker_pass_def wp_bnd wp_modify wp_gets s'_def)
qed

lemma flush_good:
  assumes s: "good cs s" "c \<in> set cs"
  shows "wp (spool_flush_session vt (ce_session c)) (\<lambda>_. good cs) s"
proof (cases "n_threads s = SINGLE_THREADED")
  case True
  then show ?thesis using process_session_good [OF s]
    by (simp add: spool_flush_session_def wp_simps)
next
  case False
  show ?thesis
  proof (cases "HASH_FIND_PTR (ce_session c) (session_thread_map s)")
    case None
    then show ?thesis using False s by (simp add: spool_flush_session_def wp_simps)
  next
    case (Some e)
    obtain ts where ts: "pool_inv s ts (ce_session ` set cs)" using s(1) by (auto simp: server_inv_def)
    then have ok: "hash_ok (session_thread_map s)" by (simp add: pool_inv_def pool_rep_def)
    have "e \<in> snd ` set (hash_entries (session_thread_map s))"
      using uthash.find_some [OF ok] Some by (force simp: HASH_FIND_PTR_def)
    then obtain st where st: "thread_elems s e = Some st"
      using pool_elems [OF ts] by (auto simp: hash_entries_snd)
    define s' where "s' = s\<lparr>thread_elems := (thread_elems s)(e \<mapsto> st\<lparr>ready := True\<rparr>)\<rparr>"
    have g: "good cs s'" unfolding s'_def using server_inv_flag [OF s(1) st] by simp
    have "thread_n st < length (ctx s)" by (rule server_inv_entry(1) [OF s(1) st])
    then show ?thesis using False Some st server_inv_ctx [OF g]
      by (auto simp: spool_flush_session_def wp_simps s'_def)
  qed
qed

end

end
