(* ===== verification/Server_Events.thy ===== *)
theory Server_Events
  imports Spool_Safety
begin

text \<open>
  The event handlers against the abstract state: a new connection appends an entry to the list
  of connections, a disconnection removes the entry of its socket, new data leaves the list as
  it is; shutdown empties it.
\<close>

section \<open>Closing and polling\<close>

lemma server_inv_close:
  assumes "server_inv mem_ok sinv s cs" "fd \<notin> ce_fd ` set cs"
  shows "server_inv mem_ok sinv (s\<lparr>log := log s @ [(SysClose fd, r)]\<rparr>) cs"
  using assms by (auto simp: server_inv_def conns_inv_def conns_rep_def open_fds_snoc fd_effect_def)

lemma conns_inv_pollfree [simp]: "quiet [(SysEpollCtl p op fd fl, r)]"
  by (simp add: quiet_def)

lemma poller_add_wp:
  "Q () (s\<lparr>log := log s @ [(SysEpollCtl (epoll_fd p) EPOLL_CTL_ADD fd fl,
       env s (log s) (SysEpollCtl (epoll_fd p) EPOLL_CTL_ADD fd fl))]\<rparr>) \<Longrightarrow>
   fl = (EPOLLIN OR EPOLLET OR EPOLLRDHUP OR EPOLLHUP OR EPOLLERR) \<Longrightarrow> wp (poller_add_connection p fd) Q s"
  by (simp add: poller_add_connection_def wp_simps)

lemma poller_remove_wp:
  "Q () (s\<lparr>log := log s @ [(SysEpollCtl (epoll_fd p) EPOLL_CTL_DEL fd 0,
       env s (log s) (SysEpollCtl (epoll_fd p) EPOLL_CTL_DEL fd 0))]\<rparr>) \<Longrightarrow>
   wp (poller_remove_connection p fd) Q s"
  by (simp add: poller_remove_connection_def wp_simps)

section \<open>Entries of the session table\<close>

lemma pool_inv_addr:
  "pool_inv s ts A \<Longrightarrow> next_addr s \<le> n \<Longrightarrow> n < 2 ^ 64 \<Longrightarrow> pool_inv (s\<lparr>next_addr := n\<rparr>) ts A"
  by (fastforce simp: pool_inv_def pool_rep_def)

lemma conns_inv_addr:
  "conns_inv sinv s cs \<Longrightarrow> next_addr s \<le> n \<Longrightarrow> n < 2 ^ 64 \<Longrightarrow> conns_inv sinv (s\<lparr>next_addr := n\<rparr>) cs"
  by (fastforce simp: conns_inv_def conns_rep_def)

lemma conns_key:
  assumes "conns_inv sinv s cs" "c \<in> set cs" "fits_int fd"
  shows "int_key (ce_fd c) = int_key fd \<longleftrightarrow> ce_fd c = fd"
  using assms by (intro int_key_eq_iff) (auto simp: conns_inv_def conns_rep_def fits_int_def)

lemma conns_find:
  assumes c: "conns_inv sinv s cs" and fd: "fits_int fd"
  shows "case HASH_FIND_INT fd (session_hash s) of
      None \<Rightarrow> fd \<notin> ce_fd ` set cs
    | Some e \<Rightarrow> \<exists>c \<in> set cs. ce_fd c = fd \<and> ce_elem c = e \<and> hash_elems s e = Some (fd, ce_session c)"
proof -
  have r: "hash_ok (session_hash s)"
      "hash_entries (session_hash s) = map (\<lambda>c. (int_key (ce_fd c), ce_elem c)) cs"
      "hash_elems s = map_of (map (\<lambda>c. (ce_elem c, (ce_fd c, ce_session c))) cs)" "distinct (map ce_elem cs)"
    using c by (simp_all add: conns_inv_def conns_rep_def)
  show ?thesis
  proof (cases "HASH_FIND_INT fd (session_hash s)")
    case None
    have "fd \<notin> ce_fd ` set cs"
    proof
      assume "fd \<in> ce_fd ` set cs"
      then have "int_key fd \<in> fst ` set (hash_entries (session_hash s))" unfolding r(2) by force
      then show False using uthash.find_none [OF r(1)] None by (simp add: HASH_FIND_INT_def)
    qed
    then show ?thesis using None by simp
  next
    case (Some e)
    then have "(int_key fd, e) \<in> set (hash_entries (session_hash s))"
      using uthash.find_some [OF r(1)] by (simp add: HASH_FIND_INT_def)
    then obtain c' where c': "c' \<in> set cs" "int_key (ce_fd c') = int_key fd" "ce_elem c' = e" unfolding r(2) by auto
    then have "ce_fd c' = fd" using conns_key [OF c c'(1) fd] by simp
    moreover have "hash_elems s e = Some (ce_fd c', ce_session c')"
      unfolding r(3) c'(3) [symmetric] by (rule map_of_is_SomeI) (use r(4) c'(1) in \<open>auto simp: comp_def\<close>)
    ultimately show ?thesis using Some c' by auto
  qed
qed

lemma conns_inv_add:
  assumes c: "conns_inv sinv s cs" and fd: "fd \<notin> ce_fd ` set cs" "fd \<in> open_fds (log s)" "0 \<le> fd" "fd < 2 ^ 31"
    and h: "HASH_ADD_INT L fd (next_addr s) (session_hash s) = Inr h'"
    and x: "sinv x" "session_fd x = fd" and n: "next_addr s + 2 < 2 ^ 64"
  shows "conns_inv sinv (s\<lparr>next_addr := next_addr s + 2, sessions := (sessions s)(next_addr s + 1 \<mapsto> x),
      hash_elems := (hash_elems s)(next_addr s \<mapsto> (fd, next_addr s + 1)), session_hash := h'\<rparr>)
    (cs @ [\<lparr>ce_fd = fd, ce_elem = next_addr s, ce_session = next_addr s + 1\<rparr>])"
proof -
  define e where "e = next_addr s"
  have r: "hash_ok (session_hash s)"
      "hash_entries (session_hash s) = map (\<lambda>c. (int_key (ce_fd c), ce_elem c)) cs"
      "hash_elems s = map_of (map (\<lambda>c. (ce_elem c, (ce_fd c, ce_session c))) cs)"
      "\<forall>c \<in> set cs. ce_elem c < e \<and> ce_session c < e" "dom (sessions s) = ce_session ` set cs"
      "distinct (map ce_fd cs)" "distinct (map ce_elem cs)" "distinct (map ce_session cs)"
      "\<forall>c \<in> set cs. 0 \<le> ce_fd c \<and> ce_fd c < 2 ^ 31"
    using c by (auto simp: conns_inv_def conns_rep_def e_def)
  have fresh: "e \<notin> ce_elem ` set cs" "e + 1 \<notin> ce_session ` set cs" using r(4) by force+
  have "e \<notin> snd ` set (hash_entries (session_hash s))" unfolding r(2) using fresh(1) by force
  then have "hash_ok h' \<and> hash_entries h' = hash_entries (session_hash s) @ [(int_key fd, e)]"
    by (rule uthash.add_entry [OF r(1) _ h [unfolded HASH_ADD_INT_def, folded e_def]])
  moreover have "map_of (map (\<lambda>c. (ce_elem c, (ce_fd c, ce_session c)))
      (cs @ [\<lparr>ce_fd = fd, ce_elem = e, ce_session = e + 1\<rparr>])) = (hash_elems s)(e \<mapsto> (fd, e + 1))"
  proof -
    have "map_of (map (\<lambda>c. (ce_elem c, (ce_fd c, ce_session c))) cs) e = None"
      using fresh(1) by (auto simp: map_of_eq_None_iff)
    then show ?thesis unfolding r(3) by (auto simp: map_add_def fun_eq_iff split: option.splits)
  qed
  moreover have "\<forall>c \<in> set cs. ce_elem c < e + 2 \<and> ce_session c < e + 2" using r(4) by auto
  ultimately have "conns_rep (s\<lparr>next_addr := e + 2, sessions := (sessions s)(e + 1 \<mapsto> x),
      hash_elems := (hash_elems s)(e \<mapsto> (fd, e + 1)), session_hash := h'\<rparr>)
    (cs @ [\<lparr>ce_fd = fd, ce_elem = e, ce_session = e + 1\<rparr>])"
    using r fresh fd n unfolding conns_rep_def by (simp add: e_def)
  moreover have "sessions s (ce_session c) = ((sessions s)(e + 1 \<mapsto> x)) (ce_session c)" if "c \<in> set cs" for c
    using fresh(2) imageI [OF that, of ce_session] by (metis fun_upd_other)
  ultimately show ?thesis
    using c fd x unfolding conns_inv_def e_def by auto
qed

lemma conns_inv_remove:
  assumes c: "conns_inv sinv s cs" and mem: "c \<in> set cs"
    and h: "HASH_DELETE (ce_elem c) (session_hash s) = Inr h'"
  shows "conns_inv sinv (s\<lparr>sessions := (sessions s)(ce_session c := None), session_hash := h',
      hash_elems := (hash_elems s)(ce_elem c := None)\<rparr>) (filter (\<lambda>c'. ce_fd c' \<noteq> ce_fd c) cs)"
proof -
  have r: "hash_ok (session_hash s)"
      "hash_entries (session_hash s) = map (\<lambda>c. (int_key (ce_fd c), ce_elem c)) cs"
      "hash_elems s = map_of (map (\<lambda>c. (ce_elem c, (ce_fd c, ce_session c))) cs)"
      "dom (sessions s) = ce_session ` set cs"
      "distinct (map ce_fd cs)" "distinct (map ce_elem cs)" "distinct (map ce_session cs)"
    using c by (simp_all add: conns_inv_def conns_rep_def)
  have fd: "ce_fd c' = ce_fd c \<longleftrightarrow> c' = c" and el: "ce_elem c' = ce_elem c \<longleftrightarrow> c' = c"
    and se: "ce_session c' = ce_session c \<longleftrightarrow> c' = c" if "c' \<in> set cs" for c'
    using that mem r(5-7) by (auto simp: distinct_map inj_on_def)
  have same: "filter (\<lambda>c'. ce_fd c' \<noteq> ce_fd c) cs = filter (\<lambda>c'. ce_elem c' \<noteq> ce_elem c) cs"
    by (rule filter_cong) (use fd el in auto)
  have "ce_elem c \<in> snd ` set (hash_entries (session_hash s))" unfolding r(2) using mem by force
  then have "hash_ok h' \<and> hash_entries h' = filter (\<lambda>x. snd x \<noteq> ce_elem c) (hash_entries (session_hash s))"
    using uthash.del_entry [OF r(1)] h by (metis sum.inject(2))
  moreover have "(hash_elems s)(ce_elem c := None) =
      map_of (map (\<lambda>c. (ce_elem c, (ce_fd c, ce_session c))) (filter (\<lambda>c'. ce_elem c' \<noteq> ce_elem c) cs))"
    using map_of_filter_key [of "ce_elem c" "map (\<lambda>c. (ce_elem c, (ce_fd c, ce_session c))) cs"]
    unfolding r(3) by (simp add: filter_map comp_def)
  moreover have "ce_session ` set (filter (\<lambda>c'. ce_fd c' \<noteq> ce_fd c) cs) = ce_session ` set cs - {ce_session c}"
    using fd se by auto
  ultimately have "conns_rep (s\<lparr>sessions := (sessions s)(ce_session c := None), session_hash := h',
      hash_elems := (hash_elems s)(ce_elem c := None)\<rparr>) (filter (\<lambda>c'. ce_fd c' \<noteq> ce_fd c) cs)"
    using c r(2,4-7) unfolding conns_inv_def conns_rep_def same
    by (auto simp: filter_map comp_def distinct_map_filter)
  then show ?thesis using c se fd unfolding conns_inv_def by auto
qed

lemma conns_delete_defined:
  assumes "conns_inv sinv s cs" "c \<in> set cs"
  shows "\<exists>h'. HASH_DELETE (ce_elem c) (session_hash s) = Inr h'"
proof -
  have r: "hash_ok (session_hash s)"
      "hash_entries (session_hash s) = map (\<lambda>c. (int_key (ce_fd c), ce_elem c)) cs"
    using assms(1) by (simp_all add: conns_inv_def conns_rep_def)
  have "ce_elem c \<in> snd ` set (hash_entries (session_hash s))" unfolding r(2) using assms(2) by force
  then show ?thesis using uthash.del_entry [OF r(1)] by blast
qed

lemma conns_inv_open:
  "conns_inv sinv s cs \<Longrightarrow> open_fds (log s) \<subseteq> open_fds l \<Longrightarrow> conns_inv sinv (s\<lparr>log := l\<rparr>) cs"
  by (auto simp: conns_inv_def conns_rep_def)

lemma conns_addr_bound: "conns_inv sinv s cs \<Longrightarrow> next_addr s < 2 ^ 64"
  by (simp add: conns_inv_def conns_rep_def)

lemma conns_session_addr: "conns_inv sinv s cs \<Longrightarrow> c \<in> set cs \<Longrightarrow> ce_session c < next_addr s"
  by (simp add: conns_inv_def conns_rep_def)

section \<open>The handlers\<close>

context session_server
begin

lemma install_session_good:
  assumes w: "world_ok mem_ok s" and c: "conns_inv sinv s cs" and p: "pool_inv s ts (ce_session ` set cs)"
    and fd: "fd \<notin> ce_fd ` set cs" "fd \<in> open_fds (log s)" "0 \<le> fd" "fd < 2 ^ 31"
  shows "wp (install_session vt fd) (\<lambda>_ s'. \<exists>c. good (cs @ [c]) s' \<and> ce_fd c = fd) s"
proof -
  define L where "L = mem s (log s)"
  define e where "e = next_addr s"
  have mem: "mem_ok L" "\<And>h. bounded_memory (mem s h)" "bounded_memory L"
    using w mem_bounded by (auto simp: world_ok_def L_def)
  define s1 where "s1 x h' = s\<lparr>next_addr := e + 2, sessions := (sessions s)(e + 1 \<mapsto> x),
      hash_elems := (hash_elems s)(e \<mapsto> (fd, e + 1)), session_hash := h'\<rparr>" for x h'
  define c1 where "c1 = \<lparr>ce_fd = fd, ce_elem = e, ce_session = e + 1\<rparr>"
  have add: "wp (spool_add_session (e + 1)) (\<lambda>_ s'. \<exists>c. good (cs @ [c]) s' \<and> ce_fd c = fd) (s1 x h')"
    if x: "create L fd = Inr x" and h: "HASH_ADD_INT L fd e (session_hash s) = Inr h'" and n: "e + 2 < 2 ^ 64"
    for x h'
  proof -
    have xi: "sinv x" "session_fd x = fd" using create_inv [OF mem(1) x] by simp_all
    have c': "conns_inv sinv (s1 x h') (cs @ [c1])"
      using conns_inv_add [OF c fd h [unfolded e_def] xi n [unfolded e_def]] by (simp add: s1_def c1_def e_def)
    have p': "pool_inv (s1 x h') ts (ce_session ` set cs)"
      using pool_inv_addr [OF p, of "e + 2"] n by (simp add: s1_def e_def pool_inv_def pool_rep_def)
    have "e + 1 \<notin> ce_session ` set cs" "e + 1 < next_addr (s1 x h')"
      using conns_session_addr [OF c] by (force simp: e_def s1_def)+
    moreover have "bounded_memory (mem (s1 x h') h)" for h using mem(2) by (simp add: s1_def)
    ultimately have "wp (spool_add_session (e + 1)) (\<lambda>_ s'. \<exists>tm te na ts'.
        s' = (s1 x h')\<lparr>session_thread_map := tm, thread_elems := te, next_addr := na\<rparr> \<and>
        next_addr (s1 x h') \<le> na \<and> na < 2 ^ 64 \<and> pool_inv s' ts' (insert (e + 1) (ce_session ` set cs))) (s1 x h')"
      by (rule spool_add_session_wp [OF p'])
    then show ?thesis
    proof (rule wp_mono, elim exE conjE)
      fix s' tm te na ts'
      assume s': "s' = (s1 x h')\<lparr>session_thread_map := tm, thread_elems := te, next_addr := na\<rparr>"
          "next_addr (s1 x h') \<le> na" "na < 2 ^ 64" "pool_inv s' ts' (insert (e + 1) (ce_session ` set cs))"
      have "conns_inv sinv s' (cs @ [c1])"
        using conns_inv_addr [OF c' s'(2,3)] unfolding s'(1) by (simp add: conns_inv_def conns_rep_def)
      moreover have "world_ok mem_ok s'" using w by (simp add: s'(1) s1_def)
      ultimately have "good (cs @ [c1]) s'" using s'(4) by (auto simp: server_inv_def c1_def)
      then show "\<exists>c. good (cs @ [c]) s' \<and> ce_fd c = fd" by (auto simp: c1_def)
    qed
  qed
  have "vt_create_session vt L fd \<noteq> Inl Undefined" using create_defined [OF mem(1)] by (simp add: creates)
  moreover have "HASH_ADD_INT L fd e (session_hash s) \<noteq> Inl Undefined"
    using hash_add_wp [OF mem(3)] by (simp add: HASH_ADD_INT_def)
  ultimately show ?thesis using add
    by (auto simp: install_session_def wp_simps MALLOC_def check_ptr_def creates s1_def
        simp flip: e_def L_def split: sum.splits)
qed

lemma new_connection_good:
  assumes s: "good cs s"
  shows "wp (handle_new_connection vt) (\<lambda>r s'. r = - 1 \<and> good cs s' \<or>
    r = 0 \<and> (\<exists>c. good (cs @ [c]) s' \<and> ce_fd c \<notin> open_fds (log s))) s"
proof -
  obtain ts where i: "kernel_ok (env s)" "world_ok mem_ok s" "conns_inv sinv s cs" "pool_inv s ts (ce_session ` set cs)"
    using s by (auto simp: server_inv_def world_ok_def)
  define Q where "Q r s' \<longleftrightarrow> r = - 1 \<and> good cs s' \<or>
    r = 0 \<and> (\<exists>c. good (cs @ [c]) s' \<and> ce_fd c \<notin> open_fds (log s))" for r :: int and s'
  show ?thesis
    unfolding handle_new_connection_def wp_bnd Q_def [symmetric]
  proof (rule wp_mono [OF accept_fresh [OF i(1)]], elim exE conjE)
    fix fd s1 h
    assume s1: "s1 = s\<lparr>log := log s @ h\<rparr>" and
      acc: "fd = INVALID_SOCKET \<and> open_fds (log s @ h) = open_fds (log s) \<or>
         0 \<le> fd \<and> fd < 2 ^ 31 \<and> fd \<notin> open_fds (log s) \<and> open_fds (log s @ h) = insert fd (open_fds (log s))"
    have c1: "conns_inv sinv s1 cs" unfolding s1 by (rule conns_inv_open [OF i(3)]) (use acc in auto)
    then have g1: "good cs s1" using i by (auto simp: server_inv_def s1)
    show "wp (if fd = INVALID_SOCKET then bnd (close_socket fd) (\<lambda>_. ret (- 1))
        else bnd (gets server_poller) (\<lambda>p. bnd (poller_add_connection p fd) (\<lambda>_.
             bnd (install_session vt fd) (\<lambda>_. ret 0)))) Q s1"
    proof (cases "fd = INVALID_SOCKET")
      case True
      have "fd \<notin> ce_fd ` set cs" using i(3) True by (force simp: conns_inv_def conns_rep_def INVALID_SOCKET_def)
      then show ?thesis using True server_inv_close [OF g1, of fd] by (simp add: wp_simps Q_def)
    next
      case False
      then have fd: "fd \<in> open_fds (log s1)" "0 \<le> fd" "fd < 2 ^ 31" "fd \<notin> open_fds (log s)" using acc by (auto simp: s1)
      have new: "fd \<notin> ce_fd ` set cs" using i(3) fd(4) by (auto simp: conns_inv_def)
      have add: "wp (install_session vt fd) (\<lambda>_. Q 0) (s1\<lparr>log := log s1 @ [(SysEpollCtl p op f fl, r)]\<rparr>)" for p op f fl r
      proof -
        define s2 where "s2 = s1\<lparr>log := log s1 @ [(SysEpollCtl p op f fl, r)]\<rparr>"
        have "world_ok mem_ok s2" "conns_inv sinv s2 cs" "pool_inv s2 ts (ce_session ` set cs)"
            "fd \<in> open_fds (log s2)"
          using i(2,4) c1 fd(1) by (simp_all add: s2_def) (simp_all add: s1)
        from install_session_good [OF this(1-3) new this(4) fd(2,3)]
        show ?thesis unfolding s2_def [symmetric]
          by (rule wp_mono) (use fd(4) in \<open>auto simp: Q_def\<close>)
      qed
      have "wp (poller_add_connection p fd) (\<lambda>_. wp (bnd (install_session vt fd) (\<lambda>_. ret 0)) Q) s1" for p
        by (rule poller_add_wp) (simp_all add: wp_bnd wp_ret add)
      then show ?thesis using False by (simp add: wp_bnd wp_gets wp_ret del: bnd_gets)
    qed
  qed
qed

lemma spool_remove_session_returns: "only_undefined (spool_remove_session a)"
proof -
  have "HASH_DELETE e h = Inl x \<Longrightarrow> x = Undefined" for e and h :: "nat hash_head" and x
    by (auto simp: HASH_DELETE_def Let_def split: option.splits if_splits)
  then show ?thesis unfolding spool_remove_session_def
    by (intro preserves_intros only_undefined_lift) auto
qed

lemma uninstall_session_good:
  assumes w: "world_ok mem_ok s" and c: "conns_inv sinv s cs" and p: "pool_inv s ts (ce_session ` set cs)"
    and mem: "c1 \<in> set cs"
  shows "twp (uninstall_session (ce_elem c1)) (\<lambda>_ s'. good (filter (\<lambda>c. ce_fd c \<noteq> ce_fd c1) cs) s' \<and>
    log s' = log s \<and> env s' = env s \<and> server_fd s' = server_fd s \<and> server_poller s' = server_poller s) s"
proof -
  define a where "a = ce_session c1"
  define cs' where "cs' = filter (\<lambda>c. ce_fd c \<noteq> ce_fd c1) cs"
  obtain x where x: "sessions s a = Some x" "sinv x" using c mem by (auto simp: conns_inv_def a_def)
  obtain y where y: "session_finalize x = Inr y" using finalize_defined [OF x(2)] by blast
  obtain h' where h': "HASH_DELETE (ce_elem c1) (session_hash s) = Inr h'" using conns_delete_defined [OF c mem] by blast
  have el: "hash_elems s (ce_elem c1) = Some (ce_fd c1, a)"
  proof -
    have "distinct (map ce_elem cs)" "hash_elems s = map_of (map (\<lambda>c. (ce_elem c, (ce_fd c, ce_session c))) cs)"
      using c by (simp_all add: conns_inv_def conns_rep_def)
    then show ?thesis using mem by (auto simp: a_def comp_def intro!: map_of_is_SomeI)
  qed
  have "distinct (map ce_fd cs)" "distinct (map ce_session cs)" using c by (simp_all add: conns_inv_def conns_rep_def)
  then have "ce_fd c = ce_fd c1 \<longleftrightarrow> ce_session c = a" if "c \<in> set cs" for c
    using mem that by (auto simp: a_def distinct_map inj_on_def)
  then have ses: "ce_session ` set cs' = ce_session ` set cs - {a}" by (auto simp: cs'_def)
  have a64: "a < 2 ^ 64" using conns_session_addr [OF c mem] conns_addr_bound [OF c] by (simp add: a_def)
  define rest :: "('d server, unit) prog" where "rest =
     bnd (deref sessions a) (\<lambda>x.
     bnd (lift (session_finalize x)) (\<lambda>_.
     bnd (set_session a None) (\<lambda>_.
     bnd (gets session_hash) (\<lambda>h.
     bnd (lift (HASH_DELETE (ce_elem c1) h)) (\<lambda>h'.
     modify (\<lambda>s. s\<lparr>session_hash := h', hash_elems := (hash_elems s)(ce_elem c1 := None)\<rparr>))))))"
  have "twp (spool_remove_session a) (\<lambda>_. twp rest (\<lambda>_ s'. good cs' s' \<and> log s' = log s \<and> env s' = env s \<and>
      server_fd s' = server_fd s \<and> server_poller s' = server_poller s)) s"
  proof (rule twp_mono [OF twp_of_wp [OF spool_remove_session_wp [OF p a64] spool_remove_session_returns]], elim exE conjE)
    fix s1 tm te ts'
    assume s1: "s1 = s\<lparr>session_thread_map := tm, thread_elems := te\<rparr>" "pool_inv s1 ts' (ce_session ` set cs - {a})"
    have c1: "conns_inv sinv s1 cs" using c by (simp add: s1(1))
    define s2 where "s2 = s1\<lparr>sessions := (sessions s1)(a := None), session_hash := h',
        hash_elems := (hash_elems s1)(ce_elem c1 := None)\<rparr>"
    have "conns_inv sinv s2 cs'"
      using conns_inv_remove [OF c1 mem, of h'] h' by (simp add: s2_def cs'_def a_def s1(1))
    moreover have "pool_inv s2 ts' (ce_session ` set cs')" using s1(2) by (simp add: s2_def ses)
    moreover have "world_ok mem_ok s2" using w by (simp add: s2_def s1(1))
    ultimately have "good cs' s2" by (auto simp: server_inv_def)
    then show "twp rest (\<lambda>_ s'. good cs' s' \<and> log s' = log s \<and> env s' = env s \<and>
        server_fd s' = server_fd s \<and> server_poller s' = server_poller s) s1"
      using x y h' by (simp add: rest_def twp_simps s2_def s1(1))
  qed
  then show ?thesis using el by (simp add: uninstall_session_def twp_bnd twp_deref rest_def cs'_def)
qed

lemma disconnect_good:
  assumes s: "good cs s" and fd: "fits_int fd"
  shows "wp (handle_disconnect vt fd) (\<lambda>_ s'. good (filter (\<lambda>c. ce_fd c \<noteq> fd) cs) s' \<and>
    server_fd s' = server_fd s \<and> server_poller s' = server_poller s \<and>
    (if fd \<in> ce_fd ` set cs then \<exists>h r. log s' = log s @ h @ [(SysClose fd, r)] \<and> quiet h else s' = s)) s"
proof -
  obtain ts where i: "world_ok mem_ok s" "conns_inv sinv s cs" "pool_inv s ts (ce_session ` set cs)"
    using s by (auto simp: server_inv_def)
  show ?thesis
  proof (cases "HASH_FIND_INT fd (session_hash s)")
    case None
    then have "fd \<notin> ce_fd ` set cs" using conns_find [OF i(2) fd] by simp
    moreover from this have "filter (\<lambda>c. ce_fd c \<noteq> fd) cs = cs" by (auto simp: filter_id_conv)
    ultimately show ?thesis using None s
      by (simp add: handle_disconnect_def no_hook wp_bnd wp_gets wp_ret del: bnd_gets)
  next
    case (Some e)
    then obtain c1 where c1: "c1 \<in> set cs" "ce_fd c1 = fd" "ce_elem c1 = e" using conns_find [OF i(2) fd] by auto
    have mem: "fd \<in> ce_fd ` set cs" using c1 by auto
    define cs' where "cs' = filter (\<lambda>c. ce_fd c \<noteq> fd) cs"
    define Q where "Q s' \<longleftrightarrow> good cs' s' \<and> server_fd s' = server_fd s \<and> server_poller s' = server_poller s \<and>
        (\<exists>h r. log s' = log s @ h @ [(SysClose fd, r)] \<and> quiet h)" for s' :: "'d server"
    have "wp (uninstall_session e) (\<lambda>_. wp (bnd (gets server_poller) (\<lambda>p.
         bnd (poller_remove_connection p fd) (\<lambda>_. server_close_socket fd))) (\<lambda>_. Q)) s"
    proof (rule wp_mono [OF wp_of_twp [OF uninstall_session_good [OF i c1(1), unfolded c1]]], elim conjE)
      fix s1
      assume s1: "good (filter (\<lambda>c. ce_fd c \<noteq> fd) cs) s1" "log s1 = log s" "env s1 = env s"
        "server_fd s1 = server_fd s" "server_poller s1 = server_poller s"
      define x where "x = (SysEpollCtl (epoll_fd (server_poller s1)) EPOLL_CTL_DEL fd 0,
          env s1 (log s1) (SysEpollCtl (epoll_fd (server_poller s1)) EPOLL_CTL_DEL fd 0))"
      have q: "quiet [x]" by (simp add: x_def)
      define s2 where "s2 = s1\<lparr>log := log s1 @ [x]\<rparr>"
      define s3 where "s3 = s2\<lparr>log := log s2 @ [(SysClose fd, env s2 (log s2) (SysClose fd))]\<rparr>"
      have "good cs' s2" using server_inv_log [OF s1(1) q] by (simp add: s2_def cs'_def)
      then have "good cs' s3" unfolding s3_def by (rule server_inv_close) (auto simp: cs'_def)
      then have "Q s3" using s1(2,4,5) q unfolding Q_def by (auto simp: s3_def s2_def intro!: exI [of _ "[x]"])
      then show "wp (bnd (gets server_poller) (\<lambda>p.
          bnd (poller_remove_connection p fd) (\<lambda>_. server_close_socket fd))) (\<lambda>_. Q) s1"
        by (simp add: wp_bnd wp_gets server_close_socket_def wp_close_socket, intro poller_remove_wp)
          (simp add: wp_close_socket s3_def s2_def x_def)
    qed
    then have "wp (handle_disconnect vt fd) (\<lambda>_. Q) s" using Some
      by (simp add: handle_disconnect_def no_hook wp_bnd wp_gets wp_ret del: bnd_gets)
    then show ?thesis by (rule wp_mono) (use mem in \<open>auto simp: Q_def cs'_def\<close>)
  qed
qed

lemma new_data_good:
  assumes s: "good cs s" and fd: "fits_int fd"
  shows "wp (handle_new_data vt fd) (\<lambda>_. good cs) s"
proof -
  have i: "conns_inv sinv s cs" using s by (simp add: server_inv_def)
  show ?thesis
  proof (cases "HASH_FIND_INT fd (session_hash s)")
    case None
    then show ?thesis using s by (simp add: handle_new_data_def wp_simps)
  next
    case (Some e)
    then obtain c1 where c1: "c1 \<in> set cs" "hash_elems s e = Some (fd, ce_session c1)"
      using conns_find [OF i fd] by auto
    then show ?thesis using flush_good [OF s c1(1)] Some by (simp add: handle_new_data_def wp_simps)
  qed
qed

end

end
