(* ===== verification/Parrot_Service.thy ===== *)
theory Parrot_Service
  imports Server_Events
begin

text \<open>
  The parrots are services: their callbacks keep the buffers well formed and have
  defined behaviour on every input, on a C library that grants no request of 2 GiB or more.
  The bound is what keeps the sizes of the buffers in the range of \<open>int\<close>, on which the search
  for lines and the TCP transport compute.
\<close>

definition small_memory :: "libc \<Rightarrow> bool" where
  "small_memory L \<longleftrightarrow> (\<forall>n. malloc_ok L n \<longrightarrow> n < 2 ^ 31 - 1)"

definition echo_inv :: "unit session_vtable \<Rightarrow> unit session \<Rightarrow> bool" where
  "echo_inv vtable x \<longleftrightarrow> session_vt x = vtable \<and>
     (\<exists>c. connection x = Some c \<and> commbuf_ok c \<and> unat (recv_buf_sz c) < 2 ^ 31 - 1 \<and>
       unat (send_buf_sz c) < 2 ^ 31 - 1)"

abbreviation parrot_inv :: "unit session \<Rightarrow> bool" where
  "parrot_inv \<equiv> echo_inv parrot_vtable"

abbreviation echo_buffer :: "commbuf \<Rightarrow> bool" where
  "echo_buffer c \<equiv> commbuf_ok c \<and> unat (recv_buf_sz c) < 2 ^ 31 - 1 \<and> unat (send_buf_sz c) < 2 ^ 31 - 1"

section \<open>Growing a buffer\<close>

lemma REALLOC_granted: "REALLOC L p n = Inr q \<Longrightarrow> malloc_ok L (unat n)"
  by (auto simp: REALLOC_def check_ptr_def c_realloc_def c_malloc_def split: option.splits if_splits)

lemma small_memory_bounded: "small_memory L \<Longrightarrow> bounded_memory L"
  by (fastforce simp: small_memory_def bounded_memory_def)

lemma grow_small:
  assumes L: "small_memory L" and used: "unat used < 2 ^ 31 - 1" and d: "length data < 2 ^ 31"
    and r: "REALLOC L p (used + word_of_nat (length data)) = Inr q"
  shows "\<exists>q'. mem_write q (unat used) data = Inr q' \<and>
    unat (used + word_of_nat (length data)) = unat used + length data \<and>
    unat used + length data < 2 ^ 31 - 1 \<and> length (block_bytes q') = unat used + length data"
proof -
  have sz: "unat (used + word_of_nat (length data)) = unat used + length data"
    using used d by (simp add: unat_word_ariths unat_of_nat)
  have b: "unat used + length data < 2 ^ 31 - 1"
    using REALLOC_granted [OF r] L sz by (auto simp: small_memory_def)
  obtain b where q: "q = Some b" using r alloc_never_NULL(3) by (cases q) auto
  then have "length (block_bytes q) = unat used + length data" using r REALLOC_length sz by auto
  moreover from this obtain q' where "mem_write q (unat used) data = Inr q'"
    using mem_write_ok [of "unat used" data q] by auto
  ultimately show ?thesis using sz b mem_write_length by metis
qed

lemma add_recv_small:
  assumes "small_memory L" "echo_buffer c" "length data < 2 ^ 31"
  shows "commbuf_add_to_recv_buffer L c data \<noteq> Inl Undefined"
    "commbuf_add_to_recv_buffer L c data = Inr c' \<Longrightarrow> echo_buffer c'"
proof -
  let ?r = "REALLOC L (recv_buf c) (recv_buf_sz c + word_of_nat (length data))"
  show "commbuf_add_to_recv_buffer L c data \<noteq> Inl Undefined"
  proof (cases ?r)
    case (Inr q)
    then show ?thesis using grow_small [OF assms(1) _ assms(3) Inr] assms(2)
      by (auto simp: commbuf_add_to_recv_buffer_def)
  qed (use REALLOC_fails_only_exit in \<open>fastforce simp: commbuf_add_to_recv_buffer_def\<close>)
  assume "commbuf_add_to_recv_buffer L c data = Inr c'"
  then obtain q q' where q: "?r = Inr q" "mem_write q (unat (recv_buf_sz c)) data = Inr q'"
      "c' = c\<lparr>recv_buf := q', recv_buf_sz := recv_buf_sz c + word_of_nat (length data)\<rparr>"
    by (auto simp: commbuf_add_to_recv_buffer_def Let_def bind_out_eq_Inr split: if_splits)
  then show "echo_buffer c'" using grow_small [OF assms(1) _ assms(3) q(1)] assms(2)
    by (auto simp: commbuf_ok_def)
qed

lemma add_send_small:
  assumes "small_memory L" "echo_buffer c" "length data < 2 ^ 31"
  shows "commbuf_add_to_send_buffer L c data \<noteq> Inl Undefined"
    "commbuf_add_to_send_buffer L c data = Inr c' \<Longrightarrow> echo_buffer c'"
proof -
  let ?r = "REALLOC L (send_buf c) (send_buf_sz c + word_of_nat (length data))"
  show "commbuf_add_to_send_buffer L c data \<noteq> Inl Undefined"
  proof (cases ?r)
    case (Inr q)
    then show ?thesis using grow_small [OF assms(1) _ assms(3) Inr] assms(2)
      by (auto simp: commbuf_add_to_send_buffer_def)
  qed (use REALLOC_fails_only_exit in \<open>fastforce simp: commbuf_add_to_send_buffer_def\<close>)
  assume "commbuf_add_to_send_buffer L c data = Inr c'"
  then obtain q q' where q: "?r = Inr q" "mem_write q (unat (send_buf_sz c)) data = Inr q'"
      "c' = c\<lparr>send_buf := q', send_buf_sz := send_buf_sz c + word_of_nat (length data)\<rparr>"
    by (auto simp: commbuf_add_to_send_buffer_def Let_def bind_out_eq_Inr split: if_splits)
  then show "echo_buffer c'" using grow_small [OF assms(1) _ assms(3) q(1)] assms(2)
    by (auto simp: commbuf_ok_def)
qed

section \<open>Extracting and echoing a line\<close>

lemma CALLOC_glibc:
  "CALLOC L 1 n = (if malloc_ok L (unat n) then CALLOC glibc 1 n else Inl (Exit EXIT_FAILURE))"
  by (simp add: CALLOC_def c_calloc_def check_ptr_def)

lemma extract_line_memory:
  "commbuf_extract_line_from_recv_buffer L c sep = commbuf_extract_line_from_recv_buffer glibc c sep \<or>
   commbuf_extract_line_from_recv_buffer L c sep = Inl (Exit EXIT_FAILURE)"
proof (cases "c_string sep")
  case (Inr t)
  let ?l = "int_of_size (word_of_nat (length t))"
  let ?a = "int_of_size (recv_buf_sz c)"
  show ?thesis
  proof (cases "find_separator (recv_buf c) t 0 (?a - ?l + 1)")
    case (Inl e)
    then show ?thesis using Inr by (simp add: commbuf_extract_line_from_recv_buffer_def Let_def)
  next
    case found: (Inr k)
    then show ?thesis using Inr
      by (simp add: commbuf_extract_line_from_recv_buffer_def Let_def CALLOC_glibc [of L])
  qed
qed (simp add: commbuf_extract_line_from_recv_buffer_def)

context echo_service
begin

lemma extract_line_small:
  assumes c: "echo_buffer c"
  shows "case commbuf_extract_line_from_recv_buffer L c (sep @ [0]) of
      Inl e \<Rightarrow> e = Exit EXIT_FAILURE
    | Inr (n, line, c') \<Rightarrow> echo_buffer c' \<and>
        (n \<noteq> 0 \<longrightarrow> (\<exists>l. line = Some (l @ [0]) \<and> length l < 2 ^ 31))"
proof (cases "split_line sep (recv_view c)")
  case None
  then show ?thesis using c commbuf_extract_line_None [of c sep L] by simp
next
  case (Some lr)
  obtain l r where lr: "lr = (l, r)" by (cases lr)
  obtain c' where c': "commbuf_extract_line_from_recv_buffer glibc c (sep @ [0]) =
        Inr (word_of_nat (length l), Some (l @ [0]), c')" "commbuf_ok c'"
      "send_buf_sz c' = send_buf_sz c" "unat (recv_buf_sz c') = length r"
    using commbuf_extract_line_Some [of c sep l r glibc] c Some lr by auto
  have "length l + length r = unat (recv_buf_sz c)"
    using split_line_concat [of sep "recv_view c"] recv_view_length [of c] c Some lr by (metis length_append)
  then show ?thesis using extract_line_memory [of L c "sep @ [0]"] c c' by auto
qed

lemma loop_small:
  assumes "small_memory L" "echo_buffer c"
  shows "case loop L c of Inl e \<Rightarrow> e \<noteq> Undefined | Inr c' \<Rightarrow> echo_buffer c'"
  using assms
proof (induction c rule: measure_induct_rule [of "\<lambda>c. unat (recv_buf_sz c)"])
  case (less c)
  show ?case
  proof (cases "commbuf_extract_line_from_recv_buffer L c (sep @ [0])")
    case (Inl e)
    then show ?thesis using extract_line_small [OF less.prems(2), of L] by (simp add: loop_step [of L c])
  next
    case (Inr p)
    obtain n line c1 where p: "p = (n, line, c1)" by (cases p)
    then have c1: "echo_buffer c1" using extract_line_small [OF less.prems(2), of L] Inr by simp
    show ?thesis
    proof (cases "n = 0")
      case True
      then show ?thesis using Inr p c1 by (simp add: loop_step [of L c])
    next
      case False
      then obtain l where l: "line = Some (l @ [0])" "length l < 2 ^ 31"
        using extract_line_small [OF less.prems(2), of L] Inr p by auto
      have "length (upto_nul l) < 2 ^ 31" using upto_nul_length [of l] l(2) by simp
      note grow = add_send_small [OF less.prems(1) c1 this]
      have echo_text: "commbuf_add_text_to_send_buffer L c1 (block_bytes line) =
          commbuf_add_to_send_buffer L c1 (upto_nul l)"
        by (simp add: l(1) commbuf_add_text_to_send_buffer_def c_string_append0)
      show ?thesis
      proof (cases "commbuf_add_to_send_buffer L c1 (upto_nul l)")
        case e: (Inl e)
        then show ?thesis using Inr p False grow(1) echo_text by (auto simp: loop_step [of L c])
      next
        case c2: (Inr c2)
        have "unat (recv_buf_sz c2) < unat (recv_buf_sz c)"
          by (rule echo_decreases [OF _ False sep(3)]) (use Inr p c2 echo_text in auto)
        from less.IH [OF this less.prems(1) grow(2) [OF c2]] c2 echo_text
        show ?thesis using Inr p False by (simp add: loop_step [of L c])
      qed
    qed
  qed
qed

lemma on_recv_session:
  assumes "echo_inv vtable x"
  shows "session_on_recv L (x\<lparr>connection := Some c\<rparr>) =
    bind_out (loop L c) (\<lambda>c'. Inr (0, x\<lparr>connection := Some c', session_data := ()\<rparr>))"
  using assms by (cases "loop L c") (simp_all add: echo_inv_def session_on_recv_def vtable)

lemma is_service: "service small_memory create (echo_inv vtable)"
proof (unfold_locales, goal_cases)
  case (1 L fd)
  have "CALLOC L 1 40 = Inl e \<Longrightarrow> e = Exit EXIT_FAILURE" for e
    by (auto simp: CALLOC_def check_ptr_def split: if_splits)
  then show ?case
    by (cases "CALLOC L 1 40") (auto simp: create session_init_def commbuf_create_def)
next
  case (2 L fd x)
  then show ?case
    by (auto simp: create session_init_def commbuf_create_def bind_out_eq_Inr
        echo_inv_def commbuf_ok_def)
next
  case (3 x)
  then show ?case by (auto simp: echo_inv_def)
next
  case (4 L x c data)
  then show ?case using add_recv_small(1) [of L c data] by (auto simp: echo_inv_def)
next
  case (5 L L' x c data c')
  then have "echo_buffer c'" using add_recv_small(2) [of L c data c'] by (auto simp: echo_inv_def)
  with 5 show ?case using loop_small [of L' c']
    by (cases "loop L' c'") (auto simp: on_recv_session)
next
  case (6 L L' x c data c' rr x')
  then have "echo_buffer c'" using add_recv_small(2) [of L c data c'] by (auto simp: echo_inv_def)
  with 6 show ?case using loop_small [of L' c']
    by (auto simp: on_recv_session bind_out_eq_Inr) (auto simp: echo_inv_def)
next
  case (7 x c)
  then show ?case by (auto simp: echo_inv_def commbuf_clear_send_buffer_def commbuf_ok_def)
next
  case (8 x)
  then have "finalize (session_vt x) = None" by (simp add: echo_inv_def vtable)
  with 8 show ?case by (auto simp: echo_inv_def session_finalize_def Let_def)
qed

end

section \<open>The parrots are services\<close>

interpretation parrot: service small_memory parrot_session_create parrot_inv
  by (rule parrot_echo.is_service)

interpretation sparrot: service small_memory sparrot_session_create "echo_inv sparrot_vtable"
  by (rule sparrot_echo.is_service)

end
