(* ===== verification/Server_Run.thy ===== *)
theory Server_Run
  imports Parrot_Service
begin

unbundle bit_operations_syntax

text \<open>
  The event loop and the shutdown.  The abstract server is the list of its open connections;
  \<open>conn_event\<close> is what one event does to it, and a round of the loop is a sequence of such
  events, with rounds of worker threads in between.  Shutdown empties the list and closes
  every connection, the listener and the poller, each once.
\<close>

section \<open>The abstract server\<close>

inductive conn_event :: "poller_event \<Rightarrow> int list \<Rightarrow> int list \<Rightarrow> bool" where
  refused: "evt_type ev = PT_NEW_CONNECTION \<Longrightarrow> conn_event ev fds fds"
| accepted: "evt_type ev = PT_NEW_CONNECTION \<Longrightarrow> fd \<notin> set fds \<Longrightarrow> conn_event ev fds (fds @ [fd])"
| data: "evt_type ev = PT_NEW_DATA \<Longrightarrow> conn_event ev fds fds"
| gone: "evt_type ev = PT_DISCONNECTED \<Longrightarrow> conn_event ev fds (filter (\<lambda>fd. fd \<noteq> evt_fd ev) fds)"

inductive conn_events :: "poller_event list \<Rightarrow> int list \<Rightarrow> int list \<Rightarrow> bool" where
  no_event: "conn_events [] fds fds"
| next_event: "conn_event ev fds fds1 \<Longrightarrow> conn_events evs fds1 fds2 \<Longrightarrow> conn_events (ev # evs) fds fds2"

inductive_cases conn_eventE: "conn_event ev fds fds'"
inductive_simps conn_events_simps: "conn_events [] fds fds'" "conn_events (ev # evs) fds fds'"

lemma conn_event_distinct: "conn_event ev fds fds' \<Longrightarrow> distinct fds \<Longrightarrow> distinct fds'"
  by (auto elim: conn_eventE)

lemma conn_events_distinct: "conn_events evs fds fds' \<Longrightarrow> distinct fds \<Longrightarrow> distinct fds'"
  by (induction rule: conn_events.induct) (auto intro: conn_event_distinct)

text \<open>A connection that was there stays until it is reported as gone.\<close>

lemma conn_events_kept:
  "conn_events evs fds fds' \<Longrightarrow> fd \<in> set fds \<Longrightarrow>
     (\<forall>ev \<in> set evs. evt_fd ev = fd \<longrightarrow> evt_type ev \<noteq> PT_DISCONNECTED) \<Longrightarrow> fd \<in> set fds'"
  by (induction rule: conn_events.induct) (auto elim!: conn_eventE)

section \<open>Waiting\<close>

lemma poller_wait_wp:
  assumes k: "kernel_ok (env s)" and n: "unat evt_sz < 2 ^ 31"
  shows "wp (poller_wait p evt_sz ms) (\<lambda>(k, slots) s'. \<exists>out r.
     slots = map Some out \<and> unat k = length out \<and> length out \<le> unat evt_sz \<and>
     (\<forall>ev \<in> set out. fits_int (evt_fd ev)) \<and>
     s' = s\<lparr>log := log s @ [(SysEpollWait (epoll_fd p) (int_of_size evt_sz) (int_of_size ms), r)]\<rparr>) s"
proof -
  define c where "c = SysEpollWait (epoll_fd p) (int_of_size evt_sz) (int_of_size ms)"
  define raw where "raw = take (unat evt_sz) (rep_events (env s (log s) c))"
  have k': "\<forall>(fd, ev) \<in> set raw. fits_int fd \<and> ev AND 0x2019 \<noteq> 0"
  proof
    fix x assume "x \<in> set raw"
    then have "x \<in> set (rep_events (env s (log s) c))" unfolding raw_def by (rule in_set_takeD)
    then show "case x of (fd, ev) \<Rightarrow> fits_int fd \<and> ev AND 0x2019 \<noteq> 0"
      using k unfolding kernel_ok_def c_def by blast
  qed
  moreover have "EPOLLIN OR EPOLLERR OR EPOLLHUP OR EPOLLRDHUP = 0x2019" by (simp add: epoll_flags)
  ultimately have "\<forall>(fd, ev) \<in> set raw. ev AND (EPOLLIN OR EPOLLERR OR EPOLLHUP OR EPOLLRDHUP) \<noteq> 0"
    by auto
  from epoll_slots [OF this] obtain out where out: "map (epoll_event (fs_socket p)) raw = map Some out"
      "\<forall>ev \<in> set out. evt_fd ev \<in> fst ` set raw" by blast
  then have len: "length raw = length out" by (metis length_map)
  have fd: "\<forall>ev \<in> set out. fits_int (evt_fd ev)" using out(2) k' by fastforce
  have le: "length out \<le> unat evt_sz" using len by (simp add: raw_def)
  then have "length out < 2 ^ 64" using n by simp
  then have cnt: "unat (word_of_nat (length out) :: size_t) = length out" by (rule unat_of_nat_size)
  show ?thesis
    using fd le cnt out(1) len int_of_size_small [OF n]
    by (auto simp: poller_wait_def wp_simps Let_def CALLOC_def check_ptr_def raw_def c_def
        simp del: of_nat_unat split: sum.splits intro!: exI [of _ out] exI [of _ "[]"])
qed

section \<open>The event loop\<close>

text \<open>
  A round in which the worker threads \<open>ws i\<close> take rounds of their own before slot \<open>i\<close> is
  handled; without workers it is \<open>server_iterate\<close>.
\<close>

definition interleaved_slot ::
  "'d server_vtable \<Rightarrow> (nat \<Rightarrow> nat list) \<Rightarrow> poller_event option list \<Rightarrow> nat \<Rightarrow> ('d server, unit) prog" where
  "interleaved_slot vt ws slots i =
     bnd (for_each (spool_worker_pass vt) (ws i)) (\<lambda>_. handle_slot vt slots i)"

definition interleaved_iterate ::
  "'d server_vtable \<Rightarrow> (nat \<Rightarrow> nat list) \<Rightarrow> size_t \<Rightarrow> ('d server, int) prog" where
  "interleaved_iterate vt ws timeout_ms =
     bnd (gets server_poller) (\<lambda>p.
     bnd (poller_wait p MAX_EVENTS timeout_ms) (\<lambda>(n_events, slots).
     bnd (for_each (interleaved_slot vt ws slots) [0..<unat n_events]) (\<lambda>_.
     ret 0)))"

lemma interleaved_none: "interleaved_iterate vt (\<lambda>_. []) ms = server_iterate vt ms"
proof -
  have "interleaved_slot vt (\<lambda>_. []) slots = handle_slot vt slots" for slots
    by (simp add: interleaved_slot_def fun_eq_iff del: ret_run)
  then show ?thesis by (simp add: interleaved_iterate_def server_iterate_def)
qed

context session_server
begin

lemma handle_event_good:
  assumes s: "good cs s" and fd: "fits_int (evt_fd ev)"
  shows "wp (handle_event vt ev) (\<lambda>_ s'. \<exists>cs'. good cs' s' \<and> conn_event ev (map ce_fd cs) (map ce_fd cs')) s"
proof (cases "evt_type ev")
  case PT_NEW_CONNECTION
  have o: "ce_fd ` set cs \<subseteq> open_fds (log s)" using s by (simp add: server_inv_def conns_inv_def)
  have "wp (handle_new_connection vt)
      (\<lambda>_ s'. \<exists>cs'. good cs' s' \<and> conn_event ev (map ce_fd cs) (map ce_fd cs')) s"
  proof (rule wp_mono [OF new_connection_good [OF s]], elim disjE conjE exE)
    fix s' c
    assume c: "good (cs @ [c]) s'" "ce_fd c \<notin> open_fds (log s)"
    then have "ce_fd c \<notin> set (map ce_fd cs)" using o by auto
    from accepted [OF PT_NEW_CONNECTION this]
    have "good (cs @ [c]) s' \<and> conn_event ev (map ce_fd cs) (map ce_fd (cs @ [c]))" using c(1) by simp
    then show "\<exists>cs'. good cs' s' \<and> conn_event ev (map ce_fd cs) (map ce_fd cs')" by blast
  qed (use PT_NEW_CONNECTION in \<open>blast intro: refused\<close>)
  then show ?thesis using PT_NEW_CONNECTION by (simp add: handle_event_def wp_bnd wp_ret)
next
  case PT_NEW_DATA
  have "wp (handle_new_data vt (evt_fd ev))
      (\<lambda>_ s'. \<exists>cs'. good cs' s' \<and> conn_event ev (map ce_fd cs) (map ce_fd cs')) s"
    by (rule wp_mono [OF new_data_good [OF s fd]]) (use PT_NEW_DATA in \<open>blast intro: data\<close>)
  then show ?thesis using PT_NEW_DATA by (simp add: handle_event_def)
next
  case PT_DISCONNECTED
  have eq: "map ce_fd (filter (\<lambda>c. ce_fd c \<noteq> evt_fd ev) cs) = filter (\<lambda>fd. fd \<noteq> evt_fd ev) (map ce_fd cs)"
    by (simp add: filter_map comp_def)
  have "wp (handle_disconnect vt (evt_fd ev))
      (\<lambda>_ s'. \<exists>cs'. good cs' s' \<and> conn_event ev (map ce_fd cs) (map ce_fd cs')) s"
    by (rule wp_mono [OF disconnect_good [OF s fd]])
      (use gone [OF PT_DISCONNECTED, of "map ce_fd cs"] in \<open>unfold eq [symmetric], blast\<close>)
  then show ?thesis using PT_DISCONNECTED by (simp add: handle_event_def)
qed

lemma workers_good:
  "good cs s \<Longrightarrow> wp (for_each (spool_worker_pass vt) ts) (\<lambda>_. good cs) s"
  by (rule wp_for_each) (auto intro: worker_pass_good)

lemma interleaved_slots_good:
  assumes "good cs s" "\<forall>ev \<in> set out. fits_int (evt_fd ev)" "k + length out = length slots"
    "\<forall>j < length out. slots ! (k + j) = Some (out ! j)"
  shows "wp (for_each (interleaved_slot vt ws slots) [k..<length slots])
    (\<lambda>_ s'. \<exists>cs'. good cs' s' \<and> conn_events out (map ce_fd cs) (map ce_fd cs')) s"
  using assms
proof (induction out arbitrary: s cs k)
  case Nil
  then show ?case by (auto simp: wp_Pair wp_ret intro: no_event)
next
  case (Cons ev out)
  have k: "[k..<length slots] = k # [Suc k..<length slots]" "slots ! k = Some ev" "k < length slots"
    using Cons.prems(3,4) by (auto simp: upt_conv_Cons)
  have "wp (for_each (spool_worker_pass vt) (ws k)) (\<lambda>_. wp (handle_event vt ev)
      (\<lambda>_. wp (for_each (interleaved_slot vt ws slots) [Suc k..<length slots])
        (\<lambda>_ s'. \<exists>cs'. good cs' s' \<and> conn_events (ev # out) (map ce_fd cs) (map ce_fd cs')))) s"
  proof (rule wp_mono [OF workers_good [OF Cons.prems(1)]])
    fix s1
    assume g: "good cs s1"
    have fd: "fits_int (evt_fd ev)" using Cons.prems(2) by simp
    show "wp (handle_event vt ev) (\<lambda>_. wp (for_each (interleaved_slot vt ws slots) [Suc k..<length slots])
        (\<lambda>_ s'. \<exists>cs'. good cs' s' \<and> conn_events (ev # out) (map ce_fd cs) (map ce_fd cs'))) s1"
    proof (rule wp_mono [OF handle_event_good [OF g fd]], elim exE conjE)
      fix s2 cs2
      assume 2: "good cs2 s2" "conn_event ev (map ce_fd cs) (map ce_fd cs2)"
      have slots: "\<forall>j < length out. slots ! (Suc k + j) = Some (out ! j)"
      proof (intro allI impI)
        fix j assume "j < length out"
        then show "slots ! (Suc k + j) = Some (out ! j)" using Cons.prems(4) [rule_format, of "Suc j"] by simp
      qed
      show "wp (for_each (interleaved_slot vt ws slots) [Suc k..<length slots])
          (\<lambda>_ s'. \<exists>cs'. good cs' s' \<and> conn_events (ev # out) (map ce_fd cs) (map ce_fd cs')) s2"
        by (rule wp_mono [OF Cons.IH [OF 2(1) _ _ slots]])
          (use Cons.prems 2(2) in \<open>auto intro: next_event\<close>)
    qed
  qed
  moreover have "interleaved_slot vt ws slots k =
      bnd (for_each (spool_worker_pass vt) (ws k)) (\<lambda>_. handle_event vt ev)"
    using k by (simp add: interleaved_slot_def handle_slot_def)
  ultimately show ?case using k(1) by (simp add: wp_bnd_fun)
qed

lemma interleaved_iterate_good:
  assumes s: "good cs s"
  shows "wp (interleaved_iterate vt ws ms)
    (\<lambda>_ s'. \<exists>cs' evs. good cs' s' \<and> length evs \<le> 64 \<and> conn_events evs (map ce_fd cs) (map ce_fd cs')) s"
proof -
  have k: "kernel_ok (env s)" using s by (simp add: server_inv_def world_ok_def)
  have "wp (poller_wait (server_poller s) MAX_EVENTS ms) (\<lambda>(n, slots).
      wp (for_each (interleaved_slot vt ws slots) [0..<unat n])
      (\<lambda>_ s'. \<exists>cs' evs. good cs' s' \<and> length evs \<le> 64 \<and> conn_events evs (map ce_fd cs) (map ce_fd cs'))) s"
  proof (rule wp_mono [OF poller_wait_wp [OF k]], simp add: MAX_EVENTS_def, clarsimp simp: MAX_EVENTS_def)
    fix n :: size_t and out :: "poller_event list" and r :: reply and w m :: int
    assume o: "unat n = length out" "length out \<le> 64" "\<forall>ev \<in> set out. fits_int (evt_fd ev)"
    define x where "x = (SysEpollWait (epoll_fd (server_poller s)) w m, r)"
    have g: "good cs (s\<lparr>log := log s @ [x]\<rparr>)"
      by (rule server_inv_log [OF s]) (simp add: quiet_def x_def)
    show "wp (for_each (interleaved_slot vt ws (map Some out)) [0..<length out])
      (\<lambda>_ s'. \<exists>cs'. good cs' s' \<and> (\<exists>evs. length evs \<le> 64 \<and> conn_events evs (map ce_fd cs) (map ce_fd cs')))
      (s\<lparr>log := log s @ [x]\<rparr>)"
      by (rule wp_mono [OF interleaved_slots_good [OF g o(3), of 0 "map Some out", simplified]])
        (use o(2) in blast)
  qed
  then show ?thesis
    by (simp add: interleaved_iterate_def wp_bnd_fun wp_gets wp_ret case_prod_unfold del: bnd_gets)
qed

end

end
