(* ===== verification/Server_Shutdown.thy ===== *)
theory Server_Shutdown
  imports Server_Run
begin

text \<open>
  Shutdown (\<open>server_finalize\<close>, \<open>spool_destroy\<close>): if the kernel does not refuse to forget a
  socket, it returns, whatever the number of connections and threads, and leaves no session.
\<close>

definition epoll_ctl_ok :: "(history \<Rightarrow> syscall \<Rightarrow> reply) \<Rightarrow> bool" where
  "epoll_ctl_ok e \<longleftrightarrow> (\<forall>h p op fd fl. 0 \<le> rep_ret (e h (SysEpollCtl p op fd fl)))"

text \<open>The descriptors closed in a history, in order.\<close>

definition closes :: "history \<Rightarrow> int list" where
  "closes h = concat (map (\<lambda>(c, r). case c of SysClose fd \<Rightarrow> [fd] | _ \<Rightarrow> []) h)"

lemma closes_simps [simp]:
  "closes [] = []"
  "closes (h @ h') = closes h @ closes h'"
  "closes ((SysClose fd, r) # h) = fd # closes h"
  "closes ((SysEpollCtl p op fd' fl, r) # h) = closes h"
  "closes ((SysGetaddrinfo name port, r) # h) = closes h"
  "closes ((SysFreeaddrinfo, r) # h) = closes h"
  by (simp_all add: closes_def)

definition first :: "'a list \<Rightarrow> 'a option" where
  "first xs = (case xs of [] \<Rightarrow> None | x # _ \<Rightarrow> Some x)"

lemma first_simps [simp]: "first [] = None" "first (x # xs) = Some x"
  by (simp_all add: first_def)

lemma next_in_hd: "next_in (x # es) x = first es"
  by (cases es) simp_all

lemma conns_elems: "conns_inv sinv s cs \<Longrightarrow> map elem (handles (session_hash s)) = map ce_elem cs"
proof -
  assume "conns_inv sinv s cs"
  then have "map snd (hash_entries (session_hash s)) = map ce_elem cs"
    by (simp add: conns_inv_def conns_rep_def comp_def)
  then show ?thesis by (simp add: hash_entries_def comp_def)
qed

lemma conns_elem_at:
  assumes "conns_inv sinv s cs" "c \<in> set cs"
  shows "hash_elems s (ce_elem c) = Some (ce_fd c, ce_session c)"
proof -
  have "distinct (map ce_elem cs)" "hash_elems s = map_of (map (\<lambda>c. (ce_elem c, (ce_fd c, ce_session c))) cs)"
    using assms(1) by (simp_all add: conns_inv_def conns_rep_def)
  then show ?thesis using assms(2) by (auto simp: comp_def intro!: map_of_is_SomeI)
qed

lemma hash_next_first:
  assumes "conns_inv sinv s cs"
  shows "twp (hash_next (first (map ce_elem cs))) (\<lambda>r s'. s' = s \<and> r = first (tl (map ce_elem cs))) s"
proof (cases cs)
  case Nil
  then show ?thesis by (simp add: hash_next_def twp_simps)
next
  case (Cons c cs')
  then have "hash_elems s (ce_elem c) = Some (ce_fd c, ce_session c)" using conns_elem_at [OF assms] by simp
  then show ?thesis using Cons conns_elems [OF assms]
    by (simp add: hash_next_def twp_bnd twp_deref twp_basic next_in_hd)
qed

section \<open>A worker with nothing to do\<close>

lemma worker_pass_idle:
  "handles (session_thread_map s) = [] \<Longrightarrow>
     spool_worker_pass vt t s = (Inr (), s\<lparr>ctx := (ctx s)[t := (ctx s ! t)\<lparr>should_wake := False\<rparr>]\<rparr>)"
  by (simp add: spool_worker_pass_def)

lemma workers_idle:
  "handles (session_thread_map s) = [] \<Longrightarrow>
     \<exists>c. for_each (spool_worker_pass vt) ts s = (Inr (), s\<lparr>ctx := c\<rparr>)"
proof (induction ts arbitrary: s)
  case Nil
  then show ?case by (auto intro: exI [of _ "ctx s"])
next
  case (Cons t ts)
  define s1 where "s1 = s\<lparr>ctx := (ctx s)[t := (ctx s ! t)\<lparr>should_wake := False\<rparr>]\<rparr>"
  have "handles (session_thread_map s1) = []" using Cons.prems by (simp add: s1_def)
  from Cons.IH [OF this] obtain c where "for_each (spool_worker_pass vt) ts s1 = (Inr (), s1\<lparr>ctx := c\<rparr>)" by blast
  then show ?case using worker_pass_idle [OF Cons.prems, of vt t]
    by (auto simp: bnd_step(1) s1_def)
qed

lemma set_running_run:
  "\<exists>c. (for_each (\<lambda>i. modify (\<lambda>s. s\<lparr>ctx := (ctx s)[i := x]\<rparr>)) is :: ('d server, unit) prog) s = (Inr (), s\<lparr>ctx := c\<rparr>)"
proof (induction "is" arbitrary: s)
  case Nil
  then show ?case by (auto intro: exI [of _ "ctx s"])
next
  case (Cons i "is")
  have e: "s\<lparr>ctx := c'\<rparr>\<lparr>ctx := c\<rparr> = s\<lparr>ctx := c\<rparr>" for s :: "'d server" and c c' by simp
  show ?case using Cons.IH [of "s\<lparr>ctx := (ctx s)[i := x]\<rparr>"] unfolding for_each.simps bnd_modify e .
qed

lemma spool_destroy_idle:
  assumes "handles (session_thread_map s) = []"
  shows "spool_destroy vt s = (Inr (), s\<lparr>ctx := []\<rparr>)"
proof (cases "n_threads s = SINGLE_THREADED")
  case True
  then show ?thesis by (simp add: spool_destroy_def)
next
  case False
  obtain c where c: "for_each (\<lambda>i. modify (\<lambda>s. s\<lparr>ctx := (ctx s)[i := \<lparr>running = False, should_wake = True\<rparr>]\<rparr>))
      [0..<n_threads s] s = (Inr (), s\<lparr>ctx := c\<rparr>)"
    using set_running_run by blast
  obtain c' where "for_each (spool_worker_pass vt) [0..<n_threads s] (s\<lparr>ctx := c\<rparr>) = (Inr (), s\<lparr>ctx := c'\<rparr>)"
    using workers_idle [of "s\<lparr>ctx := c\<rparr>" vt "[0..<n_threads s]"] assms by auto
  then show ?thesis using False c by (simp add: spool_destroy_def bnd_step(1))
qed

lemma pool_idle:
  assumes "server_inv mem_ok sinv s []"
  shows "handles (session_thread_map s) = []" "thread_elems s = Map.empty"
proof -
  obtain ts where ts: "pool_inv s ts {}" using assms by (auto simp: server_inv_def)
  then have "pool_sessions ts = {}" by (auto simp: pool_inv_def)
  then have "ts = []" by (simp add: pool_sessions_def)
  then show "thread_elems s = Map.empty" using ts by (simp add: pool_inv_def pool_rep_def)
  then show "handles (session_thread_map s) = []" using pool_elems [OF ts] by simp
qed

section \<open>Closing the connections\<close>

context session_server
begin

lemma disconnect_total:
  assumes s: "good cs s" and c: "c \<in> set cs" and e: "epoll_ctl_ok (env s)"
  shows "twp (handle_disconnect vt (ce_fd c)) (\<lambda>_ s'. good (filter (\<lambda>c'. ce_fd c' \<noteq> ce_fd c) cs) s' \<and>
    env s' = env s \<and> server_fd s' = server_fd s \<and> server_poller s' = server_poller s \<and>
    (\<exists>h. log s' = log s @ h \<and> closes h = [ce_fd c])) s"
proof -
  obtain ts where i: "world_ok mem_ok s" "conns_inv sinv s cs" "pool_inv s ts (ce_session ` set cs)"
    using s by (auto simp: server_inv_def)
  have "fits_int (ce_fd c)" using i(2) c by (auto simp: conns_inv_def conns_rep_def fits_int_def)
  from conns_find [OF i(2) this] obtain c1 where
    c1: "c1 \<in> set cs" "ce_fd c1 = ce_fd c" "HASH_FIND_INT (ce_fd c) (session_hash s) = Some (ce_elem c1)"
    using c by (auto split: option.splits)
  define cs' where "cs' = filter (\<lambda>c'. ce_fd c' \<noteq> ce_fd c) cs"
  define Q where "Q s' \<longleftrightarrow> good cs' s' \<and> env s' = env s \<and> server_fd s' = server_fd s \<and>
      server_poller s' = server_poller s \<and> (\<exists>h. log s' = log s @ h \<and> closes h = [ce_fd c])" for s' :: "'d server"
  have "twp (uninstall_session (ce_elem c1)) (\<lambda>_. twp (bnd (gets server_poller) (\<lambda>p.
       bnd (poller_remove_connection p (ce_fd c)) (\<lambda>_. server_close_socket (ce_fd c)))) (\<lambda>_. Q)) s"
  proof (rule twp_mono [OF uninstall_session_good [OF i c1(1), unfolded c1]], elim conjE)
    fix s1
    assume s1: "good (filter (\<lambda>c'. ce_fd c' \<noteq> ce_fd c) cs) s1" "log s1 = log s" "env s1 = env s"
      "server_fd s1 = server_fd s" "server_poller s1 = server_poller s"
    define x where "x = (SysEpollCtl (epoll_fd (server_poller s1)) EPOLL_CTL_DEL (ce_fd c) 0,
        env s1 (log s1) (SysEpollCtl (epoll_fd (server_poller s1)) EPOLL_CTL_DEL (ce_fd c) 0))"
    have q: "quiet [x]" by (simp add: x_def)
    have ok: "\<not> ret_of (snd x) < 0" using e s1(3) by (simp add: x_def epoll_ctl_ok_def ret_of_def not_less)
    define s2 where "s2 = s1\<lparr>log := log s1 @ [x]\<rparr>"
    define s3 where "s3 = s2\<lparr>log := log s2 @ [(SysClose (ce_fd c), env s2 (log s2) (SysClose (ce_fd c)))]\<rparr>"
    have "good cs' s2" using server_inv_log [OF s1(1) q] by (simp add: s2_def cs'_def)
    then have "good cs' s3" unfolding s3_def by (rule server_inv_close) (auto simp: cs'_def)
    then have "Q s3" using s1(2-5) unfolding Q_def by (auto simp: s3_def s2_def x_def)
    then show "twp (bnd (gets server_poller) (\<lambda>p. bnd (poller_remove_connection p (ce_fd c))
        (\<lambda>_. server_close_socket (ce_fd c)))) (\<lambda>_. Q) s1"
      using ok by (simp add: twp_bnd twp_basic twp_ret poller_remove_connection_def server_close_socket_def
          close_socket_def twp_sys s3_def s2_def x_def del: bnd_gets)
  qed
  then have "twp (handle_disconnect vt (ce_fd c)) (\<lambda>_. Q) s" using c1(3)
    by (simp add: handle_disconnect_def no_hook twp_bnd twp_basic twp_ret del: bnd_gets)
  then show ?thesis by (rule twp_mono) (simp add: Q_def cs'_def)
qed

lemma disconnect_all_total:
  assumes "good cs s" "epoll_ctl_ok (env s)"
  shows "twp (disconnect_all vt (length cs) (first (map ce_elem cs)) (first (tl (map ce_elem cs))))
    (\<lambda>r s'. r \<and> good [] s' \<and> server_fd s' = server_fd s \<and> server_poller s' = server_poller s \<and>
       (\<exists>h. log s' = log s @ h \<and> closes h = map ce_fd cs)) s"
  using assms
proof (induction cs arbitrary: s)
  case Nil
  then show ?case by (auto simp: twp_ret twp_basic intro: exI [of _ True])
next
  case (Cons c cs)
  have ci: "conns_inv sinv s (c # cs)" using Cons.prems(1) by (simp add: server_inv_def)
  then have el: "hash_elems s (ce_elem c) = Some (ce_fd c, ce_session c)" by (rule conns_elem_at) simp
  have "distinct (map ce_fd (c # cs))" using ci by (simp add: conns_inv_def conns_rep_def)
  then have rest: "filter (\<lambda>c'. ce_fd c' \<noteq> ce_fd c) (c # cs) = cs"
    by (auto simp: filter_id_conv image_iff)
  define Q where "Q r s' \<longleftrightarrow> r \<and> good [] s' \<and> server_fd s' = server_fd s \<and> server_poller s' = server_poller s \<and>
       (\<exists>h. log s' = log s @ h \<and> closes h = map ce_fd (c # cs))" for r and s' :: "'d server"
  have "twp (handle_disconnect vt (ce_fd c)) (\<lambda>_. twp (hash_next (first (map ce_elem cs)))
      (\<lambda>t. twp (disconnect_all vt (length cs) (first (map ce_elem cs)) t) Q)) s"
  proof (rule twp_mono [OF disconnect_total [OF Cons.prems(1) _ Cons.prems(2)]], simp, unfold rest, elim conjE exE)
    fix s1 h
    assume s1: "good cs s1" "env s1 = env s" "server_fd s1 = server_fd s" "server_poller s1 = server_poller s"
      "log s1 = log s @ h" "closes h = [ce_fd c]"
    have "twp (disconnect_all vt (length cs) (first (map ce_elem cs)) (first (tl (map ce_elem cs)))) Q s1"
      by (rule twp_mono [OF Cons.IH [OF s1(1)]]) (use Cons.prems(2) s1 in \<open>auto simp: Q_def\<close>)
    moreover have "conns_inv sinv s1 cs" using s1(1) by (simp add: server_inv_def)
    ultimately show "twp (hash_next (first (map ce_elem cs)))
        (\<lambda>t. twp (disconnect_all vt (length cs) (first (map ce_elem cs)) t) Q) s1"
      by (intro twp_mono [OF hash_next_first]) auto
  qed
  then show ?case using el by (simp add: twp_bnd_fun twp_deref Q_def [abs_def])
qed

lemma server_finalize_total:
  assumes s: "good cs s" and e: "epoll_ctl_ok (env s)"
  shows "twp (server_finalize vt) (\<lambda>r s'. r \<and> sessions s' = Map.empty \<and> hash_elems s' = Map.empty \<and>
    thread_elems s' = Map.empty \<and> (\<exists>h. log s' = log s @ h \<and>
      closes h = map ce_fd cs @ [server_fd s, epoll_fd (server_poller s)])) s"
proof -
  have ci: "conns_inv sinv s cs" using s by (simp add: server_inv_def)
  define rest :: "bool \<Rightarrow> ('d server, bool) prog" where "rest finished =
     (if \<not> finished then ret False
     else
       bnd (gets server_fd) (\<lambda>fd.
       bnd (server_close_socket fd) (\<lambda>_.
       bnd (gets server_poller) (\<lambda>p.
       bnd (poller_destroy p) (\<lambda>_.
       bnd (spool_destroy vt) (\<lambda>_.
       ret True))))))" for finished
  define Q where "Q r s' \<longleftrightarrow> r \<and> sessions s' = Map.empty \<and> hash_elems s' = Map.empty \<and>
    thread_elems s' = Map.empty \<and> (\<exists>h. log s' = log s @ h \<and>
      closes h = map ce_fd cs @ [server_fd s, epoll_fd (server_poller s)])" for r and s' :: "'d server"
  have "twp (disconnect_all vt (length cs) (first (map ce_elem cs)) (first (tl (map ce_elem cs))))
      (\<lambda>r. twp (rest r) Q) s"
  proof (rule twp_mono [OF disconnect_all_total [OF s e]], elim conjE exE)
    fix r s1 h
    assume r: r and s1: "good [] s1" "server_fd s1 = server_fd s" "server_poller s1 = server_poller s"
      "log s1 = log s @ h" "closes h = map ce_fd cs"
    have "sessions s1 = Map.empty" "hash_elems s1 = Map.empty"
      using s1(1) by (simp_all add: server_inv_def conns_inv_def conns_rep_def)
    then show "twp (rest r) Q s1" using r s1 pool_idle [OF s1(1)]
      by (simp add: rest_def twp_bnd twp_basic twp_ret server_close_socket_def close_socket_def twp_sys
          poller_destroy_def twp_iff [of "spool_destroy vt"] spool_destroy_idle Q_def del: bnd_gets)
  qed
  then have "twp (hash_next (first (map ce_elem cs))) (\<lambda>tmp.
      twp (disconnect_all vt (length cs) (first (map ce_elem cs)) tmp) (\<lambda>r. twp (rest r) Q)) s"
    by (intro twp_mono [OF hash_next_first [OF ci]]) auto
  then have "twp (server_finalize vt) Q s"
    using conns_elems [OF ci] arg_cong [OF conns_elems [OF ci], of length]
    by (simp add: server_finalize_def twp_bnd_fun twp_bnd twp_basic Let_def rest_def flip: first_def del: bnd_gets)
  then show ?thesis by (rule twp_mono) (simp add: Q_def)
qed

end

end
