(* ===== verification/Server_Laws.thy ===== *)
theory Server_Laws
  imports Server_Shutdown
begin

text \<open>
  What the server guarantees, for the parrot over TCP: creation establishes the
  representation, every round of the loop refines the abstract list of connections, shutdown
  closes everything, and the loop ends once a signal has arrived.
\<close>

interpretation parrot_tcp: session_server small_memory parrot_session_create parrot_inv
  "tcp_vtable parrot_session_create"
  by unfold_locales (simp_all add: tcp_vtable_def small_memory_bounded)

abbreviation parrot_server :: "unit server_vtable" where
  "parrot_server \<equiv> tcp_vtable parrot_session_create"

abbreviation parrot_good :: "connection_entry list \<Rightarrow> unit server \<Rightarrow> bool" where
  "parrot_good cs s \<equiv> server_inv small_memory parrot_inv s cs"

section \<open>Creation\<close>

text \<open>The server's memory before it is created: there are no objects.\<close>

definition no_objects :: "'d server \<Rightarrow> bool" where
  "no_objects s \<longleftrightarrow> sessions s = Map.empty \<and> hash_elems s = Map.empty \<and> thread_elems s = Map.empty \<and>
     next_addr s < 2 ^ 64"

lemma io_close_socket [io_intros]: "io_only (close_socket fd)" "io_only (server_close_socket fd)"
  by (simp_all add: server_close_socket_def close_socket_def io_intros)

lemma io_bind_first: "io_only (bind_first as l :: ('z io_scheme, int \<times> bool option) prog)"
  by (induction as arbitrary: l) (auto simp: Let_def intro!: io_intros)

lemma io_get_listener: "io_only (tcp_server_get_listener port w)"
  unfolding tcp_server_get_listener_def listener_failed_def
  by (intro io_intros io_bind_first)

lemma io_poller_create: "io_only (poller_create fd)"
  unfolding poller_create_def Let_def by (intro io_intros alloc_defined)

lemma spool_threads_wp:
  "wp (for_each (\<lambda>i.
      bnd (modify (\<lambda>s. s\<lparr>ctx := ctx s @ [\<lparr>running = True, should_wake = False\<rparr>]\<rparr>)) (\<lambda>_.
      guard_do (\<not> thread_ok (int i)) FATAL_NON_RECOVERABLE)) is)
    (\<lambda>_ s'. s' = s\<lparr>ctx := ctx s @ replicate (length is) \<lparr>running = True, should_wake = False\<rparr>\<rparr>) s"
proof (induction "is" arbitrary: s)
  case Nil
  then show ?case by (simp add: wp_Pair)
next
  case (Cons i "is")
  define s1 where "s1 = s\<lparr>ctx := ctx s @ [\<lparr>running = True, should_wake = False\<rparr>]\<rparr>"
  have "s1\<lparr>ctx := ctx s1 @ replicate (length is) \<lparr>running = True, should_wake = False\<rparr>\<rparr> =
      s\<lparr>ctx := ctx s @ replicate (length (i # is)) \<lparr>running = True, should_wake = False\<rparr>\<rparr>"
    by (simp add: s1_def)
  then show ?case using Cons.IH [of s1]
    by (simp add: wp_funs wp_FATAL s1_def del: bnd_modify modify_run)
qed

lemma spool_create_wp:
  "wp (spool_create thread_ok n) (\<lambda>_ s'. \<exists>c. length c = n \<and>
     s' = s\<lparr>n_threads := n, session_thread_map := None, ctx := c\<rparr>) s"
proof -
  define s0 where "s0 = s\<lparr>n_threads := n, session_thread_map := None, ctx := []\<rparr>"
  have "wp (for_each (\<lambda>i.
      bnd (modify (\<lambda>s. s\<lparr>ctx := ctx s @ [\<lparr>running = True, should_wake = False\<rparr>]\<rparr>)) (\<lambda>_.
      guard_do (\<not> thread_ok (int i)) FATAL_NON_RECOVERABLE)) [0..<n])
    (\<lambda>_ s'. \<exists>c. length c = n \<and> s' = s\<lparr>n_threads := n, session_thread_map := None, ctx := c\<rparr>) s0"
    by (rule wp_mono [OF spool_threads_wp])
      (auto simp: s0_def intro!: exI [of _ "replicate n \<lparr>running = True, should_wake = False\<rparr>"])
  then show ?thesis using alloc_defined(2)
    by (auto simp: spool_create_def wp_bnd wp_with_libc wp_modify wp_guard_do SINGLE_THREADED_def s0_def
        split: sum.splits simp del: bnd_modify intro!: exI [of _ "[]"])
qed

lemma fresh_server_inv:
  assumes "no_objects s" "world_ok mem_ok s" "session_hash s = None" "session_thread_map s = None"
    "length (ctx s) = n_threads s"
  shows "server_inv mem_ok sinv s []"
  using assms by (auto simp: server_inv_def conns_inv_def conns_rep_def pool_inv_def pool_rep_def
      pool_sessions_def no_objects_def hash_ok_None hash_entries_def handles_def)

lemma create_wp:
  assumes "no_objects s" "world_ok mem_ok s"
  shows "wp (tcp_server_create thread_ok port w n) (\<lambda>ok s'.
    (ok \<longrightarrow> server_inv mem_ok sinv s' [] \<and> n_threads s' = n) \<and> env s' = env s) s"
proof -
  have init: "wp (server_initialize thread_ok fd n)
      (\<lambda>_ s'. server_inv mem_ok sinv s' [] \<and> n_threads s' = n \<and> env s' = env s) s1"
    if s1: "no_objects s1" "world_ok mem_ok s1" "env s1 = env s" for fd and s1 :: "'a server"
  proof -
    have "wp (spool_create thread_ok n) (\<lambda>_. wp (bnd (modify (\<lambda>s. s\<lparr>server_fd := fd\<rparr>)) (\<lambda>_.
       bnd (poller_create fd) (\<lambda>p.
       modify (\<lambda>s. s\<lparr>server_poller := p, session_hash := None\<rparr>))))
       (\<lambda>_ s'. server_inv mem_ok sinv s' [] \<and> n_threads s' = n \<and> env s' = env s)) s1"
    proof (rule wp_mono [OF spool_create_wp], elim exE conjE)
      fix s2 c
      assume c: "length c = n" "s2 = s1\<lparr>n_threads := n, session_thread_map := None, ctx := c\<rparr>"
      have "wp (poller_create fd) (\<lambda>p s. server_inv mem_ok sinv (s\<lparr>server_poller := p, session_hash := None\<rparr>) [] \<and>
          n_threads s = n \<and> env s = env s1) (s2\<lparr>server_fd := fd\<rparr>)"
        by (rule wp_io [OF io_poller_create])
          (use s1 c in \<open>auto simp: no_objects_def world_ok_def intro!: fresh_server_inv\<close>)
      then show "wp (bnd (modify (\<lambda>s. s\<lparr>server_fd := fd\<rparr>)) (\<lambda>_. bnd (poller_create fd) (\<lambda>p.
         modify (\<lambda>s. s\<lparr>server_poller := p, session_hash := None\<rparr>))))
         (\<lambda>_ s'. server_inv mem_ok sinv s' [] \<and> n_threads s' = n \<and> env s' = env s) s2"
        using s1(3) by (simp add: wp_funs del: bnd_modify modify_run)
    qed
    then show ?thesis by (simp add: server_initialize_def wp_bnd del: bnd_modify)
  qed
  have "wp (tcp_server_get_listener port w) (\<lambda>fd. wp (if fd = INVALID_SOCKET then ret (- 1 :: int)
      else bnd (server_initialize thread_ok fd n) (\<lambda>_. ret 0)) (\<lambda>r s'.
        (\<not> r < 0 \<longrightarrow> server_inv mem_ok sinv s' [] \<and> n_threads s' = n) \<and> env s' = env s)) s"
  proof (rule wp_io [OF io_get_listener])
    fix fd h
    have "no_objects (s\<lparr>log := log s @ h\<rparr>)" "world_ok mem_ok (s\<lparr>log := log s @ h\<rparr>)"
      using assms by (simp_all add: no_objects_def)
    from init [OF this] show "wp (if fd = INVALID_SOCKET then ret (- 1 :: int)
      else bnd (server_initialize thread_ok fd n) (\<lambda>_. ret 0)) (\<lambda>r s'.
        (\<not> r < 0 \<longrightarrow> server_inv mem_ok sinv s' [] \<and> n_threads s' = n) \<and> env s' = env s) (s\<lparr>log := log s @ h\<rparr>)"
      by (auto simp: wp_ret wp_bnd elim: wp_mono)
  qed
  then show ?thesis using alloc_defined(2)
    by (auto simp: tcp_server_create_def tcp_server_initialize_def wp_funs wp_with_libc
        split: sum.splits)
qed

section \<open>Every operation extends the history\<close>

text \<open>
  The environment does not change, and the history only grows; \<open>passed E k\<close> says that at least
  \<open>k\<close> calls have been made in the environment \<open>E\<close>.
\<close>

definition passed :: "(history \<Rightarrow> syscall \<Rightarrow> reply) \<Rightarrow> nat \<Rightarrow> 'd server \<Rightarrow> bool" where
  "passed E k s \<longleftrightarrow> env s = E \<and> k \<le> length (log s)"

lemma wp_preserves: "wp m Q s \<Longrightarrow> preserves P m \<Longrightarrow> P s \<Longrightarrow> wp m (\<lambda>x t. Q x t \<and> P t) s"
  by (cases "m s") (auto simp: wp_def dest: preserves_result split: sum.splits)

lemma passed_sys [preserves_intros]: "preserves (passed E k) (sys c)"
  by (rule preserves_sys) (auto simp: passed_def)

lemma passed_basic [preserves_intros]:
  "preserves (passed E k) (set_session a x)"
  "preserves (passed E k) fresh_addr"
  "preserves (passed E k) (close_socket fd)"
  by (auto simp: set_session_def fresh_addr_def close_socket_def passed_def preserves_def bnd_sys)

lemma passed_session [preserves_intros]:
  "preserves (passed E k) (tcp_server_recv fd)"
  "preserves (passed E k) (tcp_server_send fd p n)"
  "preserves (passed E k) (server_is_session_active a)"
  unfolding tcp_server_recv_def tcp_server_send_def Let_def server_is_session_active_def
  by (intro preserves_intros)+

lemma passed_process [preserves_intros]:
  "preserves (passed E k) (deliver_received a data)"
  "preserves (passed E k) (send_pending (tcp_vtable create) a)"
  unfolding deliver_received_def send_pending_def tcp_vtable_def server_vtable.simps
  by (intro preserves_intros)+

lemma passed_process_session [preserves_intros]:
  "preserves (passed E k) (server_process_session (tcp_vtable create) a)"
  unfolding server_process_session_def by (intro preserves_intros) (simp add: tcp_vtable_def passed_session)

lemma passed_collect [preserves_intros]: "preserves (passed E k) (collect_ready t es arr acc)"
  by (induction es arbitrary: arr acc) (simp_all only: collect_ready.simps, (intro preserves_intros | simp add: passed_def)+)

lemma passed_count [preserves_intros]: "preserves (passed E k) (count_per_thread es counts)"
  by (induction es arbitrary: counts) (auto intro!: preserves_intros)

lemma passed_spool [preserves_intros]:
  "preserves (passed E k) (spool_worker_pass (tcp_vtable create) t)"
  "preserves (passed E k) (spool_add_session a)"
  "preserves (passed E k) (spool_remove_session a)"
  "preserves (passed E k) (spool_flush_session (tcp_vtable create) a)"
  unfolding spool_worker_pass_def spool_add_session_def spool_remove_session_def spool_flush_session_def
    cpool_least_populated_thread_def
  by (intro preserves_intros | simp add: passed_def)+

lemma passed_poller [preserves_intros]:
  "preserves (passed E k) (poller_add_connection p fd)"
  "preserves (passed E k) (poller_remove_connection p fd)"
  unfolding poller_add_connection_def poller_remove_connection_def by (intro preserves_intros)+

lemma passed_accept [preserves_intros]: "preserves (passed E k) tcp_accept_new_connection"
  unfolding tcp_accept_new_connection_def Let_def by (intro preserves_intros)

lemma passed_install [preserves_intros]:
  "preserves (passed E k) (install_session vt fd)"
  "preserves (passed E k) (uninstall_session e)"
  unfolding install_session_def uninstall_session_def
  by (intro preserves_intros | simp add: passed_def)+

lemma passed_handlers [preserves_intros]:
  "preserves (passed E k) (handle_new_connection (tcp_vtable create))"
  "preserves (passed E k) (handle_disconnect (tcp_vtable create) fd)"
  "preserves (passed E k) (handle_new_data (tcp_vtable create) fd)"
proof -
  show "preserves (passed E k) (handle_new_connection (tcp_vtable create))"
    unfolding handle_new_connection_def by (intro preserves_intros) (simp add: tcp_vtable_def passed_accept)
  have hook: "vt_client_disconnected (tcp_vtable create) = None" by (simp add: tcp_vtable_def)
  show "preserves (passed E k) (handle_disconnect (tcp_vtable create) fd)"
    unfolding handle_disconnect_def server_close_socket_def hook option.case by (intro preserves_intros)
  show "preserves (passed E k) (handle_new_data (tcp_vtable create) fd)"
    unfolding handle_new_data_def by (intro preserves_intros)
qed

lemma passed_slot [preserves_intros]:
  "preserves (passed E k) (handle_slot (tcp_vtable create) slots i)"
  unfolding handle_slot_def handle_event_def
  by (intro preserves_intros) (auto split: poller_event_type.split intro: preserves_intros)

lemma passed_interleaved_slot [preserves_intros]:
  "preserves (passed E k) (interleaved_slot (tcp_vtable create) ws slots i)"
  unfolding interleaved_slot_def by (intro preserves_intros)

text \<open>A wait is a call of its own, so a round that returns has made at least one.\<close>

lemma passed_wait:
  assumes "poller_wait p n ms s = (Inr x, s')"
  shows "log s' = log s @ [(SysEpollWait (epoll_fd p) (int_of_size n) (int_of_size ms),
     env s (log s) (SysEpollWait (epoll_fd p) (int_of_size n) (int_of_size ms)))] \<and> env s' = env s"
  using assms by (auto simp: poller_wait_def bnd_def with_libc_run sys_run Let_def FATAL_run
      split: sum.splits if_splits)

lemma passed_iterate:
  assumes "interleaved_iterate (tcp_vtable create) ws ms s = (Inr x, s')" "passed E k s"
  shows "passed E (Suc k) s'"
proof -
  define rest where "rest = (\<lambda>(n :: size_t, slots).
      bnd (for_each (interleaved_slot (tcp_vtable create) ws slots) [0..<unat n]) (\<lambda>_. ret (0 :: int)))"
  have "bnd (poller_wait (server_poller s) MAX_EVENTS ms) rest s = (Inr x, s')"
    using assms(1) unfolding interleaved_iterate_def bnd_gets rest_def .
  then obtain p s1 where w: "poller_wait (server_poller s) MAX_EVENTS ms s = (Inr p, s1)" "rest p s1 = (Inr x, s')"
    unfolding bnd_eq_Inr by blast
  have s1: "passed E (Suc k) s1" using passed_wait [OF w(1)] assms(2) by (simp add: passed_def)
  have "preserves (passed E (Suc k)) (rest p)"
    unfolding rest_def by (intro preserves_intros)
  from preserves_result [of "passed E (Suc k)" "rest p" s1, OF this s1 w(2)] show ?thesis .
qed

lemma server_run_returns:
  assumes "\<forall>h. N \<le> length h \<longrightarrow> stops h" "0 < fuel" "N < length (log s) + fuel"
  shows "fst (server_run stops (tcp_vtable create) fuel s) \<noteq> Inr False"
  using assms(2,3)
proof (induction fuel arbitrary: s)
  case (Suc fuel)
  define t where "t \<longleftrightarrow> termination_requested s \<or> stops (log s)"
  define s0 where "s0 = s\<lparr>termination_requested := t\<rparr>"
  have run: "server_run stops (tcp_vtable create) (Suc fuel) s =
      (if t then ret True else bnd (server_iterate (tcp_vtable create) 50) (\<lambda>_.
        server_run stops (tcp_vtable create) fuel)) s0"
    by (simp add: s0_def t_def del: ret_run)
  show ?case
  proof (cases t)
    case True
    then show ?thesis using run by simp
  next
    case False
    then have "\<not> N \<le> length (log s)" using assms(1) by (auto simp: t_def)
    then have fuel: "0 < fuel" using Suc.prems(2) by simp
    show ?thesis
    proof (cases "server_iterate (tcp_vtable create) 50 s0")
      case (Pair r s1)
      show ?thesis
      proof (cases r)
        case (Inl e)
        then show ?thesis using run False Pair by (simp add: bnd_step(2))
      next
        case (Inr x)
        have "passed (env s) (length (log s)) s0" by (simp add: passed_def s0_def)
        then have "passed (env s) (Suc (length (log s))) s1"
          using passed_iterate [of create "\<lambda>_. []" 50 s0 x s1] Pair Inr by (simp add: interleaved_none)
        then have "N < length (log s1) + fuel" using Suc.prems(2) by (simp add: passed_def)
        then show ?thesis using Suc.IH [OF fuel] run False Pair Inr by (simp add: bnd_step(1))
      qed
    qed
  qed
qed simp

end
