(* ===== verification/Server_Props.thy ===== *)
theory Server_Props
  imports Server_Laws
begin

text \<open>The properties of the server, for the parrot over TCP, with their concrete instances.\<close>

section \<open>A concrete server\<close>

text \<open>
  A C library with less than 2 GiB, a kernel that hands out socket 9 when it is free, and a
  server with two worker threads, before and after its first connection.
\<close>

definition small_libc :: libc where
  "small_libc = \<lparr>malloc_ok = (\<lambda>n. n < 2 ^ 30), realloc0_frees = True, indet = (\<lambda>_. 0)\<rparr>"

definition one_socket_kernel :: "history \<Rightarrow> syscall \<Rightarrow> reply" where
  "one_socket_kernel h c = \<lparr>rep_ret = (case c of SysAccept l \<Rightarrow> if 9 \<in> open_fds h then - 1 else 9 | _ \<Rightarrow> 0),
     rep_errno = 0, rep_bytes = [], rep_status = 0, rep_events = [], rep_addrs = []\<rparr>"

definition idle_server :: "unit server" where
  "idle_server = \<lparr>env = one_socket_kernel, log = [(SysAccept 3, one_socket_kernel [] (SysAccept 3))],
     mem = (\<lambda>_. small_libc), logs_verbose = False, termination_requested = False,
     server_fd = 3, server_poller = \<lparr>epoll_fd = 4, fs_socket = 3\<rparr>, session_hash = None,
     hash_elems = Map.empty, sessions = Map.empty, n_threads = 0, session_thread_map = None,
     thread_elems = Map.empty, ctx = [], ssl_ctx = 0, ssl_fd_map = None, ssl_elems = Map.empty,
     next_addr = 0\<rparr>"

definition first_session :: "unit session" where
  "first_session = \<lparr>session_vt = parrot_vtable, session_fd = 9, connection = Some
     \<lparr>cb_fd = 0, recv_buf = None, recv_buf_sz = 0, send_buf = None, send_buf_sz = 0\<rparr>, session_data = ()\<rparr>"

definition busy_server :: "unit server" where
  "busy_server = idle_server\<lparr>next_addr := 2, sessions := [1 \<mapsto> first_session], hash_elems := [0 \<mapsto> (9, 1)],
     session_hash := (case HASH_ADD_INT glibc 9 0 None of Inl e \<Rightarrow> None | Inr h \<Rightarrow> h)\<rparr>"

abbreviation first_connection :: connection_entry where
  "first_connection \<equiv> \<lparr>ce_fd = 9, ce_elem = 0, ce_session = 1\<rparr>"

lemma one_socket_kernel_ok: "kernel_ok one_socket_kernel" "epoll_ctl_ok one_socket_kernel"
  by (auto simp: kernel_ok_def epoll_ctl_ok_def one_socket_kernel_def)

lemma idle_server_simps [simp]:
  "env idle_server = one_socket_kernel" "mem idle_server h = small_libc" "session_hash idle_server = None"
  "sessions idle_server = Map.empty" "hash_elems idle_server = Map.empty" "thread_elems idle_server = Map.empty"
  "session_thread_map idle_server = None" "n_threads idle_server = 0" "ctx idle_server = []"
  "next_addr idle_server = 0" "server_fd idle_server = 3"
  "server_poller idle_server = \<lparr>epoll_fd = 4, fs_socket = 3\<rparr>" "log idle_server = [(SysAccept 3, one_socket_kernel [] (SysAccept 3))]"
  by (simp_all add: idle_server_def)

lemma idle_server_world: "world_ok small_memory idle_server"
  using one_socket_kernel_ok by (auto simp: world_ok_def small_memory_def small_libc_def)

lemma idle_server_fresh: "no_objects idle_server"
  by (simp add: no_objects_def)

lemma idle_server_good: "parrot_good [] idle_server"
  by (rule fresh_server_inv) (simp_all add: idle_server_fresh idle_server_world)

lemma busy_server_good: "parrot_good [first_connection] busy_server"
proof -
  obtain h where h: "HASH_ADD_INT glibc 9 0 (None :: nat hash_head) = Inr h"
    using HASH_ADD_total [of glibc None "int_key 9" 0]
    by (auto simp: HASH_ADD_INT_def hash_ok_None hash_log2_def HASH_INITIAL_NUM_BUCKETS_LOG2_def)
  have "9 \<in> open_fds (log idle_server)"
    by (simp add: open_fds_def fd_effect_def one_socket_kernel_def)
  moreover have "parrot_inv first_session" "session_fd first_session = 9"
    by (auto simp: echo_inv_def first_session_def commbuf_ok_def)
  moreover have "conns_inv parrot_inv idle_server []" using idle_server_good by (simp add: server_inv_def)
  ultimately have "conns_inv parrot_inv busy_server [first_connection]"
    using conns_inv_add [of parrot_inv idle_server "[]" 9 glibc h first_session] h
    by (simp add: busy_server_def del: add_2_eq_Suc add_2_eq_Suc')
  moreover have "pool_inv busy_server [] {1}"
    by (simp add: pool_inv_def pool_rep_def pool_sessions_def busy_server_def SINGLE_THREADED_def
        hash_ok_None hash_entries_def handles_def)
  moreover have "world_ok small_memory busy_server" using idle_server_world by (simp add: busy_server_def)
  ultimately show ?thesis by (auto simp: server_inv_def)
qed

lemma busy_server_simps [simp]:
  "env busy_server = one_socket_kernel" "log busy_server = log idle_server" "server_fd busy_server = 3"
  "server_poller busy_server = \<lparr>epoll_fd = 4, fs_socket = 3\<rparr>"
  by (simp_all add: busy_server_def)

section \<open>Properties\<close>







text \<open>
  C17. Shutdown returns (if the kernel does not refuse to forget a socket), whatever the number of
  connections: it closes every connection in the order of the table, then the listener, then
  the poller, each once, and leaves no session, hash entry or pool entry.
\<close>

theorem server_finalize_closes_everything:
  assumes "server_inv small_memory parrot_inv s cs" "epoll_ctl_ok (env s)"
  shows "\<exists>s' h. server_finalize (tcp_vtable parrot_session_create) s = (Inr True, s') \<and>
    log s' = log s @ h \<and> closes h = map ce_fd cs @ [server_fd s, epoll_fd (server_poller s)] \<and>
    sessions s' = Map.empty \<and> hash_elems s' = Map.empty \<and> thread_elems s' = Map.empty"
  using parrot_tcp.server_finalize_total [OF assms] by (auto simp: twp_iff)

theorem server_finalize_closes_everything_witness:
  "\<exists>s' h. server_finalize parrot_server busy_server = (Inr True, s') \<and>
     log s' = log busy_server @ h \<and> closes h = [9, 3, 4] \<and> sessions s' = Map.empty"
  using server_finalize_closes_everything [OF busy_server_good] one_socket_kernel_ok by auto

text \<open>
  A disconnection takes exactly the entry of its socket out of the tables and closes that
  socket as its last call; for a socket that is not in the table nothing happens.
\<close>

theorem disconnect_removes_one_connection:
  assumes "server_inv small_memory parrot_inv s cs" "fits_int fd"
    and "handle_disconnect (tcp_vtable parrot_session_create) fd s = (Inr u, s')"
  shows "server_inv small_memory parrot_inv s' (filter (\<lambda>c. ce_fd c \<noteq> fd) cs) \<and>
    (if fd \<in> ce_fd ` set cs then \<exists>h r. log s' = log s @ h @ [(SysClose fd, r)] \<and> quiet h else s' = s)"
  using wp_result [OF parrot_tcp.disconnect_good [OF assms(1,2)] assms(3)] by (auto split: if_splits)

theorem disconnect_removes_one_connection_witness:
  "\<exists>s'. handle_disconnect parrot_server 9 busy_server = (Inr (), s') \<and> parrot_good [] s'"
proof -
  have "twp (handle_disconnect parrot_server (ce_fd first_connection)) (\<lambda>_ _. True) busy_server"
    by (rule twp_mono [OF parrot_tcp.disconnect_total [OF busy_server_good]])
      (simp_all add: one_socket_kernel_ok)
  then obtain s' where "handle_disconnect parrot_server 9 busy_server = (Inr (), s')" by (auto simp: twp_iff)
  then show ?thesis using disconnect_removes_one_connection [OF busy_server_good, of 9 "()" s']
    by (auto simp: fits_int_def)
qed

text \<open>
  A new connection is either refused, with result \<open>-1\<close> and the list of connections as it
  was, or appended to the list with a socket that was not open before.
\<close>

theorem new_connection_appends:
  assumes "server_inv small_memory parrot_inv s cs"
    and "handle_new_connection (tcp_vtable parrot_session_create) s = (Inr r, s')"
  shows "r = - 1 \<and> server_inv small_memory parrot_inv s' cs \<or>
    r = 0 \<and> (\<exists>c. server_inv small_memory parrot_inv s' (cs @ [c]) \<and> ce_fd c \<notin> open_fds (log s))"
  using wp_result [OF parrot_tcp.new_connection_good [OF assms(1)] assms(2)] .

theorem new_connection_appends_witness:
  "\<exists>s' r. handle_new_connection parrot_server busy_server = (Inr r, s') \<and> parrot_good [first_connection] s'"
proof -
  have acc: "tcp_accept_new_connection busy_server = (Inr (- 1), busy_server\<lparr>log := log busy_server @
      [(SysAccept 3, one_socket_kernel (log busy_server) (SysAccept 3))]\<rparr>)"
    by (simp add: tcp_accept_new_connection_def bnd_sys Let_def ret_of_def one_socket_kernel_def
        open_fds_def fd_effect_def INVALID_SOCKET_def)
  define s1 where "s1 = busy_server\<lparr>log := log busy_server @
      [(SysAccept 3, one_socket_kernel (log busy_server) (SysAccept 3))]\<rparr>"
  have run: "handle_new_connection parrot_server busy_server =
      (Inr (- 1), s1\<lparr>log := log s1 @ [(SysClose (- 1), env s1 (log s1) (SysClose (- 1)))]\<rparr>)"
    using acc by (simp add: handle_new_connection_def tcp_vtable_def bnd_step(1) INVALID_SOCKET_def
        close_socket_def bnd_sys s1_def)
  have "(- 1 :: int) \<noteq> 0" by simp
  then show ?thesis using new_connection_appends [OF busy_server_good run] run by blast
qed

text \<open>
  Once a signal has arrived the main loop ends: if the termination flag is set at the latest
  after \<open>N\<close> system calls, the loop is over after at most \<open>N\<close> further rounds, whatever the
  environment answers and whatever service runs.
\<close>

theorem server_run_ends_after_signal:
  assumes "\<forall>h. N \<le> length h \<longrightarrow> stops h" "0 < fuel" "N < length (log s) + fuel"
  shows "fst (server_run stops (tcp_vtable create) fuel s) \<noteq> Inr False"
  by (rule server_run_returns [OF assms])

theorem server_run_ends_after_signal_witness:
  "fst (server_run (\<lambda>h. 3 \<le> length h) parrot_server 3 busy_server) \<noteq> Inr False"
  by (rule server_run_ends_after_signal [of 3]) simp_all

end
