(* ===== verification/Server_Sessions.thy ===== *)
theory Server_Sessions
  imports Server_Props
begin

text \<open>
  What one processing of a session does, call by call, how the pool spreads the sessions over
  its threads, and the error paths of the listening socket.
\<close>

section \<open>The least populated thread\<close>

definition populated :: "(nat \<times> session_thread) list \<Rightarrow> nat \<Rightarrow> nat" where
  "populated ts t = length (filter (\<lambda>(e, st). thread_n st = t) ts)"

lemma least_index_min:
  "least_index cs i m t = t \<and> (\<forall>c \<in> set cs. m \<le> c) \<or>
   (\<exists>j < length cs. least_index cs i m t = i + j \<and> cs ! j < m \<and> (\<forall>c \<in> set cs. cs ! j \<le> c))"
proof (induction cs arbitrary: i m t)
  case (Cons c cs)
  show ?case
  proof (cases "c < m")
    case True
    from Cons.IH [of "i + 1" c i] show ?thesis
    proof (elim disjE conjE exE)
      assume "least_index cs (i + 1) c i = i" "\<forall>c' \<in> set cs. c \<le> c'"
      then show ?thesis using True by (intro disjI2 exI [of _ 0]) simp
    next
      fix j
      assume "j < length cs" "least_index cs (i + 1) c i = i + 1 + j" "cs ! j < c" "\<forall>c' \<in> set cs. cs ! j \<le> c'"
      then show ?thesis using True by (intro disjI2 exI [of _ "Suc j"]) auto
    qed
  next
    case False
    from Cons.IH [of "i + 1" m t] show ?thesis
    proof (elim disjE conjE exE)
      fix j
      assume "j < length cs" "least_index cs (i + 1) m t = i + 1 + j" "cs ! j < m" "\<forall>c' \<in> set cs. cs ! j \<le> c'"
      then show ?thesis using False by (intro disjI2 exI [of _ "Suc j"]) auto
    qed (use False in auto)
  qed
qed simp

lemma count_per_thread_run:
  assumes "\<forall>(e, st) \<in> set ts. thread_elems s e = Some st \<and> thread_n st < length counts"
  shows "count_per_thread (map fst ts) counts s =
    (Inr (map (\<lambda>t. counts ! t + populated ts t) [0..<length counts]), s)"
  using assms
proof (induction ts arbitrary: counts)
  case Nil
  then show ?case by (simp add: populated_def map_nth)
next
  case (Cons x ts)
  obtain e st where x: "x = (e, st)" by (cases x)
  have st: "thread_elems s e = Some st" "thread_n st < length counts" using Cons.prems x by auto
  define cs where "cs = counts[thread_n st := counts ! thread_n st + 1]"
  have "\<forall>(e, st) \<in> set ts. thread_elems s e = Some st \<and> thread_n st < length cs"
    using Cons.prems by (simp add: cs_def)
  from Cons.IH [OF this] have "count_per_thread (map fst ts) cs s =
      (Inr (map (\<lambda>t. cs ! t + populated ts t) [0..<length cs]), s)" .
  moreover have "cs ! t + populated ts t = counts ! t + populated (x # ts) t" if "t < length counts" for t
    using that by (simp add: cs_def populated_def x nth_list_update)
  ultimately show ?case using st x by (simp add: bnd_deref cs_def)
qed

lemma pool_handles:
  assumes "pool_inv s ts A"
  shows "map elem (handles (session_thread_map s)) = map fst ts"
proof -
  have "map snd (hash_entries (session_thread_map s)) = map fst ts"
    using assms by (auto simp: pool_inv_def pool_rep_def)
  then show ?thesis by (simp add: hash_entries_def comp_def)
qed

text \<open>
  A new session goes to a thread that has no more sessions than any other, the first such
  thread, and the choice changes nothing.
\<close>

theorem spool_chooses_least_populated_thread:
  assumes p: "pool_inv s ts A" and n: "n_threads s \<noteq> 0" "n_threads s * 8 < 2 ^ 64"
    and m: "malloc_ok (mem s (log s)) (n_threads s * 8)"
  shows "\<exists>t < n_threads s. cpool_least_populated_thread s = (Inr t, s) \<and>
    (\<forall>t' < n_threads s. populated ts t \<le> populated ts t')"
proof -
  define cs where "cs = map (populated ts) [0..<n_threads s]"
  have r: "thread_elems s = map_of ts" "distinct (map fst ts)"
      "\<forall>(e, st) \<in> set ts. thread_n st < n_threads s \<and> e < next_addr s" "next_addr s < 2 ^ 64"
    using p by (auto simp: pool_inv_def pool_rep_def)
  have "\<forall>(e, st) \<in> set ts. thread_elems s e = Some st \<and> thread_n st < length (replicate (n_threads s) (0 :: nat))"
    using r by auto
  from count_per_thread_run [OF this] have run: "count_per_thread (map fst ts) (replicate (n_threads s) 0) s = (Inr cs, s)"
    by (simp add: cs_def cong: map_cong)
  define t where "t = least_index cs 0 (2 ^ 64 - 1) 0"
  have "set (map fst ts) \<subseteq> {0..<next_addr s}" using r(3) by auto
  then have "length (map fst ts) \<le> card {0..<next_addr s}"
    using distinct_card [OF r(2)] by (metis card_mono finite_atLeastLessThan)
  then have "length ts \<le> 2 ^ 64 - 1" using r(4) by simp
  moreover have "populated ts t' \<le> length ts" for t' by (simp add: populated_def)
  ultimately have le: "populated ts t' \<le> 2 ^ 64 - 1" for t' by (meson le_trans)
  have "t < n_threads s \<and> (\<forall>t' < n_threads s. populated ts t \<le> populated ts t')"
    using least_index_min [of cs 0 "2 ^ 64 - 1" 0]
  proof (elim disjE conjE exE)
    assume "least_index cs 0 (2 ^ 64 - 1) 0 = 0" "\<forall>c \<in> set cs. 2 ^ 64 - 1 \<le> c"
    then have "\<forall>t' < n_threads s. 2 ^ 64 - 1 \<le> populated ts t'" "t = 0" by (auto simp: cs_def t_def)
    then show ?thesis using n(1) le [of 0] by (meson le_trans not_gr_zero)
  next
    fix j
    assume "j < length cs" "least_index cs 0 (2 ^ 64 - 1) 0 = 0 + j" "\<forall>c \<in> set cs. cs ! j \<le> c"
    then show ?thesis by (auto simp: cs_def t_def)
  qed
  moreover have "cpool_least_populated_thread s = (Inr t, s)"
  proof -
    have "unat (word_of_nat (n_threads s) :: size_t) = n_threads s" using n(2) by (intro unat_of_nat_size) simp
    then have "CALLOC (mem s (log s)) (word_of_nat (n_threads s)) 8 = Inr (Some (replicate (n_threads s * 8) 0))"
      using CALLOC_ok [of "mem s (log s)" "word_of_nat (n_threads s)" 8] m n(2) by simp
    then show ?thesis using run pool_handles [OF p]
      by (simp add: cpool_least_populated_thread_def bnd_step(1) with_libc_run t_def)
  qed
  ultimately show ?thesis by blast
qed

definition pool_example :: "unit server" where
  "pool_example = idle_server\<lparr>n_threads := 2, ctx := replicate 2 \<lparr>running = True, should_wake = False\<rparr>\<rparr>"

theorem spool_chooses_least_populated_thread_witness:
  "\<exists>t < 2. cpool_least_populated_thread pool_example = (Inr t, pool_example)"
proof -
  have "pool_inv pool_example [] {}"
    by (simp add: pool_inv_def pool_rep_def pool_sessions_def pool_example_def
        hash_ok_None hash_entries_def handles_def)
  from spool_chooses_least_populated_thread [OF this] show ?thesis
    by (auto simp: pool_example_def small_libc_def)
qed

section \<open>Processing a session\<close>

text \<open>
  The calls of \<open>server_process_session\<close> over TCP when something has arrived: one receive, the
  service's answer, one send, whatever the parts are.
\<close>

lemma process_session_calls:
  assumes x: "sessions s a = Some x" "HASH_FIND_INT (session_fd x) (session_hash s) \<noteq> None"
    and r: "r = env s (log s) (SysRecv (session_fd x) RECV_BUF_SZ)" "0 \<le> rep_ret r"
    and data: "data = take 16384 (rep_bytes r)" "data \<noteq> []"
    and m: "malloc_ok (mem s (log s)) 16384"
  shows "server_process_session (tcp_vtable create) a s =
    bnd (deliver_received a data) (\<lambda>_. send_pending (tcp_vtable create) a)
      (s\<lparr>log := log s @ [(SysRecv (session_fd x) RECV_BUF_SZ, r)]\<rparr>)"
proof -
  have "unat RECV_BUF_SZ = 16384" by (simp add: RECV_BUF_SZ_def)
  then have res: "recv_result RECV_BUF_SZ r = (int (length data), data)"
    using r(2) data(1) by (simp add: recv_result_def Let_def)
  obtain b where "MALLOC (mem s (log s)) RECV_BUF_SZ = Inr b"
    using MALLOC_ok [of "mem s (log s)" RECV_BUF_SZ] m by (auto simp: RECV_BUF_SZ_def)
  then have "tcp_server_recv (session_fd x) s = (Inr (int (length data), data),
      s\<lparr>log := log s @ [(SysRecv (session_fd x) RECV_BUF_SZ, r)]\<rparr>)"
    using res r(1) by (simp add: tcp_server_recv_def bnd_step(1) with_libc_run bnd_sys)
  moreover have "server_is_session_active a s = (Inr True, s)"
    using x by (simp add: server_is_session_active_def bnd_deref)
  ultimately show ?thesis using x(1) data(2)
    by (simp add: server_process_session_def bnd_step(1) bnd_deref tcp_vtable_def)
qed

lemma deliver_received_run:
  assumes "sessions s a = Some x" "connection x = Some c"
    and "commbuf_add_to_recv_buffer (mem s (log s)) c data = Inr c1"
    and "session_on_recv (mem s (log s)) (x\<lparr>connection := Some c1\<rparr>) = Inr (rr, x2)"
  shows "deliver_received a data s = guard_do (rr < 0) (close_socket (session_fd x2))
    (s\<lparr>sessions := (sessions s)(a \<mapsto> x2)\<rparr>)"
  using assms by (simp add: deliver_received_def bnd_deref bnd_step(1) with_libc_run set_session_def)

lemma send_pending_run:
  assumes x: "sessions s a = Some x" "connection x = Some c" "commbuf_ok c" "unat (send_buf_sz c) < 2 ^ 31"
    and r: "r = env s (log s) (SysSend (session_fd x) (send_view c))"
  shows "send_pending (tcp_vtable create) a s =
    (if rep_ret r < 0 then (Inr (- 1), s\<lparr>log := log s @ [(SysSend (session_fd x) (send_view c), r)]\<rparr>)
     else (Inr 0, s\<lparr>log := log s @ [(SysSend (session_fd x) (send_view c), r)],
       sessions := (sessions s)(a \<mapsto> x\<lparr>connection := Some (commbuf_clear_send_buffer c)\<rparr>)\<rparr>))"
proof -
  have "int_of_size (send_buf_sz c) = int (unat (send_buf_sz c))" by (rule int_of_size_small [OF x(4)])
  moreover have "mem_read (send_buf c) 0 (unat (send_buf_sz c)) = Inr (send_view c)"
    using x(3) by (simp add: mem_read_ok commbuf_ok_def send_view_def)
  ultimately have "tcp_server_send (session_fd x) (send_buf c) (send_buf_sz c) s =
      (Inr (send_result (send_view c) r), s\<lparr>log := log s @ [(SysSend (session_fd x) (send_view c), r)]\<rparr>)"
    using r by (simp add: tcp_server_send_def Let_def bnd_lift bnd_sys del: of_nat_unat)
  then show ?thesis using x(1,2)
    by (auto simp: send_pending_def bnd_deref commbuf_send_buffer_def tcp_vtable_def bnd_step(1)
        send_result_def set_session_def)
qed

lemma parrot_echo_step:
  assumes c: "commbuf_ok c" and room: "can_grow L (recv_buf c) (recv_buf_sz c) (length data)"
      "unat (recv_buf_sz c) + length data + unat (send_buf_sz c) < 2 ^ 31 - 1" "\<forall>n. malloc_ok L n"
    and lines: "split_lines crlf (recv_view c @ data) = (ls, rest)" "\<forall>l \<in> set ls. upto_nul l \<noteq> []"
  shows "\<exists>c1 c2. commbuf_add_to_recv_buffer L c data = Inr c1 \<and> parrot_loop L c1 = Inr c2 \<and> commbuf_ok c2 \<and>
    recv_view c2 = rest \<and> send_view c2 = send_view c @ concat (map upto_nul ls) \<and> unat (send_buf_sz c2) < 2 ^ 31"
proof -
  obtain c1 where c1: "commbuf_add_to_recv_buffer L c data = Inr c1" "commbuf_ok c1"
      "recv_view c1 = recv_view c @ data" "send_view c1 = send_view c"
      "unat (recv_buf_sz c1) = unat (recv_buf_sz c) + length data"
    using commbuf_add_recv_refines [OF c room(1)] by blast
  have snd1: "unat (send_buf_sz c1) = unat (send_buf_sz c)"
    using send_view_length [OF c] send_view_length [OF c1(2)] c1(4) by simp
  have "echo_room L c1" using room c1 snd1 lines by (simp add: line_room_def)
  from parrot_echo.loop_echo [OF c1(2) this, of ls rest] obtain c2 where
    c2: "parrot_loop L c1 = Inr c2" "commbuf_ok c2" "recv_view c2 = rest"
      "send_view c2 = send_view c @ concat (map upto_nul ls)"
    using c1 lines by auto
  have "length (concat (map upto_nul ls)) \<le> length (concat ls)"
    by (induction ls) (use upto_nul_length in \<open>auto intro: add_mono\<close>)
  moreover have "length (concat ls) \<le> length (recv_view c @ data)"
    using split_lines_concat [OF lines(1)] by (metis length_append le_add1)
  ultimately have "length (send_view c2) < 2 ^ 31"
    using c2(4) room(2) recv_view_length [OF c] send_view_length [OF c] by simp
  then show ?thesis using c1(1) c2 send_view_length [OF c2(2)] by auto
qed

text \<open>
  C28. Processing a parrot session on which data have arrived makes exactly two calls: one
  receive of at most 16 KiB and one send, of what was still to be sent followed by the echo of
  every line that is now complete; the incomplete rest stays in the receive buffer.  The send
  buffer is empty afterwards if the send did not fail, and unchanged if it did.
\<close>

theorem process_session_echoes:
  assumes x: "sessions s a = Some x" "session_vt x = parrot_vtable" "connection x = Some c"
      "HASH_FIND_INT (session_fd x) (session_hash s) \<noteq> None"
    and c: "commbuf_ok c" "unat (recv_buf_sz c) + length data + unat (send_buf_sz c) < 2 ^ 31 - 1"
    and m: "\<forall>h n. malloc_ok (mem s h) n"
    and r: "r = env s (log s) (SysRecv (session_fd x) RECV_BUF_SZ)" "0 \<le> rep_ret r"
      "data = take 16384 (rep_bytes r)" "data \<noteq> []"
    and lines: "split_lines crlf (recv_view c @ data) = (ls, rest)" "\<forall>l \<in> set ls. upto_nul l \<noteq> []"
  shows "\<exists>s' sent r2 x' c' res. server_process_session (tcp_vtable create) a s = (Inr res, s') \<and>
    sent = send_view c @ concat (map upto_nul ls) \<and>
    r2 = env s (log s @ [(SysRecv (session_fd x) RECV_BUF_SZ, r)]) (SysSend (session_fd x) sent) \<and>
    log s' = log s @ [(SysRecv (session_fd x) RECV_BUF_SZ, r), (SysSend (session_fd x) sent, r2)] \<and>
    sessions s' a = Some x' \<and> connection x' = Some c' \<and> recv_view c' = rest \<and>
    (if rep_ret r2 < 0 then res = - 1 \<and> send_view c' = sent else res = 0 \<and> send_view c' = [])"
proof -
  define s1 where "s1 = s\<lparr>log := log s @ [(SysRecv (session_fd x) RECV_BUF_SZ, r)]\<rparr>"
  define L where "L = mem s (log s1)"
  have "\<forall>n. malloc_ok L n" using m by (simp add: L_def)
  then have cg: "can_grow L (recv_buf c) (recv_buf_sz c) (length data)"
    using c(2) r(4) by (simp add: can_grow_def)
  obtain c1 c2 where c2: "commbuf_add_to_recv_buffer L c data = Inr c1" "parrot_loop L c1 = Inr c2"
      "commbuf_ok c2" "recv_view c2 = rest" "send_view c2 = send_view c @ concat (map upto_nul ls)"
      "unat (send_buf_sz c2) < 2 ^ 31"
    using parrot_echo_step [OF c(1) cg c(2) _ lines] m by (auto simp: L_def)
  define x2 where "x2 = x\<lparr>connection := Some c2, session_data := ()\<rparr>"
  define s2 where "s2 = s1\<lparr>sessions := (sessions s)(a \<mapsto> x2)\<rparr>"
  have "session_on_recv L (x\<lparr>connection := Some c1\<rparr>) = Inr (0, x2)"
    using x(2) c2(2) by (simp add: session_on_recv_def parrot_vtable_def parrot_on_recv_def x2_def)
  then have "deliver_received a data s1 = (Inr (), s2)"
    using deliver_received_run [of s1 a x c data c1 0 x2] x c2(1) by (simp add: s1_def s2_def L_def)
  then have run: "server_process_session (tcp_vtable create) a s = send_pending (tcp_vtable create) a s2"
    using process_session_calls [OF x(1,4) r] m by (simp add: s1_def bnd_step(1))
  define r2 where "r2 = env s2 (log s2) (SysSend (session_fd x2) (send_view c2))"
  have "sessions s2 a = Some x2" "connection x2 = Some c2" by (simp_all add: s2_def x2_def)
  note send = send_pending_run [OF this c2(3,6) r2_def]
  have v: "send_view (commbuf_clear_send_buffer c2) = []" "recv_view (commbuf_clear_send_buffer c2) = rest"
    using commbuf_clear_send_refines [OF c2(3)] c2(4) by simp_all
  show ?thesis
  proof (cases "rep_ret r2 < 0")
    case True
    then show ?thesis using run send c2 r2_def by (auto simp: s2_def s1_def x2_def)
  next
    case False
    then show ?thesis using run send c2 v r2_def
      by (intro exI [of _ "snd (send_pending (tcp_vtable create) a s2)"]
          exI [of _ "send_view c @ concat (map upto_nul ls)"] exI [of _ r2]
          exI [of _ "x2\<lparr>connection := Some (commbuf_clear_send_buffer c2)\<rparr>"]
          exI [of _ "commbuf_clear_send_buffer c2"] exI [of _ 0])
        (simp add: s2_def s1_def x2_def)
  qed
qed

text \<open>A kernel that delivers a line and a half, and takes two bytes of what is sent.\<close>

definition slow_kernel :: "history \<Rightarrow> syscall \<Rightarrow> reply" where
  "slow_kernel h c = \<lparr>rep_ret = (case c of SysSend fd bs \<Rightarrow> 2 | _ \<Rightarrow> 0), rep_errno = 0,
     rep_bytes = [104, 105, 13, 10, 121], rep_status = 0, rep_events = [], rep_addrs = []\<rparr>"

definition echo_server :: "unit server" where
  "echo_server = busy_server\<lparr>env := slow_kernel, mem := (\<lambda>_. glibc)\<rparr>"

lemma hello_lines:
  "split_lines crlf [104, 105, 13, 10, 121] = ([[104, 105, 13, 10]], [121])"
proof -
  have "split_lines crlf [121] = ([], [121])" by (rule split_lines_None) (simp add: split_line_def crlf_def)
  then show ?thesis by (intro split_lines_Some) (simp_all add: split_line_def crlf_def)
qed

lemma echo_server_session:
  "sessions echo_server 1 = Some first_session" "env echo_server = slow_kernel"
  "mem echo_server h = glibc" "HASH_FIND_INT 9 (session_hash echo_server) \<noteq> None"
proof -
  have i: "conns_inv parrot_inv busy_server [first_connection]"
    using busy_server_good by (simp add: server_inv_def)
  have "fits_int 9" by (simp add: fits_int_def)
  from conns_find [OF i this] have "HASH_FIND_INT 9 (session_hash busy_server) \<noteq> None"
    by (auto split: option.splits)
  then show "HASH_FIND_INT 9 (session_hash echo_server) \<noteq> None" by (simp add: echo_server_def)
qed (simp_all add: echo_server_def busy_server_def)

theorem process_session_echoes_witness:
  "\<exists>s' x' c'. server_process_session parrot_server 1 echo_server = (Inr 0, s') \<and>
     sessions s' 1 = Some x' \<and> connection x' = Some c' \<and> recv_view c' = [121] \<and> send_view c' = []"
proof -
  define c where "c = \<lparr>cb_fd = 0, recv_buf = None, recv_buf_sz = 0, send_buf = None, send_buf_sz = 0\<rparr>"
  have fs: "session_vt first_session = parrot_vtable" "connection first_session = Some c"
      "session_fd first_session = 9" by (simp_all add: first_session_def c_def)
  have c: "commbuf_ok c" "recv_view c = []" "send_view c = []" "recv_buf_sz c = 0" "send_buf_sz c = 0"
    by (simp_all add: c_def commbuf_ok_def recv_view_def send_view_def)
  define r where "r = env echo_server (log echo_server) (SysRecv (session_fd first_session) RECV_BUF_SZ)"
  have r: "0 \<le> rep_ret r" "[104, 105, 13, 10, 121] = take 16384 (rep_bytes r)"
    by (simp_all add: r_def echo_server_session slow_kernel_def)
  have hash: "HASH_FIND_INT (session_fd first_session) (session_hash echo_server) \<noteq> None"
    using echo_server_session(4) fs(3) by simp
  have lines: "split_lines crlf (recv_view c @ [104, 105, 13, 10, 121]) = ([[104, 105, 13, 10]], [121])"
    using hello_lines c(2) by simp
  have "\<forall>h n. malloc_ok (mem echo_server h) n" by (simp add: echo_server_session)
  from process_session_echoes [OF echo_server_session(1) fs(1,2) hash c(1) _ this r_def r _ lines, of parrot_session_create]
  obtain s' r2 x' c' res where s': "server_process_session parrot_server 1 echo_server = (Inr res, s')"
      "r2 = env echo_server (log echo_server @ [(SysRecv 9 RECV_BUF_SZ, r)]) (SysSend 9 [104, 105, 13, 10])"
      "sessions s' 1 = Some x'" "connection x' = Some c'" "recv_view c' = [121]"
      "if rep_ret r2 < 0 then res = - 1 \<and> send_view c' = [104, 105, 13, 10] else res = 0 \<and> send_view c' = []"
    using c fs(3) by auto
  then have "\<not> rep_ret r2 < 0" by (simp add: echo_server_session slow_kernel_def)
  then show ?thesis using s' by auto
qed

text \<open>
  A send that takes only a part of what is pending loses the rest: the send buffer is
  cleared all the same, and the call reports success.
\<close>

theorem partial_send_loses_the_rest:
  assumes "sessions s a = Some x" "connection x = Some c" "commbuf_ok c" "unat (send_buf_sz c) < 2 ^ 31"
    and "r = env s (log s) (SysSend (session_fd x) (send_view c))"
    and "0 \<le> rep_ret r" "rep_ret r < int (length (send_view c))"
  shows "\<exists>s' x' c'. send_pending (tcp_vtable create) a s = (Inr 0, s') \<and>
    log s' = log s @ [(SysSend (session_fd x) (send_view c), r)] \<and>
    send_result (send_view c) r < int (length (send_view c)) \<and>
    sessions s' a = Some x' \<and> connection x' = Some c' \<and> send_view c' = []"
  using send_pending_run [OF assms(1-5), of create] assms(6,7) commbuf_clear_send_refines [OF assms(3)]
  by (auto simp: send_result_def)

definition pending_session :: "unit session" where
  "pending_session = first_session\<lparr>connection := Some \<lparr>cb_fd = 0, recv_buf = None, recv_buf_sz = 0,
     send_buf = Some [104, 105, 13, 10], send_buf_sz = 4\<rparr>\<rparr>"

theorem partial_send_loses_the_rest_witness:
  "\<exists>s' x' c'. send_pending parrot_server 1 (echo_server\<lparr>sessions := [1 \<mapsto> pending_session]\<rparr>) = (Inr 0, s') \<and>
     sessions s' 1 = Some x' \<and> connection x' = Some c' \<and> send_view c' = []"
proof -
  define c where "c = \<lparr>cb_fd = 0, recv_buf = None, recv_buf_sz = 0,
      send_buf = Some [104, 105, 13, 10 :: byte], send_buf_sz = 4\<rparr>"
  have "connection pending_session = Some c" "commbuf_ok c" "unat (send_buf_sz c) < 2 ^ 31"
      "send_view c = [104, 105, 13, 10]"
    by (simp_all add: pending_session_def c_def commbuf_ok_def send_view_def)
  with partial_send_loses_the_rest [of "echo_server\<lparr>sessions := [1 \<mapsto> pending_session]\<rparr>" 1 pending_session c
      _ parrot_session_create, OF _ this(1-3) refl]
  show ?thesis by (auto simp: echo_server_session slow_kernel_def)
qed

text \<open>
  A session whose service reports an error is not given up: its socket is closed, but the
  answer is then still sent on the closed socket, and the session stays in the table of
  sessions.
\<close>

theorem failed_session_is_kept:
  assumes x: "sessions s a = Some x" "connection x = Some c"
      "HASH_FIND_INT (session_fd x) (session_hash s) \<noteq> None"
    and r: "r = env s (log s) (SysRecv (session_fd x) RECV_BUF_SZ)" "0 \<le> rep_ret r"
      "data = take 16384 (rep_bytes r)" "data \<noteq> []" "\<forall>h. malloc_ok (mem s h) 16384"
    and c1: "\<forall>h. commbuf_add_to_recv_buffer (mem s h) c data = Inr c1"
    and x2: "\<forall>h. session_on_recv (mem s h) (x\<lparr>connection := Some c1\<rparr>) = Inr (rr, x2)" "rr < 0"
      "connection x2 = Some c2" "session_fd x2 = session_fd x" "commbuf_ok c2" "unat (send_buf_sz c2) < 2 ^ 31"
  shows "\<exists>s' res r1 r2. server_process_session (tcp_vtable create) a s = (Inr res, s') \<and>
    log s' = log s @ [(SysRecv (session_fd x) RECV_BUF_SZ, r), (SysClose (session_fd x), r1),
      (SysSend (session_fd x) (send_view c2), r2)] \<and> session_hash s' = session_hash s \<and> sessions s' a \<noteq> None"
proof -
  define s1 where "s1 = s\<lparr>log := log s @ [(SysRecv (session_fd x) RECV_BUF_SZ, r)]\<rparr>"
  define q where "q = env s1 (log s1) (SysClose (session_fd x))"
  define s2 where "s2 = s1\<lparr>sessions := (sessions s)(a \<mapsto> x2), log := log s1 @ [(SysClose (session_fd x), q)]\<rparr>"
  have "deliver_received a data s1 = (Inr (), s2)"
    using deliver_received_run [of s1 a x c data c1 rr x2] x c1 x2
    by (simp add: s1_def s2_def q_def close_socket_def bnd_sys)
  then have run: "server_process_session (tcp_vtable create) a s = send_pending (tcp_vtable create) a s2"
    using process_session_calls [OF x(1,3) r(1-4)] r(5) by (simp add: s1_def bnd_step(1))
  have "sessions s2 a = Some x2" by (simp add: s2_def)
  from send_pending_run [OF this x2(3,5,6) refl, of create] show ?thesis
    using run x2(4) by (auto simp: s2_def s1_def)
qed

definition failing_vtable :: "unit session_vtable" where
  "failing_vtable = \<lparr>on_recv = (\<lambda>L fd d c. Inr (- 1, d, c)), finalize = None\<rparr>"

theorem failed_session_is_kept_witness:
  "\<exists>s' res. server_process_session parrot_server 1
      (echo_server\<lparr>sessions := [1 \<mapsto> first_session\<lparr>session_vt := failing_vtable\<rparr>]\<rparr>) = (Inr res, s') \<and>
     sessions s' 1 \<noteq> None"
proof -
  define s where "s = echo_server\<lparr>sessions := [1 \<mapsto> first_session\<lparr>session_vt := failing_vtable\<rparr>]\<rparr>"
  define x where "x = first_session\<lparr>session_vt := failing_vtable\<rparr>"
  define c where "c = \<lparr>cb_fd = 0, recv_buf = None, recv_buf_sz = 0, send_buf = None, send_buf_sz = 0\<rparr>"
  have x: "connection x = Some c" "session_fd x = 9" "session_vt x = failing_vtable" "commbuf_ok c"
    by (simp_all add: x_def first_session_def c_def commbuf_ok_def)
  define c1 where "c1 = c\<lparr>recv_buf := Some [104, 105, 13, 10, 121], recv_buf_sz := 5\<rparr>"
  have add: "commbuf_add_to_recv_buffer glibc c [104, 105, 13, 10, 121] = Inr c1"
    by (simp add: commbuf_add_to_recv_buffer_def c_def c1_def REALLOC_def c_realloc_def c_malloc_def
        check_ptr_def mem_write_def upt_rec)
  have on: "session_on_recv glibc (x\<lparr>connection := Some c1\<rparr>) = Inr (- 1, x\<lparr>connection := Some c1, session_data := ()\<rparr>)"
    using x(3) by (simp add: session_on_recv_def failing_vtable_def)
  have s: "sessions s 1 = Some x" "HASH_FIND_INT (session_fd x) (session_hash s) \<noteq> None"
      "env s = slow_kernel" "mem s h = glibc" for h
    using echo_server_session x(2) by (simp_all add: s_def x_def)
  have c1: "commbuf_ok c1" "unat (send_buf_sz c1) < 2 ^ 31" by (simp_all add: c1_def c_def commbuf_ok_def)
  have r: "0 \<le> rep_ret (env s (log s) (SysRecv (session_fd x) RECV_BUF_SZ))"
      "[104, 105, 13, 10, 121] = take 16384 (rep_bytes (env s (log s) (SysRecv (session_fd x) RECV_BUF_SZ)))"
      "\<forall>h. malloc_ok (mem s h) 16384" by (simp_all add: s(3,4) slow_kernel_def)
  have a: "\<forall>h. commbuf_add_to_recv_buffer (mem s h) c [104, 105, 13, 10, 121] = Inr c1"
      "\<forall>h. session_on_recv (mem s h) (x\<lparr>connection := Some c1\<rparr>) =
         Inr (- 1, x\<lparr>connection := Some c1, session_data := ()\<rparr>)"
    using add on s(4) by simp_all
  have "\<exists>s' res r1 r2. server_process_session parrot_server 1 s = (Inr res, s') \<and>
    log s' = log s @ [(SysRecv (session_fd x) RECV_BUF_SZ, env s (log s) (SysRecv (session_fd x) RECV_BUF_SZ)),
      (SysClose (session_fd x), r1), (SysSend (session_fd x) (send_view c1), r2)] \<and>
    session_hash s' = session_hash s \<and> sessions s' 1 \<noteq> None"
    by (rule failed_session_is_kept [OF s(1) x(1) s(2) refl r(1,2) _ r(3) a(1,2) _ _ _ c1]) simp_all
  then show ?thesis unfolding s_def by blast
qed

section \<open>The listening socket\<close>

lemma bind_first_fails:
  assumes "\<forall>h a. 0 \<le> rep_ret (env s h (SysSocket a))" "\<forall>h l. 0 \<le> rep_ret (env s h (SysSetsockopt l))"
    "\<forall>h l a. rep_ret (env s h (SysBind l a)) < 0"
  shows "\<exists>h ls. bind_first as l s = (Inr (last (l # ls), Some False), s\<lparr>log := log s @ h\<rparr>) \<and>
    closes h = ls \<and> length ls = length as \<and> (\<forall>l' \<in> set ls. 0 \<le> l')"
  using assms
proof (induction as arbitrary: l s)
  case Nil
  then show ?case by (auto intro!: exI [of _ "[]"])
next
  case (Cons a as)
  define r where "r = env s (log s) (SysSocket a)"
  have "0 \<le> rep_ret r" using Cons.prems(1) by (simp add: r_def)
  then have r: "ret_of r = rep_ret r" "0 \<le> rep_ret r" by (simp_all add: ret_of_def)
  define h1 where "h1 = [(SysSocket a, r)]"
  define h2 where "h2 = h1 @ [(SysSetsockopt (rep_ret r), env s (log s @ h1) (SysSetsockopt (rep_ret r)))]"
  define h3 where "h3 = h2 @ [(SysBind (rep_ret r) a, env s (log s @ h2) (SysBind (rep_ret r) a))]"
  define h4 where "h4 = h3 @ [(SysClose (rep_ret r), env s (log s @ h3) (SysClose (rep_ret r)))]"
  have "0 \<le> rep_ret (env s (log s @ h1) (SysSetsockopt (rep_ret r)))" using Cons.prems(2) by blast
  then have so: "ret_of (env s (log s @ h1) (SysSetsockopt (rep_ret r))) \<noteq> - 1" by (simp add: ret_of_def)
  have bi: "ret_of (env s (log s @ h2) (SysBind (rep_ret r) a)) = - 1" using Cons.prems(3) by (simp add: ret_of_def)
  have step: "bind_first (a # as) l s = bind_first as (rep_ret r) (s\<lparr>log := log s @ h4\<rparr>)"
    using r so bi by (simp add: bnd_sys Let_def INVALID_SOCKET_def server_close_socket_def close_socket_def
        r_def [symmetric] h1_def h2_def h3_def h4_def)
  obtain h ls where "bind_first as (rep_ret r) (s\<lparr>log := log s @ h4\<rparr>) =
      (Inr (last (rep_ret r # ls), Some False), s\<lparr>log := log s @ h4\<rparr>\<lparr>log := (log s @ h4) @ h\<rparr>)"
      "closes h = ls" "length ls = length as" "\<forall>l' \<in> set ls. 0 \<le> l'"
    using Cons.IH [of "s\<lparr>log := log s @ h4\<rparr>" "rep_ret r"] Cons.prems by auto
  moreover have "closes h4 = [rep_ret r]" by (simp add: h4_def h3_def h2_def h1_def closes_def)
  ultimately show ?case using step r(2)
    by (intro exI [of _ "h4 @ h"] exI [of _ "rep_ret r # ls"]) simp
qed

text \<open>
  When none of the addresses can be bound, the socket of the last address is closed twice,
  and no listener is returned.
\<close>

theorem unbound_listener_is_closed_twice:
  fixes s :: "'a io_scheme"
  assumes "\<forall>h a. 0 \<le> rep_ret (env s h (SysSocket a))" "\<forall>h l. 0 \<le> rep_ret (env s h (SysSetsockopt l))"
    and "\<forall>h l a. rep_ret (env s h (SysBind l a)) < 0"
    and "r = env s (log s) (SysGetaddrinfo (if w then None else Some ''localhost'') port)"
      "rep_ret r = 0" "rep_addrs r \<noteq> []"
  shows "\<exists>s' h ls. tcp_server_get_listener port w s = (Inr INVALID_SOCKET, s') \<and> log s' = log s @ h \<and>
    ls \<noteq> [] \<and> length ls = length (rep_addrs r) \<and> closes h = ls @ [last ls]"
proof -
  define h0 where "h0 = [(SysGetaddrinfo (if w then None else Some ''localhost'') port, r)]"
  define s0 where "s0 = s\<lparr>log := log s @ h0\<rparr>"
  obtain h ls where b: "bind_first (rep_addrs r) INVALID_SOCKET s0 =
      (Inr (last (INVALID_SOCKET # ls), Some False), s0\<lparr>log := log s0 @ h\<rparr>)"
      "closes h = ls" "length ls = length (rep_addrs r)" "\<forall>l' \<in> set ls. 0 \<le> l'"
    using bind_first_fails [of s0 "rep_addrs r" INVALID_SOCKET] assms(1-3) by (auto simp: s0_def)
  have ne: "ls \<noteq> []" using b(3) assms(6) by auto
  then have "0 \<le> last ls" using b(4) by simp
  then have ok: "last (INVALID_SOCKET # ls) = last ls" "last ls \<noteq> INVALID_SOCKET"
    using ne by (auto simp: INVALID_SOCKET_def)
  define h1 where "h1 = h @ [(SysFreeaddrinfo, env s (log s0 @ h) SysFreeaddrinfo)]"
  define q where "q = (SysClose (last ls), env s (log s0 @ h1) (SysClose (last ls)))"
  define f :: "int \<times> bool option \<Rightarrow> ('a io_scheme, int) prog" where "f = (\<lambda>(listener, bound). case bound of
         None \<Rightarrow> listener_failed listener
       | Some b \<Rightarrow> bnd (sys SysFreeaddrinfo) (\<lambda>_. if \<not> b then listener_failed listener
           else bnd (sys (SysListen listener)) (\<lambda>r. if ret_of r = - 1 then listener_failed listener else ret listener)))"
  have "tcp_server_get_listener port w s = bnd (bind_first (rep_addrs r) INVALID_SOCKET) f s0"
    using assms(4,5) by (simp add: tcp_server_get_listener_def bnd_sys s0_def h0_def f_def)
  also have "\<dots> = f (last ls, Some False) (s0\<lparr>log := log s0 @ h\<rparr>)" using bnd_step(1) [of "bind_first (rep_addrs r) INVALID_SOCKET" s0, OF b(1)] ok(1) by simp
  also have "\<dots> = (Inr INVALID_SOCKET, s0\<lparr>log := log s0 @ h1 @ [q]\<rparr>)"
    using ok(2) by (simp add: f_def bnd_sys listener_failed_def close_socket_def h1_def q_def s0_def)
  finally have "tcp_server_get_listener port w s = (Inr INVALID_SOCKET, s0\<lparr>log := log s0 @ h1 @ [q]\<rparr>)" .
  moreover have "closes (h0 @ h1 @ [q]) = ls @ [last ls]" by (simp add: h0_def h1_def q_def b(2))
  ultimately show ?thesis using ne b(3)
    by (intro exI [of _ "s0\<lparr>log := log s0 @ h1 @ [q]\<rparr>"] exI [of _ "h0 @ h1 @ [q]"] exI [of _ ls])
      (simp add: s0_def)
qed

theorem unbound_listener_is_closed_twice_witness:
  "\<exists>s' h. tcp_server_get_listener 8080 True (example_io\<lparr>env := (\<lambda>_ c. example_events\<lparr>
      rep_ret := (case c of SysBind l a \<Rightarrow> - 1 | SysGetaddrinfo n p \<Rightarrow> 0 | _ \<Rightarrow> 5), rep_addrs := [1]\<rparr>)\<rparr>) =
     (Inr INVALID_SOCKET, s') \<and> log s' = h \<and> length (closes h) = 2"
proof -
  define s where "s = example_io\<lparr>env := (\<lambda>_ c. example_events\<lparr>
      rep_ret := (case c of SysBind l a \<Rightarrow> - 1 | SysGetaddrinfo n p \<Rightarrow> 0 | _ \<Rightarrow> 5), rep_addrs := [1]\<rparr>)\<rparr>"
  have "\<exists>s' h ls. tcp_server_get_listener 8080 True s = (Inr INVALID_SOCKET, s') \<and> log s' = log s @ h \<and>
    ls \<noteq> [] \<and> length ls = length (rep_addrs (env s (log s) (SysGetaddrinfo (if True then None else Some ''localhost'') 8080))) \<and>
    closes h = ls @ [last ls]"
    by (rule unbound_listener_is_closed_twice [OF _ _ _ refl]) (simp_all add: s_def example_io_def)
  then show ?thesis by (auto simp: s_def example_io_def)
qed

text \<open>
  When the flags of a new socket cannot be read, the accepted socket is left open and the
  number \<open>0\<close> is returned, which the server takes for the descriptor of the connection.
\<close>

theorem accept_reports_descriptor_zero:
  assumes "r = env s (log s) (SysAccept (server_fd s))" "0 < rep_ret r"
    and "rep_ret (env s (log s @ [(SysAccept (server_fd s), r)]) (SysFcntl (rep_ret r))) < 0"
  shows "\<exists>s'. tcp_accept_new_connection s = (Inr 0, s') \<and> rep_ret r \<in> open_fds (log s')"
  using assms by (simp add: tcp_accept_new_connection_def bnd_sys Let_def ret_of_def open_fds_def fd_effect_def)

theorem accept_reports_descriptor_zero_witness:
  "\<exists>s'. tcp_accept_new_connection (idle_server\<lparr>env := (\<lambda>_ c. example_events\<lparr>
      rep_ret := (case c of SysAccept l \<Rightarrow> 5 | _ \<Rightarrow> - 1)\<rparr>)\<rparr>) = (Inr 0, s') \<and> 5 \<in> open_fds (log s')"
  using accept_reports_descriptor_zero [of _ "idle_server\<lparr>env := (\<lambda>_ c. example_events\<lparr>
      rep_ret := (case c of SysAccept l \<Rightarrow> 5 | _ \<Rightarrow> - 1)\<rparr>)\<rparr>", OF refl] by simp

end
