(* ===== verification/Spool_Threads.thy ===== *)
theory Spool_Threads
  imports Spool
begin

text \<open>
  The threads of the session pool (\<open>src/server/spool/spool.c\<close>), one step at a time.  The main
  thread runs \<open>spool_add_session\<close>, \<open>spool_remove_session\<close>, \<open>spool_flush_session\<close> and
  \<open>spool_destroy\<close>, each worker runs \<open>thread_function\<close>; a schedule is a list of actions.

  The lock \<open>session_threads_mutex\<close> is explicit, since a worker holds it while it processes
  sessions.  The lock of a \<open>ThreadContext\<close> is held for a few assignments only and nothing else
  is locked inside, so each of its critical sections is one step; waiting on the condition gives
  the lock back.  A signal wakes the one worker that can wait on the condition, and a worker may
  also wake up without a signal.
\<close>

section \<open>Threads and steps\<close>

text \<open>
  Where a worker is: at the test of \<open>thread_running\<close>, before the lock of its context, waiting
  on the condition, woken, before \<open>session_threads_mutex\<close>, in the collecting loop, in the loop
  over the sessions that are left, or returned.
\<close>

datatype worker_pc = At_loop | At_lock | In_wait | Woken | At_sessions | Collecting
  | Working "nat list" | Ended

text \<open>
  Where the main thread is: outside the pool; in a flush, before waking thread \<open>t\<close>; in
  \<open>spool_destroy\<close>, before setting the flags of thread \<open>i\<close>, before signalling it, before joining
  it; or after freeing the pool.
\<close>

datatype main_pc = Outside | Flushing nat | Flagging nat | Signalling nat | Joining nat | Freed

datatype lock_owner = Main | Worker nat

record pool =
  p_running :: "bool list"
  p_wake :: "bool list"
  p_table :: "session_thread list"
  p_lock :: "lock_owner option"
  p_worker :: "worker_pc list"
  p_main :: main_pc

datatype action = Work nat | Spurious nat | Add nat | Remove nat | Flush nat | Destroy | Continue

definition pool_start :: "nat \<Rightarrow> pool" where
  "pool_start n = \<lparr>p_running = replicate n True, p_wake = replicate n False, p_table = [],
     p_lock = None, p_worker = replicate n At_loop, p_main = Outside\<rparr>"

definition at_pc :: "nat \<Rightarrow> worker_pc \<Rightarrow> pool \<Rightarrow> pool" where
  "at_pc t pc p = p\<lparr>p_worker := (p_worker p)[t := pc]\<rparr>"

definition thread_signal :: "nat \<Rightarrow> pool \<Rightarrow> pool" where
  "thread_signal t p = (if p_worker p ! t = In_wait then at_pc t Woken p else p)"

definition ready_sessions :: "nat \<Rightarrow> session_thread list \<Rightarrow> nat list" where
  "ready_sessions t ts = map st_session (filter (\<lambda>st. ready st \<and> thread_n st = t) ts)"

definition take_ready :: "nat \<Rightarrow> session_thread list \<Rightarrow> session_thread list" where
  "take_ready t ts = map (\<lambda>st. if ready st \<and> thread_n st = t then st\<lparr>ready := False\<rparr> else st) ts"

text \<open>One step of \<open>thread_function\<close> in thread \<open>t\<close>; \<open>None\<close> while the thread is blocked or has returned.\<close>

definition worker_step :: "nat \<Rightarrow> pool \<Rightarrow> pool option" where
  "worker_step t p =
     (case p_worker p ! t of
        At_loop \<Rightarrow> Some (at_pc t (if p_running p ! t then At_lock else Ended) p)
      | At_lock \<Rightarrow>
          Some (if p_wake p ! t then at_pc t At_sessions (p\<lparr>p_wake := (p_wake p)[t := False]\<rparr>)
                else at_pc t In_wait p)
      | Woken \<Rightarrow>
          Some (if p_wake p ! t then at_pc t At_sessions (p\<lparr>p_wake := (p_wake p)[t := False]\<rparr>)
                else at_pc t In_wait p)
      | In_wait \<Rightarrow> None
      | At_sessions \<Rightarrow>
          if p_lock p = None then Some (at_pc t Collecting (p\<lparr>p_lock := Some (Worker t)\<rparr>)) else None
      | Collecting \<Rightarrow>
          Some (at_pc t (Working (ready_sessions t (p_table p)))
            (p\<lparr>p_table := take_ready t (p_table p)\<rparr>))
      | Working (a # as) \<Rightarrow> Some (at_pc t (Working as) p)
      | Working [] \<Rightarrow> Some (at_pc t At_loop (p\<lparr>p_lock := None\<rparr>))
      | Ended \<Rightarrow> None)"

definition least_populated :: "nat \<Rightarrow> session_thread list \<Rightarrow> nat" where
  "least_populated n ts =
     least_index (map (\<lambda>t. length (filter (\<lambda>st. thread_n st = t) ts)) [0..<n]) 0 (2 ^ 64 - 1) 0"

text \<open>
  The main thread: the operations it starts when it is outside, and the steps that go on.  A
  session that is added is a new object, so its address is not in the table; an operation that
  has to take \<open>session_threads_mutex\<close> is blocked while a worker holds it.
\<close>

definition main_start :: "action \<Rightarrow> pool \<Rightarrow> pool option" where
  "main_start act p =
     (if p_main p \<noteq> Outside then None
      else case act of
        Add a \<Rightarrow>
          if p_lock p = None \<and> a \<notin> st_session ` set (p_table p)
          then Some (p\<lparr>p_table := p_table p @ [\<lparr>st_session = a,
            thread_n = least_populated (length (p_worker p)) (p_table p), ready = False\<rparr>]\<rparr>)
          else None
      | Remove a \<Rightarrow>
          if p_lock p = None
          then Some (p\<lparr>p_table := filter (\<lambda>st. st_session st \<noteq> a) (p_table p)\<rparr>)
          else None
      | Flush a \<Rightarrow>
          (case find (\<lambda>st. st_session st = a) (p_table p) of
             None \<Rightarrow> Some p
           | Some ct \<Rightarrow>
               if p_lock p = None
               then Some (p\<lparr>p_table := map (\<lambda>st. if st_session st = a then st\<lparr>ready := True\<rparr> else st)
                      (p_table p), p_main := Flushing (thread_n ct)\<rparr>)
               else None)
      | Destroy \<Rightarrow>
          if p_lock p = None then Some (p\<lparr>p_lock := Some Main, p_main := Flagging 0\<rparr>) else None
      | _ \<Rightarrow> None)"

definition main_continue :: "pool \<Rightarrow> pool option" where
  "main_continue p =
     (let n = length (p_worker p) in
      case p_main p of
        Outside \<Rightarrow> None
      | Flushing t \<Rightarrow>
          Some ((thread_signal t (p\<lparr>p_wake := (p_wake p)[t := True]\<rparr>))\<lparr>p_main := Outside\<rparr>)
      | Flagging i \<Rightarrow>
          if i < n
          then Some (p\<lparr>p_running := (p_running p)[i := False], p_wake := (p_wake p)[i := True],
                 p_main := Flagging (i + 1)\<rparr>)
          else Some (p\<lparr>p_lock := None, p_main := Signalling 0\<rparr>)
      | Signalling i \<Rightarrow>
          if i < n then Some ((thread_signal i p)\<lparr>p_main := Joining i\<rparr>)
          else Some (p\<lparr>p_main := Freed\<rparr>)
      | Joining i \<Rightarrow>
          if p_worker p ! i = Ended then Some (p\<lparr>p_main := Signalling (i + 1)\<rparr>) else None
      | Freed \<Rightarrow> None)"

fun pool_step :: "action \<Rightarrow> pool \<Rightarrow> pool option" where
  "pool_step (Work t) p = (if t < length (p_worker p) then worker_step t p else None)"
| "pool_step (Spurious t) p =
     (if t < length (p_worker p) \<and> p_worker p ! t = In_wait then Some (at_pc t Woken p) else None)"
| "pool_step Continue p = main_continue p"
| "pool_step act p = main_start act p"

text \<open>The runs of the pool: the state after a schedule.\<close>

inductive pool_run :: "pool \<Rightarrow> action list \<Rightarrow> pool \<Rightarrow> bool" where
  run_nil: "pool_run p [] p"
| run_snoc: "pool_run p acts q \<Longrightarrow> pool_step act q = Some r \<Longrightarrow> pool_run p (acts @ [act]) r"

code_pred pool_run .

inductive_cases pool_run_nilE [elim!]: "pool_run p [] q"
inductive_simps pool_run_snoc: "pool_run p (acts @ [act]) r"

section \<open>The invariant\<close>

definition holds_sessions :: "worker_pc \<Rightarrow> bool" where
  "holds_sessions pc \<longleftrightarrow> (case pc of Collecting \<Rightarrow> True | Working as \<Rightarrow> True | _ \<Rightarrow> False)"

definition before_wake :: "worker_pc \<Rightarrow> bool" where
  "before_wake pc \<longleftrightarrow> pc \<in> {At_lock, In_wait, Woken}"

text \<open>The flags of thread \<open>t\<close> were set by \<open>spool_destroy\<close>; the signal for them is still to come.\<close>

definition told_to_end :: "main_pc \<Rightarrow> nat \<Rightarrow> bool" where
  "told_to_end m t \<longleftrightarrow> (case m of Flagging i \<Rightarrow> t < i | Signalling i \<Rightarrow> True | Joining i \<Rightarrow> True | Freed \<Rightarrow> True | _ \<Rightarrow> False)"

definition signal_to_come :: "main_pc \<Rightarrow> nat \<Rightarrow> bool" where
  "signal_to_come m t \<longleftrightarrow> (case m of Flagging i \<Rightarrow> t < i | Signalling i \<Rightarrow> i \<le> t | Joining i \<Rightarrow> i < t | _ \<Rightarrow> False)"

definition will_collect :: "pool \<Rightarrow> nat \<Rightarrow> bool" where
  "will_collect p t \<longleftrightarrow> p_wake p ! t \<or> p_worker p ! t \<in> {At_sessions, Collecting, Ended} \<or> p_main p = Flushing t"

definition joined :: "main_pc \<Rightarrow> nat \<Rightarrow> bool" where
  "joined m t \<longleftrightarrow> (case m of Signalling i \<Rightarrow> t < i | Joining i \<Rightarrow> t < i | Freed \<Rightarrow> True | _ \<Rightarrow> False)"

definition assigned :: "session_thread list \<Rightarrow> nat \<Rightarrow> nat list" where
  "assigned ts t = map st_session (filter (\<lambda>st. thread_n st = t) ts)"

text \<open>What a worker still has to process: sessions of the table that are its own.\<close>

definition work_ok :: "session_thread list \<Rightarrow> nat \<Rightarrow> nat list \<Rightarrow> bool" where
  "work_ok ts t as \<longleftrightarrow> set as \<subseteq> set (assigned ts t) \<and> length as \<le> length ts"

definition thread_ok :: "pool \<Rightarrow> nat \<Rightarrow> bool" where
  "thread_ok p t \<longleftrightarrow>
     (holds_sessions (p_worker p ! t) \<longleftrightarrow> p_lock p = Some (Worker t)) \<and>
     (\<forall>as. p_worker p ! t = Working as \<longrightarrow> work_ok (p_table p) t as) \<and>
     (p_running p ! t \<longleftrightarrow> \<not> told_to_end (p_main p) t) \<and>
     (p_worker p ! t = Ended \<longrightarrow> \<not> p_running p ! t) \<and>
     (before_wake (p_worker p ! t) \<and> \<not> p_running p ! t \<longrightarrow> p_wake p ! t) \<and>
     (p_worker p ! t = In_wait \<and> p_wake p ! t \<longrightarrow> signal_to_come (p_main p) t) \<and>
     (joined (p_main p) t \<longrightarrow> p_worker p ! t = Ended)"

definition pool_ok :: "pool \<Rightarrow> bool" where
  "pool_ok p \<longleftrightarrow>
     length (p_running p) = length (p_worker p) \<and> length (p_wake p) = length (p_worker p) \<and>
     distinct (map st_session (p_table p)) \<and>
     (\<forall>st \<in> set (p_table p). thread_n st < length (p_worker p) \<and> (ready st \<longrightarrow> will_collect p (thread_n st))) \<and>
     (p_lock p = Some Main \<longleftrightarrow> (\<exists>i. p_main p = Flagging i)) \<and>
     (\<forall>t. p_lock p = Some (Worker t) \<longrightarrow> t < length (p_worker p)) \<and>
     (\<forall>t. p_main p = Flushing t \<longrightarrow> t < length (p_worker p)) \<and>
     (\<forall>i. p_main p \<in> {Flagging i, Signalling i} \<longrightarrow> i \<le> length (p_worker p)) \<and>
     (\<forall>i. p_main p = Joining i \<longrightarrow> i < length (p_worker p)) \<and>
     (\<forall>t < length (p_worker p). thread_ok p t)"

lemmas pool_ok_defs = pool_ok_def thread_ok_def holds_sessions_def before_wake_def told_to_end_def
  signal_to_come_def will_collect_def joined_def


lemma at_pc_simps [simp]:
  "p_running (at_pc t pc p) = p_running p" "p_wake (at_pc t pc p) = p_wake p"
  "p_table (at_pc t pc p) = p_table p" "p_lock (at_pc t pc p) = p_lock p"
  "p_main (at_pc t pc p) = p_main p" "p_worker (at_pc t pc p) = (p_worker p)[t := pc]"
  by (simp_all add: at_pc_def)

lemma thread_signal_simps [simp]:
  "p_running (thread_signal t p) = p_running p" "p_wake (thread_signal t p) = p_wake p"
  "p_table (thread_signal t p) = p_table p" "p_lock (thread_signal t p) = p_lock p"
  "p_main (thread_signal t p) = p_main p"
  "p_worker (thread_signal t p) = (if p_worker p ! t = In_wait then (p_worker p)[t := Woken] else p_worker p)"
  by (simp_all add: thread_signal_def)

lemma take_ready_simps [simp]:
  "map st_session (take_ready t ts) = map st_session ts"
  "length (take_ready t ts) = length ts"
  by (auto simp: take_ready_def)

lemma take_ready_set:
  "st \<in> set (take_ready t ts) \<Longrightarrow>
     \<exists>st' \<in> set ts. st_session st' = st_session st \<and> thread_n st' = thread_n st \<and>
       (ready st \<longrightarrow> ready st' \<and> thread_n st \<noteq> t)"
  by (auto simp: take_ready_def split: if_splits)

lemma pool_start_ok: "pool_ok (pool_start n)"
  by (simp add: pool_ok_defs pool_start_def)

lemma assigned_take_ready [simp]: "assigned (take_ready t ts) u = assigned ts u"
  by (induction ts) (auto simp: assigned_def take_ready_def)

lemma work_ok_take_ready [simp]: "work_ok (take_ready t ts) u = work_ok ts u"
  by (simp add: work_ok_def fun_eq_iff)

lemma ready_sessions_assigned:
  "set (ready_sessions t ts) \<subseteq> set (assigned ts t)" "length (ready_sessions t ts) \<le> length ts"
  by (auto simp: ready_sessions_def assigned_def)

text \<open>
  A step of worker \<open>t\<close> changes its place, its \<open>should_wake\<close> and who holds the lock; the other
  threads keep what they have.
\<close>

lemma worker_move:
  assumes ok: "pool_ok p"
    and q: "p_running q = p_running p" "p_main q = p_main p" "p_worker q = (p_worker p)[t := pc]"
      "p_wake q = (p_wake p)[t := w]" "map st_session (p_table q) = map st_session (p_table p)"
      "\<And>u. assigned (p_table q) u = assigned (p_table p) u" "length (p_table q) = length (p_table p)"
    and l: "\<And>u. u \<noteq> t \<Longrightarrow> p_lock q = Some (Worker u) \<longleftrightarrow> p_lock p = Some (Worker u)"
      "p_lock q = Some Main \<longleftrightarrow> p_lock p = Some Main" "t < length (p_worker p)"
    and ts: "\<And>st. st \<in> set (p_table q) \<Longrightarrow> thread_n st < length (p_worker p) \<and>
      (ready st \<longrightarrow> will_collect q (thread_n st))"
    and own: "thread_ok q t"
  shows "pool_ok q"
proof -
  have "thread_ok q u" if u: "u < length (p_worker p)" for u
  proof (cases "u = t")
    case True
    then show ?thesis using own by simp
  next
    case False
    have "thread_ok p u" using ok u by (simp add: pool_ok_def)
    then show ?thesis using False by (auto simp: thread_ok_def work_ok_def q l)
  qed
  moreover have "\<forall>u. p_lock q = Some (Worker u) \<longrightarrow> u < length (p_worker p)"
    using ok l(1,3) unfolding pool_ok_def by metis
  ultimately show ?thesis using ok ts by (simp add: pool_ok_def q l)
qed

lemmas thread_defs = thread_ok_def holds_sessions_def before_wake_def

lemma worker_step_ok:
  assumes ok: "pool_ok p" and t: "t < length (p_worker p)" and s: "worker_step t p = Some q"
  shows "pool_ok q"
proof -
  have th: "thread_ok p t" and len: "length (p_wake p) = length (p_worker p)"
    and tab: "\<And>st. st \<in> set (p_table p) \<Longrightarrow> thread_n st < length (p_worker p)"
      "\<And>st. st \<in> set (p_table p) \<Longrightarrow> ready st \<Longrightarrow> will_collect p (thread_n st)"
    using ok t by (simp_all add: pool_ok_def)
  have keep: "thread_n st < length (p_worker p) \<and> (ready st \<longrightarrow> will_collect q (thread_n st))"
    if "st \<in> set (p_table p)" "\<And>u. will_collect p u \<Longrightarrow> will_collect q u" for st
    using tab that by blast
  have move: "pool_ok q" if "q = at_pc t pc (p\<lparr>p_wake := (p_wake p)[t := w], p_lock := l\<rparr>)"
      "\<And>u. u \<noteq> t \<Longrightarrow> l = Some (Worker u) \<longleftrightarrow> p_lock p = Some (Worker u)" "l = Some Main \<longleftrightarrow> p_lock p = Some Main"
      "will_collect p t \<Longrightarrow> will_collect q t" "thread_ok q t" for pc w l
  proof (rule worker_move [OF ok, where t = t and pc = pc and w = w])
    fix st
    assume st: "st \<in> set (p_table q)"
    have "will_collect p u \<Longrightarrow> will_collect q u" for u
      using that(4) by (cases "u = t") (auto simp: that(1) will_collect_def)
    then show "thread_n st < length (p_worker p) \<and> (ready st \<longrightarrow> will_collect q (thread_n st))"
      using keep st that(1) by simp
  qed (use that t in simp_all)
  have wake: "(p_wake p)[t := p_wake p ! t] = p_wake p" by simp
  have locked: "u \<noteq> t \<Longrightarrow> None = Some (Worker u) \<longleftrightarrow> p_lock p = Some (Worker u)"
      "None = Some Main \<longleftrightarrow> p_lock p = Some Main" if "holds_sessions (p_worker p ! t)" for u
    using th that by (auto simp: thread_ok_def)
  have retest: "pool_ok q" if pc: "p_worker p ! t = At_lock \<or> p_worker p ! t = Woken"
    and q: "q = (if p_wake p ! t then at_pc t At_sessions (p\<lparr>p_wake := (p_wake p)[t := False]\<rparr>)
      else at_pc t In_wait p)"
  proof (cases "p_wake p ! t")
    case True
    then show ?thesis using pc q th t len
      by (intro move [where pc = At_sessions and w = False and l = "p_lock p"])
        (auto simp: thread_defs will_collect_def)
  next
    case False
    have "q = at_pc t In_wait (p\<lparr>p_wake := (p_wake p)[t := p_wake p ! t], p_lock := p_lock p\<rparr>)"
      unfolding list_update_id using q False by simp
    then show ?thesis using pc False th t len
      by (intro move [where pc = In_wait and w = "p_wake p ! t" and l = "p_lock p"])
        (auto simp: thread_defs will_collect_def)
  qed
  show ?thesis
  proof (cases "p_worker p ! t")
    case At_loop
    then show ?thesis using s th t len
      by (intro move [where pc = "if p_running p ! t then At_lock else Ended" and w = "p_wake p ! t" and l = "p_lock p"])
        (auto simp: worker_step_def thread_defs will_collect_def)
  next
    case At_sessions
    then show ?thesis using s th t len
      by (intro move [where pc = Collecting and w = "p_wake p ! t" and l = "Some (Worker t)"])
        (auto simp: worker_step_def thread_defs will_collect_def split: if_splits)
  next
    case (Working as)
    have h: "holds_sessions (p_worker p ! t)" using Working by (simp add: holds_sessions_def)
    show ?thesis
    proof (cases as)
      case Nil
      show ?thesis using s th t len Working Nil locked [OF h]
        by (intro move [where pc = At_loop and w = "p_wake p ! t" and l = None])
          (auto simp: worker_step_def thread_defs will_collect_def)
    next
      case (Cons a bs)
      show ?thesis using s th t len Working Cons
        by (intro move [where pc = "Working bs" and w = "p_wake p ! t" and l = "p_lock p"])
          (auto simp: worker_step_def thread_defs will_collect_def work_ok_def)
    qed
  next
    case Collecting
    show ?thesis
    proof (rule worker_move [OF ok, where t = t and w = "p_wake p ! t" and pc = "Working (ready_sessions t (p_table p))"])
      fix st
      assume "st \<in> set (p_table q)"
      then obtain st' where st': "st' \<in> set (p_table p)" "thread_n st' = thread_n st"
          "ready st \<longrightarrow> ready st' \<and> thread_n st \<noteq> t"
        using s Collecting take_ready_set [of st t "p_table p"] by (auto simp: worker_step_def)
      then show "thread_n st < length (p_worker p) \<and> (ready st \<longrightarrow> will_collect q (thread_n st))"
        using tab [OF st'(1)] s Collecting t by (auto simp: worker_step_def will_collect_def)
    next
      show "thread_ok q t" using s th t len Collecting ready_sessions_assigned [of t "p_table p"]
        by (auto simp: worker_step_def thread_defs work_ok_def)
    qed (use s Collecting t in \<open>auto simp: worker_step_def\<close>)
  next
    case At_lock
    then show ?thesis using retest s by (simp add: worker_step_def)
  next
    case Woken
    then show ?thesis using retest s by (simp add: worker_step_def)
  qed (use s in \<open>simp_all add: worker_step_def\<close>)
qed

text \<open>A step of the main thread, and a worker that wakes up without a signal.\<close>

lemma spurious_ok:
  assumes ok: "pool_ok p" and s: "pool_step (Spurious t) p = Some q"
  shows "pool_ok q"
proof (rule worker_move [OF ok, where t = t and w = "p_wake p ! t" and pc = Woken])
  have t: "t < length (p_worker p)" "p_worker p ! t = In_wait" using s by (auto split: if_splits)
  have th: "thread_ok p t" using ok t by (simp add: pool_ok_def)
  show "thread_ok q t" using th t s by (auto simp: thread_defs)
  fix st
  assume "st \<in> set (p_table q)"
  then show "thread_n st < length (p_worker p) \<and> (ready st \<longrightarrow> will_collect q (thread_n st))"
    using ok t s by (cases "thread_n st = t") (auto simp: pool_ok_def will_collect_def)
qed (use s in \<open>auto split: if_splits\<close>)

lemma least_populated_range:
  assumes "0 < n"
  shows "least_populated n ts < n"
  using least_index_range [of "map (\<lambda>t. length (filter (\<lambda>st. thread_n st = t) ts)) [0..<n]" 0 "2 ^ 64 - 1" 0] assms
  by (auto simp: least_populated_def)

lemma not_holding:
  assumes "pool_ok p" "p_lock p = None" "t < length (p_worker p)"
  shows "p_worker p ! t \<noteq> Working as"
  using assms by (auto simp: pool_ok_def thread_defs)

lemma add_ok:
  assumes "pool_ok p" "pool_step (Add a) p = Some q" "p_worker p \<noteq> []"
  shows "pool_ok q"
  using assms least_populated_range [of "length (p_worker p)" "p_table p"] not_holding [OF assms(1)]
  by (auto simp: main_start_def pool_ok_def thread_ok_def will_collect_def split: if_splits)

lemma remove_ok:
  assumes "pool_ok p" "pool_step (Remove a) p = Some q"
  shows "pool_ok q"
  using assms not_holding [OF assms(1)]
  by (auto simp: main_start_def pool_ok_def thread_ok_def will_collect_def distinct_map_filter split: if_splits)

lemma flush_ok:
  assumes ok: "pool_ok p" and s: "pool_step (Flush a) p = Some q"
  shows "pool_ok q"
proof (cases "find (\<lambda>st. st_session st = a) (p_table p)")
  case None
  then show ?thesis using ok s by (simp add: main_start_def split: if_splits)
next
  case (Some ct)
  then have ct: "ct \<in> set (p_table p)" "st_session ct = a" by (auto simp: find_Some_iff)
  define ts where "ts = map (\<lambda>st. if st_session st = a then st\<lparr>ready := True\<rparr> else st) (p_table p)"
  have q: "q = p\<lparr>p_table := ts, p_main := Flushing (thread_n ct)\<rparr>" "p_main p = Outside" "p_lock p = None"
    using s Some by (auto simp: main_start_def ts_def split: if_splits)
  have ids: "map st_session ts = map st_session (p_table p)" by (auto simp: ts_def)
  have "thread_n st < length (p_worker p) \<and> (ready st \<longrightarrow> will_collect q (thread_n st))" if "st \<in> set ts" for st
  proof -
    have "\<exists>st' \<in> set (p_table p). thread_n st' = thread_n st \<and> (st_session st' = a \<or> st' = st)"
      using that by (auto simp: ts_def split: if_splits)
    then obtain st' where st': "st' \<in> set (p_table p)" "thread_n st' = thread_n st"
        "st_session st' = a \<or> st' = st" by blast
    have "st_session st' = a \<Longrightarrow> st' = ct"
      using ok st'(1) ct by (auto simp: pool_ok_def distinct_map inj_on_def)
    then show ?thesis using ok st' ct(1) q by (auto simp: pool_ok_def will_collect_def)
  qed
  moreover have "thread_ok q t" if t: "t < length (p_worker p)" for t
    using ok q t not_holding [OF ok q(3) t]
    by (auto simp: pool_ok_def thread_ok_def told_to_end_def signal_to_come_def joined_def)
  moreover have "thread_n ct < length (p_worker p)" using ok ct by (auto simp: pool_ok_def)
  ultimately show ?thesis using ok q ids by (auto simp: pool_ok_def)
qed

lemma destroy_ok:
  assumes "pool_ok p" "pool_step Destroy p = Some q"
  shows "pool_ok q"
  using assms not_holding [OF assms(1)]
  by (auto simp: main_start_def pool_ok_defs split: if_splits)

text \<open>The steps that go on: a wake-up, and the stages of the shutdown.\<close>

lemma main_move:
  assumes ok: "pool_ok p"
    and q: "length (p_running q) = length (p_running p)" "length (p_wake q) = length (p_wake p)"
      "p_table q = p_table p" "length (p_worker q) = length (p_worker p)"
    and c: "\<And>t. will_collect p t \<Longrightarrow> will_collect q t"
    and m: "p_lock q = Some Main \<longleftrightarrow> (\<exists>i. p_main q = Flagging i)"
      "\<And>t. p_lock q = Some (Worker t) \<Longrightarrow> p_lock p = Some (Worker t)"
      "\<And>t. p_main q \<noteq> Flushing t"
      "\<And>i. p_main q = Flagging i \<or> p_main q = Signalling i \<Longrightarrow> i \<le> length (p_worker p)"
      "\<And>i. p_main q = Joining i \<Longrightarrow> i < length (p_worker p)"
    and t: "\<And>t. t < length (p_worker p) \<Longrightarrow> thread_ok p t \<Longrightarrow> thread_ok q t"
  shows "pool_ok q"
  using ok c m t by (auto simp: pool_ok_def q)

lemma continue_ok:
  assumes ok: "pool_ok p" and s: "pool_step Continue p = Some q"
  shows "pool_ok q"
proof -
  have len: "length (p_running p) = length (p_worker p)" "length (p_wake p) = length (p_worker p)"
    and lock: "p_lock p = Some Main \<longleftrightarrow> (\<exists>i. p_main p = Flagging i)"
    and le: "\<And>i. p_main p \<in> {Flagging i, Signalling i} \<Longrightarrow> i \<le> length (p_worker p)"
      "\<And>i. p_main p = Joining i \<Longrightarrow> i < length (p_worker p)"
      "\<And>t. p_main p = Flushing t \<Longrightarrow> t < length (p_worker p)"
    using ok by (auto simp: pool_ok_def)
  note defs = thread_defs told_to_end_def signal_to_come_def joined_def will_collect_def
  show ?thesis
  proof (cases "p_main p")
    case (Flushing t)
    have q: "q = (thread_signal t (p\<lparr>p_wake := (p_wake p)[t := True]\<rparr>))\<lparr>p_main := Outside\<rparr>"
      using s Flushing by (simp add: main_continue_def)
    show ?thesis
    proof (rule main_move [OF ok])
      fix u
      assume "u < length (p_worker p)" "thread_ok p u"
      then show "thread_ok q u" using Flushing len
        by (cases "u = t") (auto simp: q defs)
    qed (use Flushing len lock le in \<open>auto simp: q will_collect_def nth_list_update split: if_splits\<close>)
  next
    case (Flagging i)
    show ?thesis
    proof (cases "i < length (p_worker p)")
      case True
      then have q: "q = p\<lparr>p_running := (p_running p)[i := False], p_wake := (p_wake p)[i := True],
          p_main := Flagging (i + 1)\<rparr>"
        using s Flagging by (simp add: main_continue_def)
      show ?thesis
      proof (rule main_move [OF ok])
        fix u
        assume "u < length (p_worker p)" "thread_ok p u"
        then show "thread_ok q u" using Flagging len
          by (cases "u = i") (auto simp: q defs)
      qed (use Flagging len lock le True in \<open>auto simp: q will_collect_def nth_list_update split: if_splits\<close>)
    next
      case False
      then have n: "i = length (p_worker p)" using le(1) [of i] Flagging by simp
      have q: "q = p\<lparr>p_lock := None, p_main := Signalling 0\<rparr>"
        using s Flagging False by (simp add: main_continue_def)
      show ?thesis
      proof (rule main_move [OF ok])
        fix u
        assume "u < length (p_worker p)" "thread_ok p u"
        then show "thread_ok q u" using Flagging lock n by (auto simp: q defs)
      qed (use Flagging lock in \<open>auto simp: q will_collect_def\<close>)
    qed
  next
    case (Signalling i)
    show ?thesis
    proof (cases "i < length (p_worker p)")
      case True
      then have q: "q = (thread_signal i p)\<lparr>p_main := Joining i\<rparr>"
        using s Signalling by (simp add: main_continue_def)
      show ?thesis
      proof (rule main_move [OF ok])
        fix u
        assume "u < length (p_worker p)" "thread_ok p u"
        then show "thread_ok q u" using Signalling len
          by (cases "u = i") (auto simp: q defs)
      qed (use Signalling lock True in \<open>auto simp: q will_collect_def nth_list_update split: if_splits\<close>)
    next
      case False
      then have n: "i = length (p_worker p)" using le(1) [of i] Signalling by simp
      have q: "q = p\<lparr>p_main := Freed\<rparr>"
        using s Signalling False by (simp add: main_continue_def)
      show ?thesis
      proof (rule main_move [OF ok])
        fix u
        assume "u < length (p_worker p)" "thread_ok p u"
        then show "thread_ok q u" using Signalling n by (auto simp: q defs)
      qed (use Signalling lock in \<open>auto simp: q will_collect_def\<close>)
    qed
  next
    case (Joining i)
    then have q: "q = p\<lparr>p_main := Signalling (i + 1)\<rparr>" and e: "p_worker p ! i = Ended"
      using s by (simp_all add: main_continue_def split: if_splits)
    show ?thesis
    proof (rule main_move [OF ok])
      fix u
      assume "u < length (p_worker p)" "thread_ok p u"
      then show "thread_ok q u" using Joining e by (auto simp: q defs less_Suc_eq)
    qed (use Joining lock le in \<open>auto simp: q will_collect_def\<close>)
  qed (use s in \<open>simp_all add: main_continue_def\<close>)
qed

lemma worker_step_length: "worker_step t p = Some q \<Longrightarrow> length (p_worker q) = length (p_worker p)"
  by (cases "p_worker p ! t") (auto simp: worker_step_def split: if_splits list.splits)

lemma main_start_worker: "main_start act p = Some q \<Longrightarrow> p_worker q = p_worker p"
  by (cases act) (auto simp: main_start_def split: if_splits option.splits)

lemma main_continue_length: "main_continue p = Some q \<Longrightarrow> length (p_worker q) = length (p_worker p)"
  by (cases "p_main p") (auto simp: main_continue_def Let_def split: if_splits)

lemma pool_step_length: "pool_step act p = Some q \<Longrightarrow> length (p_worker q) = length (p_worker p)"
  by (cases act)
    (auto dest: worker_step_length main_start_worker main_continue_length split: if_splits)

lemma pool_step_ok:
  assumes ok: "pool_ok p" and s: "pool_step act p = Some q" and n: "p_worker p \<noteq> []"
  shows "pool_ok q"
proof (cases act)
  case (Work t)
  then show ?thesis using worker_step_ok [OF ok] s by (simp split: if_splits)
next
  case (Spurious t)
  then show ?thesis using spurious_ok [OF ok] s by blast
next
  case (Add a)
  then show ?thesis using add_ok [OF ok] s n by blast
next
  case (Remove a)
  then show ?thesis using remove_ok [OF ok] s by blast
next
  case (Flush a)
  then show ?thesis using flush_ok [OF ok] s by blast
next
  case Destroy
  then show ?thesis using destroy_ok [OF ok] s by blast
next
  case Continue
  then show ?thesis using continue_ok [OF ok] s by blast
qed

lemma pool_run_ok: "pool_run p acts q \<Longrightarrow> pool_ok p \<Longrightarrow> p_worker p \<noteq> [] \<Longrightarrow>
    pool_ok q \<and> length (p_worker q) = length (p_worker p)"
proof (induction rule: pool_run.induct)
  case (run_snoc p acts q act r)
  then show ?case using pool_step_ok [of q act r] pool_step_length [of act q r]
    by (metis length_0_conv)
qed simp

text \<open>Running a schedule, for the examples.\<close>

fun pool_exec :: "action list \<Rightarrow> pool \<Rightarrow> pool option" where
  "pool_exec [] p = Some p"
| "pool_exec (act # acts) p =
     (case pool_step act p of None \<Rightarrow> None | Some q \<Rightarrow> pool_exec acts q)"

lemma pool_run_trans: "pool_run q acts r \<Longrightarrow> pool_run p as q \<Longrightarrow> pool_run p (as @ acts) r"
proof (induction rule: pool_run.induct)
  case (run_snoc q acts r act u)
  then show ?case using pool_run.run_snoc [of p "as @ acts" r act u] by simp
qed simp

lemma pool_exec_run: "pool_exec acts p = Some q \<Longrightarrow> pool_run p acts q"
proof (induction acts arbitrary: p)
  case (Cons act acts)
  then obtain r where "pool_step act p = Some r" "pool_run r acts q"
    by (auto split: option.splits)
  then show ?case using pool_run_trans [of r acts q p "[act]"] run_snoc [OF run_nil, of act p r] by simp
qed (simp add: run_nil)

end
