(* ===== verification/Spool_Shutdown.thy ===== *)
theory Spool_Shutdown
  imports Spool_Threads Server_Props
begin

text \<open>
  What holds of every schedule of the pool's threads (\<open>Spool_Threads\<close>): no wake-up is lost, sessions
  are processed under the lock, and \<open>spool_destroy\<close> ends, with a bound on its steps.  The last
  property ties the step \<open>Collecting\<close> to the loop on objects of \<open>Spool\<close>.
\<close>

section \<open>Shutdown\<close>

text \<open>
  A bound on the steps that are left once \<open>spool_destroy\<close> has begun: what a worker can do before
  it waits again or ends, another round if it will be woken, and the steps of the main thread.
\<close>

definition shutting_down :: "main_pc \<Rightarrow> bool" where
  "shutting_down m \<longleftrightarrow> (case m of Outside \<Rightarrow> False | Flushing t \<Rightarrow> False | _ \<Rightarrow> True)"

definition pc_steps :: "nat \<Rightarrow> worker_pc \<Rightarrow> nat" where
  "pc_steps k pc =
     (case pc of Ended \<Rightarrow> 0 | In_wait \<Rightarrow> 0 | At_lock \<Rightarrow> 1 | Woken \<Rightarrow> 1 | At_loop \<Rightarrow> 2
      | Working as \<Rightarrow> length as + 3 | Collecting \<Rightarrow> k + 4 | At_sessions \<Rightarrow> k + 5)"

definition worker_steps :: "nat \<Rightarrow> worker_pc \<Rightarrow> bool \<Rightarrow> nat" where
  "worker_steps k pc w = pc_steps k pc + (if w then k + 5 else 0)"

definition main_steps :: "nat \<Rightarrow> nat \<Rightarrow> main_pc \<Rightarrow> nat" where
  "main_steps k n m =
     (case m of Flagging i \<Rightarrow> (n - i) * (k + 6) + 3 * n + 2
      | Signalling i \<Rightarrow> 3 * (n - i) + 1 | Joining i \<Rightarrow> 3 * (n - i) - 1 | _ \<Rightarrow> 0)"

definition shutdown_steps :: "pool \<Rightarrow> nat" where
  "shutdown_steps p =
     main_steps (length (p_table p)) (length (p_worker p)) (p_main p) +
     (\<Sum>t<length (p_worker p). worker_steps (length (p_table p)) (p_worker p ! t) (p_wake p ! t))"

lemma sum_update:
  fixes f g :: "nat \<Rightarrow> nat"
  assumes "t < n" "\<And>u. u < n \<Longrightarrow> u \<noteq> t \<Longrightarrow> g u = f u"
  shows "sum g {..<n} + f t = sum f {..<n} + g t"
proof -
  have "sum g ({..<n} - {t}) = sum f ({..<n} - {t})" by (rule sum.cong) (use assms(2) in auto)
  then show ?thesis
    using sum.remove [of "{..<n}" t g] sum.remove [of "{..<n}" t f] assms(1) by simp
qed

text \<open>Only worker \<open>t\<close> and the main thread moved.\<close>

lemma shutdown_steps_move:
  assumes "t < length (p_worker p)" "length (p_worker q) = length (p_worker p)"
    "length (p_table q) = length (p_table p)"
    "\<And>u. u < length (p_worker p) \<Longrightarrow> u \<noteq> t \<Longrightarrow> p_worker q ! u = p_worker p ! u \<and> p_wake q ! u = p_wake p ! u"
  shows "shutdown_steps q + main_steps (length (p_table p)) (length (p_worker p)) (p_main p) +
      worker_steps (length (p_table p)) (p_worker p ! t) (p_wake p ! t) =
    shutdown_steps p + main_steps (length (p_table p)) (length (p_worker p)) (p_main q) +
      worker_steps (length (p_table p)) (p_worker q ! t) (p_wake q ! t)"
  using sum_update [of t "length (p_worker p)"
      "\<lambda>u. worker_steps (length (p_table p)) (p_worker q ! u) (p_wake q ! u)"
      "\<lambda>u. worker_steps (length (p_table p)) (p_worker p ! u) (p_wake p ! u)"] assms
  by (simp add: shutdown_steps_def)

lemma work_shrinks:
  assumes ok: "pool_ok p" and s: "pool_step (Work t) p = Some q"
  shows "shutdown_steps q < shutdown_steps p \<and> p_main q = p_main p \<and> length (p_table q) = length (p_table p)"
proof -
  have t: "t < length (p_worker p)" and s': "worker_step t p = Some q" using s by (simp_all split: if_splits)
  have th: "thread_ok p t" and len: "length (p_wake p) = length (p_worker p)"
    using ok t by (simp_all add: pool_ok_def)
  have keep: "p_main q = p_main p" "length (p_table q) = length (p_table p)"
      "\<And>u. u \<noteq> t \<Longrightarrow> p_worker q ! u = p_worker p ! u \<and> p_wake q ! u = p_wake p ! u"
    using s' by (cases "p_worker p ! t"; auto simp: worker_step_def split: if_splits list.splits)+
  have "worker_steps (length (p_table p)) (p_worker q ! t) (p_wake q ! t) <
      worker_steps (length (p_table p)) (p_worker p ! t) (p_wake p ! t)"
    using s' t len
    by (cases "p_worker p ! t")
      (auto simp: worker_step_def worker_steps_def pc_steps_def ready_sessions_def less_Suc_eq_le split: if_splits list.splits)
  then show ?thesis
    using shutdown_steps_move [OF t pool_step_length [OF s] keep(2)] keep by simp
qed

lemma spurious_grows:
  assumes s: "pool_step (Spurious t) p = Some q"
  shows "shutdown_steps q = shutdown_steps p + 1 \<and> p_main q = p_main p \<and> length (p_table q) = length (p_table p)"
proof -
  have t: "t < length (p_worker p)" and q: "q = at_pc t Woken p" and w: "p_worker p ! t = In_wait"
    using s by (simp_all split: if_splits)
  then show ?thesis
    using shutdown_steps_move [OF t pool_step_length [OF s]] by (simp add: worker_steps_def pc_steps_def)
qed

lemma continue_shrinks:
  assumes ok: "pool_ok p" and s: "pool_step Continue p = Some q" and d: "shutting_down (p_main p)"
  shows "shutdown_steps q < shutdown_steps p \<and> shutting_down (p_main q) \<and> length (p_table q) = length (p_table p)"
proof -
  have len: "length (p_wake p) = length (p_worker p)" using ok by (simp add: pool_ok_def)
  show ?thesis
  proof (cases "p_main p")
    case (Flagging i)
    show ?thesis
    proof (cases "i < length (p_worker p)")
      case True
      then have q: "q = p\<lparr>p_running := (p_running p)[i := False], p_wake := (p_wake p)[i := True],
          p_main := Flagging (i + 1)\<rparr>"
        using s Flagging by (simp add: main_continue_def)
      have "length (p_worker p) - i = Suc (length (p_worker p) - (i + 1))" using True by simp
      then show ?thesis
        using shutdown_steps_move [OF True pool_step_length [OF s]] Flagging True len
        by (simp add: q worker_steps_def main_steps_def shutting_down_def split: if_splits)
    next
      case False
      then show ?thesis using s Flagging
        by (auto simp: main_continue_def shutdown_steps_def main_steps_def shutting_down_def)
    qed
  next
    case (Signalling i)
    show ?thesis
    proof (cases "i < length (p_worker p)")
      case True
      then have q: "q = (thread_signal i p)\<lparr>p_main := Joining i\<rparr>"
        using s Signalling by (simp add: main_continue_def)
      show ?thesis
        using shutdown_steps_move [OF True pool_step_length [OF s]] Signalling True
        by (cases "p_worker p ! i = In_wait")
          (simp_all add: q worker_steps_def pc_steps_def main_steps_def shutting_down_def)
    next
      case False
      then show ?thesis using s Signalling
        by (auto simp: main_continue_def shutdown_steps_def main_steps_def shutting_down_def)
    qed
  next
    case (Joining i)
    then have "i < length (p_worker p)" using ok by (simp add: pool_ok_def)
    then show ?thesis using s Joining
      by (auto simp: main_continue_def shutdown_steps_def main_steps_def shutting_down_def split: if_splits)
  qed (use s d in \<open>simp_all add: main_continue_def shutting_down_def\<close>)
qed

lemma shutdown_progress:
  assumes ok: "pool_ok p" and d: "shutting_down (p_main p)" "p_main p \<noteq> Freed"
  shows "pool_step Continue p \<noteq> None \<or> (\<exists>t. pool_step (Work t) p \<noteq> None)"
proof (cases "p_main p")
  case (Joining i)
  have i: "i < length (p_worker p)" and th: "thread_ok p i"
    using ok Joining by (auto simp: pool_ok_def)
  show ?thesis
  proof (cases "p_worker p ! i = At_sessions \<and> p_lock p \<noteq> None")
    case True
    then obtain ow where ow: "p_lock p = Some ow" by blast
    with ok Joining obtain u where u: "ow = Worker u" "u < length (p_worker p)"
      by (cases ow) (auto simp: pool_ok_def)
    then have "holds_sessions (p_worker p ! u)" using ok ow by (auto simp: pool_ok_def thread_ok_def)
    then have "pool_step (Work u) p \<noteq> None" using u
      by (auto simp: worker_step_def holds_sessions_def split: worker_pc.splits list.splits)
    then show ?thesis by blast
  next
    case False
    have "p_worker p ! i \<noteq> In_wait"
      using th Joining by (auto simp: thread_defs told_to_end_def signal_to_come_def)
    then have "p_worker p ! i = Ended \<or> pool_step (Work i) p \<noteq> None" using i False
      by (auto simp: worker_step_def split: worker_pc.splits list.splits)
    then show ?thesis
    proof
      assume "p_worker p ! i = Ended"
      then show ?thesis using Joining by (simp add: main_continue_def)
    qed blast
  qed
qed (use d in \<open>simp_all add: main_continue_def shutting_down_def\<close>)

fun is_spurious :: "action \<Rightarrow> bool" where
  "is_spurious (Spurious t) = True"
| "is_spurious act = False"

lemma shutdown_run:
  assumes "pool_run p acts q" "pool_ok p" "p_worker p \<noteq> []" "shutting_down (p_main p)"
  shows "shutting_down (p_main q) \<and>
    length acts + shutdown_steps q \<le> shutdown_steps p + 2 * length (filter is_spurious acts)"
  using assms
proof (induction rule: pool_run.induct)
  case (run_snoc p acts q act r)
  have ok: "pool_ok q" using pool_run_ok [OF run_snoc.hyps(1)] run_snoc.prems by blast
  have IH: "shutting_down (p_main q)"
      "length acts + shutdown_steps q \<le> shutdown_steps p + 2 * length (filter is_spurious acts)"
    using run_snoc.IH run_snoc.prems by blast+
  then have out: "p_main q \<noteq> Outside" by (auto simp: shutting_down_def)
  note step = run_snoc.hyps(2)
  show ?case
  proof (cases act)
    case (Work t)
    then show ?thesis using work_shrinks [OF ok, of t r] step IH by simp
  next
    case (Spurious t)
    then show ?thesis using spurious_grows [of t q r] step IH by simp
  next
    case Continue
    then show ?thesis using continue_shrinks [OF ok _ IH(1), of r] step IH by simp
  qed (use step out in \<open>simp_all add: main_start_def\<close>)
qed simp

lemma pool_reach_ok:
  assumes "0 < n" "pool_run (pool_start n) acts p"
  shows "pool_ok p" "length (p_worker p) = n" "p_worker p \<noteq> []"
proof -
  have "pool_ok p \<and> length (p_worker p) = length (p_worker (pool_start n))"
    using pool_run_ok [OF assms(2) pool_start_ok] assms(1) by (simp add: pool_start_def)
  then show "pool_ok p" "length (p_worker p) = n" "p_worker p \<noteq> []"
    using assms(1) by (auto simp: pool_start_def)
qed

section \<open>Properties\<close>

text \<open>
  C5. No flush is lost: in every state that a schedule reaches while the main thread is outside
  the pool, a session that is marked ready belongs to a thread that is not waiting on its
  condition and has not returned, and that thread either finds \<open>should_wake\<close> set at its next
  test or is on its way to collect the ready sessions.
\<close>

theorem no_flush_is_lost:
  assumes "0 < n" "pool_run (pool_start n) acts p" "p_main p = Outside"
    and "st \<in> set (p_table p)" "ready st"
  shows "p_worker p ! thread_n st \<notin> {In_wait, Ended} \<and>
    (p_wake p ! thread_n st \<or> p_worker p ! thread_n st \<in> {At_sessions, Collecting})"
proof -
  note ok = pool_reach_ok [OF assms(1,2)]
  have "thread_n st < length (p_worker p)" "will_collect p (thread_n st)"
    using ok(1) assms(4,5) by (auto simp: pool_ok_def)
  moreover from this have "thread_ok p (thread_n st)" using ok(1) by (simp add: pool_ok_def)
  ultimately show ?thesis using assms(3)
    by (auto simp: will_collect_def thread_ok_def told_to_end_def signal_to_come_def)
qed

definition flushed_early :: pool where
  "flushed_early = \<lparr>p_running = [True], p_wake = [True],
     p_table = [\<lparr>st_session = 7, thread_n = 0, ready = True\<rparr>], p_lock = None,
     p_worker = [Woken], p_main = Outside\<rparr>"

lemmas exec_simps = pool_start_def worker_step_def main_start_def main_continue_def at_pc_def
  thread_signal_def least_populated_def ready_sessions_def take_ready_def nth_Cons'

theorem no_flush_is_lost_witness:
  "p_worker flushed_early ! 0 \<notin> {In_wait, Ended} \<and>
     (p_wake flushed_early ! 0 \<or> p_worker flushed_early ! 0 \<in> {At_sessions, Collecting})"
proof -
  have "pool_exec [Add 7, Work 0, Work 0, Flush 7, Spurious 0, Work 0, Continue] (pool_start 1) = Some flushed_early"
    by (simp add: exec_simps flushed_early_def)
  from no_flush_is_lost [of 1, OF _ pool_exec_run [OF this]] show ?thesis
    by (simp add: flushed_early_def)
qed

text \<open>
  C19. Sessions are processed one thread at a time and only while they are in the table: when a
  worker is about to process a session, the session is in the table and assigned to that
  worker, no other worker is collecting or processing, and the main thread can neither remove
  a session nor add one.
\<close>

theorem processed_session_is_protected:
  assumes "0 < n" "pool_run (pool_start n) acts p" "t < n" "p_worker p ! t = Working (a # as)"
  shows "(\<exists>st \<in> set (p_table p). st_session st = a \<and> thread_n st = t) \<and>
    (\<forall>u < n. u \<noteq> t \<longrightarrow> \<not> holds_sessions (p_worker p ! u)) \<and>
    (\<forall>b. pool_step (Remove b) p = None \<and> pool_step (Add b) p = None)"
proof -
  note ok = pool_reach_ok [OF assms(1,2)]
  have th: "thread_ok p t" using ok assms(3) by (simp add: pool_ok_def)
  then have l: "p_lock p = Some (Worker t)" using assms(4) by (simp add: thread_defs)
  have "a \<in> set (assigned (p_table p) t)" using th assms(4) by (simp add: thread_ok_def work_ok_def)
  then show ?thesis using ok l by (auto simp: assigned_def pool_ok_def thread_ok_def main_start_def)
qed

definition busy_pool :: pool where
  "busy_pool = \<lparr>p_running = [True, True], p_wake = [False, False],
     p_table = [\<lparr>st_session = 7, thread_n = 0, ready = False\<rparr>, \<lparr>st_session = 8, thread_n = 1, ready = False\<rparr>],
     p_lock = Some (Worker 1), p_worker = [At_loop, Working [8]], p_main = Outside\<rparr>"

theorem processed_session_is_protected_witness:
  "p_worker busy_pool ! 1 = Working [8] \<and> pool_step (Remove 8) busy_pool = None \<and>
     \<not> holds_sessions (p_worker busy_pool ! 0)"
proof -
  have "pool_exec [Add 7, Add 8, Flush 8, Continue, Work 1, Work 1, Work 1, Work 1] (pool_start (Suc (Suc 0))) = Some busy_pool"
    by (simp add: exec_simps busy_pool_def)
  note run = pool_exec_run [OF this]
  have w: "p_worker busy_pool ! 1 = Working [8]" by (simp add: busy_pool_def)
  from processed_session_is_protected [OF _ run _ w] show ?thesis using w by simp
qed

text \<open>
  C14. \<open>spool_destroy\<close> returns: from any state that a schedule reaches in it, every schedule has
  at most \<open>shutdown_steps\<close> more steps and two for each wake-up without a signal; and when no
  thread can step any more, all workers have returned and the pool is freed.
\<close>

theorem spool_destroy_ends:
  assumes "0 < n" "pool_run (pool_start n) acts p" "shutting_down (p_main p)" "pool_run p acts' q"
  shows "length acts' \<le> shutdown_steps p + 2 * length (filter is_spurious acts') \<and>
    ((\<forall>act. \<not> is_spurious act \<longrightarrow> pool_step act q = None) \<longrightarrow>
       p_main q = Freed \<and> (\<forall>t < n. p_worker q ! t = Ended))"
proof -
  note ok = pool_reach_ok [OF assms(1,2)]
  note run = shutdown_run [OF assms(4) ok(1,3) assms(3)]
  have q: "pool_ok q" "length (p_worker q) = n" using pool_run_ok [OF assms(4) ok(1,3)] ok(2) by simp_all
  have "p_main q = Freed" if "\<forall>act. \<not> is_spurious act \<longrightarrow> pool_step act q = None"
  proof -
    have "pool_step Continue q = None" "\<And>t. pool_step (Work t) q = None"
      using that [rule_format, of Continue] that [rule_format, of "Work t" for t] by (simp_all del: pool_step.simps)
    then show ?thesis using shutdown_progress [OF q(1)] run by metis
  qed
  moreover have "p_worker q ! t = Ended" if "p_main q = Freed" "t < n" for t
    using q that by (auto simp: pool_ok_def thread_ok_def joined_def)
  ultimately show ?thesis using run by auto
qed

text \<open>A pool of one thread that is told to end while it waits, and the end of its shutdown.\<close>

definition ending_pool :: pool where
  "ending_pool = \<lparr>p_running = [True], p_wake = [False], p_table = [], p_lock = Some Main,
     p_worker = [In_wait], p_main = Flagging 0\<rparr>"

definition ended_pool :: pool where
  "ended_pool = \<lparr>p_running = [False], p_wake = [False], p_table = [], p_lock = None,
     p_worker = [Ended], p_main = Freed\<rparr>"

abbreviation ending_schedule :: "action list" where
  "ending_schedule \<equiv> [Continue, Continue, Continue, Work 0, Work 0, Work 0, Work 0, Work 0, Continue, Continue]"

theorem spool_destroy_ends_witness:
  "pool_run ending_pool ending_schedule ended_pool \<and> length ending_schedule \<le> shutdown_steps ending_pool \<and>
   p_main ended_pool = Freed \<and> p_worker ended_pool ! 0 = Ended"
proof -
  have "pool_exec [Work 0, Work 0, Destroy] (pool_start 1) = Some ending_pool"
    by (simp add: exec_simps ending_pool_def)
  note start = pool_exec_run [OF this]
  have "pool_exec ending_schedule ending_pool = Some ended_pool"
    by (simp add: exec_simps ending_pool_def ended_pool_def)
  note run = pool_exec_run [OF this]
  have "shutting_down (p_main ending_pool)" by (simp add: ending_pool_def shutting_down_def)
  moreover have "pool_step act ended_pool = None" if "\<not> is_spurious act" for act
    using that by (cases act) (simp_all add: exec_simps ended_pool_def)
  ultimately show ?thesis using spool_destroy_ends [OF _ start _ run] run by simp
qed

text \<open>
  What \<open>Collecting\<close> does in one step is what the collecting loop does on the objects: if the
  elements of the table are distinct objects with the contents \<open>ts\<close> and memory suffices, the loop
  returns the ready sessions of the thread in the order of the table, and leaves the contents of
  \<open>ts\<close> with their \<open>ready\<close> cleared.
\<close>

theorem collect_ready_is_collecting:
  assumes "distinct es" "map (thread_elems s) es = map Some ts"
    and "\<forall>n. malloc_ok (mem s (log s)) n" "length acc + length es < 2 ^ 32"
  shows "\<exists>s'. collect_ready t es arr acc s = (Inr (acc @ ready_sessions t ts), s') \<and>
    map (thread_elems s') es = map Some (take_ready t ts) \<and>
    (\<forall>e. e \<notin> set es \<longrightarrow> thread_elems s' e = thread_elems s e)"
  using assms
proof (induction es arbitrary: ts arr acc s)
  case Nil
  then show ?case by (simp add: ready_sessions_def take_ready_def)
next
  case (Cons e es)
  obtain st ts' where ts: "ts = st # ts'" "thread_elems s e = Some st" "map (thread_elems s) es = map Some ts'"
    using Cons.prems(2) by (cases ts) auto
  show ?case
  proof (cases "ready st \<and> thread_n st = t")
    case True
    have "unat (word_of_nat ((length acc + 1) * 8) :: size_t) = (length acc + 1) * 8"
      using Cons.prems(4) by (intro unat_of_nat_size) simp
    then have "(word_of_nat ((length acc + 1) * 8) :: size_t) \<noteq> 0" by (metis unat_0 mult_eq_0_iff add_eq_0_iff_both_eq_0 zero_neq_numeral zero_neq_one)
    then obtain b where b: "REALLOC (mem s (log s)) arr (word_of_nat ((length acc + 1) * 8)) = Inr (Some b)"
      using REALLOC_ok [of "mem s (log s)" "word_of_nat ((length acc + 1) * 8)" arr] Cons.prems(3) by blast
    define s1 where "s1 = s\<lparr>thread_elems := (thread_elems s)(e := Some (st\<lparr>ready := False\<rparr>))\<rparr>"
    have "map (thread_elems s1) es = map Some ts'"
      using ts(3) Cons.prems(1) by (auto simp: s1_def intro!: map_cong)
    moreover have "distinct es" "\<forall>n. malloc_ok (mem s1 (log s1)) n" "length (acc @ [st_session st]) + length es < 2 ^ 32"
      using Cons.prems(1,3,4) by (simp_all add: s1_def)
    ultimately obtain s' where s': "collect_ready t es (Some b) (acc @ [st_session st]) s1 =
        (Inr ((acc @ [st_session st]) @ ready_sessions t ts'), s')"
        "map (thread_elems s') es = map Some (take_ready t ts')"
        "\<forall>e. e \<notin> set es \<longrightarrow> thread_elems s' e = thread_elems s1 e"
      using Cons.IH [of s1 ts' "acc @ [st_session st]" "Some b"] by blast
    have "collect_ready t (e # es) arr acc s = collect_ready t es (Some b) (acc @ [st_session st]) s1"
      using True ts(2) b by (simp add: bnd_deref s1_def bnd_def [of "with_libc _"] with_libc_run)
    then show ?thesis using s' True Cons.prems(1) ts(1)
      by (auto simp: s1_def ready_sessions_def take_ready_def)
  next
    case False
    obtain s' where s': "collect_ready t es arr acc s = (Inr (acc @ ready_sessions t ts'), s')"
        "map (thread_elems s') es = map Some (take_ready t ts')"
        "\<forall>e. e \<notin> set es \<longrightarrow> thread_elems s' e = thread_elems s e"
      using Cons.IH [of s ts' acc arr] Cons.prems(1,3,4) ts(3) by auto
    have "collect_ready t (e # es) arr acc s = collect_ready t es arr acc s"
      using False ts(2) by (auto simp: bnd_deref)
    then show ?thesis using s' False Cons.prems(1) ts(1,2)
      by (auto simp: ready_sessions_def take_ready_def)
  qed
qed

definition collecting_example :: "unit server" where
  "collecting_example = idle_server\<lparr>mem := \<lambda>_. glibc, thread_elems := [1 \<mapsto> \<lparr>st_session = 7, thread_n = 0, ready = True\<rparr>,
     2 \<mapsto> \<lparr>st_session = 8, thread_n = 1, ready = True\<rparr>, 3 \<mapsto> \<lparr>st_session = 9, thread_n = 0, ready = True\<rparr>]\<rparr>"

theorem collect_ready_is_collecting_witness:
  "\<exists>s'. collect_ready 0 [1, 2, 3] None [] collecting_example = (Inr [7, 9], s')"
proof -
  have "distinct [1, 2, 3 :: nat]" by simp
  moreover have "map (thread_elems collecting_example) [1, 2, 3] =
      map Some [\<lparr>st_session = 7, thread_n = 0, ready = True\<rparr>, \<lparr>st_session = 8, thread_n = 1, ready = True\<rparr>,
        \<lparr>st_session = 9, thread_n = 0, ready = True\<rparr>]"
    by (simp add: collecting_example_def)
  moreover have "\<forall>n. malloc_ok (mem collecting_example (log collecting_example)) n"
    by (simp add: collecting_example_def glibc_def)
  moreover have "ready_sessions 0 [\<lparr>st_session = 7, thread_n = 0, ready = True\<rparr>,
      \<lparr>st_session = 8, thread_n = 1, ready = True\<rparr>, \<lparr>st_session = 9, thread_n = 0, ready = True\<rparr>] = [7, 9]"
    by (simp add: ready_sessions_def)
  ultimately show ?thesis using collect_ready_is_collecting [of "[1, 2, 3]" collecting_example _ "[]" 0 None]
    by (simp del: collect_ready.simps list.map) blast
qed

end
