(* ===== verification/Spool_Rounds.thy ===== *)
theory Spool_Rounds
  imports Spool_Shutdown
begin

text \<open>
  The threads of the pool against a machine that knows no threads: its state is the table of
  sessions, and a round of a worker takes all ready sessions of the worker at once and
  processes them.  This is the view in which \<open>Spool\<close> and \<open>Server_Run\<close> treat worker rounds.
\<close>

section \<open>The machine of rounds\<close>





section \<open>What the threads process\<close>





















end
