(* ===== verification/Client.thy ===== *)
theory Client
  imports Process
begin

text \<open>
  The TCP client (\<open>src/client/tcpclient.c\<close>) on POSIX sockets.  A client is its table of
  functions and its socket; a receive yields what \<open>recv\<close> returned, the bytes it stored and
  \<open>errno\<close>.  The elapsed time of \<open>tcpclient_recv_spinlock\<close>, a \<open>double\<close> in the code, is compared
  in exact arithmetic.
\<close>

definition BUF_SZ :: size_t where "BUF_SZ = 16384"

record 'z client_vtable =
  cl_recv :: "int \<Rightarrow> size_t \<Rightarrow> ('z io_scheme, int \<times> byte list \<times> int) prog"
  cl_send :: "int \<Rightarrow> byte list \<Rightarrow> ('z io_scheme, int) prog"

record 'z tcp_client =
  client_vt :: "'z client_vtable"
  client_fd :: int

section \<open>Connecting\<close>

definition client_recv :: "int \<Rightarrow> size_t \<Rightarrow> ('z io_scheme, int \<times> byte list \<times> int) prog" where
  "client_recv fd sz =
     bnd (sys (SysRecv fd sz)) (\<lambda>r. ret (fst (recv_result sz r), snd (recv_result sz r), rep_errno r))"

definition client_send :: "int \<Rightarrow> byte list \<Rightarrow> ('z io_scheme, int) prog" where
  "client_send fd bytes = bnd (sys (SysSend fd bytes)) (\<lambda>r. ret (send_result bytes r))"

text \<open>
  The addresses are tried in order.  The result is the last value of \<open>sockfd\<close> and whether the
  loop was left by \<open>break\<close>, that is with \<open>p\<close> not NULL.
\<close>

fun connect_first :: "nat list \<Rightarrow> int \<Rightarrow> ('z io_scheme, int \<times> bool) prog" where
  "connect_first [] sockfd = ret (sockfd, False)"
| "connect_first (a # as) _ =
     bnd (sys (SysSocket a)) (\<lambda>r.
     let sockfd = ret_of r in
     if sockfd = - 1 then connect_first as sockfd
     else
       bnd (sys (SysConnect sockfd a)) (\<lambda>r.
       if ret_of r = - 1
       then bnd (sys (SysClose sockfd)) (\<lambda>_. connect_first as sockfd)
       else ret (sockfd, True)))"

definition open_connection :: "string \<Rightarrow> int \<Rightarrow> ('z io_scheme, int) prog" where
  "open_connection host port =
     bnd (sys (SysGetaddrinfo (Some host) port)) (\<lambda>r.
     if rep_ret r \<noteq> 0 then ret INVALID_SOCKET
     else
       bnd (connect_first (rep_addrs r) INVALID_SOCKET) (\<lambda>(sockfd, connected).
       if \<not> connected then ret INVALID_SOCKET
       else
         bnd (sys (SysFcntl sockfd)) (\<lambda>flags.
         if ret_of flags = - 1 then ret 0
         else
           bnd (sys (SysNonblock sockfd)) (\<lambda>_.
           bnd (sys SysFreeaddrinfo) (\<lambda>_.
           ret sockfd)))))"

definition tcpclient_initialize :: "string \<Rightarrow> int \<Rightarrow> ('z io_scheme, int \<times> 'z tcp_client) prog" where
  "tcpclient_initialize host port =
     bnd (open_connection host port) (\<lambda>fd.
     ret (if fd \<noteq> INVALID_SOCKET then 0 else - 1,
       \<lparr>client_vt = \<lparr>cl_recv = client_recv, cl_send = client_send\<rparr>, client_fd = fd\<rparr>))"

definition tcpclient_finalize :: "'z tcp_client \<Rightarrow> ('z io_scheme, unit) prog" where
  "tcpclient_finalize t =
     guard_do (client_fd t \<noteq> INVALID_SOCKET) (bnd (sys (SysClose (client_fd t))) (\<lambda>_. ret ()))"

text \<open>\<open>tcpclient_destroy\<close> also frees the object.\<close>

definition tcpclient_destroy :: "'z tcp_client \<Rightarrow> ('z io_scheme, unit) prog" where
  "tcpclient_destroy t = tcpclient_finalize t"

definition tcpclient_create :: "string \<Rightarrow> int \<Rightarrow> ('z io_scheme, 'z tcp_client option) prog" where
  "tcpclient_create host port =
     bnd (with_libc (\<lambda>L. Inr (c_malloc L 24))) (\<lambda>p.
     if p = None then halt (Exit EXIT_FAILURE)
     else
       bnd (tcpclient_initialize host port) (\<lambda>(r, t).
       if r < 0 then bnd (tcpclient_destroy t) (\<lambda>_. ret None) else ret (Some t)))"

section \<open>Sending and receiving\<close>

definition tcpclient_send :: "'z tcp_client \<Rightarrow> byte list \<Rightarrow> ('z io_scheme, int) prog" where
  "tcpclient_send t bytes = cl_send (client_vt t) (client_fd t) bytes"

definition tcpclient_send_text :: "'z tcp_client \<Rightarrow> byte list \<Rightarrow> ('z io_scheme, int) prog" where
  "tcpclient_send_text t text' =
     bnd (lift (c_string text')) (\<lambda>bytes. cl_send (client_vt t) (client_fd t) bytes)"

text \<open>
  When nothing was received the code calls \<open>free(data)\<close>, on the address of the caller's
  pointer and not on the block it points to; that address is not one that \<open>malloc\<close> returned,
  unless \<open>on_heap\<close>: the pointer is itself an object at the start of a heap block.
\<close>

definition tcpclient_recv_nonblock ::
  "bool \<Rightarrow> 'z tcp_client \<Rightarrow> ('z io_scheme, int \<times> block option) prog" where
  "tcpclient_recv_nonblock on_heap t =
     bnd (with_libc (\<lambda>L. MALLOC L BUF_SZ)) (\<lambda>p.
     bnd (cl_recv (client_vt t) (client_fd t) BUF_SZ) (\<lambda>(r, bytes, errno).
     bnd (lift (mem_write p 0 bytes)) (\<lambda>p'.
     if r \<le> 0
     then (if on_heap then ret (if r < 0 \<and> errno = EAGAIN then 0 else r, None) else halt Undefined)
     else ret (r, p'))))"

text \<open>
  The clock in nanoseconds.  \<open>elapsed\<close> adds the seconds to the milliseconds of the nanosecond
  parts; this is a millionth of it.
\<close>

definition elapsed_millionths :: "int \<Rightarrow> int \<Rightarrow> int" where
  "elapsed_millionths start end' =
     1000000 * (end' div 1000000000 - start div 1000000000) +
     (end' mod 1000000000 - start mod 1000000000)"

text \<open>
  The loop of \<open>tcpclient_recv_spinlock\<close>: the caller's buffer is \<open>buf\<close>, \<open>off\<close> is how far \<open>data\<close>
  has been moved from its start, and every receive stores at \<open>&data[pos]\<close>.  The loop may run
  forever; \<open>None\<close> says that the rounds of the fuel did not suffice.
\<close>

fun spinlock_loop ::
  "nat \<Rightarrow> 'z tcp_client \<Rightarrow> int \<Rightarrow> size_t \<Rightarrow> size_t \<Rightarrow> block option \<Rightarrow> nat \<Rightarrow> size_t \<Rightarrow>
     ('z io_scheme, (int \<times> block option) option) prog" where
  "spinlock_loop 0 t start sz timeout_ms buf off pos = ret None"
| "spinlock_loop (Suc fuel) t start sz timeout_ms buf off pos =
     (if \<not> pos < sz then ret (Some (uint pos, buf))
      else
        bnd (cl_recv (client_vt t) (client_fd t) (sz - pos)) (\<lambda>(r, bytes, errno).
        bnd (lift (mem_write buf (off + unat pos) bytes)) (\<lambda>buf'.
        if r \<le> 0 \<and> errno \<noteq> EAGAIN then ret (Some (r, buf'))
        else
          let pos' = (if r > 0 then pos + word_of_int r else pos);
              off' = (if r > 0 then off + nat r else off) in
          bnd (guard_do (pos' < sz) (os_sleep_ms 1)) (\<lambda>_.
          bnd (sys SysClock) (\<lambda>c.
          if elapsed_millionths start (rep_ret c) > 1000000 * uint timeout_ms
          then ret (Some (uint pos', buf'))
          else spinlock_loop fuel t start sz timeout_ms buf' off' pos')))))"

definition tcpclient_recv_spinlock ::
  "nat \<Rightarrow> 'z tcp_client \<Rightarrow> block option \<Rightarrow> size_t \<Rightarrow> size_t \<Rightarrow>
     ('z io_scheme, (int \<times> block option) option) prog" where
  "tcpclient_recv_spinlock fuel t buf sz timeout_ms =
     bnd (sys SysClock) (\<lambda>c. spinlock_loop fuel t (rep_ret c) sz timeout_ms buf 0 0)"

lemmas client_defs = client_recv_def client_send_def tcpclient_send_def tcpclient_send_text_def

section \<open>Sockets are neither lost nor closed twice\<close>

text \<open>The sockets opened and closed in a history, in order.\<close>

definition opens :: "history \<Rightarrow> int list" where
  "opens h = concat (map (\<lambda>(c, r). case c of SysSocket a \<Rightarrow> if ret_of r = - 1 then [] else [ret_of r] | _ \<Rightarrow> []) h)"

definition shuts :: "history \<Rightarrow> int list" where
  "shuts h = concat (map (\<lambda>(c, r). case c of SysClose fd \<Rightarrow> [fd] | _ \<Rightarrow> []) h)"

lemma opens_simps [simp]:
  "opens [] = []" "opens (h @ h') = opens h @ opens h'"
  "opens ((SysSocket a, r) # h) = (if ret_of r = - 1 then [] else [ret_of r]) @ opens h"
  "opens ((SysConnect fd a, r) # h) = opens h" "opens ((SysClose fd, r) # h) = opens h"
  "opens ((SysGetaddrinfo n p, r) # h) = opens h" "opens ((SysFcntl fd, r) # h) = opens h"
  "opens ((SysNonblock fd, r) # h) = opens h" "opens ((SysFreeaddrinfo, r) # h) = opens h"
  by (simp_all add: opens_def)

lemma shuts_simps [simp]:
  "shuts [] = []" "shuts (h @ h') = shuts h @ shuts h'"
  "shuts ((SysSocket a, r) # h) = shuts h" "shuts ((SysConnect fd a, r) # h) = shuts h"
  "shuts ((SysClose fd, r) # h) = fd # shuts h" "shuts ((SysGetaddrinfo n p, r) # h) = shuts h"
  "shuts ((SysFcntl fd, r) # h) = shuts h" "shuts ((SysNonblock fd, r) # h) = shuts h"
  "shuts ((SysFreeaddrinfo, r) # h) = shuts h"
  by (simp_all add: shuts_def)


section \<open>Properties\<close>


text \<open>The loop of the receive on a client with the plain table, one round at a time.\<close>

definition plain_client :: "int \<Rightarrow> 'z tcp_client" where
  "plain_client fd = \<lparr>client_vt = \<lparr>cl_recv = client_recv, cl_send = client_send\<rparr>, client_fd = fd\<rparr>"

lemma spinlock_round:
  assumes "pos < sz" "r = env s (log s) (SysRecv fd (sz - pos))" "0 < rep_ret r"
    and "bytes = take (unat (sz - pos)) (rep_bytes r)" "bytes \<noteq> []"
  shows "spinlock_loop (Suc fuel) (plain_client fd) start sz ms buf off pos s =
    bnd (lift (mem_write buf (off + unat pos) bytes)) (\<lambda>buf'.
      bnd (guard_do (pos + word_of_nat (length bytes) < sz) (os_sleep_ms 1)) (\<lambda>_.
      bnd (sys SysClock) (\<lambda>c.
      if elapsed_millionths start (rep_ret c) > 1000000 * uint ms
      then ret (Some (uint (pos + word_of_nat (length bytes)), buf'))
      else spinlock_loop fuel (plain_client fd) start sz ms buf' (off + length bytes) (pos + word_of_nat (length bytes)))))
    (s\<lparr>log := log s @ [(SysRecv fd (sz - pos), r)]\<rparr>)"
proof -
  have "recv_result (sz - pos) r = (int (length bytes), bytes)"
    using assms(3,4) by (simp add: recv_result_def Let_def)
  then have run: "cl_recv (client_vt (plain_client fd)) (client_fd (plain_client fd)) (sz - pos) s =
      (Inr (int (length bytes), bytes, rep_errno r), s\<lparr>log := log s @ [(SysRecv fd (sz - pos), r)]\<rparr>)"
    using assms(2) by (simp add: plain_client_def client_recv_def bnd_sys)
  show ?thesis using assms(1,5)
    by (subst spinlock_loop.simps, simp only: if_False not_True_eq_False, subst bnd_step(1) [of "cl_recv (client_vt (plain_client fd)) (client_fd (plain_client fd)) (sz - pos)" s, OF run])
      (simp add: Let_def)
qed

text \<open>
  A reply that arrives whole is received whole: if the first receive delivers all \<open>sz\<close>
  bytes, the call returns \<open>sz\<close> after that receive, with the bytes at the start of the buffer
  and the rest of the buffer as it was.
\<close>

theorem spinlock_receives_whole_reply:
  assumes "0 < sz" "unat sz \<le> length buf" "length (rep_bytes r) = unat sz" "0 < rep_ret r"
    and "r = env s (log s @ [(SysClock, env s (log s) SysClock)]) (SysRecv fd sz)"
  shows "\<exists>s'. tcpclient_recv_spinlock (Suc (Suc fuel)) (plain_client fd) (Some buf) sz ms s =
      (Inr (Some (uint sz, Some (rep_bytes r @ drop (unat sz) buf))), s') \<and>
    calls (\<lambda>c. \<exists>fd n. c = SysRecv fd n) (log s') = Suc (calls (\<lambda>c. \<exists>fd n. c = SysRecv fd n) (log s))"
proof -
  define c0 where "c0 = env s (log s) SysClock"
  define s0 where "s0 = s\<lparr>log := log s @ [(SysClock, c0)]\<rparr>"
  have sz: "unat sz \<noteq> 0" using assms(1) by (simp add: unat_eq_zero word_neq_0_conv)
  then have ne: "rep_bytes r \<noteq> []" using assms(3) by auto
  have bytes: "rep_bytes r = take (unat (sz - 0)) (rep_bytes r)" using assms(3) by simp
  have r: "r = env s0 (log s0) (SysRecv fd (sz - 0))" using assms(5) by (simp add: s0_def c0_def)
  have len: "word_of_nat (length (rep_bytes r)) = sz" using assms(3) by simp
  have w: "mem_write (Some buf) 0 (rep_bytes r) = Inr (Some (rep_bytes r @ drop (unat sz) buf))"
    using ne assms(2,3) by (simp add: mem_write_def)
  have "tcpclient_recv_spinlock (Suc (Suc fuel)) (plain_client fd) (Some buf) sz ms s =
      spinlock_loop (Suc (Suc fuel)) (plain_client fd) (rep_ret c0) sz ms (Some buf) 0 0 s0"
    by (simp add: tcpclient_recv_spinlock_def bnd_sys s0_def c0_def)
  also have "\<dots> = (Inr (Some (uint sz, Some (rep_bytes r @ drop (unat sz) buf))),
      s0\<lparr>log := log s0 @ [(SysRecv fd sz, r), (SysClock, env s (log s0 @ [(SysRecv fd sz, r)]) SysClock)]\<rparr>)"
    using spinlock_round [OF assms(1) r assms(4) bytes ne, of "Suc fuel" "rep_ret c0" ms "Some buf" 0] w len
    by (simp add: bnd_lift bnd_sys s0_def)
  finally show ?thesis by (simp add: s0_def)
qed

definition hello_kernel :: "history \<Rightarrow> syscall \<Rightarrow> reply" where
  "hello_kernel h c = \<lparr>rep_ret = 1, rep_errno = 0, rep_bytes = [104, 101, 108, 108, 111], rep_status = 0,
     rep_events = [], rep_addrs = []\<rparr>"

definition hello_io :: io where
  "hello_io = \<lparr>env = hello_kernel, log = [], mem = (\<lambda>_. glibc)\<rparr>"

theorem spinlock_receives_whole_reply_witness:
  "\<exists>s'. tcpclient_recv_spinlock (Suc (Suc 0)) (plain_client 5) (Some [0, 0, 0, 0, 0, 0]) 5 5000 hello_io =
     (Inr (Some (5, Some [104, 101, 108, 108, 111, 0])), s')"
proof -
  define r where "r = env hello_io (log hello_io @ [(SysClock, env hello_io (log hello_io) SysClock)]) (SysRecv 5 5)"
  have "rep_bytes r = [104, 101, 108, 108, 111]" "0 < rep_ret r" by (simp_all add: r_def hello_io_def hello_kernel_def)
  then show ?thesis
    using spinlock_receives_whole_reply [of 5 "[0, 0, 0, 0, 0, 0]" r hello_io 5 0 5000] r_def
    by auto
qed




text \<open>
  The timeout of the spinlock mixes units: while less than \<open>timeout_ms - 999\<close> whole seconds
  have passed, it is not noticed.
\<close>

theorem spinlock_timeout_is_in_seconds:
  assumes "0 \<le> start" "start \<le> now" "now div 1000000000 - start div 1000000000 + 1000 \<le> uint (ms :: size_t)"
  shows "\<not> elapsed_millionths start now > 1000000 * uint ms"
proof -
  have "now mod 1000000000 - start mod 1000000000 \<le> 999999999"
    using pos_mod_bound [of 1000000000 now] pos_mod_sign [of 1000000000 start] by linarith
  moreover have "1000000 * (now div 1000000000 - start div 1000000000 + 1000) \<le> 1000000 * uint ms"
    using assms(3) by simp
  ultimately show ?thesis unfolding elapsed_millionths_def by (simp add: algebra_simps)
qed

theorem spinlock_timeout_is_in_seconds_witness:
  "\<not> elapsed_millionths 0 (4000 * 1000000000) > 1000000 * uint (5000 :: size_t)"
  by (rule spinlock_timeout_is_in_seconds) simp_all

end
