(* ===== verification/Future.thy ===== *)
theory Future
  imports Alloc
begin

text \<open>
  Futures (\<open>src/util/future.c\<close>): an object that a thread of its own completes and whose owner
  awaits it.  The critical sections of the mutex are one step each.  A step is \<open>None\<close> while it is
  blocked, and otherwise an outcome; a pointer \<open>void*\<close> is a 64-bit word.
\<close>

type_synonym ptr = "64 word"

datatype future_state = FU_SUCCESS | FU_ERROR | FU_RUNNING

text \<open>
  The thread: not created (\<open>pthread_create\<close> failed), in the user's function, after it and before
  the lock, returned from \<open>run_thread\<close>, or joined.
\<close>

datatype future_thread = Not_created | In_user | Returning ptr | Finished ptr | Joined_thread

text \<open>The object \<open>Future\<close>, which is gone after \<open>future_destroy\<close>, its \<open>ThreadData\<close> and its thread.\<close>

record future =
  fu_status :: future_state
  fu_result :: ptr

record future_sys =
  fs_future :: "future option"
  fs_thread_data :: bool
  fs_thread :: future_thread

text \<open>
  The critical section at the end of \<open>run_thread\<close>, for a user's function that returned \<open>r\<close>: the
  value the thread returns, and the object.
\<close>

definition run_thread_end :: "ptr \<Rightarrow> future \<Rightarrow> ptr \<times> future" where
  "run_thread_end r f =
     (if fu_status f \<noteq> FU_ERROR then (r, f\<lparr>fu_status := FU_SUCCESS, fu_result := r\<rparr>)
      else (fu_result f, f))"

definition future_initialize :: "libc \<Rightarrow> bool \<Rightarrow> future_sys outcome" where
  "future_initialize L create_ok =
     bind_out (MALLOC L 24) (\<lambda>_.
     Inr \<lparr>fs_future = Some \<lparr>fu_status = FU_RUNNING, fu_result = 0\<rparr>, fs_thread_data = True,
       fs_thread = (if create_ok then In_user else Not_created)\<rparr>)"

definition future_create :: "libc \<Rightarrow> bool \<Rightarrow> future_sys outcome" where
  "future_create L create_ok = bind_out (MALLOC L 72) (\<lambda>_. future_initialize L create_ok)"

text \<open>Joining a thread a second time, or one that was not created, has no defined behaviour.\<close>

definition pthread_join :: "future_sys \<Rightarrow> (ptr \<times> future_sys) outcome option" where
  "pthread_join s =
     (case fs_thread s of
        Finished r \<Rightarrow> Some (Inr (r, s\<lparr>fs_thread := Joined_thread\<rparr>))
      | In_user \<Rightarrow> None
      | Returning r \<Rightarrow> None
      | Joined_thread \<Rightarrow> Some (Inl Undefined)
      | Not_created \<Rightarrow> Some (Inl Undefined))"

definition with_future :: "future_sys \<Rightarrow> (future \<Rightarrow> 'a outcome) \<Rightarrow> 'a outcome" where
  "with_future s f = (case fs_future s of None \<Rightarrow> Inl Undefined | Some x \<Rightarrow> f x)"

text \<open>\<open>want\<close>: the caller passed a place for the result.\<close>

definition future_await ::
  "bool \<Rightarrow> future_sys \<Rightarrow> ((future_state \<times> ptr option) \<times> future_sys) outcome option" where
  "future_await want s =
     (if fs_future s = None then Some (Inl Undefined)
      else
        case pthread_join s of
          None \<Rightarrow> None
        | Some j \<Rightarrow> Some (bind_out j (\<lambda>(tmp_result, s'). with_future s' (\<lambda>f.
            if fu_status f = FU_ERROR
            then Inr ((FU_ERROR, if want then Some (fu_result f) else None), s')
            else if fu_status f = FU_SUCCESS
            then Inr ((FU_SUCCESS, if want then Some tmp_result else None), s')
            else Inl Abort))))"

definition future_finalize :: "future_sys \<Rightarrow> future_sys outcome option" where
  "future_finalize s =
     (case future_await False s of
        None \<Rightarrow> None
      | Some j \<Rightarrow> Some (bind_out j (\<lambda>(_, s'). Inr (s'\<lparr>fs_thread_data := False\<rparr>))))"

definition future_destroy :: "future_sys \<Rightarrow> future_sys outcome option" where
  "future_destroy s =
     (case future_finalize s of
        None \<Rightarrow> None
      | Some j \<Rightarrow> Some (bind_out j (\<lambda>s'. Inr (s'\<lparr>fs_future := None\<rparr>))))"

definition future_status :: "future_sys \<Rightarrow> future_state outcome" where
  "future_status s = with_future s (\<lambda>f. Inr (fu_status f))"

definition future_notify_error :: "ptr \<Rightarrow> future_sys \<Rightarrow> future_sys outcome" where
  "future_notify_error result s =
     with_future s (\<lambda>f. Inr (s\<lparr>fs_future := Some (f\<lparr>fu_status := FU_ERROR, fu_result := result\<rparr>)\<rparr>))"

section \<open>Runs\<close>

text \<open>
  What can happen to a future: someone notifies an error (the user's function, or any other
  thread), the user's function returns, \<open>run_thread\<close> ends, and the owner's calls.  An owner's
  call comes with its answer.
\<close>

datatype future_event = Notify ptr | User_returns ptr | Thread_ends
  | Status_is future_state | Awaited bool future_state "ptr option" | Destroyed

inductive future_step :: "future_sys \<Rightarrow> future_event \<Rightarrow> future_sys \<Rightarrow> bool" where
  step_notify: "future_notify_error v s = Inr s' \<Longrightarrow> future_step s (Notify v) s'"
| step_return: "fs_thread s = In_user \<Longrightarrow> future_step s (User_returns r) (s\<lparr>fs_thread := Returning r\<rparr>)"
| step_end: "fs_thread s = Returning r \<Longrightarrow> fs_future s = Some f \<Longrightarrow> run_thread_end r f = (r', f') \<Longrightarrow>
    future_step s Thread_ends (s\<lparr>fs_thread := Finished r', fs_future := Some f'\<rparr>)"
| step_status: "future_status s = Inr st \<Longrightarrow> future_step s (Status_is st) s"
| step_await: "future_await want s = Some (Inr ((st, res), s')) \<Longrightarrow> future_step s (Awaited want st res) s'"
| step_destroy: "future_destroy s = Some (Inr s') \<Longrightarrow> future_step s Destroyed s'"

code_pred future_step .

inductive_simps future_step_simps [simp]:
  "future_step s (Notify v) s'" "future_step s (User_returns r) s'" "future_step s Thread_ends s'"
  "future_step s (Status_is st) s'" "future_step s (Awaited want st res) s'" "future_step s Destroyed s'"

fun future_run :: "future_sys \<Rightarrow> future_event list \<Rightarrow> future_sys \<Rightarrow> bool" where
  "future_run s [] s' \<longleftrightarrow> s' = s"
| "future_run s (e # es) s' \<longleftrightarrow> (\<exists>t. future_step s e t \<and> future_run t es s')"

lemma future_run_append: "future_run s (es @ es') u \<longleftrightarrow> (\<exists>t. future_run s es t \<and> future_run t es' u)"
  by (induction es arbitrary: s) auto

text \<open>What the events so far promise: the last error that was notified, and the value of the function.\<close>

definition last_error :: "future_event list \<Rightarrow> ptr option" where
  "last_error es = fold (\<lambda>e acc. case e of Notify v \<Rightarrow> Some v | _ \<Rightarrow> acc) es None"

definition returned :: "future_event list \<Rightarrow> ptr option" where
  "returned es = fold (\<lambda>e acc. case e of User_returns v \<Rightarrow> Some v | _ \<Rightarrow> acc) es None"

lemma trace_simps [simp]:
  "last_error [] = None" "returned [] = None"
  "last_error (es @ [Notify v]) = Some v" "last_error (es @ [User_returns v]) = last_error es"
  "last_error (es @ [Thread_ends]) = last_error es" "last_error (es @ [Status_is st]) = last_error es"
  "last_error (es @ [Awaited w st r]) = last_error es" "last_error (es @ [Destroyed]) = last_error es"
  "returned (es @ [Notify v]) = returned es" "returned (es @ [User_returns v]) = Some v"
  "returned (es @ [Thread_ends]) = returned es" "returned (es @ [Status_is st]) = returned es"
  "returned (es @ [Awaited w st r]) = returned es" "returned (es @ [Destroyed]) = returned es"
  by (simp_all add: last_error_def returned_def)

text \<open>
  The invariant of a run that starts with a created thread; \<open>es\<close> are the events so far.
\<close>

definition future_inv :: "future_event list \<Rightarrow> future_sys \<Rightarrow> bool" where
  "future_inv es s \<longleftrightarrow>
     (case fs_future s of
        None \<Rightarrow> fs_thread s = Joined_thread
      | Some f \<Rightarrow>
          (case last_error es of
             Some v \<Rightarrow> fu_status f = FU_ERROR \<and> fu_result f = v \<and> fs_thread s \<noteq> Not_created
           | None \<Rightarrow>
               (case fs_thread s of
                  Not_created \<Rightarrow> False
                | In_user \<Rightarrow> fu_status f = FU_RUNNING
                | Returning r \<Rightarrow> fu_status f = FU_RUNNING \<and> returned es = Some r
                | Finished r \<Rightarrow> fu_status f = FU_SUCCESS \<and> returned es = Some r
                | Joined_thread \<Rightarrow> fu_status f = FU_SUCCESS)))"

lemmas future_defs = future_notify_error_def future_status_def future_await_def future_finalize_def
  future_destroy_def pthread_join_def with_future_def run_thread_end_def

lemma future_step_inv:
  assumes "future_step s e s'" "future_inv es s"
  shows "future_inv (es @ [e]) s'"
  using assms
  by (cases e)
    (auto simp: future_defs future_inv_def split: option.splits future_thread.splits if_splits)

lemma future_run_inv: "future_run s es s' \<Longrightarrow> future_inv es0 s \<Longrightarrow> future_inv (es0 @ es) s'"
proof (induction es arbitrary: s es0)
  case (Cons e es)
  then show ?case using future_step_inv [of s e _ es0] by fastforce
qed simp

lemma future_create_inv: "future_create L True = Inr s \<Longrightarrow> future_inv [] s"
  by (auto simp: future_create_def future_initialize_def future_inv_def bind_out_eq_Inr)

text \<open>The thread is joined by an await and by the destruction, and by nothing else.\<close>

fun awaits :: "future_event \<Rightarrow> bool" where
  "awaits (Awaited want st res) = True"
| "awaits e = False"

lemma future_step_joined:
  "future_step s e t \<Longrightarrow>
     (fs_thread t = Joined_thread \<longleftrightarrow> fs_thread s = Joined_thread \<or> awaits e \<or> e = Destroyed) \<and>
     (fs_future t \<noteq> None \<longrightarrow> fs_future s \<noteq> None \<and> e \<noteq> Destroyed)"
  by (cases e) (auto simp: future_defs split: option.splits future_thread.splits if_splits)

lemma future_run_joined:
  "future_run s es t \<Longrightarrow> fs_future t \<noteq> None \<Longrightarrow>
     (fs_thread t = Joined_thread \<longleftrightarrow> fs_thread s = Joined_thread \<or> list_ex awaits es) \<and> fs_future s \<noteq> None"
proof (induction es arbitrary: s)
  case (Cons e es)
  obtain u where "future_step s e u" "future_run u es t"
    using Cons.prems(1) by (auto simp del: future_step_simps)
  then show ?case using Cons.IH [of u] Cons.prems(2) future_step_joined [of s e u] by auto
qed simp

section \<open>Properties\<close>


definition fresh_future :: future_sys where
  "fresh_future = \<lparr>fs_future = Some \<lparr>fu_status = FU_RUNNING, fu_result = 0\<rparr>, fs_thread_data = True,
     fs_thread = In_user\<rparr>"

definition failed_future :: future_sys where
  "failed_future = \<lparr>fs_future = Some \<lparr>fu_status = FU_ERROR, fu_result = 9\<rparr>, fs_thread_data = True,
     fs_thread = Finished 9\<rparr>"

lemma fresh_future_created: "future_create glibc True = Inr fresh_future"
  by (simp add: future_create_def future_initialize_def fresh_future_def MALLOC_ok glibc_def)

lemma failed_future_run: "future_run fresh_future [Notify 9, User_returns 5, Thread_ends] failed_future"
  by (simp add: future_defs fresh_future_def failed_future_def)


text \<open>
  C37. Destroying a future that was awaited joins its thread a second time, which has no defined
  behaviour; so has a second await.  Destroying one that was not awaited blocks until its thread
  has ended and then leaves neither the object nor the thread data.
\<close>

theorem future_destroy_joins_again:
  assumes "future_create L True = Inr s" "future_run s es t" "fs_future t \<noteq> None"
  shows "if list_ex awaits es
    then future_destroy t = Some (Inl Undefined) \<and> future_await want t = Some (Inl Undefined)
    else
      (case fs_thread t of
         Finished r \<Rightarrow> future_destroy t =
           Some (Inr \<lparr>fs_future = None, fs_thread_data = False, fs_thread = Joined_thread\<rparr>)
       | _ \<Rightarrow> future_destroy t = None)"
proof -
  have "fs_thread s = In_user"
    using assms(1) by (auto simp: future_create_def future_initialize_def bind_out_eq_Inr)
  then have "fs_thread t = Joined_thread \<longleftrightarrow> list_ex awaits es"
    using future_run_joined [OF assms(2,3)] by simp
  then show ?thesis
    using future_run_inv [OF assms(2) future_create_inv [OF assms(1)]] assms(3)
    by (auto simp: future_defs future_inv_def split: option.splits future_thread.splits)
qed

theorem future_destroy_joins_again_witness:
  "future_destroy (failed_future\<lparr>fs_thread := Joined_thread\<rparr>) = Some (Inl Undefined) \<and>
   future_destroy failed_future =
     Some (Inr \<lparr>fs_future = None, fs_thread_data = False, fs_thread = Joined_thread\<rparr>)"
proof -
  have "future_run fresh_future ([Notify 9, User_returns 5, Thread_ends] @ [Awaited True FU_ERROR (Some 9)])
      (failed_future\<lparr>fs_thread := Joined_thread\<rparr>)"
    unfolding future_run_append using failed_future_run
    by (intro exI [of _ failed_future]) (simp add: future_defs failed_future_def)
  from future_destroy_joins_again [OF fresh_future_created this]
    future_destroy_joins_again [OF fresh_future_created failed_future_run]
  show ?thesis by (simp add: failed_future_def)
qed

end
