(* ===== verification/Ssl.thy ===== *)
theory Ssl
  imports Server_Props Uthash_Laws
begin

text \<open>
  The SSL transport (\<open>tmp/ssl/ssl_server.c\<close>): the TCP transport with an \<open>SSL\<close> object per socket,
  kept in a table of its own.  OpenSSL is not part of the program: its calls are answered by the
  environment, and what was sent or received through it is part of the answer.
\<close>

section \<open>The functions of the table\<close>

definition ssl_fn :: "ssl_call \<Rightarrow> ('z io_scheme, int) prog" where
  "ssl_fn c = bnd (sys (SysSsl c)) (\<lambda>r. ret (rep_ret r))"

definition ssl_do :: "ssl_call \<Rightarrow> ('z io_scheme, unit) prog" where
  "ssl_do c = bnd (sys (SysSsl c)) (\<lambda>_. ret ())"

text \<open>The pair of socket and \<open>SSL\<close> object is stored at a new address and put into the table.\<close>

definition ssl_store :: "int \<Rightarrow> int \<Rightarrow> ('d server, unit) prog" where
  "ssl_store fd ssl =
     bnd (with_libc (\<lambda>L. CALLOC L 1 72)) (\<lambda>_.
     bnd fresh_addr (\<lambda>e.
     bnd (modify (\<lambda>s. s\<lparr>ssl_elems := (ssl_elems s)(e := Some (fd, ssl))\<rparr>)) (\<lambda>_.
     bnd (gets ssl_fd_map) (\<lambda>h.
     bnd (with_libc (\<lambda>L. HASH_ADD_INT L fd e h)) (\<lambda>h'.
     modify (\<lambda>s. s\<lparr>ssl_fd_map := h'\<rparr>))))))"

definition ssl_accept_new_connection :: "('d server, int) prog" where
  "ssl_accept_new_connection =
     bnd tcp_accept_new_connection (\<lambda>fd.
     bnd (gets ssl_ctx) (\<lambda>ctx'.
     bnd (ssl_fn (SSL_new ctx')) (\<lambda>ssl.
     if ssl = 0 then halt Undefined
     else
       bnd (ssl_do (SSL_set_fd ssl fd)) (\<lambda>_.
       bnd (ssl_fn (SSL_accept ssl)) (\<lambda>r.
       if r \<le> 0 then ret INVALID_SOCKET
       else bnd (ssl_store fd ssl) (\<lambda>_. ret fd))))))"

definition ssl_client_disconnected :: "int \<Rightarrow> ('d server, unit) prog" where
  "ssl_client_disconnected fd =
     bnd (gets ssl_fd_map) (\<lambda>h.
     case HASH_FIND_INT fd h of
       None \<Rightarrow> ret ()
     | Some e \<Rightarrow>
         bnd (deref ssl_elems e) (\<lambda>(_, ssl).
         bnd (ssl_do (SSL_free ssl)) (\<lambda>_.
         bnd (lift (HASH_DELETE e h)) (\<lambda>h'.
         modify (\<lambda>s. s\<lparr>ssl_fd_map := h', ssl_elems := (ssl_elems s)(e := None)\<rparr>)))))"

definition find_ssl :: "int \<Rightarrow> ('d server, int option) prog" where
  "find_ssl fd =
     bnd (gets ssl_fd_map) (\<lambda>h.
     case HASH_FIND_INT fd h of
       None \<Rightarrow> ret None
     | Some e \<Rightarrow> bnd (deref ssl_elems e) (\<lambda>(_, ssl). ret (Some ssl)))"

definition ssl_server_recv :: "int \<Rightarrow> ('d server, int \<times> byte list) prog" where
  "ssl_server_recv fd =
     bnd (find_ssl fd) (\<lambda>o'.
     case o' of
       None \<Rightarrow> ret (- 1, [])
     | Some ssl \<Rightarrow>
         bnd (with_libc (\<lambda>L. MALLOC L RECV_BUF_SZ)) (\<lambda>_.
         bnd (sys (SysSsl (SSL_read ssl RECV_BUF_SZ))) (\<lambda>r.
         ret (recv_result RECV_BUF_SZ r))))"

text \<open>The size is narrowed to \<open>int\<close>; OpenSSL decides what a negative size means.\<close>

definition ssl_server_send :: "int \<Rightarrow> block option \<Rightarrow> size_t \<Rightarrow> ('d server, int) prog" where
  "ssl_server_send fd data data_sz =
     bnd (find_ssl fd) (\<lambda>o'.
     case o' of
       None \<Rightarrow> ret (- 1)
     | Some ssl \<Rightarrow>
         bnd (lift (mem_read data 0 (nat (int_of_size data_sz)))) (\<lambda>bytes.
         bnd (sys (SysSsl (SSL_write ssl (int_of_size data_sz) bytes))) (\<lambda>r.
         ret (send_result bytes r))))"

definition ssl_vtable :: "(libc \<Rightarrow> int \<Rightarrow> 'd session outcome) \<Rightarrow> 'd server_vtable" where
  "ssl_vtable create =
     \<lparr>vt_recv = ssl_server_recv, vt_send = ssl_server_send, vt_accept = ssl_accept_new_connection,
      vt_client_disconnected = Some ssl_client_disconnected, vt_create_session = create\<rparr>"

section \<open>Creation and destruction\<close>

record ssl_key =
  public_key :: string
  private_key :: string

text \<open>
  \<open>CHECK\<close> returns \<open>-1\<close> when a pointer is NULL.  The certificate and the private key are read
  through a memory \<open>BIO\<close>, handed to the context and released; a failure on the way leaves what
  was created so far.
\<close>

definition CHECK :: "int \<Rightarrow> ('s, int) prog \<Rightarrow> ('s, int) prog" where
  "CHECK v m = (if v = 0 then ret (- 1) else m)"

definition ssl_use_certificate :: "int \<Rightarrow> string \<Rightarrow> ('z io_scheme, int) prog" where
  "ssl_use_certificate ctx' key =
     bnd (ssl_fn (BIO_new_mem_buf key)) (\<lambda>bio. CHECK bio (
     bnd (ssl_fn (PEM_read_bio_X509 bio)) (\<lambda>cert. CHECK cert (
     bnd (ssl_do (BIO_free bio)) (\<lambda>_.
     bnd (ssl_fn (SSL_CTX_use_certificate ctx' cert)) (\<lambda>r.
     bnd (ssl_do (X509_free cert)) (\<lambda>_.
     ret (if r \<le> 0 then - 1 else 0))))))))"

definition ssl_use_private_key :: "int \<Rightarrow> string \<Rightarrow> ('z io_scheme, int) prog" where
  "ssl_use_private_key ctx' key =
     bnd (ssl_fn (BIO_new_mem_buf key)) (\<lambda>bio. CHECK bio (
     bnd (ssl_fn (PEM_read_bio_PrivateKey bio)) (\<lambda>pkey. CHECK pkey (
     bnd (ssl_do (BIO_free bio)) (\<lambda>_.
     bnd (ssl_fn (SSL_CTX_use_PrivateKey ctx' pkey)) (\<lambda>r.
     bnd (ssl_do (EVP_PKEY_free pkey)) (\<lambda>_.
     ret (if r \<le> 0 then - 1 else 0))))))))"

definition ssl_server_initialize ::
  "(int \<Rightarrow> bool) \<Rightarrow> int \<Rightarrow> bool \<Rightarrow> nat \<Rightarrow> ssl_key \<Rightarrow> ('d server, int) prog" where
  "ssl_server_initialize thread_ok port open_to_world n key =
     bnd (modify (\<lambda>s. s\<lparr>ssl_ctx := 0, ssl_fd_map := None\<rparr>)) (\<lambda>_.
     bnd (tcp_server_initialize thread_ok port open_to_world n) (\<lambda>r.
     if r < 0 then ret (- 1)
     else
       bnd (ssl_fn SSL_CTX_new) (\<lambda>ctx'.
       bnd (modify (\<lambda>s. s\<lparr>ssl_ctx := ctx'\<rparr>)) (\<lambda>_. CHECK ctx' (
       bnd (ssl_use_certificate ctx' (public_key key)) (\<lambda>r.
       if r < 0 then ret (- 1) else ssl_use_private_key ctx' (private_key key)))))))"

text \<open>A server that cannot be set up ends the process for good.\<close>

definition ssl_server_create ::
  "(int \<Rightarrow> bool) \<Rightarrow> int \<Rightarrow> bool \<Rightarrow> nat \<Rightarrow> ssl_key \<Rightarrow> ('d server, unit) prog" where
  "ssl_server_create thread_ok port open_to_world n key =
     bnd (with_libc (\<lambda>L. Inr (c_malloc L 88))) (\<lambda>p.
     if p = None then halt (Exit EXIT_FAILURE)
     else
       bnd (ssl_server_initialize thread_ok port open_to_world n key) (\<lambda>r.
       if r < 0 then halt (Exit NON_RECOVERABLE_ERROR) else ret ()))"

definition ssl_server_finalize :: "'d server_vtable \<Rightarrow> ('d server, bool) prog" where
  "ssl_server_finalize vt =
     bnd (gets ssl_ctx) (\<lambda>ctx'.
     bnd (ssl_do (SSL_CTX_free ctx')) (\<lambda>_.
     server_finalize vt))"

definition ssl_server_destroy :: "'d server_vtable \<Rightarrow> ('d server, bool) prog" where
  "ssl_server_destroy vt = ssl_server_finalize vt"

section \<open>The table of SSL objects\<close>

text \<open>
  \<open>ssl_rep s ls\<close>: the table is well formed and holds the sockets and addresses of \<open>ls\<close>, whose
  objects are allocated.
\<close>

definition ssl_rep :: "'d server \<Rightarrow> (int \<times> nat) list \<Rightarrow> bool" where
  "ssl_rep s ls \<longleftrightarrow>
     hash_ok (ssl_fd_map s) \<and> hash_entries (ssl_fd_map s) = map (\<lambda>(fd, e). (int_key fd, e)) ls \<and>
     distinct (map fst ls) \<and>
     (\<forall>(fd, e) \<in> set ls. fits_int fd \<and> e < next_addr s \<and> (\<exists>ssl. ssl_elems s e = Some (fd, ssl)))"

text \<open>The \<open>SSL\<close> object of a socket.\<close>

definition ssl_of :: "'d server \<Rightarrow> int \<Rightarrow> int option" where
  "ssl_of s fd = (case HASH_FIND_INT fd (ssl_fd_map s) of
     None \<Rightarrow> None | Some e \<Rightarrow> (case ssl_elems s e of None \<Rightarrow> None | Some (_, ssl) \<Rightarrow> Some ssl))"

lemma ssl_fn_run: "ssl_fn c s = (Inr (rep_ret (env s (log s) (SysSsl c))),
    s\<lparr>log := log s @ [(SysSsl c, env s (log s) (SysSsl c))]\<rparr>)"
  by (simp add: ssl_fn_def bnd_sys)

lemma bnd_ssl [simp]:
  "bnd (ssl_fn c) f s = f (rep_ret (env s (log s) (SysSsl c)))
     (s\<lparr>log := log s @ [(SysSsl c, env s (log s) (SysSsl c))]\<rparr>)"
  "bnd (ssl_do c) g s = g () (s\<lparr>log := log s @ [(SysSsl c, env s (log s) (SysSsl c))]\<rparr>)"
  by (simp_all add: ssl_fn_def ssl_do_def bnd_sys)

lemma ssl_rep_keys:
  assumes "ssl_rep s ls"
  shows "hash_ok (ssl_fd_map s)" "distinct (map fst (hash_entries (ssl_fd_map s)))"
    "distinct (map snd (hash_entries (ssl_fd_map s)))"
    "fits_int fd \<Longrightarrow> int_key fd \<in> fst ` set (hash_entries (ssl_fd_map s)) \<longleftrightarrow> fd \<in> fst ` set ls"
    "snd ` set (hash_entries (ssl_fd_map s)) = snd ` set ls"
proof -
  have fits: "\<forall>fd \<in> fst ` set ls. fits_int fd" and d: "distinct (map fst ls)"
    and e: "hash_entries (ssl_fd_map s) = map (\<lambda>(fd, e). (int_key fd, e)) ls"
    and ok: "hash_ok (ssl_fd_map s)"
    using assms by (auto simp: ssl_rep_def)
  have "inj_on int_key (fst ` set ls)" using fits int_key_eq_iff by (auto simp: inj_on_def)
  moreover have "map fst (hash_entries (ssl_fd_map s)) = map int_key (map fst ls)"
    by (simp add: e case_prod_unfold)
  ultimately show "distinct (map fst (hash_entries (ssl_fd_map s)))"
    using d by (simp only: distinct_map set_map)
  show "fits_int fd \<Longrightarrow> int_key fd \<in> fst ` set (hash_entries (ssl_fd_map s)) \<longleftrightarrow> fd \<in> fst ` set ls"
    using fits int_key_eq_iff by (force simp: e)
  show "snd ` set (hash_entries (ssl_fd_map s)) = snd ` set ls" by (force simp: e)
  show "hash_ok (ssl_fd_map s)" by (rule ok)
  show "distinct (map snd (hash_entries (ssl_fd_map s)))" by (rule hash_ok_distinct [OF ok])
qed

lemma ssl_store_run:
  assumes rep: "ssl_rep s ls" and fd: "fits_int fd" "fd \<notin> fst ` set ls"
    and m: "\<forall>n. malloc_ok (mem s (log s)) n" "next_addr s + 1 < 2 ^ 64" "hash_log2 (ssl_fd_map s) < 31"
  shows "\<exists>s'. ssl_store fd ssl s = (Inr (), s') \<and> log s' = log s \<and> ssl_rep s' (ls @ [(fd, next_addr s)]) \<and>
    (\<forall>fd'. fits_int fd' \<longrightarrow> ssl_of s' fd' = (if fd' = fd then Some ssl else ssl_of s fd'))"
proof -
  note keys = ssl_rep_keys [OF rep]
  let ?e = "next_addr s"
  have e: "?e \<notin> snd ` set (hash_entries (ssl_fd_map s))"
    unfolding keys(5) using rep by (force simp: ssl_rep_def)
  have k: "int_key fd \<notin> fst ` set (hash_entries (ssl_fd_map s))" using keys(4) [OF fd(1)] fd(2) by simp
  obtain h where h: "HASH_ADD (mem s (log s)) (int_key fd) ?e (ssl_fd_map s) = Inr h"
    using HASH_ADD_total [OF m(1) keys(1) m(3)] by blast
  note added = uthash.find_after_add [OF keys(1,2) e k h] uthash.add_entry [OF keys(1) e h]
  obtain b where b: "CALLOC (mem s (log s)) 1 72 = Inr b"
    using CALLOC_ok [of "mem s (log s)" 1 72] m(1) by auto
  define s' where "s' = s\<lparr>next_addr := ?e + 1, ssl_elems := (ssl_elems s)(?e := Some (fd, ssl)), ssl_fd_map := h\<rparr>"
  have fresh: "fresh_addr s = (Inr ?e, s\<lparr>next_addr := ?e + 1\<rparr>)" using m(2) by (simp add: fresh_addr_def)
  have run: "ssl_store fd ssl s = (Inr (), s')"
    using b h
    by (simp add: ssl_store_def bnd_def [of "with_libc _"] with_libc_run bnd_step(1) [of fresh_addr s, OF fresh]
        HASH_ADD_INT_def s'_def)
  have rep': "ssl_rep s' (ls @ [(fd, ?e)])"
    using rep added(2) fd by (auto simp: ssl_rep_def s'_def split: prod.splits)
  have "ssl_of s' fd' = (if fd' = fd then Some ssl else ssl_of s fd')" if "fits_int fd'" for fd'
  proof (cases "fd' = fd")
    case True
    then show ?thesis using added(1) by (auto simp: ssl_of_def HASH_FIND_INT_def s'_def)
  next
    case False
    then have same: "HASH_FIND_INT fd' h = HASH_FIND_INT fd' (ssl_fd_map s)"
      using added(1) int_key_eq_iff [OF that fd(1)] by (simp add: HASH_FIND_INT_def)
    have "e' \<noteq> ?e" if "HASH_FIND_INT fd' (ssl_fd_map s) = Some e'" for e'
      using uthash.find_some [OF keys(1)] that e by (force simp: HASH_FIND_INT_def)
    then show ?thesis using False same by (auto simp: ssl_of_def s'_def split: option.splits)
  qed
  then show ?thesis using run rep' by (intro exI [of _ s']) (simp add: s'_def)
qed

text \<open>
  A disconnection frees the \<open>SSL\<close> object of the socket and forgets it: a later receive fails
  without a call, and the other sockets keep theirs.
\<close>

lemma ssl_disconnect_forgets:
  assumes rep: "ssl_rep s ls" and e: "(fd, e) \<in> set ls" "ssl_elems s e = Some (fd, ssl)"
  shows "\<exists>s' r. ssl_client_disconnected fd s = (Inr (), s') \<and> log s' = log s @ [(SysSsl (SSL_free ssl), r)] \<and>
    (\<forall>fd'. fits_int fd' \<longrightarrow> ssl_of s' fd' = (if fd' = fd then None else ssl_of s fd')) \<and>
    ssl_server_recv fd s' = (Inr (- 1, []), s')"
proof -
  note keys = ssl_rep_keys [OF rep]
  have fd: "fits_int fd" and entry: "(int_key fd, e) \<in> set (hash_entries (ssl_fd_map s))"
    using rep e(1) by (force simp: ssl_rep_def)+
  have found: "HASH_FIND_INT fd (ssl_fd_map s) = Some e"
    using uthash.find_key_map_of [OF keys(1,2)] entry keys(2) by (simp add: HASH_FIND_INT_def)
  have "e \<in> snd ` set (hash_entries (ssl_fd_map s))" using entry by force
  then obtain h where h: "HASH_DELETE e (ssl_fd_map s) = Inr h" "hash_ok h"
    using uthash.del_entry [OF keys(1)] by blast
  have del: "HASH_FIND_INT fd' h = (if fd' = fd then None else HASH_FIND_INT fd' (ssl_fd_map s))"
    if "fits_int fd'" for fd'
    using uthash.find_after_del [OF keys(1-3) entry, of "int_key fd'"] h(1) int_key_eq_iff [OF that fd]
    by (auto simp: HASH_FIND_INT_def)
  define r where "r = env s (log s) (SysSsl (SSL_free ssl))"
  define s' where "s' = s\<lparr>log := log s @ [(SysSsl (SSL_free ssl), r)], ssl_fd_map := h, ssl_elems := (ssl_elems s)(e := None)\<rparr>"
  have run: "ssl_client_disconnected fd s = (Inr (), s')"
    using found e(2) h(1) by (simp add: ssl_client_disconnected_def bnd_deref bnd_lift r_def s'_def)
  have other: "e' \<noteq> e" if "HASH_FIND_INT fd' (ssl_fd_map s) = Some e'" "fits_int fd'" "fd' \<noteq> fd" for fd' e'
  proof
    assume "e' = e"
    then have "(int_key fd', e) \<in> set (hash_entries (ssl_fd_map s))"
      using uthash.find_some [OF keys(1)] that(1) by (simp add: HASH_FIND_INT_def)
    then have "int_key fd' = int_key fd" using entry keys(3) by (metis eq_snd_iff distinct_map inj_on_eq_iff prod.inject)
    then show False using int_key_eq_iff [OF that(2) fd] that(3) by simp
  qed
  have "ssl_of s' fd' = (if fd' = fd then None else ssl_of s fd')" if "fits_int fd'" for fd'
    using del [OF that] other [OF _ that] by (auto simp: ssl_of_def s'_def split: option.splits)
  moreover have "ssl_server_recv fd s' = (Inr (- 1, []), s')"
    using del [OF fd] by (simp add: ssl_server_recv_def find_ssl_def s'_def)
  ultimately show ?thesis using run by (intro exI [of _ s'] exI [of _ r]) (simp add: s'_def)
qed

section \<open>Properties\<close>

text \<open>
  C36. Accepting an SSL connection on a socket that was accepted and made non-blocking: if the
  handshake succeeds at once, the socket is returned and it alone gets the new \<open>SSL\<close> object; if
  not, whatever the reason, no socket is returned and the table is as before, and neither the
  socket is closed nor the \<open>SSL\<close> object freed.
\<close>

theorem ssl_accept_registers_or_leaks:
  assumes rep: "ssl_rep s ls" and m: "\<forall>h n. malloc_ok (mem s h) n" "next_addr s + 1 < 2 ^ 64" "hash_log2 (ssl_fd_map s) < 31"
    and fd: "fd = rep_ret (env s (log s) (SysAccept (server_fd s)))" "0 \<le> fd" "fits_int fd" "fd \<notin> fst ` set ls"
    and fcntl: "\<forall>h. 0 \<le> rep_ret (env s h (SysFcntl fd))"
    and ssl: "\<forall>h. rep_ret (env s h (SysSsl (SSL_new (ssl_ctx s)))) = ssl" "ssl \<noteq> 0"
    and r: "\<forall>h. rep_ret (env s h (SysSsl (SSL_accept ssl))) = r"
  shows "\<exists>res s' h. ssl_accept_new_connection s = (Inr res, s') \<and> log s' = log s @ h \<and>
    map fst h = [SysAccept (server_fd s), SysFcntl fd, SysNonblock fd, SysSsl (SSL_new (ssl_ctx s)),
      SysSsl (SSL_set_fd ssl fd), SysSsl (SSL_accept ssl)] \<and>
    fd \<in> open_fds (log s') \<and>
    (if 0 < r then res = fd \<and> ssl_rep s' (ls @ [(fd, next_addr s)]) \<and>
        (\<forall>fd'. fits_int fd' \<longrightarrow> ssl_of s' fd' = (if fd' = fd then Some ssl else ssl_of s fd'))
     else res = INVALID_SOCKET \<and> ssl_fd_map s' = ssl_fd_map s \<and> ssl_elems s' = ssl_elems s)"
proof -
  define h1 where "h1 = [(SysAccept (server_fd s), env s (log s) (SysAccept (server_fd s)))]"
  define h2 where "h2 = h1 @ [(SysFcntl fd, env s (log s @ h1) (SysFcntl fd))]"
  define h3 where "h3 = h2 @ [(SysNonblock fd, env s (log s @ h2) (SysNonblock fd))]"
  define h4 where "h4 = h3 @ [(SysSsl (SSL_new (ssl_ctx s)), env s (log s @ h3) (SysSsl (SSL_new (ssl_ctx s))))]"
  define h5 where "h5 = h4 @ [(SysSsl (SSL_set_fd ssl fd), env s (log s @ h4) (SysSsl (SSL_set_fd ssl fd)))]"
  define h6 where "h6 = h5 @ [(SysSsl (SSL_accept ssl), env s (log s @ h5) (SysSsl (SSL_accept ssl)))]"
  note hs = h1_def h2_def h3_def h4_def h5_def h6_def
  have tcp: "tcp_accept_new_connection s = (Inr fd, s\<lparr>log := log s @ h3\<rparr>)"
  proof -
    have "ret_of (env s (log s) (SysAccept (server_fd s))) = fd" "fd \<noteq> - 1"
      using fd(1,2) by (simp_all add: ret_of_def)
    moreover have "ret_of (env s (log s @ h1) (SysFcntl fd)) \<noteq> - 1"
      using fcntl [rule_format, of "log s @ h1"] by (auto simp: ret_of_def)
    ultimately show ?thesis
      by (simp add: tcp_accept_new_connection_def bnd_sys Let_def hs)
  qed
  have run: "ssl_accept_new_connection s =
      (if r \<le> 0 then ret INVALID_SOCKET else bnd (ssl_store fd ssl) (\<lambda>_. ret fd)) (s\<lparr>log := log s @ h6\<rparr>)"
    unfolding ssl_accept_new_connection_def bnd_step(1) [of tcp_accept_new_connection s, OF tcp]
    using ssl r by (simp add: h4_def h5_def h6_def)
  have calls6: "map fst h6 = [SysAccept (server_fd s), SysFcntl fd, SysNonblock fd, SysSsl (SSL_new (ssl_ctx s)),
      SysSsl (SSL_set_fd ssl fd), SysSsl (SSL_accept ssl)]" by (simp add: hs)
  have opened: "fd \<in> open_fds (log s @ h6)"
    using fd(1,2) by (simp add: hs open_fds_def fd_effect_def)
  show ?thesis
  proof (cases "0 < r")
    case True
    obtain s' where s': "ssl_store fd ssl (s\<lparr>log := log s @ h6\<rparr>) = (Inr (), s')" "log s' = log s @ h6"
        "ssl_rep s' (ls @ [(fd, next_addr s)])"
        "\<forall>fd'. fits_int fd' \<longrightarrow> ssl_of s' fd' = (if fd' = fd then Some ssl else ssl_of s fd')"
    proof -
      have "ssl_rep (s\<lparr>log := log s @ h6\<rparr>) ls" "ssl_of (s\<lparr>log := log s @ h6\<rparr>) fd' = ssl_of s fd'" for fd'
        using rep by (auto simp: ssl_rep_def ssl_of_def split: option.split)
      then show thesis
        using ssl_store_run [of "s\<lparr>log := log s @ h6\<rparr>" ls fd ssl] fd(3,4) m that by auto
    qed
    have "ssl_accept_new_connection s = (Inr fd, s')"
      using run True by (simp add: bnd_step(1) [of "ssl_store fd ssl" "s\<lparr>log := log s @ h6\<rparr>", OF s'(1)])
    then show ?thesis using s' True calls6 opened by auto
  next
    case False
    then have "ssl_accept_new_connection s = (Inr INVALID_SOCKET, s\<lparr>log := log s @ h6\<rparr>)" using run by simp
    then show ?thesis using False calls6 opened by auto
  qed
qed

definition handshake_server :: "int \<Rightarrow> unit server" where
  "handshake_server r = idle_server\<lparr>mem := \<lambda>_. glibc, env := (\<lambda>_ c. \<lparr>rep_ret =
       (case c of SysAccept l \<Rightarrow> 9 | SysSsl (SSL_new x) \<Rightarrow> 70 | SysSsl (SSL_accept x) \<Rightarrow> r | _ \<Rightarrow> 0),
     rep_errno = 0, rep_bytes = [], rep_status = 0, rep_events = [], rep_addrs = []\<rparr>)\<rparr>"

theorem ssl_accept_registers_or_leaks_witness:
  "(\<exists>s'. ssl_accept_new_connection (handshake_server 1) = (Inr 9, s') \<and> ssl_of s' 9 = Some 70) \<and>
   (\<exists>s'. ssl_accept_new_connection (handshake_server (- 1)) = (Inr INVALID_SOCKET, s') \<and> 9 \<in> open_fds (log s'))"
proof -
  have rep: "ssl_rep (handshake_server r) []" for r
    by (simp add: ssl_rep_def handshake_server_def idle_server_def)
  have hyps: "\<forall>h n. malloc_ok (mem (handshake_server r) h) n" "next_addr (handshake_server r) + 1 < 2 ^ 64"
      "hash_log2 (ssl_fd_map (handshake_server r)) < 31" "fits_int 9"
      "rep_ret (env (handshake_server r) h (SysAccept l)) = 9"
      "rep_ret (env (handshake_server r) h (SysFcntl l)) = 0"
      "rep_ret (env (handshake_server r) h (SysSsl (SSL_new x))) = 70"
      "rep_ret (env (handshake_server r) h (SysSsl (SSL_accept x))) = r" for r h l x
    by (simp_all add: handshake_server_def idle_server_def glibc_def hash_log2_def HASH_INITIAL_NUM_BUCKETS_LOG2_def fits_int_def)
  have "\<exists>res s'. ssl_accept_new_connection (handshake_server r) = (Inr res, s') \<and> 9 \<in> open_fds (log s') \<and>
      (if 0 < r then res = 9 \<and> ssl_of s' 9 = Some 70 else res = INVALID_SOCKET)" for r
  proof -
    from ssl_accept_registers_or_leaks [OF rep, of r 9 70 r]
    obtain res s' where "ssl_accept_new_connection (handshake_server r) = (Inr res, s')" "9 \<in> open_fds (log s')"
        "if 0 < r then res = 9 \<and> ssl_rep s' ([] @ [(9, next_addr (handshake_server r))]) \<and> (\<forall>fd'. fits_int fd' \<longrightarrow>
           ssl_of s' fd' = (if fd' = 9 then Some 70 else ssl_of (handshake_server r) fd'))
         else res = INVALID_SOCKET \<and> ssl_fd_map s' = ssl_fd_map (handshake_server r) \<and>
           ssl_elems s' = ssl_elems (handshake_server r)"
      using hyps by (simp del: append_Nil) blast
    then show ?thesis using hyps(4) by (cases "0 < r") auto
  qed
  from this [of 1] this [of "- 1"] show ?thesis by auto
qed

end
