(* ===== verification/Win32.thy ===== *)
theory Win32
  imports Future Process
begin

text \<open>
  The Windows side of the operating-system layer: services as processes of a job
  (\<open>os/win32/os.c\<close>), the timer (\<open>os/win32/timer.c\<close>), sockets (\<open>os/win32/socket.c\<close>) and the
  emulation of POSIX threads (\<open>os/win32/pthread.c\<close>).  The Windows API is answered by the
  environment; a handle or an identifier is the number in the answer.  The mutexes and condition
  variables of the emulation are the critical sections and condition variables of the API.
\<close>

definition win_fn :: "win_call \<Rightarrow> ('z io_scheme, int) prog" where
  "win_fn c = bnd (sys (SysWin c)) (\<lambda>r. ret (rep_ret r))"

definition win_do :: "win_call \<Rightarrow> ('z io_scheme, unit) prog" where
  "win_do c = bnd (sys (SysWin c)) (\<lambda>_. ret ())"

section \<open>Processes\<close>

definition win_PID_NOT_RUNNING :: "32 word" where
  "win_PID_NOT_RUNNING = 2147483646"

definition STILL_ACTIVE :: "32 word" where
  "STILL_ACTIVE = 259"

record win_os = os +
  g_job :: int

text \<open>The job that ends all children with the parent is created once; a failure is only logged.\<close>

definition create_job :: "('z win_os_scheme, unit) prog" where
  "create_job =
     bnd (gets g_job) (\<lambda>j.
     guard_do (j = 0)
       (bnd (win_fn CreateJobObject) (\<lambda>j.
        bnd (modify (\<lambda>s. s\<lparr>g_job := j\<rparr>)) (\<lambda>_.
        guard_do (j \<noteq> 0) (win_do (SetInformationJobObject j))))))"

text \<open>
  The program's path: \<open>snprintf\<close> cuts it to 1023 characters, and slashes become backslashes.  The
  command line is put together with \<open>strcat\<close> in 1024 bytes, with no check.
\<close>

definition win_program :: "string \<Rightarrow> string" where
  "win_program program =
     map (\<lambda>c. if c = CHR 0x2F then CHR 0x5C else c) (take 1023 (program @ ''.exe''))"

definition win_cmd_line :: "string \<Rightarrow> string list \<Rightarrow> string outcome" where
  "win_cmd_line cprogram args =
     bind_out (strcat_1024 [] cprogram) (\<lambda>s. bind_out (strcat_1024 s '' '') (\<lambda>s. cmd_line_of s args))"

definition win_os_start_service :: "string \<Rightarrow> string list \<Rightarrow> ('z win_os_scheme, 32 word) prog" where
  "win_os_start_service program args =
     bnd create_job (\<lambda>_.
     bnd (lift (win_cmd_line (win_program program) args)) (\<lambda>cmd_line.
     bnd (sys (SysWin (CreateProcess (win_program program) cmd_line))) (\<lambda>r.
     if rep_ret r = 0 then ret (- 1)
     else
       bnd (gets g_job) (\<lambda>j.
       bnd (guard_do (j \<noteq> 0) (win_do (AssignProcessToJobObject j (rep_status r)))) (\<lambda>_.
       bnd (win_do (ResumeThread (rep_status r))) (\<lambda>_.
       ret (rep_status r)))))))"

text \<open>The second component is the value left in \<open>*status\<close>; a process handle is not closed.\<close>

definition win_os_process_still_running ::
  "32 word \<Rightarrow> int option \<Rightarrow> ('z io_scheme, bool \<times> int option) prog" where
  "win_os_process_still_running pid status =
     (if pid = win_PID_NOT_RUNNING then ret (False, status)
      else
        bnd (win_fn (OpenProcess pid)) (\<lambda>p.
        if p = 0 then ret (False, map_option (\<lambda>_. 1) status)
        else
          bnd (sys (SysWin (GetExitCodeProcess p))) (\<lambda>r.
          if rep_ret r = 0 then ret (False, status)
          else ret (rep_status r = STILL_ACTIVE, map_option (\<lambda>_. sint (rep_status r)) status))))"

definition win_os_kill :: "32 word \<Rightarrow> bool \<Rightarrow> ('z io_scheme, unit) prog" where
  "win_os_kill pid immediate =
     bnd (win_fn (OpenProcess pid)) (\<lambda>p.
     if p = 0 then win_do GetLastError
     else
       bnd (win_fn (TerminateProcess p)) (\<lambda>r.
       bnd (guard_do (r = 0) (win_do GetLastError)) (\<lambda>_.
       win_do (CloseHandle p))))"

definition win_handle_sigint :: "int \<Rightarrow> ('z os_scheme, unit) prog" where
  "win_handle_sigint signum = modify (termination_requested_update (\<lambda>_. True))"

definition win_os_handle_ctrl_c :: "('z io_scheme, unit) prog" where
  "win_os_handle_ctrl_c = bnd (sys (SysSignal SIGINT)) (\<lambda>_. bnd (sys (SysSignal SIGTERM)) (\<lambda>_. ret ()))"

definition win_os_sleep_ms :: "size_t \<Rightarrow> ('z io_scheme, unit) prog" where
  "win_os_sleep_ms ms = win_do (SleepMs (ucast ms))"

section \<open>Timer and sockets\<close>

record win_timer =
  freq :: "64 word"
  start_qpc :: "64 word"

definition win_timer_create :: "('z io_scheme, win_timer) prog" where
  "win_timer_create =
     bnd (with_libc (\<lambda>L. Inr (c_malloc L 16))) (\<lambda>p.
     if p = None then halt (Exit EXIT_FAILURE)
     else
       bnd (win_fn QueryPerformanceFrequency) (\<lambda>f.
       bnd (win_fn QueryPerformanceCounter) (\<lambda>c.
       ret \<lparr>freq = word_of_int f, start_qpc = word_of_int c\<rparr>)))"

text \<open>
  The difference of the counters is signed and the factor unsigned, so the product and the
  quotient are those of unsigned 64-bit arithmetic.
\<close>

definition win_timer_current_ms :: "win_timer \<Rightarrow> ('z io_scheme, 64 word) prog" where
  "win_timer_current_ms t =
     bnd (win_fn QueryPerformanceCounter) (\<lambda>c.
     if freq t = 0 then halt Undefined
     else ret ((word_of_int c - start_qpc t) * 1000 div freq t))"

definition socket_init :: "('z io_scheme, unit) prog" where
  "socket_init =
     bnd (win_fn WSAStartup) (\<lambda>r. guard_do (r \<noteq> 0) FATAL_NON_RECOVERABLE)"

definition socket_finalize :: "('z io_scheme, unit) prog" where
  "socket_finalize = win_do WSACleanup"

definition win_close :: "int \<Rightarrow> ('z io_scheme, unit) prog" where
  "win_close fd = win_do (Closesocket fd)"

section \<open>Threads\<close>

text \<open>
  \<open>thread_trampoline\<close> hands the pointer that the start routine returned to Windows as the exit
  code of the thread, 32 bits wide.
\<close>

definition thread_trampoline :: "ptr \<Rightarrow> 32 word" where
  "thread_trampoline r = ucast r"

text \<open>The result of \<open>pthread_create\<close>, and the handle.\<close>

definition win_pthread_create :: "('z io_scheme, int \<times> int) prog" where
  "win_pthread_create =
     bnd (with_libc (\<lambda>L. MALLOC L 16)) (\<lambda>_.
     bnd (win_fn CreateThread) (\<lambda>h.
     if h = 0 then bnd (win_fn GetLastError) (\<lambda>e. ret (e, 0)) else ret (0, h)))"

text \<open>The result of \<open>pthread_join\<close>, and what it stored at \<open>retval\<close> if that is not NULL.\<close>

definition win_pthread_join :: "int \<Rightarrow> bool \<Rightarrow> ('z io_scheme, int \<times> ptr option) prog" where
  "win_pthread_join thread want =
     bnd (win_fn (WaitForSingleObject thread)) (\<lambda>rc.
     if rc \<noteq> 0 then bnd (win_fn GetLastError) (\<lambda>e. ret (e, None))
     else
       bnd (if want then bnd (sys (SysWin (GetExitCodeThread thread))) (\<lambda>r. ret (Some (ucast (rep_status r))))
            else ret None) (\<lambda>v.
       bnd (win_do (CloseHandle thread)) (\<lambda>_.
       ret (0, v))))"

lemma bnd_win [simp]:
  "bnd (win_fn c) f s = f (rep_ret (env s (log s) (SysWin c)))
     (s\<lparr>log := log s @ [(SysWin c, env s (log s) (SysWin c))]\<rparr>)"
  "bnd (win_do c) g s = g () (s\<lparr>log := log s @ [(SysWin c, env s (log s) (SysWin c))]\<rparr>)"
  by (simp_all add: win_fn_def win_do_def bnd_sys)

section \<open>Properties\<close>

text \<open>
  The result of a thread that is joined on Windows has only 32 bits: if the thread's routine
  returned \<open>v\<close>, and Windows keeps the exit code, the join stores \<open>v mod 2 ^ 32\<close> and closes the
  handle.  A future that succeeded therefore reports its pointer unchanged only below 4 GiB.
\<close>

theorem win_join_truncates_result:
  assumes "rep_ret (env s (log s) (SysWin (WaitForSingleObject thread))) = 0"
    and "\<forall>h. rep_status (env s h (SysWin (GetExitCodeThread thread))) = thread_trampoline v"
  shows "\<exists>s' w. win_pthread_join thread True s = (Inr (0, Some w), s') \<and>
    unat w = unat v mod 2 ^ 32 \<and> (w = v \<longleftrightarrow> unat v < 2 ^ 32) \<and>
    map fst (drop (length (log s)) (log s')) =
      [SysWin (WaitForSingleObject thread), SysWin (GetExitCodeThread thread), SysWin (CloseHandle thread)]"
proof -
  define w where "w = (ucast (thread_trampoline v) :: ptr)"
  have w: "unat w = unat v mod 2 ^ 32"
    unfolding w_def thread_trampoline_def
    by (simp add: unsigned_ucast_eq unsigned_take_bit_eq) (simp add: take_bit_eq_mod)
  then have "w = v \<longleftrightarrow> unat v < 2 ^ 32" using unsigned_word_eqI [of w v, where ?'a = nat]
    by (metis mod_less mod_less_divisor zero_less_numeral zero_less_power)
  then show ?thesis using w assms by (simp add: win_pthread_join_def bnd_sys flip: w_def)
qed

definition thread_kernel :: "history \<Rightarrow> syscall \<Rightarrow> reply" where
  "thread_kernel h c = \<lparr>rep_ret = 0, rep_errno = 0, rep_bytes = [],
     rep_status = thread_trampoline 0x700000001, rep_events = [], rep_addrs = []\<rparr>"

theorem win_join_truncates_result_witness:
  "\<exists>s' w. win_pthread_join 8 True \<lparr>env = thread_kernel, log = [], mem = \<lambda>_. glibc\<rparr> = (Inr (0, Some w), s') \<and>
     unat w = 1 \<and> w \<noteq> 0x700000001"
proof -
  have "rep_ret (thread_kernel h c) = 0" "rep_status (thread_kernel h c) = thread_trampoline 0x700000001" for h c
    by (simp_all add: thread_kernel_def)
  then show ?thesis
    using win_join_truncates_result [of "\<lparr>env = thread_kernel, log = [], mem = \<lambda>_. glibc\<rparr>" 8 "0x700000001"]
    by auto
qed

text \<open>
  Asking \<open>n\<close> times whether a process still runs opens \<open>n\<close> handles to it and closes none.
\<close>

fun poll_process :: "nat \<Rightarrow> 32 word \<Rightarrow> ('z io_scheme, unit) prog" where
  "poll_process 0 pid = ret ()"
| "poll_process (Suc n) pid = bnd (win_os_process_still_running pid (Some 0)) (\<lambda>_. poll_process n pid)"

definition opened_handles :: "history \<Rightarrow> nat" where
  "opened_handles h = length (filter (\<lambda>(c, r). (\<exists>p. c = SysWin (OpenProcess p)) \<and> rep_ret r \<noteq> 0) h)"

lemma win_poll_leaks_handles:
  assumes "pid \<noteq> win_PID_NOT_RUNNING" "\<forall>h. rep_ret (env s h (SysWin (OpenProcess pid))) \<noteq> 0"
  shows "\<exists>h. poll_process n pid s = (Inr (), s\<lparr>log := log s @ h\<rparr>) \<and> opened_handles h = n \<and>
    (\<forall>p. SysWin (CloseHandle p) \<notin> fst ` set h)"
  using assms
proof (induction n arbitrary: s)
  case 0
  then show ?case by (intro exI [of _ "[]"]) (simp add: opened_handles_def)
next
  case (Suc n)
  define r where "r = env s (log s) (SysWin (OpenProcess pid))"
  define h1 where "h1 = [(SysWin (OpenProcess pid), r)]"
  define h2 where "h2 = h1 @ [(SysWin (GetExitCodeProcess (rep_ret r)), env s (log s @ h1) (SysWin (GetExitCodeProcess (rep_ret r))))]"
  have r: "rep_ret r \<noteq> 0" using Suc.prems(2) by (simp add: r_def)
  then have "\<exists>x. win_os_process_still_running pid (Some 0) s = (Inr x, s\<lparr>log := log s @ h2\<rparr>)"
    using Suc.prems(1)
    by (cases "rep_ret (env s (log s @ h1) (SysWin (GetExitCodeProcess (rep_ret r)))) = 0")
      (auto simp: win_os_process_still_running_def bnd_sys h1_def h2_def simp flip: r_def)
  then obtain x where x: "win_os_process_still_running pid (Some 0) s = (Inr x, s\<lparr>log := log s @ h2\<rparr>)" by blast
  obtain h where h: "poll_process n pid (s\<lparr>log := log s @ h2\<rparr>) =
      (Inr (), s\<lparr>log := log s @ h2\<rparr>\<lparr>log := (log s @ h2) @ h\<rparr>)" "opened_handles h = n"
      "\<forall>p. SysWin (CloseHandle p) \<notin> fst ` set h"
    using Suc.IH [of "s\<lparr>log := log s @ h2\<rparr>"] Suc.prems by auto
  have "poll_process (Suc n) pid s = (Inr (), s\<lparr>log := log s @ (h2 @ h)\<rparr>)"
    using h(1) by (simp add: bnd_step(1) [of "win_os_process_still_running pid (Some 0)" s, OF x])
  moreover have "opened_handles (h2 @ h) = Suc n" using h(2) r by (simp add: h2_def h1_def opened_handles_def)
  ultimately show ?case using h(3) by (intro exI [of _ "h2 @ h"]) (auto simp: h2_def h1_def)
qed

text \<open>The timer is exact while the product fits into 64 bits.\<close>

lemma win_timer_exact:
  assumes "rep_ret (env s (log s) (SysWin QueryPerformanceCounter)) = c" "start_qpc t = word_of_int c0"
    "0 \<le> c0" "c0 \<le> c" "(c - c0) * 1000 < 2 ^ 64" "freq t \<noteq> 0"
  shows "\<exists>s' w. win_timer_current_ms t s = (Inr w, s') \<and> uint w = (c - c0) * 1000 div uint (freq t)"
proof -
  define d where "d = (c - c0) * 1000"
  have "(word_of_int c - start_qpc t) * 1000 = (word_of_int d :: 64 word)"
    using assms(2) by (simp add: d_def algebra_simps)
  moreover have "uint (word_of_int d :: 64 word) = d"
  proof -
    have "0 \<le> d" "d < 2 ^ 64" using assms(4,5) by (simp_all add: d_def)
    then show ?thesis by (simp add: uint_word_of_int_eq take_bit_int_eq_self)
  qed
  ultimately have "uint ((word_of_int c - start_qpc t) * 1000 div freq t) = d div uint (freq t)"
    by (simp add: uint_div)
  then show ?thesis using assms(1,6) by (simp add: win_timer_current_ms_def) (simp add: d_def algebra_simps)
qed

end
