(* ===== verification/Logs.thy ===== *)
theory Logs
  imports World
begin

text \<open>
  Logging (\<open>src/util/logs.c\<close>) on a POSIX console (\<open>os/posix/window.c\<close>): which messages are
  written where, and how a line looks.  A message is given with its arguments put in.
\<close>

record log_state =
  logs_enabled :: bool
  logs_verbose :: bool
  logging_color :: int
  service :: string
  stdout :: string
  stderr :: string

fun decimal :: "nat \<Rightarrow> string" where
  "decimal n = (if n < 10 then [char_of (48 + n)] else decimal (n div 10) @ [char_of (48 + n mod 10)])"

declare decimal.simps [simp del]

text \<open>The conversions \<open>%d\<close> and \<open>%-13s\<close>.\<close>

definition percent_d :: "int \<Rightarrow> string" where
  "percent_d i = (if i < 0 then ''-'' @ decimal (nat (- i)) else decimal (nat i))"

definition percent_minus_13_s :: "string \<Rightarrow> string" where
  "percent_minus_13_s s = s @ replicate (13 - length s) (CHR 0x20)"

definition ESC :: string where "ESC = [CHR 0x1B]"

definition vnprintf :: "string \<Rightarrow> log_state \<Rightarrow> log_state" where
  "vnprintf msg s = s\<lparr>stdout := stdout s @
     ESC @ ''[0;'' @ percent_d (logging_color s) @ ''m'' @ percent_minus_13_s (service s) @ '': '' @
     msg @ ESC @ ''[0m'' @ [CHR 0x0A]\<rparr>"

definition vnprintf_error :: "string \<Rightarrow> log_state \<Rightarrow> log_state" where
  "vnprintf_error msg s = s\<lparr>stderr := stderr s @ service s @ '': '' @ msg @ [CHR 0x0A]\<rparr>"

definition DBG :: "string \<Rightarrow> log_state \<Rightarrow> log_state" where
  "DBG msg s = (if \<not> logs_verbose s \<or> \<not> logs_enabled s then s else vnprintf msg s)"

definition LOG :: "string \<Rightarrow> log_state \<Rightarrow> log_state" where
  "LOG msg s = (if \<not> logs_enabled s then s else vnprintf msg s)"

definition ERR :: "string \<Rightarrow> log_state \<Rightarrow> log_state" where
  "ERR msg s = (if \<not> logs_enabled s then s else vnprintf_error msg s)"

datatype message = Debug string | Info string | Failure string

fun log_message :: "message \<Rightarrow> log_state \<Rightarrow> log_state" where
  "log_message (Debug m) = DBG m"
| "log_message (Info m) = LOG m"
| "log_message (Failure m) = ERR m"

text \<open>
  Over any sequence of messages: the settings stay, \<open>stdout\<close> gets one whole line per message that
  passes the two switches, in order, and \<open>stderr\<close> one per error.
\<close>

definition log_line :: "log_state \<Rightarrow> string \<Rightarrow> string" where
  "log_line s msg = drop (length (stdout s)) (stdout (vnprintf msg s))"

lemma log_messages:
  "fold log_message ms s = s\<lparr>
     stdout := stdout s @ concat (map (log_line s) (concat (map (\<lambda>m. case m of
         Debug t \<Rightarrow> if logs_enabled s \<and> logs_verbose s then [t] else []
       | Info t \<Rightarrow> if logs_enabled s then [t] else []
       | Failure t \<Rightarrow> []) ms))),
     stderr := stderr s @ concat (map (\<lambda>m. case m of
         Failure t \<Rightarrow> if logs_enabled s then service s @ '': '' @ t @ [CHR 0x0A] else []
       | _ \<Rightarrow> []) ms)\<rparr>"
proof (induction ms arbitrary: s)
  case (Cons m ms)
  then show ?case
    by (cases m)
      (simp_all add: DBG_def LOG_def ERR_def vnprintf_def vnprintf_error_def log_line_def)
qed simp

lemma log_line_long: "13 \<le> length (log_line s msg) - length msg"
  by (simp add: log_line_def vnprintf_def percent_minus_13_s_def ESC_def)

end
