(* ===== verification/Loops.thy ===== *)
theory Loops
  imports Prelude
begin

text \<open>
  Programs with loops whose termination is a theorem and not an assumption.  A \<open>run\<close> is
  \<open>None\<close> when the code does not return, and otherwise its outcome: \<open>Some (Inl e)\<close> stops with
  \<open>e\<close>, \<open>Some (Inr x)\<close> returns \<open>x\<close>.  The C \<open>while\<close> loop is the least fixed point of its
  unfolding; \<open>returns m Q\<close> is total correctness, and a loop is proved to return by an invariant
  and a well-founded relation, or never to return by an invariant that keeps its condition true.
\<close>

section \<open>Runs\<close>

type_synonym 'a run = "'a outcome option"

abbreviation returned :: "'a \<Rightarrow> 'a run" where
  "returned x \<equiv> Some (Inr x)"

abbreviation stopped :: "stop \<Rightarrow> 'a run" where
  "stopped e \<equiv> Some (Inl e)"

definition then_run :: "'a run \<Rightarrow> ('a \<Rightarrow> 'b run) \<Rightarrow> 'b run" where
  "then_run m f = Option.bind m (\<lambda>r. case r of Inl e \<Rightarrow> stopped e | Inr x \<Rightarrow> f x)"

lemma then_run_simps [simp]:
  "then_run None f = None"
  "then_run (stopped e) f = stopped e"
  "then_run (returned x) f = f x"
  by (simp_all add: then_run_def)

lemma then_run_assoc [simp]: "then_run (then_run m f) g = then_run m (\<lambda>x. then_run (f x) g)"
  by (cases m) (auto simp: then_run_def split: sum.splits)

lemma then_run_eq_returned:
  "then_run m f = returned y \<longleftrightarrow> (\<exists>x. m = returned x \<and> f x = returned y)"
  by (cases m) (auto simp: then_run_def split: sum.splits)

lemma then_run_cong [fundef_cong]:
  "m = m' \<Longrightarrow> (\<And>x. m' = returned x \<Longrightarrow> f x = g x) \<Longrightarrow> then_run m f = then_run m' g"
  by (cases m') (auto simp: then_run_def split: sum.splits)

text \<open>\<open>while (c) b\<close>: the condition may read memory, and so stop.\<close>

partial_function (option) while_run ::
  "('s \<Rightarrow> bool run) \<Rightarrow> ('s \<Rightarrow> 's run) \<Rightarrow> 's \<Rightarrow> 's run" where
  "while_run c b s =
     Option.bind (c s) (\<lambda>r. case r of
       Inl e \<Rightarrow> stopped e
     | Inr t \<Rightarrow>
         if t then Option.bind (b s) (\<lambda>r'. case r' of
           Inl e \<Rightarrow> stopped e | Inr s' \<Rightarrow> while_run c b s')
         else returned s)"

lemma while_run_unfold:
  "while_run c b s =
     then_run (c s) (\<lambda>t. if t then then_run (b s) (while_run c b) else returned s)"
  by (subst while_run.simps) (cases "c s", auto simp: then_run_def split: sum.splits intro!: Option.bind_cong)

lemma while_run_step:
  "c s = returned False \<Longrightarrow> while_run c b s = returned s"
  "c s = returned True \<Longrightarrow> while_run c b s = then_run (b s) (while_run c b)"
  by (simp_all add: while_run_unfold [of c b s])

section \<open>Total correctness\<close>

definition returns :: "'a run \<Rightarrow> ('a \<Rightarrow> bool) \<Rightarrow> bool" where
  "returns m Q \<longleftrightarrow> (\<exists>x. m = returned x \<and> Q x)"

lemma returns_simps [simp]:
  "returns None Q \<longleftrightarrow> False"
  "returns (stopped e) Q \<longleftrightarrow> False"
  "returns (returned x) Q \<longleftrightarrow> Q x"
  by (simp_all add: returns_def)

lemma returns_then [simp]: "returns (then_run m f) Q \<longleftrightarrow> returns m (\<lambda>x. returns (f x) Q)"
  by (cases m) (auto simp: then_run_def returns_def split: sum.splits)

lemma returns_mono: "returns m P \<Longrightarrow> (\<And>x. P x \<Longrightarrow> Q x) \<Longrightarrow> returns m Q"
  by (auto simp: returns_def)

lemma returns_conj: "returns m P \<Longrightarrow> returns m Q \<Longrightarrow> returns m (\<lambda>x. P x \<and> Q x)"
  by (auto simp: returns_def)

lemma returnsE:
  assumes "returns m Q"
  obtains x where "m = returned x" "Q x"
  using assms by (auto simp: returns_def)

lemma returns_while:
  assumes "I s" "wf R"
    and "\<And>s. I s \<Longrightarrow>
      returns (c s) (\<lambda>t. if t then returns (b s) (\<lambda>s'. I s' \<and> (s', s) \<in> R) else Q s)"
  shows "returns (while_run c b s) Q"
  using assms(2,1)
proof (induction s)
  case (less s)
  obtain t where t: "c s = returned t"
      "if t then returns (b s) (\<lambda>s'. I s' \<and> (s', s) \<in> R) else Q s"
    using assms(3) [OF less.prems] by (rule returnsE)
  show ?case
  proof (cases t)
    case True
    then obtain s' where "b s = returned s'" "I s'" "(s', s) \<in> R"
      using t(2) by (auto elim: returnsE)
    then show ?thesis using less.IH t(1) True by (simp add: while_run_step)
  next
    case False
    then show ?thesis using t by (simp add: while_run_step)
  qed
qed

lemma returns_while_measure:
  assumes "I s"
    and "\<And>s. I s \<Longrightarrow>
      returns (c s) (\<lambda>t. if t then returns (b s) (\<lambda>s'. I s' \<and> m s' < (m s :: nat)) else Q s)"
  shows "returns (while_run c b s) Q"
proof (rule returns_while [of I s "measure m"])
  show "I s" by (rule assms(1))
  show "wf (measure m)" by simp
  show "returns (c s) (\<lambda>t. if t then returns (b s) (\<lambda>s'. I s' \<and> (s', s) \<in> measure m) else Q s)"
    if "I s" for s using assms(2) [OF that] by (simp only: in_measure)
qed

section \<open>Loops that never return\<close>

lemma while_run_diverges:
  assumes "I s" and "\<And>s. I s \<Longrightarrow> c s = returned True \<and> (\<exists>s'. b s = returned s' \<and> I s')"
  shows "while_run c b s = None"
proof (rule ccontr)
  assume "while_run c b s \<noteq> None"
  then obtain r where r: "while_run c b s = Some r" by auto
  have "c' = c \<and> b' = b \<longrightarrow> \<not> I s'" if "while_run c' b' s' = Some r'" for c' b' s' r'
    using that
  proof (induction rule: while_run.raw_induct [rotated, consumes 1, case_names step])
    case (step f c' b' s' r')
    show ?case
    proof (intro impI notI, elim conjE)
      assume eq: "c' = c" "b' = b" and "I s'"
      then obtain s'' where "c s' = returned True" "b s' = returned s''" "I s''"
        using assms(2) by blast
      with eq step show False by auto
    qed
  qed
  with r have "\<not> I s" by blast
  with assms(1) show False by simp
qed

section \<open>Partial correctness\<close>

lemma while_run_invariant:
  assumes "while_run c b s = returned t" "I s"
    and "\<And>s s'. I s \<Longrightarrow> c s = returned True \<Longrightarrow> b s = returned s' \<Longrightarrow> I s'"
  shows "I t \<and> c t = returned False"
proof -
  have "c0 = c \<and> b0 = b \<longrightarrow> I s0 \<longrightarrow> (\<forall>t. r = Inr t \<longrightarrow> I t \<and> c t = returned False)"
    if "while_run c0 b0 s0 = Some r" for c0 b0 s0 r
    using that
  proof (induction rule: while_run.raw_induct [rotated, consumes 1, case_names step])
    case (step f c0 b0 s0 r)
    show ?case
    proof (intro impI allI)
      fix t assume eq: "c0 = c \<and> b0 = b" "I s0" "r = Inr t"
      with step.hyps obtain v where v: "c s0 = returned v"
        by (cases "c s0") (auto split: sum.splits)
      show "I t \<and> c t = returned False"
      proof (cases v)
        case False
        then show ?thesis using step.hyps eq v by simp
      next
        case True
        then obtain s' where s': "b s0 = returned s'" "f c b s' = returned t"
          using step.hyps eq v by (cases "b s0") (auto split: sum.splits)
        then show ?thesis using step.IH [OF s'(2)] assms(3) [OF eq(2)] v True by simp
      qed
    qed
  qed
  then show ?thesis using assms(1,2) by blast
qed

section \<open>Loops that mirror each other\<close>

lemma while_run_simulates:
  assumes "while_run c b s = returned t" "I s"
    and "\<And>s v. I s \<Longrightarrow> c s = returned v \<Longrightarrow> c' (g s) = returned v"
    and "\<And>s s'. I s \<Longrightarrow> c s = returned True \<Longrightarrow> b s = returned s' \<Longrightarrow>
           I s' \<and> b' (g s) = returned (g s')"
  shows "I t \<and> while_run c' b' (g s) = returned (g t)"
proof -
  have "c0 = c \<and> b0 = b \<longrightarrow> I s0 \<longrightarrow> (\<forall>t. r = Inr t \<longrightarrow> I t \<and> while_run c' b' (g s0) = returned (g t))"
    if "while_run c0 b0 s0 = Some r" for c0 b0 s0 r
    using that
  proof (induction rule: while_run.raw_induct [rotated, consumes 1, case_names step])
    case (step f c0 b0 s0 r)
    show ?case
    proof (intro impI allI)
      fix t assume eq: "c0 = c \<and> b0 = b" "I s0" "r = Inr t"
      with step.hyps obtain v where v: "c s0 = returned v"
        by (cases "c s0") (auto split: sum.splits)
      show "I t \<and> while_run c' b' (g s0) = returned (g t)"
      proof (cases v)
        case False
        then have "t = s0" using step.hyps eq v by simp
        then show ?thesis using v False assms(3) [OF eq(2) v] eq(2) by (simp add: while_run_step)
      next
        case True
        then obtain s' where s': "b s0 = returned s'" "f c b s' = returned t"
          using step.hyps eq v by (cases "b s0") (auto split: sum.splits)
        have "I s' \<and> b' (g s0) = returned (g s')" using assms(4) [OF eq(2)] v True s'(1) by simp
        then show ?thesis
          using step.IH [OF s'(2)] v True assms(3) [OF eq(2) v] by (simp add: while_run_step)
      qed
    qed
  qed
  then show ?thesis using assms(1,2) by blast
qed

end
