(* ===== verification/Ut_Array.thy ===== *)
theory Ut_Array
  imports Alloc Loops
begin

text \<open>
  The dynamic array \<open>src/contrib/uthash/utarray.h\<close>.  A slot holds the \<open>sz\<close> bytes of an element;
  the index \<open>i\<close> of the next free slot and the number \<open>n\<close> of slots are 32-bit \<open>unsigned\<close>, the
  size of the block is computed in \<open>size_t\<close>.  The callbacks of \<open>UT_icd\<close> are the client's: an
  initialiser and a copy constructor write an uninitialised slot, so what they write depends on
  the source only; a destructor is observed in the log \<open>dtored\<close> of the elements it was called on.
  A pointer to an element is the index of its slot, \<open>None\<close> is NULL.
\<close>

section \<open>The data\<close>

type_synonym elt = "byte list"
type_synonym uint = "32 word"

record ut_icd =
  isz :: size_t
  iinit :: "elt option"
  icopy :: "(elt \<Rightarrow> elt) option"
  idtor :: bool

record ut_array =
  ai :: uint
  an :: uint
  aicd :: ut_icd
  ad :: "elt list option"
  dtored :: "elt list"

definition slots :: "ut_array \<Rightarrow> elt list" where
  "slots a = (case ad a of None \<Rightarrow> [] | Some d \<Rightarrow> d)"

definition copied :: "ut_icd \<Rightarrow> elt \<Rightarrow> elt" where
  "copied c p = (case icopy c of Some f \<Rightarrow> f p | None \<Rightarrow> p)"

definition initial :: "ut_icd \<Rightarrow> elt" where
  "initial c = (case iinit c of Some e \<Rightarrow> e | None \<Rightarrow> replicate (unat (isz c)) 0)"

definition destroyed :: "ut_icd \<Rightarrow> elt list \<Rightarrow> elt list" where
  "destroyed c xs = (if idtor c then xs else [])"

section \<open>Slots\<close>

text \<open>Accesses outside the block have no defined behaviour.\<close>

definition slot :: "ut_array \<Rightarrow> nat \<Rightarrow> elt run" where
  "slot a j = (if j < length (slots a) then returned (slots a ! j) else stopped Undefined)"

definition set_slot :: "nat \<Rightarrow> elt \<Rightarrow> ut_array \<Rightarrow> ut_array run" where
  "set_slot j e a =
     (if j < length (slots a) then returned (a\<lparr>ad := Some ((slots a)[j := e])\<rparr>)
      else stopped Undefined)"

definition dtor_slot :: "nat \<Rightarrow> ut_array \<Rightarrow> ut_array run" where
  "dtor_slot j a = then_run (slot a j) (\<lambda>e. returned (a\<lparr>dtored := dtored a @ [e]\<rparr>))"

text \<open>\<open>memmove\<close> of \<open>k\<close> slots.\<close>

definition move_slots :: "nat \<Rightarrow> nat \<Rightarrow> nat \<Rightarrow> ut_array \<Rightarrow> ut_array run" where
  "move_slots dst src k a =
     (let d = slots a in
      if k = 0 then returned a
      else if dst + k \<le> length d \<and> src + k \<le> length d
      then returned (a\<lparr>ad := Some (take dst d @ take k (drop src d) @ drop (dst + k) d)\<rparr>)
      else stopped Undefined)"

fun each_slot :: "(nat \<Rightarrow> ut_array \<Rightarrow> ut_array run) \<Rightarrow> nat list \<Rightarrow> ut_array \<Rightarrow> ut_array run" where
  "each_slot f [] a = returned a"
| "each_slot f (j # js) a = then_run (f j a) (each_slot f js)"

section \<open>Operations\<close>

definition utarray_init :: "ut_icd \<Rightarrow> ut_array" where
  "utarray_init icd = \<lparr>ai = 0, an = 0, aicd = icd, ad = None, dtored = []\<rparr>"

definition utarray_len :: "ut_array \<Rightarrow> uint" where
  "utarray_len a = ai a"

definition utarray_eltptr :: "ut_array \<Rightarrow> uint \<Rightarrow> nat option" where
  "utarray_eltptr a j = (if j < ai a then Some (unat j) else None)"

definition utarray_done :: "ut_array \<Rightarrow> ut_array run" where
  "utarray_done a =
     (if an a \<noteq> 0
      then then_run
        (if idtor (aicd a) then each_slot dtor_slot [0..<unat (ai a)] a else returned a)
        (\<lambda>a. returned (a\<lparr>ad := None, an := 0\<rparr>))
      else returned (a\<lparr>an := 0\<rparr>))"

text \<open>Releasing the array; what is left to see are the destroyed elements.\<close>

definition utarray_free :: "ut_array \<Rightarrow> elt list run" where
  "utarray_free a = then_run (utarray_done a) (\<lambda>a. returned (dtored a))"

definition utarray_new :: "libc \<Rightarrow> ut_icd \<Rightarrow> ut_array run" where
  "utarray_new L icd =
     (if malloc_ok L 56 then returned (utarray_init icd) else stopped (Exit (- 1)))"

text \<open>The block of \<open>n * sz\<close> bytes that \<open>realloc\<close> returns, as slots; the new ones are
  indeterminate.\<close>

definition realloc_slots :: "libc \<Rightarrow> size_t \<Rightarrow> size_t \<Rightarrow> elt list option \<Rightarrow> elt list option" where
  "realloc_slots L bytes sz p =
     (let k = unat bytes div unat sz;
          old = (case p of None \<Rightarrow> [] | Some d \<Rightarrow> d) in
      if bytes = 0 \<and> realloc0_frees L \<and> p \<noteq> None then None
      else if malloc_ok L (unat bytes)
      then Some (take k old @
             map (\<lambda>j. map (\<lambda>b. indet L (j * unat sz + b)) [0..<unat sz]) [length old..<k])
      else None)"

definition utarray_grow :: "uint \<Rightarrow> uint \<Rightarrow> uint run" where
  "utarray_grow need n =
     while_run (\<lambda>n. returned (need > n)) (\<lambda>n. returned (if n \<noteq> 0 then 2 * n else 8)) n"

definition utarray_reserve :: "libc \<Rightarrow> uint \<Rightarrow> ut_array \<Rightarrow> ut_array run" where
  "utarray_reserve L by' a =
     (if ai a + by' > an a
      then then_run (utarray_grow (ai a + by') (an a)) (\<lambda>n.
        case realloc_slots L (ucast n * isz (aicd a)) (isz (aicd a)) (ad a) of
          None \<Rightarrow> stopped (Exit (- 1))
        | Some d \<Rightarrow> returned (a\<lparr>an := n, ad := Some d\<rparr>))
      else returned a)"

definition utarray_push_back :: "libc \<Rightarrow> elt \<Rightarrow> ut_array \<Rightarrow> ut_array run" where
  "utarray_push_back L p a =
     then_run (utarray_reserve L 1 a) (\<lambda>a.
     then_run (set_slot (unat (ai a)) (copied (aicd a) p) a) (\<lambda>a.
     returned (a\<lparr>ai := ai a + 1\<rparr>)))"

definition utarray_pop_back :: "ut_array \<Rightarrow> ut_array run" where
  "utarray_pop_back a =
     (let a' = a\<lparr>ai := ai a - 1\<rparr> in
      if idtor (aicd a) then dtor_slot (unat (ai a')) a' else returned a')"

definition utarray_extend_back :: "libc \<Rightarrow> ut_array \<Rightarrow> ut_array run" where
  "utarray_extend_back L a =
     then_run (utarray_reserve L 1 a) (\<lambda>a.
     then_run (set_slot (unat (ai a)) (initial (aicd a)) a) (\<lambda>a.
     returned (a\<lparr>ai := ai a + 1\<rparr>)))"

definition utarray_resize :: "libc \<Rightarrow> uint \<Rightarrow> ut_array \<Rightarrow> ut_array run" where
  "utarray_resize L num dst =
     then_run
       (if ai dst > num then
          (if idtor (aicd dst) then each_slot dtor_slot [unat num..<unat (ai dst)] dst
           else returned dst)
        else if ai dst < num then
          then_run (utarray_reserve L (num - ai dst) dst)
            (\<lambda>a. each_slot (\<lambda>j. set_slot j (initial (aicd a))) [unat (ai a)..<unat num] a)
        else returned dst)
       (\<lambda>a. returned (a\<lparr>ai := num\<rparr>))"

definition utarray_insert :: "libc \<Rightarrow> elt \<Rightarrow> uint \<Rightarrow> ut_array \<Rightarrow> ut_array run" where
  "utarray_insert L p j a =
     then_run (if j > ai a then utarray_resize L j a else returned a) (\<lambda>a.
     then_run (utarray_reserve L 1 a) (\<lambda>a.
     then_run (if j < ai a then move_slots (unat (j + 1)) (unat j) (unat (ai a - j)) a
               else returned a) (\<lambda>a.
     then_run (set_slot (unat j) (copied (aicd a) p) a) (\<lambda>a.
     returned (a\<lparr>ai := ai a + 1\<rparr>)))))"

definition utarray_replace :: "elt \<Rightarrow> uint \<Rightarrow> ut_array \<Rightarrow> ut_array run" where
  "utarray_replace p j a =
     then_run (if idtor (aicd a) then dtor_slot (unat j) a else returned a) (\<lambda>a.
     set_slot (unat j) (copied (aicd a) p) a)"

text \<open>The source array \<open>w\<close> is another array.\<close>

definition utarray_inserta :: "libc \<Rightarrow> ut_array \<Rightarrow> uint \<Rightarrow> ut_array \<Rightarrow> ut_array run" where
  "utarray_inserta L w j a =
     (if utarray_len w = 0 then returned a
      else
        then_run (if j > ai a then utarray_resize L j a else returned a) (\<lambda>a.
        then_run (utarray_reserve L (utarray_len w) a) (\<lambda>a.
        then_run (if j < ai a
                  then move_slots (unat (j + utarray_len w)) (unat j) (unat (ai a - j)) a
                  else returned a) (\<lambda>a.
        then_run (each_slot (\<lambda>k a. then_run (slot w k) (\<lambda>e.
                     set_slot (unat (j + word_of_nat k)) (copied (aicd a) e) a))
                   [0..<unat (ai w)] a) (\<lambda>a.
        returned (a\<lparr>ai := ai a + utarray_len w\<rparr>))))))"

definition utarray_concat :: "libc \<Rightarrow> ut_array \<Rightarrow> ut_array \<Rightarrow> ut_array run" where
  "utarray_concat L src dst = utarray_inserta L src (utarray_len dst) dst"

text \<open>The destructor of \<open>utarray_erase\<close> gets \<open>utarray_eltptr\<close>, so NULL beyond the length.\<close>

definition utarray_erase :: "uint \<Rightarrow> uint \<Rightarrow> ut_array \<Rightarrow> ut_array run" where
  "utarray_erase pos len a =
     then_run
       (if idtor (aicd a)
        then each_slot (\<lambda>k a. case utarray_eltptr a (pos + word_of_nat k) of
                           None \<Rightarrow> stopped Undefined | Some j \<Rightarrow> dtor_slot j a) [0..<unat len] a
        else returned a) (\<lambda>a.
     then_run
       (if ai a > pos + len
        then move_slots (unat pos) (unat (pos + len)) (unat (ai a - (pos + len))) a
        else returned a) (\<lambda>a.
     returned (a\<lparr>ai := ai a - len\<rparr>)))"

definition utarray_clear :: "ut_array \<Rightarrow> ut_array run" where
  "utarray_clear a =
     (if ai a > 0
      then then_run
        (if idtor (aicd a) then each_slot dtor_slot [0..<unat (ai a)] a else returned a)
        (\<lambda>a. returned (a\<lparr>ai := 0\<rparr>))
      else returned a)"

definition utarray_renew :: "libc \<Rightarrow> ut_icd \<Rightarrow> ut_array option \<Rightarrow> ut_array run" where
  "utarray_renew L icd p = (case p of Some a \<Rightarrow> utarray_clear a | None \<Rightarrow> utarray_new L icd)"

section \<open>Iteration\<close>

text \<open>\<open>qsort\<close> and \<open>bsearch\<close> are those of the C library, which leaves the order of equal elements open.\<close>

definition utarray_sort ::
  "((elt \<Rightarrow> elt \<Rightarrow> int) \<Rightarrow> elt list \<Rightarrow> elt list) \<Rightarrow> (elt \<Rightarrow> elt \<Rightarrow> int) \<Rightarrow> ut_array \<Rightarrow> ut_array" where
  "utarray_sort qsort cmp a =
     a\<lparr>ad := map_option (\<lambda>d. qsort cmp (take (unat (ai a)) d) @ drop (unat (ai a)) d) (ad a)\<rparr>"

definition utarray_find ::
  "(elt \<Rightarrow> elt list \<Rightarrow> (elt \<Rightarrow> elt \<Rightarrow> int) \<Rightarrow> nat option) \<Rightarrow> elt \<Rightarrow> (elt \<Rightarrow> elt \<Rightarrow> int) \<Rightarrow> ut_array \<Rightarrow> nat option" where
  "utarray_find bsearch v cmp a = bsearch v (take (unat (ai a)) (slots a)) cmp"

definition utarray_front :: "ut_array \<Rightarrow> nat option" where
  "utarray_front a = (if ai a \<noteq> 0 then Some 0 else None)"

definition utarray_back :: "ut_array \<Rightarrow> nat option" where
  "utarray_back a = (if ai a \<noteq> 0 then Some (unat (ai a - 1)) else None)"

definition utarray_next :: "ut_array \<Rightarrow> nat option \<Rightarrow> nat option" where
  "utarray_next a e =
     (case e of
        None \<Rightarrow> utarray_front a
      | Some j \<Rightarrow> if unat (ai a) \<noteq> j + 1 then Some (j + 1) else None)"

definition utarray_prev :: "ut_array \<Rightarrow> nat option \<Rightarrow> nat option" where
  "utarray_prev a e =
     (case e of None \<Rightarrow> utarray_back a | Some j \<Rightarrow> if j \<noteq> 0 then Some (j - 1) else None)"

section \<open>Well-formed arrays\<close>

definition icd_ok :: "ut_icd \<Rightarrow> bool" where
  "icd_ok c \<longleftrightarrow>
     0 < unat (isz c) \<and> unat (isz c) < 2 ^ 32 \<and>
     (\<forall>e. iinit c = Some e \<longrightarrow> length e = unat (isz c)) \<and>
     (\<forall>f p. icopy c = Some f \<longrightarrow> length p = unat (isz c) \<longrightarrow> length (f p) = unat (isz c))"

definition capacity_ok :: "uint \<Rightarrow> bool" where
  "capacity_ok n \<longleftrightarrow> n = 0 \<or> (\<exists>k \<le> 28. unat n = 2 ^ (k + 3))"

definition array_ok :: "ut_array \<Rightarrow> bool" where
  "array_ok a \<longleftrightarrow>
     icd_ok (aicd a) \<and> capacity_ok (an a) \<and> unat (ai a) \<le> unat (an a) \<and>
     length (slots a) = unat (an a) \<and> (\<forall>e \<in> set (slots a). length e = unat (isz (aicd a)))"

definition elems :: "ut_array \<Rightarrow> elt list" where
  "elems a = take (unat (ai a)) (slots a)"

text \<open>What the client sees: the callbacks, the elements and the destroyed elements.\<close>

definition view :: "ut_array \<Rightarrow> ut_icd \<times> elt list \<times> elt list" where
  "view a = (aicd a, elems a, dtored a)"

definition represents :: "ut_icd \<times> elt list \<times> elt list \<Rightarrow> ut_array \<Rightarrow> bool" where
  "represents v a \<longleftrightarrow> array_ok a \<and> view a = v"

lemma array_okD:
  assumes "array_ok a"
  shows "icd_ok (aicd a)" "capacity_ok (an a)" "unat (ai a) \<le> unat (an a)"
    "length (slots a) = unat (an a)" "length (elems a) = unat (ai a)"
  using assms by (simp_all add: array_ok_def elems_def)

lemma representsD:
  assumes "represents (c, xs, ds) a"
  shows "array_ok a" "aicd a = c" "elems a = xs" "dtored a = ds" "length xs = unat (ai a)" "icd_ok c"
  using assms array_okD [of a] by (auto simp: represents_def view_def)

lemma elems_nth: "array_ok a \<Longrightarrow> j < unat (ai a) \<Longrightarrow> elems a ! j = slots a ! j"
  by (simp add: elems_def)

lemma copied_length: "icd_ok c \<Longrightarrow> length p = unat (isz c) \<Longrightarrow> length (copied c p) = unat (isz c)"
  by (auto simp: icd_ok_def copied_def split: option.splits)

lemma initial_length: "icd_ok c \<Longrightarrow> length (initial c) = unat (isz c)"
  by (auto simp: icd_ok_def initial_def split: option.splits)

lemma slots_update [simp]:
  "slots (a\<lparr>ai := i\<rparr>) = slots a" "slots (a\<lparr>dtored := ds\<rparr>) = slots a"
  "slots (a\<lparr>an := n\<rparr>) = slots a" "slots (a\<lparr>ad := Some d\<rparr>) = d"
  by (simp_all add: slots_def)

section \<open>Growing\<close>

lemma capacity_ok_bound: "capacity_ok n \<Longrightarrow> unat n \<le> 2 ^ 31"
proof (unfold capacity_ok_def, elim disjE exE conjE)
  fix k :: nat assume "k \<le> 28" "unat n = 2 ^ (k + 3)"
  moreover from this have "(2::nat) ^ (k + 3) \<le> 2 ^ 31" by (intro power_increasing) auto
  ultimately show ?thesis by simp
qed simp

lemma unat_double: "unat n < 2 ^ 31 \<Longrightarrow> unat (2 * n :: uint) = 2 * unat n"
  by (simp add: unat_word_ariths)

lemma grow_step:
  assumes "capacity_ok n"
  shows "capacity_ok (if n \<noteq> 0 then 2 * n else 8)"
proof (cases "n = 0")
  case True
  have "\<exists>k \<le> (28::nat). unat (8 :: uint) = 2 ^ (k + 3)" by (rule exI [of _ 0]) simp
  then show ?thesis using True by (simp add: capacity_ok_def)
next
  case False
  then obtain k where k: "k \<le> 28" "unat n = 2 ^ (k + 3)" using assms by (auto simp: capacity_ok_def)
  show ?thesis
  proof (cases "k = 28")
    case True
    then have "unat (2 * n) = 0" using k by (simp add: unat_word_ariths)
    then have "2 * n = 0" by (simp add: unat_eq_zero)
    with False show ?thesis by (simp add: capacity_ok_def)
  next
    case False
    then have "(2::nat) ^ (k + 3) < 2 ^ 31" using k(1) by (intro power_strict_increasing) auto
    then have "unat (2 * n) = 2 ^ (Suc k + 3)" using k(2) unat_double [of n] by (simp add: power_add)
    moreover have "Suc k \<le> 28" using k(1) False by simp
    ultimately have "capacity_ok (2 * n)" unfolding capacity_ok_def by blast
    then show ?thesis using \<open>n \<noteq> 0\<close> by simp
  qed
qed

lemma grow_increases: "unat n < 2 ^ 31 \<Longrightarrow> unat n < unat (if n \<noteq> 0 then 2 * n else 8 :: uint)"
  using unat_double [of n] by (auto simp: unat_eq_zero unat_gt_0 [symmetric] simp del: unat_gt_0)

lemma utarray_grow_returns:
  assumes "capacity_ok n" "unat need \<le> 2 ^ 31"
  shows "returns (utarray_grow need n) (\<lambda>n'. capacity_ok n' \<and> need \<le> n' \<and> n \<le> n')"
  unfolding utarray_grow_def
proof (rule returns_while_measure
    [of "\<lambda>m. capacity_ok m \<and> n \<le> m" n _ _ "\<lambda>m. unat need - unat m"])
  show "capacity_ok n \<and> n \<le> n" using assms by simp
next
  fix m assume m: "capacity_ok m \<and> n \<le> m"
  let ?m = "if m \<noteq> 0 then 2 * m else 8"
  have "capacity_ok ?m \<and> n \<le> ?m \<and> unat need - unat ?m < unat need - unat m" if "m < need"
  proof -
    have lt: "unat m < unat need" using that by (simp add: word_less_nat_alt)
    then have "unat m < unat ?m" using assms(2) by (intro grow_increases) simp
    moreover from this m have "n \<le> ?m" by (simp add: word_le_nat_alt)
    ultimately show ?thesis using m grow_step [of m] lt by auto
  qed
  then show "returns (returned (need > m)) (\<lambda>t.
      if t then returns (returned ?m) (\<lambda>m'. (capacity_ok m' \<and> n \<le> m') \<and>
        unat need - unat m' < unat need - unat m)
      else capacity_ok m \<and> need \<le> m \<and> n \<le> m)"
    using m by (auto simp: not_less)
qed

lemma utarray_grow_diverges:
  assumes "capacity_ok n" "2 ^ 31 < unat need"
  shows "utarray_grow need n = None"
  unfolding utarray_grow_def
proof (rule while_run_diverges [of capacity_ok])
  fix m assume m: "capacity_ok m"
  then have "need > m" using capacity_ok_bound [of m] assms(2) by (simp add: word_less_nat_alt)
  with m show "returned (need > m) = returned True \<and>
      (\<exists>m'. returned (if m \<noteq> 0 then 2 * m else 8) = returned m' \<and> capacity_ok m')"
    using grow_step [of m] by simp
qed (rule assms(1))

section \<open>Reserving slots\<close>

definition allocates :: "libc \<Rightarrow> bool" where
  "allocates L \<longleftrightarrow> (\<forall>n. malloc_ok L n)"

lemma realloc_slots_grows:
  assumes "allocates L" "icd_ok c" "length (case p of None \<Rightarrow> [] | Some d \<Rightarrow> d) \<le> unat n" "n \<noteq> (0 :: uint)"
  shows "\<exists>fresh. realloc_slots L (ucast n * isz c) (isz c) p =
           Some ((case p of None \<Rightarrow> [] | Some d \<Rightarrow> d) @ fresh) \<and>
         length fresh = unat n - length (case p of None \<Rightarrow> [] | Some d \<Rightarrow> d) \<and>
         (\<forall>e \<in> set fresh. length e = unat (isz c))"
proof -
  have sz: "0 < unat (isz c)" "unat (isz c) < 2 ^ 32" using assms(2) by (simp_all add: icd_ok_def)
  have "unat n * unat (isz c) < 2 ^ 32 * 2 ^ 32"
    using sz(2) unsigned_less [of n] by (intro mult_strict_mono) auto
  moreover have "unat (ucast n :: size_t) = unat n"
  proof -
    have "unat n < 2 ^ LENGTH(32)" by (rule unsigned_less)
    then show ?thesis by (simp add: unsigned_ucast_eq take_bit_nat_eq_self)
  qed
  ultimately have b: "unat (ucast n * isz c) = unat n * unat (isz c)"
    by (simp add: unat_word_ariths)
  have "0 < unat n" using assms(4) by (simp add: unat_gt_0)
  then have nz: "ucast n * isz c \<noteq> 0" using b sz(1) by (metis mult_pos_pos less_numeral_extra(3) unat_0)
  show ?thesis
    using nz assms(1,3) sz(1) by (auto simp: realloc_slots_def Let_def b allocates_def)
qed

lemma utarray_reserve_returns:
  assumes "allocates L" "array_ok a" "unat (ai a) + unat by' \<le> 2 ^ 31"
  shows "returns (utarray_reserve L by' a) (\<lambda>a'. array_ok a' \<and> view a' = view a \<and> ai a' = ai a \<and>
           unat (ai a) + unat by' \<le> unat (an a'))"
proof -
  note ok = array_okD [OF assms(2)]
  have sum: "unat (ai a + by') = unat (ai a) + unat by'" using assms(3) by (simp add: unat_word_ariths)
  show ?thesis
  proof (cases "ai a + by' > an a")
    case False
    then have "utarray_reserve L by' a = returned a" by (simp add: utarray_reserve_def)
    then show ?thesis using False assms(2) sum by (simp add: not_less word_le_nat_alt)
  next
    case True
    have "returns (utarray_grow (ai a + by') (an a))
        (\<lambda>n. capacity_ok n \<and> ai a + by' \<le> n \<and> an a \<le> n)"
      using utarray_grow_returns ok(2) assms(3) sum by simp
    then obtain n where n: "utarray_grow (ai a + by') (an a) = returned n" "capacity_ok n"
        "ai a + by' \<le> n" "an a \<le> n" by (auto elim: returnsE)
    have "an a < n" using True n(3) by simp
    then have "n \<noteq> 0" by (auto simp: word_less_nat_alt)
    have le: "unat (an a) \<le> unat n" using n(4) by (simp add: word_le_nat_alt)
    obtain fresh where f: "realloc_slots L (ucast n * isz (aicd a)) (isz (aicd a)) (ad a) =
          Some (slots a @ fresh)" "length fresh = unat n - unat (an a)"
        "\<forall>e \<in> set fresh. length e = unat (isz (aicd a))"
      using realloc_slots_grows [OF assms(1) ok(1), of "ad a" n] le \<open>n \<noteq> 0\<close> ok(4)
      by (auto simp: slots_def)
    have "utarray_reserve L by' a = returned (a\<lparr>an := n, ad := Some (slots a @ fresh)\<rparr>)"
      using True n(1) f(1) by (simp add: utarray_reserve_def)
    then show ?thesis
      using assms(2) n(2,3) f(2,3) le ok sum
      by (auto simp: array_ok_def view_def elems_def word_le_nat_alt)
  qed
qed

lemma utarray_reserve_diverges:
  assumes "array_ok a" "2 ^ 31 < unat (ai a) + unat by'" "unat (ai a) + unat by' < 2 ^ 32"
  shows "utarray_reserve L by' a = None"
proof -
  have sum: "unat (ai a + by') = unat (ai a) + unat by'" using assms(3) by (simp add: unat_word_ariths)
  moreover have "ai a + by' > an a"
    using capacity_ok_bound [OF array_okD(2) [OF assms(1)]] assms(2) sum by (simp add: word_less_nat_alt)
  ultimately show ?thesis
    using utarray_grow_diverges [of "an a" "ai a + by'"] array_okD(2) [OF assms(1)] assms(2)
    by (simp add: utarray_reserve_def)
qed

section \<open>Runs over slots\<close>

lemma each_slot_append: "each_slot f (xs @ ys) a = then_run (each_slot f xs a) (each_slot f ys)"
proof (induction xs arbitrary: a)
  case (Cons x xs)
  then have "each_slot f (xs @ ys) = (\<lambda>a. then_run (each_slot f xs a) (each_slot f ys))" by (rule ext)
  then show ?case by simp
qed simp

lemma each_slot_dtor:
  "\<forall>j \<in> set js. j < length (slots a) \<Longrightarrow>
     each_slot dtor_slot js a = returned (a\<lparr>dtored := dtored a @ map ((!) (slots a)) js\<rparr>)"
proof (induction js arbitrary: a)
  case (Cons j js)
  then show ?case using Cons.IH [of "a\<lparr>dtored := dtored a @ [slots a ! j]\<rparr>"]
    by (simp add: dtor_slot_def slot_def)
qed simp

lemma each_slot_writes:
  assumes "\<And>k p. k < length es \<Longrightarrow> f k (a\<lparr>ad := p\<rparr>) = set_slot (j + k) (es ! k) (a\<lparr>ad := p\<rparr>)"
    and "j + length es \<le> length (slots a)"
  shows "\<exists>p. each_slot f [0..<length es] a = returned (a\<lparr>ad := p\<rparr>) \<and>
           slots (a\<lparr>ad := p\<rparr>) = take j (slots a) @ es @ drop (j + length es) (slots a)"
proof -
  have "\<exists>p. each_slot f [0..<n] a = returned (a\<lparr>ad := p\<rparr>) \<and>
      slots (a\<lparr>ad := p\<rparr>) = take j (slots a) @ take n es @ drop (j + n) (slots a)" if "n \<le> length es" for n
    using that
  proof (induction n)
    case 0
    then show ?case by (intro exI [of _ "ad a"]) (simp add: slots_def)
  next
    case (Suc n)
    then obtain p where p: "each_slot f [0..<n] a = returned (a\<lparr>ad := p\<rparr>)"
        "slots (a\<lparr>ad := p\<rparr>) = take j (slots a) @ take n es @ drop (j + n) (slots a)" by auto
    have lt: "j + n < length (slots a)" using Suc.prems assms(2) by simp
    let ?d = "(slots (a\<lparr>ad := p\<rparr>))[j + n := es ! n]"
    have "j + n < length (slots (a\<lparr>ad := p\<rparr>))" using Suc.prems lt p(2) by simp
    then have "each_slot f [0..<Suc n] a = returned (a\<lparr>ad := Some ?d\<rparr>)"
      using Suc.prems p(1) assms(1) [of n p] by (simp add: each_slot_append set_slot_def)
    moreover have "?d = take j (slots a) @ take (Suc n) es @ drop (j + Suc n) (slots a)"
      using Suc.prems lt p(2)
      by (simp add: list_update_append take_Suc_conv_app_nth Cons_nth_drop_Suc [symmetric])
    ultimately show ?case by auto
  qed
  from this [of "length es"] show ?thesis by simp
qed

section \<open>Every operation implements its list operation\<close>

lemma represents_reserve:
  assumes "represents v a" "allocates L" "unat (ai a) + unat by' \<le> 2 ^ 31"
  shows "returns (utarray_reserve L by' a)
           (\<lambda>a'. represents v a' \<and> ai a' = ai a \<and> unat (ai a) + unat by' \<le> unat (an a'))"
  using utarray_reserve_returns [of L a by'] assms by (auto simp: represents_def elim: returns_mono)

lemma represents_update:
  assumes "represents (c, xs, ds) a" "slots (a\<lparr>ad := p\<rparr>) = d" "length d = unat (an a)"
    and "\<forall>e \<in> set d. length e = unat (isz c)" "unat i \<le> unat (an a)" "take (unat i) d = xs'"
  shows "represents (c, xs', ds) (a\<lparr>ad := p, ai := i\<rparr>)"
proof -
  have "slots (a\<lparr>ad := p, ai := i\<rparr>) = d" using assms(2) by (simp add: slots_def)
  then show ?thesis using assms by (auto simp: represents_def array_ok_def view_def elems_def)
qed

lemma represents_shrink:
  assumes "represents (c, xs, ds) a" "unat i \<le> length xs" "xs' = take (unat i) xs"
  shows "represents (c, xs', ds') (a\<lparr>dtored := ds', ai := i\<rparr>)"
  using assms by (auto simp: represents_def array_ok_def view_def elems_def)

lemma utarray_init_represents: "icd_ok c \<Longrightarrow> represents (c, [], []) (utarray_init c)"
  by (simp add: represents_def array_ok_def view_def elems_def utarray_init_def slots_def capacity_ok_def)

lemma unat_Suc_word: "unat (i :: uint) < 2 ^ 31 \<Longrightarrow> unat (i + 1) = unat i + 1"
  by (simp add: unat_word_ariths)

lemma append_slot:
  assumes "represents (c, xs, ds) a" "unat (ai a) < unat (an a)" "length e = unat (isz c)"
  shows "returns (then_run (set_slot (unat (ai a)) e a) (\<lambda>a. returned (a\<lparr>ai := ai a + 1\<rparr>)))
           (represents (c, xs @ [e], ds))"
proof -
  note r = representsD [OF assms(1)] and ok = array_okD [OF representsD(1) [OF assms(1)]]
  have lt: "unat (ai a) < length (slots a)" using assms(2) ok by simp
  have "unat (ai a) < 2 ^ 31" using assms(2) capacity_ok_bound [OF ok(2)] by simp
  then have i: "unat (ai a + 1) = unat (ai a) + 1" by (rule unat_Suc_word)
  have "represents (c, xs @ [e], ds)
      (a\<lparr>ad := Some ((slots a)[unat (ai a) := e]), ai := ai a + 1\<rparr>)"
  proof (rule represents_update [OF assms(1)])
    show "\<forall>x \<in> set ((slots a)[unat (ai a) := e]). length x = unat (isz c)"
      using r(1,2) assms(3) by (auto simp: array_ok_def dest!: subsetD [OF set_update_subset_insert])
    show "take (unat (ai a + 1)) ((slots a)[unat (ai a) := e]) = xs @ [e]"
      using r(3) lt by (auto simp: i elems_def take_Suc_conv_app_nth)
  qed (use lt ok i assms(2) in auto)
  then show ?thesis using lt r(4) by (simp add: set_slot_def)
qed

lemma append_after_reserve:
  assumes "represents (c, xs, ds) a" "allocates L" "length xs < 2 ^ 31" "length (g c) = unat (isz c)"
  shows "returns (then_run (utarray_reserve L 1 a) (\<lambda>a.
           then_run (set_slot (unat (ai a)) (g (aicd a)) a) (\<lambda>a. returned (a\<lparr>ai := ai a + 1\<rparr>))))
           (represents (c, xs @ [g c], ds))"
proof -
  have "returns (utarray_reserve L 1 a) (\<lambda>a'. represents (c, xs, ds) a' \<and> ai a' = ai a \<and>
      unat (ai a) + unat (1 :: uint) \<le> unat (an a'))"
    using assms representsD [OF assms(1)] by (intro represents_reserve) auto
  then show ?thesis
    unfolding returns_then
  proof (rule returns_mono, elim conjE)
    fix a' assume a': "represents (c, xs, ds) a'" "ai a' = ai a" "unat (ai a) + unat (1 :: uint) \<le> unat (an a')"
    show "returns (set_slot (unat (ai a')) (g (aicd a')) a')
        (\<lambda>a. returns (returned (a\<lparr>ai := ai a + 1\<rparr>)) (represents (c, xs @ [g c], ds)))"
      using append_slot [OF a'(1), of "g c"] a'(2,3) assms(4) representsD [OF a'(1)] by simp
  qed
qed

lemma push_back_represents:
  assumes "represents (c, xs, ds) a" "allocates L" "length xs < 2 ^ 31" "length p = unat (isz c)"
  shows "returns (utarray_push_back L p a) (represents (c, xs @ [copied c p], ds))"
  unfolding utarray_push_back_def
  using append_after_reserve [OF assms(1-3), of "\<lambda>c. copied c p"] assms(4) representsD(6) [OF assms(1)]
  by (simp add: copied_length)

lemma extend_back_represents:
  assumes "represents (c, xs, ds) a" "allocates L" "length xs < 2 ^ 31"
  shows "returns (utarray_extend_back L a) (represents (c, xs @ [initial c], ds))"
  unfolding utarray_extend_back_def
  using append_after_reserve [OF assms, of initial] representsD(6) [OF assms(1)]
  by (simp add: initial_length)

lemma destroy_slots:
  assumes "represents (c, xs, ds) a" "n \<le> length xs"
  shows "(if idtor (aicd a) then each_slot dtor_slot [m..<n] a else returned a) =
           returned (a\<lparr>dtored := ds @ destroyed c (drop m (take n xs))\<rparr>)"
proof -
  note r = representsD [OF assms(1)] and ok = array_okD [OF representsD(1) [OF assms(1)]]
  have le: "n \<le> length (slots a)" using assms(2) r(5) ok by simp
  have "map ((!) (slots a)) [m..<n] = drop m (take n (slots a))"
    using le by (intro nth_equalityI) auto
  also have "\<dots> = drop m (take n xs)" using assms(2) r(3,5) by (auto simp: elems_def min_def)
  finally show ?thesis
    using le r(2,4) each_slot_dtor [of "[m..<n]" a] by (auto simp: destroyed_def)
qed

lemma destroy_all:
  assumes "represents (c, xs, ds) a"
  shows "(if idtor (aicd a) then each_slot dtor_slot [m..<unat (ai a)] a else returned a) =
           returned (a\<lparr>dtored := ds @ destroyed c (drop m xs)\<rparr>)"
  using destroy_slots [OF assms, of "unat (ai a)" m] representsD(5) [OF assms] by simp

lemma each_slot_shift: "m \<le> n \<Longrightarrow> each_slot f [m..<n] a = each_slot (\<lambda>k. f (m + k)) [0..<n - m] a"
proof -
  assume "m \<le> n"
  have "each_slot f (map g js) a = each_slot (\<lambda>k. f (g k)) js a" for g and js :: "nat list"
  proof (induction js arbitrary: a)
    case (Cons j js)
    then have "each_slot f (map g js) = each_slot (\<lambda>k. f (g k)) js" by (rule ext)
    then show ?case by simp
  qed simp
  from this [of "\<lambda>k. k + m" "[0..<n - m]"] \<open>m \<le> n\<close> show ?thesis
    by (simp add: map_add_upt add.commute)
qed

lemma pop_back_represents:
  assumes "represents (c, xs, ds) a" "xs \<noteq> []"
  shows "returns (utarray_pop_back a) (represents (c, butlast xs, ds @ destroyed c [last xs]))"
proof -
  note r = representsD [OF assms(1)] and ok = array_okD [OF representsD(1) [OF assms(1)]]
  have "ai a \<noteq> 0" using assms(2) r(5) by auto
  then have i: "unat (ai a - 1) = unat (ai a) - 1" by (rule unat_minus_one)
  have pos: "0 < unat (ai a)" using assms(2) r(5) by (metis length_greater_0_conv)
  have lt: "unat (ai a) - 1 < unat (an a)" using pos ok(3) by linarith
  have "last xs = slots a ! (unat (ai a) - 1)"
    using assms(2) r(3,5) pos ok by (auto simp: last_conv_nth elems_def)
  then have "utarray_pop_back a =
      returned (a\<lparr>dtored := ds @ destroyed c [last xs], ai := ai a - 1\<rparr>)"
    using i pos lt ok r(2,4) by (simp add: utarray_pop_back_def dtor_slot_def slot_def destroyed_def Let_def)
  then show ?thesis
    using represents_shrink [OF assms(1), of "ai a - 1"] i r(5) by (simp add: butlast_conv_take)
qed

lemma clear_represents:
  assumes "represents (c, xs, ds) a"
  shows "returns (utarray_clear a) (represents (c, [], ds @ destroyed c xs))"
proof -
  note r = representsD [OF assms]
  have "utarray_clear a = returned (a\<lparr>dtored := ds @ destroyed c xs, ai := 0\<rparr>)" if "ai a \<noteq> 0"
    using that destroy_slots [OF assms, of "unat (ai a)" 0] r(5)
    by (simp add: utarray_clear_def word_gt_0)
  moreover have "utarray_clear a = returned (a\<lparr>dtored := ds @ destroyed c xs, ai := 0\<rparr>)" if "ai a = 0"
    using that r(4,5) by (simp add: utarray_clear_def destroyed_def)
  ultimately show ?thesis
    using represents_shrink [OF assms, of 0 "[]" "ds @ destroyed c xs"] by (cases "ai a = 0") simp_all
qed

lemma done_destroys_all:
  assumes "represents (c, xs, ds) a"
  shows "returns (utarray_done a) (\<lambda>a'. an a' = 0 \<and> ad a' = None \<or> an a = 0)"
    "returns (utarray_done a) (\<lambda>a'. dtored a' = ds @ destroyed c xs)"
proof -
  note r = representsD [OF assms] and ok = array_okD [OF representsD(1) [OF assms]]
  have "xs = []" if "an a = 0" using that r(5) ok by simp
  then show "returns (utarray_done a) (\<lambda>a'. dtored a' = ds @ destroyed c xs)"
    using destroy_slots [OF assms, of "unat (ai a)" 0] r(4,5)
    by (simp add: utarray_done_def destroyed_def)
  show "returns (utarray_done a) (\<lambda>a'. an a' = 0 \<and> ad a' = None \<or> an a = 0)"
    using destroy_slots [OF assms, of "unat (ai a)" 0] r(5) by (simp add: utarray_done_def)
qed

section \<open>Resizing, inserting and erasing\<close>

lemma destroyed_Nil [simp]: "destroyed c [] = []"
  by (simp add: destroyed_def)

lemma resize_represents:
  assumes "represents (c, xs, ds) a" "allocates L" "unat num \<le> 2 ^ 31"
  shows "returns (utarray_resize L num a) (\<lambda>a'. ai a' = num \<and>
           represents (c, take (unat num) xs @ replicate (unat num - length xs) (initial c),
                       ds @ destroyed c (drop (unat num) xs)) a')"
proof -
  note r = representsD [OF assms(1)] and ok = array_okD [OF representsD(1) [OF assms(1)]]
  consider "ai a > num" | "ai a < num" | "ai a = num" by force
  then show ?thesis
  proof cases
    case 1
    then have lt: "unat num < length xs" using r(5) by (simp add: word_less_nat_alt)
    have "utarray_resize L num a =
        returned (a\<lparr>dtored := ds @ destroyed c (drop (unat num) xs), ai := num\<rparr>)"
      using 1 by (simp only: utarray_resize_def destroy_all [OF assms(1)] if_True then_run_simps)
    then show ?thesis
      using lt represents_shrink [OF assms(1), of num "take (unat num) xs"] by simp
  next
    case 3
    then have "utarray_resize L num a = returned a" by (simp add: utarray_resize_def)
    then show ?thesis using 3 assms(1) r(5) by simp
  next
    case 2
    then have lt: "length xs < unat num" using r(5) by (simp add: word_less_nat_alt)
    then have by': "unat (num - ai a) = unat num - length xs" using r(5) 2 by (simp add: unat_sub_if')
    have "returns (utarray_reserve L (num - ai a) a) (\<lambda>a'. represents (c, xs, ds) a' \<and> ai a' = ai a \<and>
        unat (ai a) + unat (num - ai a) \<le> unat (an a'))"
      using assms lt by' r(5) by (intro represents_reserve) auto
    then obtain b where b: "utarray_reserve L (num - ai a) a = returned b" "represents (c, xs, ds) b"
        "ai b = ai a" "unat num \<le> unat (an b)"
      using lt by' r(5) by (auto elim!: returnsE)
    note rb = representsD [OF b(2)] and okb = array_okD [OF representsD(1) [OF b(2)]]
    let ?n = "unat num - unat (ai a)" let ?es = "replicate ?n (initial c)"
    let ?f = "\<lambda>j. set_slot j (initial (aicd b))"
    have sl: "length (slots b) = unat (an b)" using okb(4) .
    obtain p where p: "each_slot (\<lambda>k. ?f (unat (ai a) + k)) [0..<length ?es] b = returned (b\<lparr>ad := p\<rparr>)"
        "slots (b\<lparr>ad := p\<rparr>) =
           take (unat (ai a)) (slots b) @ ?es @ drop (unat (ai a) + length ?es) (slots b)"
      using each_slot_writes [of ?es "\<lambda>k. ?f (unat (ai a) + k)" b "unat (ai a)"] b(4) lt r(5) rb(2) sl
      by auto
    have "utarray_resize L num a = returned (b\<lparr>ad := p, ai := num\<rparr>)"
      using 2 b(1,3) p(1) each_slot_shift [of "unat (ai b)" "unat num" ?f b] lt r(5)
      by (simp add: utarray_resize_def)
    moreover have "represents (c, xs @ replicate (unat num - length xs) (initial c), ds)
        (b\<lparr>ad := p, ai := num\<rparr>)"
    proof (rule represents_update [OF b(2) p(2)])
      show "\<forall>e \<in> set (take (unat (ai a)) (slots b) @ ?es @ drop (unat (ai a) + length ?es) (slots b)).
          length e = unat (isz c)"
        using rb(1,2,6) by (auto simp: array_ok_def initial_length dest: in_set_takeD in_set_dropD)
    qed (use b(3,4) lt r(5) rb(2,3) sl in \<open>auto simp: elems_def\<close>)
    ultimately show ?thesis using lt r(5) by simp
  qed
qed

text \<open>Moving the elements from \<open>j\<close> on by \<open>w\<close> slots opens a gap, which the new elements fill.\<close>

definition gap :: "elt list \<Rightarrow> nat \<Rightarrow> nat \<Rightarrow> nat \<Rightarrow> elt list" where
  "gap d j w n = take (j + w) d @ take (n - j) (drop j d) @ drop (n + w) d"

lemma move_opens_gap:
  assumes "represents (c, xs, ds) b" "j \<le> length xs" "length xs + w \<le> unat (an b)"
  shows "\<exists>p. (if j < length xs then move_slots (j + w) j (length xs - j) b else returned b) =
           returned (b\<lparr>ad := p\<rparr>) \<and> slots (b\<lparr>ad := p\<rparr>) = gap (slots b) j w (length xs)"
proof (cases "j < length xs")
  case True
  have "length (slots b) = unat (an b)" using array_okD [OF representsD(1) [OF assms(1)]] by simp
  then show ?thesis
    using True assms(3)
    by (intro exI [of _ "Some (gap (slots b) j w (length xs))"])
      (simp add: move_slots_def Let_def gap_def add_ac)
next
  case False
  then show ?thesis using assms(2) by (intro exI [of _ "ad b"]) (simp add: gap_def slots_def)
qed

lemma gap_length: "j \<le> n \<Longrightarrow> n + w \<le> length d \<Longrightarrow> length (gap d j w n) = length d"
  by (simp add: gap_def)

lemma fill_gap:
  assumes "represents (c, xs, ds) b" "j \<le> length xs" "length xs + length es \<le> unat (an b)"
    and "\<forall>e \<in> set es. length e = unat (isz c)" "unat i = length xs + length es"
    and "slots (b\<lparr>ad := p\<rparr>) = take j d @ es @ drop (j + length es) d"
    and "d = gap (slots b) j (length es) (length xs)"
  shows "represents (c, take j xs @ es @ drop j xs, ds) (b\<lparr>ad := p, ai := i\<rparr>)"
proof -
  note r = representsD [OF assms(1)] and ok = array_okD [OF representsD(1) [OF assms(1)]]
  have len: "length d = unat (an b)" using assms(2,3,7) ok by (simp add: gap_length)
  have "take j d = take j xs" "take (length xs - j) (drop (j + length es) d) = drop j xs"
    using assms(2,3,7) r(3,5) ok by (auto simp: gap_def elems_def min_def drop_take)
  then have "take (unat i) (take j d @ es @ drop (j + length es) d) = take j xs @ es @ drop j xs"
    using assms(2,3,5) len by simp
  moreover have "\<forall>e \<in> set (take j d @ es @ drop (j + length es) d). length e = unat (isz c)"
  proof -
    have "\<forall>e \<in> set d. length e = unat (isz c)"
      using r(1,2) assms(7) by (auto simp: array_ok_def gap_def dest!: in_set_takeD in_set_dropD)
    then show ?thesis using assms(4) by (auto dest: in_set_takeD in_set_dropD)
  qed
  ultimately show ?thesis
    using assms(2,3,5) len by (intro represents_update [OF assms(1,6)]) auto
qed

text \<open>The list that a position beyond the end first extends with initial elements.\<close>

definition padded :: "ut_icd \<Rightarrow> nat \<Rightarrow> elt list \<Rightarrow> elt list" where
  "padded c j xs = xs @ replicate (j - length xs) (initial c)"

lemma pad_and_reserve:
  assumes "represents (c, xs, ds) a" "allocates L" "unat j + unat w \<le> 2 ^ 31" "length xs + unat w \<le> 2 ^ 31"
  shows "returns (then_run (if j > ai a then utarray_resize L j a else returned a)
             (utarray_reserve L w))
           (\<lambda>b. represents (c, padded c (unat j) xs, ds) b \<and> unat j \<le> length (padded c (unat j) xs) \<and>
              length (padded c (unat j) xs) + unat w \<le> unat (an b))"
proof -
  have "returns (if j > ai a then utarray_resize L j a else returned a)
      (\<lambda>a'. represents (c, padded c (unat j) xs, ds) a')"
  proof (cases "j > ai a")
    case True
    then have "length xs \<le> unat j" using representsD [OF assms(1)] by (simp add: word_less_nat_alt)
    then show ?thesis
      using True resize_represents [OF assms(1,2), of j] assms(3)
      by (simp add: padded_def) (auto elim: returns_mono)
  next
    case False
    then have "unat j \<le> length xs" using representsD [OF assms(1)] by (simp add: word_le_nat_alt not_less)
    then show ?thesis using False assms(1) by (simp add: padded_def)
  qed
  then show ?thesis
    unfolding returns_then
  proof (rule returns_mono)
    fix b assume b: "represents (c, padded c (unat j) xs, ds) b"
    then have "unat (ai b) + unat w \<le> 2 ^ 31"
      using representsD(5) [OF b] assms(3,4) by (simp add: padded_def)
    from represents_reserve [OF b assms(2) this]
    show "returns (utarray_reserve L w b) (\<lambda>b. represents (c, padded c (unat j) xs, ds) b \<and>
        unat j \<le> length (padded c (unat j) xs) \<and> length (padded c (unat j) xs) + unat w \<le> unat (an b))"
      by (rule returns_mono) (use representsD(5) [OF b] in \<open>auto simp: padded_def\<close>)
  qed
qed

lemma move_words:
  assumes "represents (c, xs, ds) b" "unat j \<le> length xs" "unat j + unat w < 2 ^ 32"
  shows "(if j < ai b then move_slots (unat (j + w)) (unat j) (unat (ai b - j)) b else returned b) =
         (if unat j < length xs then move_slots (unat j + unat w) (unat j) (length xs - unat j) b
          else returned b)"
proof -
  have "unat (j + w) = unat j + unat w" using assms(3) by (simp add: unat_word_ariths)
  moreover have "unat (ai b - j) = length xs - unat j"
    using assms(2) representsD(5) [OF assms(1)] by (simp add: unat_sub_if')
  ultimately show ?thesis using representsD(5) [OF assms(1)] by (simp add: word_less_nat_alt)
qed

lemma open_position:
  assumes "represents (c, xs, ds) a" "allocates L" "unat j + unat w \<le> 2 ^ 31" "length xs + unat w \<le> 2 ^ 31"
  obtains b p where
    "\<And>f :: ut_array \<Rightarrow> ut_array run.
       then_run (if j > ai a then utarray_resize L j a else returned a) (\<lambda>a.
       then_run (utarray_reserve L w a) (\<lambda>a.
       then_run (if j < ai a then move_slots (unat (j + w)) (unat j) (unat (ai a - j)) a
                 else returned a) f)) = f (b\<lparr>ad := p\<rparr>)"
    "represents (c, padded c (unat j) xs, ds) b" "unat j \<le> length (padded c (unat j) xs)"
    "length (padded c (unat j) xs) + unat w \<le> unat (an b)"
    "slots (b\<lparr>ad := p\<rparr>) = gap (slots b) (unat j) (unat w) (length (padded c (unat j) xs))"
    "unat (ai b + w) = length (padded c (unat j) xs) + unat w"
proof -
  let ?xs = "padded c (unat j) xs"
  obtain b where pre: "then_run (if j > ai a then utarray_resize L j a else returned a)
        (utarray_reserve L w) = returned b"
      and b: "represents (c, ?xs, ds) b" "unat j \<le> length ?xs" "length ?xs + unat w \<le> unat (an b)"
    using pad_and_reserve [OF assms] by (auto elim!: returnsE)
  have cap: "unat (an b) \<le> 2 ^ 31"
    using capacity_ok_bound array_okD(2) [OF representsD(1) [OF b(1)]] by blast
  then have "unat j + unat w < 2 ^ 32" using b(2,3) by simp
  from move_words [OF b(1,2) this] obtain p where
    p: "(if j < ai b then move_slots (unat (j + w)) (unat j) (unat (ai b - j)) b else returned b) =
          returned (b\<lparr>ad := p\<rparr>)"
      "slots (b\<lparr>ad := p\<rparr>) = gap (slots b) (unat j) (unat w) (length ?xs)"
    using move_opens_gap [OF b] by force
  show thesis
  proof (rule that [OF _ b p(2)])
    fix f :: "ut_array \<Rightarrow> ut_array run"
    show "then_run (if j > ai a then utarray_resize L j a else returned a) (\<lambda>a.
        then_run (utarray_reserve L w a) (\<lambda>a.
        then_run (if j < ai a then move_slots (unat (j + w)) (unat j) (unat (ai a - j)) a
                  else returned a) f)) = f (b\<lparr>ad := p\<rparr>)"
      by (simp only: then_run_assoc [symmetric] pre p(1) then_run_simps)
    show "unat (ai b + w) = length ?xs + unat w"
      using representsD(5) [OF b(1)] b(3) cap by (simp add: unat_word_ariths)
  qed
qed

lemma insert_represents:
  assumes "represents (c, xs, ds) a" "allocates L" "length p = unat (isz c)"
    and "unat j < 2 ^ 31" "length xs < 2 ^ 31"
  shows "returns (utarray_insert L p j a)
           (represents (c, take (unat j) (padded c (unat j) xs) @ copied c p # drop (unat j) xs, ds))"
proof -
  let ?xs = "padded c (unat j) xs"
  have "unat j + unat (1 :: uint) \<le> 2 ^ 31" "length xs + unat (1 :: uint) \<le> 2 ^ 31"
    using assms(4,5) by simp_all
  then show ?thesis
  proof (rule open_position [OF assms(1,2)])
    fix b p'
    assume run: "\<And>f :: ut_array \<Rightarrow> ut_array run.
       then_run (if j > ai a then utarray_resize L j a else returned a) (\<lambda>a.
       then_run (utarray_reserve L 1 a) (\<lambda>a.
       then_run (if j < ai a then move_slots (unat (j + 1)) (unat j) (unat (ai a - j)) a
                 else returned a) f)) = f (b\<lparr>ad := p'\<rparr>)"
    and b: "represents (c, ?xs, ds) b" "unat j \<le> length ?xs" "length ?xs + unat (1 :: uint) \<le> unat (an b)"
      "slots (b\<lparr>ad := p'\<rparr>) = gap (slots b) (unat j) (unat (1 :: uint)) (length ?xs)"
      "unat (ai b + 1) = length ?xs + unat (1 :: uint)"
    let ?d = "gap (slots b) (unat j) 1 (length ?xs)"
    note rb = representsD [OF b(1)] and okb = array_okD [OF representsD(1) [OF b(1)]]
    have len: "length ?d = unat (an b)" using b(2,3) okb by (simp add: gap_length)
    have "utarray_insert L p j a =
        returned (b\<lparr>ad := Some (?d[unat j := copied c p]), ai := ai b + 1\<rparr>)"
      using b(2-4) len rb(2) by (simp add: utarray_insert_def run set_slot_def)
    then show ?thesis
      using fill_gap [OF b(1,2), of "[copied c p]" "ai b + 1" "Some (?d[unat j := copied c p])" ?d]
        b(2,3,5) len rb(6) assms(3)
      by (simp add: copied_length upd_conv_take_nth_drop padded_def)
  qed
qed

lemma inserta_represents:
  assumes "represents (c, xs, ds) a" "allocates L" "represents (c, ws, es) w"
    and "unat j + length ws \<le> 2 ^ 31" "length xs + length ws \<le> 2 ^ 31" "ws \<noteq> []"
  shows "returns (utarray_inserta L w j a)
           (represents (c, take (unat j) (padded c (unat j) xs) @ map (copied c) ws @ drop (unat j) xs, ds))"
proof -
  let ?xs = "padded c (unat j) xs" let ?w = "ai w" let ?es = "map (copied c) ws"
  note w = representsD [OF assms(3)] and okw = array_okD [OF representsD(1) [OF assms(3)]]
  have sum: "unat j + unat ?w \<le> 2 ^ 31" "length xs + unat ?w \<le> 2 ^ 31" using assms(4,5) w(5) by simp_all
  then show ?thesis
  proof (rule open_position [OF assms(1,2)])
    fix b p
    assume run: "\<And>f :: ut_array \<Rightarrow> ut_array run.
       then_run (if j > ai a then utarray_resize L j a else returned a) (\<lambda>a.
       then_run (utarray_reserve L ?w a) (\<lambda>a.
       then_run (if j < ai a then move_slots (unat (j + ?w)) (unat j) (unat (ai a - j)) a
                 else returned a) f)) = f (b\<lparr>ad := p\<rparr>)"
    and b: "represents (c, ?xs, ds) b" "unat j \<le> length ?xs" "length ?xs + unat ?w \<le> unat (an b)"
      "slots (b\<lparr>ad := p\<rparr>) = gap (slots b) (unat j) (unat ?w) (length ?xs)"
      "unat (ai b + ?w) = length ?xs + unat ?w"
    let ?d = "gap (slots b) (unat j) (unat ?w) (length ?xs)"
    let ?f = "\<lambda>k a. then_run (slot w k) (\<lambda>e. set_slot (unat (j + word_of_nat k)) (copied (aicd a) e) a)"
    note rb = representsD [OF b(1)] and okb = array_okD [OF representsD(1) [OF b(1)]]
    have len: "length ?d = unat (an b)" using b(2,3) okb by (simp add: gap_length)
    have eq: "?f k (b\<lparr>ad := q\<rparr>) = set_slot (unat j + k) (?es ! k) (b\<lparr>ad := q\<rparr>)" if "k < length ?es" for k q
    proof -
      have "unat (word_of_nat k :: uint) = k" using that assms(4) by (simp add: unat_of_nat)
      then have "unat (j + word_of_nat k) = unat j + k"
        using that assms(4) by (simp add: unat_word_ariths)
      moreover have "slot w k = returned (ws ! k)"
        using that w okw elems_nth [OF w(1), of k] by (simp add: slot_def)
      ultimately show ?thesis using that rb(2) by simp
    qed
    obtain q where q: "each_slot ?f [0..<length ?es] (b\<lparr>ad := p\<rparr>) = returned (b\<lparr>ad := q\<rparr>)"
        "slots (b\<lparr>ad := q\<rparr>) = take (unat j) ?d @ ?es @ drop (unat j + length ?es) ?d"
      using each_slot_writes [of ?es ?f "b\<lparr>ad := p\<rparr>" "unat j"] eq b(2-4) len w(5) by auto
    have nz: "?w \<noteq> 0" using assms(6) w(5) by (metis length_0_conv unat_0)
    have "utarray_inserta L w j a = returned (b\<lparr>ad := q, ai := ai b + ?w\<rparr>)"
      unfolding utarray_inserta_def utarray_len_def run using nz q(1) w(5) by simp
    then show ?thesis
      using fill_gap [OF b(1,2), of ?es "ai b + ?w" q ?d] b(2,3,5) len rb(6) q(2) w(5)
        copied_length [OF w(6)] w(1,2,3)
      by (auto simp: padded_def array_ok_def elems_def dest: in_set_takeD)
  qed
qed

lemma replace_represents:
  assumes "represents (c, xs, ds) a" "unat j < length xs" "length p = unat (isz c)"
  shows "returns (utarray_replace p j a)
           (represents (c, xs[unat j := copied c p], ds @ destroyed c [xs ! unat j]))"
proof -
  note r = representsD [OF assms(1)] and ok = array_okD [OF representsD(1) [OF assms(1)]]
  have lt: "unat j < length (slots a)" using assms(2) r(5) ok by simp
  let ?d = "(slots a)[unat j := copied c p]" and ?ds = "ds @ destroyed c [xs ! unat j]"
  have "xs ! unat j = slots a ! unat j" using assms(2) r(1,3,5) elems_nth [of a "unat j"] by simp
  then have run: "utarray_replace p j a = returned (a\<lparr>dtored := ?ds, ad := Some ?d, ai := ai a\<rparr>)"
    using lt r(2,4)
    by (simp add: utarray_replace_def dtor_slot_def slot_def set_slot_def destroyed_def)
  have "represents (c, xs, ?ds) (a\<lparr>dtored := ?ds, ai := ai a\<rparr>)"
    by (rule represents_shrink [OF assms(1)]) (use r(5) in simp_all)
  then have a': "represents (c, xs, ?ds) (a\<lparr>dtored := ?ds\<rparr>)" by simp
  have "represents (c, xs[unat j := copied c p], ?ds) (a\<lparr>dtored := ?ds, ad := Some ?d, ai := ai a\<rparr>)"
  proof (rule represents_update [OF a'])
    show "\<forall>e \<in> set ?d. length e = unat (isz c)"
      using r(1,2,6) assms(3)
      by (auto simp: array_ok_def copied_length dest!: subsetD [OF set_update_subset_insert])
    show "take (unat (ai a)) ?d = xs[unat j := copied c p]"
      using r(3) by (simp add: elems_def take_update_swap)
  qed (use ok in auto)
  then show ?thesis using run by simp
qed

lemma close_gap:
  assumes "l \<le> length d" "p + n < l"
  shows "take (l - n) (take p d @ take (l - (p + n)) (drop (p + n) d) @ ys) =
           take p (take l d) @ drop (p + n) (take l d)"
proof -
  have "l - n = p + (l - (p + n))" using assms(2) by linarith
  then show ?thesis using assms by (simp add: drop_take add.commute)
qed

lemma erase_represents:
  assumes "represents (c, xs, ds) a" "unat pos + unat len \<le> length xs"
  shows "returns (utarray_erase pos len a)
           (represents (c, take (unat pos) xs @ drop (unat pos + unat len) xs,
              ds @ destroyed c (take (unat len) (drop (unat pos) xs))))"
proof -
  note r = representsD [OF assms(1)] and ok = array_okD [OF representsD(1) [OF assms(1)]]
  let ?p = "unat pos" let ?n = "unat len" let ?d = "slots a"
  let ?ds = "ds @ destroyed c (take ?n (drop ?p xs))"
  have "unat (an a) \<le> 2 ^ 31" using ok(2) by (rule capacity_ok_bound)
  then have small: "length xs < 2 ^ 32" using ok(3) r(5) by simp
  then have pl: "unat (pos + len) = ?p + ?n" using assms(2) by (simp add: unat_word_ariths)
  have eltptr: "utarray_eltptr a (pos + word_of_nat k) = Some (?p + k)" if "k < ?n" for k
  proof -
    have "unat (word_of_nat k :: uint) = k" using that assms(2) small by (simp add: unat_of_nat)
    then have "unat (pos + word_of_nat k) = ?p + k"
      using that assms(2) small by (simp add: unat_word_ariths)
    then show ?thesis using that assms(2) r(5) by (simp add: utarray_eltptr_def word_less_nat_alt)
  qed
  let ?del = "if idtor (aicd a)
        then each_slot (\<lambda>k a. case utarray_eltptr a (pos + word_of_nat k) of
               None \<Rightarrow> stopped Undefined | Some j \<Rightarrow> dtor_slot j a) [0..<?n] a
        else returned a"
  let ?move = "\<lambda>a. if ai a > pos + len
        then move_slots ?p (unat (pos + len)) (unat (ai a - (pos + len))) a else returned a"
  let ?f = "\<lambda>k a. case utarray_eltptr a (pos + word_of_nat k) of
               None \<Rightarrow> stopped Undefined | Some j \<Rightarrow> dtor_slot j a"
  have "each_slot ?f [0..<m] a = returned (a\<lparr>dtored := ds @ take m (drop ?p xs)\<rparr>)" if "m \<le> ?n" for m
    using that
  proof (induction m)
    case (Suc m)
    then have "slots a ! (?p + m) = drop ?p xs ! m" "?p + m < length ?d" "m < length (drop ?p xs)"
      using assms(2) r(1,3,5) ok elems_nth [of a "?p + m"] by simp_all
    moreover have "utarray_eltptr (a\<lparr>dtored := x\<rparr>) (pos + word_of_nat m) = Some (?p + m)" for x
      using eltptr [of m] Suc.prems by (simp add: utarray_eltptr_def)
    ultimately show ?case
      using Suc by (simp add: each_slot_append dtor_slot_def slot_def take_Suc_conv_app_nth)
  qed (simp add: r(4) [symmetric])
  from this [of ?n] have del: "?del = returned (a\<lparr>dtored := ?ds\<rparr>)"
    using r(2) by (simp add: destroyed_def r(4) [symmetric])
  obtain q where q: "?move (a\<lparr>dtored := ?ds\<rparr>) = returned (a\<lparr>dtored := ?ds, ad := q\<rparr>)"
      "length (slots (a\<lparr>ad := q\<rparr>)) = unat (an a)" "set (slots (a\<lparr>ad := q\<rparr>)) \<subseteq> set ?d"
      "take (length xs - ?n) (slots (a\<lparr>ad := q\<rparr>)) = take ?p xs @ drop (?p + ?n) xs"
  proof (cases "?p + ?n < length xs")
    case True
    let ?k = "length xs - (?p + ?n)"
    let ?e = "take ?p ?d @ take ?k (drop (?p + ?n) ?d) @ drop (?p + ?k) ?d"
    have gt: "ai a > pos + len" using True r(5) pl by (simp add: word_less_nat_alt)
    have "unat (ai a - (pos + len)) = ?k"
      using True r(5) pl by (simp add: unat_sub_if')
    then have "?move (a\<lparr>dtored := ?ds\<rparr>) = returned (a\<lparr>dtored := ?ds, ad := Some ?e\<rparr>)"
      using gt pl True ok r(5) by (simp add: move_slots_def Let_def)
    moreover have "length ?e = unat (an a)" using True ok r(5) by simp
    moreover have "set ?e \<subseteq> set ?d" by (auto dest: in_set_takeD in_set_dropD)
    moreover have "take (length xs - ?n) ?e = take ?p xs @ drop (?p + ?n) xs"
    proof -
      have "xs = take (length xs) ?d" using r(3,5) by (simp add: elems_def)
      with close_gap [of "length xs" ?d ?p ?n "drop (?p + ?k) ?d"] show ?thesis
        using True ok(3,4) r(5) by simp
    qed
    ultimately show thesis by (rule that [of "Some ?e", unfolded slots_update])
  next
    case False
    then have eq: "?p + ?n = length xs" using assms(2) by simp
    then have ge: "\<not> ai a > pos + len" using r(5) pl by (simp add: word_less_nat_alt)
    have "unat (ai a) - ?n = ?p" using eq r(5) by simp
    then show thesis
      by (intro that [of "ad a"])
        (use ge eq ok r(3,5) in \<open>auto simp: slots_def elems_def min_def\<close>)
  qed
  have i: "unat (ai a - len) = length xs - ?n" using assms(2) r(5) by (simp add: unat_sub_if')
  have "represents (c, xs, ?ds) (a\<lparr>dtored := ?ds, ai := ai a\<rparr>)"
    by (rule represents_shrink [OF assms(1)]) (use r(5) in simp_all)
  then have a': "represents (c, xs, ?ds) (a\<lparr>dtored := ?ds\<rparr>)" by simp
  have "utarray_erase pos len a = returned (a\<lparr>dtored := ?ds, ad := q, ai := ai a - len\<rparr>)"
    unfolding utarray_erase_def del then_run_simps q(1) by simp
  moreover have "represents (c, take ?p xs @ drop (?p + ?n) xs, ?ds)
      (a\<lparr>dtored := ?ds, ad := q, ai := ai a - len\<rparr>)"
    by (rule represents_update [OF a'])
      (use q(2-4) i ok r in \<open>auto simp: array_ok_def slots_def\<close>)
  ultimately show ?thesis by simp
qed

section \<open>Iteration\<close>

text \<open>\<open>front\<close> and \<open>next\<close> enumerate the slots in order and stop; \<open>back\<close> and \<open>prev\<close> undo them.\<close>

lemma utarray_next_enumerates:
  "utarray_next a None = (if unat (ai a) = 0 then None else Some 0)"
  "j < unat (ai a) \<Longrightarrow> utarray_next a (Some j) = (if j + 1 < unat (ai a) then Some (j + 1) else None)"
  by (auto simp: utarray_next_def utarray_front_def unat_eq_zero)

lemma utarray_prev_undoes_next:
  assumes "utarray_next a e = Some j"
  shows "utarray_prev a (Some j) = e"
  using assms by (auto simp: utarray_next_def utarray_prev_def utarray_front_def split: option.splits if_splits)

lemma utarray_back_is_last: "0 < unat (ai a) \<Longrightarrow> utarray_back a = Some (unat (ai a) - 1)"
  by (auto simp: utarray_back_def unat_minus_one)

end
