(* ===== verification/Ut_Array_Spec.thy ===== *)
theory Ut_Array_Spec
  imports Ut_Array
begin

text \<open>
  The array of \<open>utarray.h\<close> against its specification: a list of elements, and the list of the
  elements whose destructor has run.  A client's program is a list of \<open>array_op\<close>s; the
  specification \<open>list_op\<close> says which calls are allowed (positions in range, at most \<open>2 ^ 31\<close>
  slots) and what they do; the theorems say that \<open>utarray.h\<close> then does the same, and that every
  element a client ever put in is either still there or was destroyed once.
\<close>

datatype array_op =
    Push elt | Pop | Extend | Resize uint | Insert elt uint | Insert_all ut_array uint
  | Replace elt uint | Erase uint uint | Clear

definition array_op :: "libc \<Rightarrow> array_op \<Rightarrow> ut_array \<Rightarrow> ut_array run" where
  "array_op L oper a =
     (case oper of
        Push p \<Rightarrow> utarray_push_back L p a
      | Pop \<Rightarrow> utarray_pop_back a
      | Extend \<Rightarrow> utarray_extend_back L a
      | Resize num \<Rightarrow> utarray_resize L num a
      | Insert p j \<Rightarrow> utarray_insert L p j a
      | Insert_all w j \<Rightarrow> utarray_inserta L w j a
      | Replace p j \<Rightarrow> utarray_replace p j a
      | Erase pos len \<Rightarrow> utarray_erase pos len a
      | Clear \<Rightarrow> utarray_clear a)"

fun array_ops :: "libc \<Rightarrow> array_op list \<Rightarrow> ut_array \<Rightarrow> ut_array run" where
  "array_ops L [] a = returned a"
| "array_ops L (oper # ops) a = then_run (array_op L oper a) (array_ops L ops)"

section \<open>The specification\<close>

text \<open>The elements an operation constructs, by the copy constructor or the initialiser.\<close>

fun constructed :: "ut_icd \<Rightarrow> array_op \<Rightarrow> elt list \<Rightarrow> elt list" where
  "constructed c (Push p) xs = [copied c p]"
| "constructed c Extend xs = [initial c]"
| "constructed c (Resize num) xs = replicate (unat num - length xs) (initial c)"
| "constructed c (Insert p j) xs = replicate (unat j - length xs) (initial c) @ [copied c p]"
| "constructed c (Insert_all w j) xs =
     (if elems w = [] then []
      else replicate (unat j - length xs) (initial c) @ map (copied c) (elems w))"
| "constructed c (Replace p j) xs = [copied c p]"
| "constructed c oper xs = []"

fun list_op :: "ut_icd \<Rightarrow> array_op \<Rightarrow> elt list \<Rightarrow> (elt list \<times> elt list) option" where
  "list_op c (Push p) xs =
     (if length xs < 2 ^ 31 \<and> length p = unat (isz c) then Some (xs @ [copied c p], []) else None)"
| "list_op c Pop xs = (if xs = [] then None else Some (butlast xs, [last xs]))"
| "list_op c Extend xs = (if length xs < 2 ^ 31 then Some (xs @ [initial c], []) else None)"
| "list_op c (Resize num) xs =
     (if unat num \<le> 2 ^ 31
      then Some (take (unat num) xs @ replicate (unat num - length xs) (initial c), drop (unat num) xs)
      else None)"
| "list_op c (Insert p j) xs =
     (if unat j < 2 ^ 31 \<and> length xs < 2 ^ 31 \<and> length p = unat (isz c)
      then Some (take (unat j) (padded c (unat j) xs) @ copied c p # drop (unat j) xs, [])
      else None)"
| "list_op c (Insert_all w j) xs =
     (if array_ok w \<and> aicd w = c \<and> unat j + length (elems w) \<le> 2 ^ 31 \<and>
         length xs + length (elems w) \<le> 2 ^ 31
      then Some (if elems w = [] then xs
                 else take (unat j) (padded c (unat j) xs) @ map (copied c) (elems w) @ drop (unat j) xs, [])
      else None)"
| "list_op c (Replace p j) xs =
     (if unat j < length xs \<and> length p = unat (isz c)
      then Some (xs[unat j := copied c p], [xs ! unat j]) else None)"
| "list_op c (Erase pos len) xs =
     (if unat pos + unat len \<le> length xs
      then Some (take (unat pos) xs @ drop (unat pos + unat len) xs, take (unat len) (drop (unat pos) xs))
      else None)"
| "list_op c Clear xs = Some ([], xs)"

text \<open>The elements, the elements constructed and the elements destroyed so far.\<close>

fun list_ops :: "ut_icd \<Rightarrow> array_op list \<Rightarrow> elt list \<Rightarrow> (elt list \<times> elt list \<times> elt list) option" where
  "list_ops c [] xs = Some (xs, [], [])"
| "list_ops c (oper # ops) xs =
     Option.bind (list_op c oper xs) (\<lambda>(ys, ds).
     map_option (\<lambda>(zs, cs, es). (zs, constructed c oper xs @ cs, ds @ es)) (list_ops c ops ys))"

section \<open>Refinement\<close>

lemma array_op_refines:
  assumes "represents (c, xs, ds) a" "allocates L" "list_op c oper xs = Some (ys, es)"
  shows "returns (array_op L oper a) (represents (c, ys, ds @ destroyed c es))"
proof (cases oper)
  case (Push p)
  then show ?thesis
    using assms push_back_represents [OF assms(1,2)] by (auto simp: array_op_def split: if_splits)
next
  case Pop
  then show ?thesis
    using assms pop_back_represents [OF assms(1)] by (auto simp: array_op_def split: if_splits)
next
  case Extend
  then show ?thesis
    using assms extend_back_represents [OF assms(1,2)] by (auto simp: array_op_def split: if_splits)
next
  case (Resize num)
  then show ?thesis
    using assms resize_represents [OF assms(1,2), of num]
    by (auto simp: array_op_def split: if_splits elim: returns_mono)
next
  case (Insert p j)
  then show ?thesis
    using assms insert_represents [OF assms(1,2)] by (auto simp: array_op_def split: if_splits)
next
  case (Insert_all w j)
  then have w: "represents (c, elems w, dtored w) w"
    using assms(3) by (auto simp: represents_def view_def split: if_splits)
  show ?thesis
  proof (cases "elems w = []")
    case True
    then have "utarray_inserta L w j a = returned a"
      using representsD(5) [OF w] by (simp add: utarray_inserta_def utarray_len_def unat_eq_zero)
    then show ?thesis using Insert_all True assms by (auto simp: array_op_def split: if_splits)
  next
    case False
    then show ?thesis
      using Insert_all assms(3) inserta_represents [OF assms(1,2) w _ _ False, of j]
      by (auto simp: array_op_def split: if_splits)
  qed
next
  case (Replace p j)
  then show ?thesis
    using assms replace_represents [OF assms(1)] by (auto simp: array_op_def split: if_splits)
next
  case (Erase pos len)
  then show ?thesis
    using assms erase_represents [OF assms(1)] by (auto simp: array_op_def split: if_splits)
next
  case Clear
  then show ?thesis
    using assms clear_represents [OF assms(1)] by (auto simp: array_op_def)
qed

lemma destroyed_append: "destroyed c (xs @ ys) = destroyed c xs @ destroyed c ys"
  by (simp add: destroyed_def)

lemma array_ops_refine:
  assumes "represents (c, xs, ds) a" "allocates L" "list_ops c ops xs = Some (ys, cs, es)"
  shows "returns (array_ops L ops a) (represents (c, ys, ds @ destroyed c es))"
  using assms(1,3)
proof (induction ops arbitrary: xs ds a cs es)
  case (Cons oper ops)
  then obtain zs es1 cs2 es2 where s: "list_op c oper xs = Some (zs, es1)"
      "list_ops c ops zs = Some (ys, cs2, es2)" "es = es1 @ es2"
    by (auto simp: bind_eq_Some_conv)
  obtain b where b: "array_op L oper a = returned b" "represents (c, zs, ds @ destroyed c es1) b"
    using array_op_refines [OF Cons.prems(1) assms(2) s(1)] by (rule returnsE)
  show ?case using Cons.IH [OF b(2) s(2)] b(1) s(3) by (simp add: destroyed_append)
qed simp

section \<open>Ownership\<close>

lemma pad_split:
  "mset (take j (padded c j xs)) + mset (drop j xs) = mset xs + mset (replicate (j - length xs) (initial c))"
  by (simp add: padded_def) (metis append_take_drop_id mset_append union_commute union_lcomm)

lemma list_op_ownership:
  assumes "list_op c oper xs = Some (ys, es)"
  shows "mset xs + mset (constructed c oper xs) = mset ys + mset es"
proof (cases oper)
  case (Insert p j)
  then have "ys = take (unat j) (padded c (unat j) xs) @ copied c p # drop (unat j) xs" "es = []"
    using assms by (auto split: if_splits)
  then show ?thesis using Insert pad_split [of "unat j" c xs] by (simp add: ac_simps)
next
  case (Replace p j)
  then show ?thesis using assms by (auto simp: mset_update split: if_splits)
next
  case (Erase pos len)
  then have "ys = take (unat pos) xs @ drop (unat pos + unat len) xs"
      "es = take (unat len) (drop (unat pos) xs)" using assms by (auto split: if_splits)
  moreover have "mset xs = mset (take (unat pos) xs @ take (unat len) (drop (unat pos) xs) @
      drop (unat len) (drop (unat pos) xs))" by (simp only: append_take_drop_id)
  ultimately show ?thesis using Erase by (simp add: add.commute)
next
  case Pop
  then show ?thesis
    using assms by (cases xs rule: rev_cases) auto
next
  case (Resize num)
  then have "mset xs = mset (take (unat num) xs @ drop (unat num) xs)" by simp
  with Resize show ?thesis
    using assms by (auto split: if_splits simp del: append_take_drop_id)
next
  case (Insert_all w j)
  then show ?thesis
    using assms pad_split [of "unat j" c xs] by (auto simp: ac_simps split: if_splits)
qed (use assms in \<open>auto split: if_splits\<close>)

lemma list_ops_ownership:
  assumes "list_ops c ops xs = Some (ys, cs, es)"
  shows "mset xs + mset cs = mset ys + mset es"
  using assms
proof (induction ops arbitrary: xs cs es)
  case (Cons oper ops)
  then obtain zs es1 cs2 es2 where s: "list_op c oper xs = Some (zs, es1)"
      "list_ops c ops zs = Some (ys, cs2, es2)" "es = es1 @ es2" "cs = constructed c oper xs @ cs2"
    by (auto simp: bind_eq_Some_conv)
  show ?case using list_op_ownership [OF s(1)] Cons.IH [OF s(2)] s(3,4) by (simp add: ac_simps)
qed simp

section \<open>Properties\<close>

definition ut_int_icd :: ut_icd where
  "ut_int_icd = \<lparr>isz = 4, iinit = None, icopy = None, idtor = False\<rparr>"

definition ut_ptr_icd :: ut_icd where
  "ut_ptr_icd = \<lparr>isz = 8, iinit = None, icopy = None, idtor = False\<rparr>"

lemma ut_icds_ok: "icd_ok ut_int_icd" "icd_ok ut_ptr_icd"
  by (simp_all add: icd_ok_def ut_int_icd_def ut_ptr_icd_def)

lemma glibc_allocates: "allocates glibc"
  by (simp add: allocates_def glibc_def)

definition owned_icd :: ut_icd where
  "owned_icd = \<lparr>isz = 1, iinit = None, icopy = Some (map (\<lambda>b. b + 1)), idtor = True\<rparr>"

lemma owned_icd_ok: "icd_ok owned_icd" "idtor owned_icd"
  by (simp_all add: icd_ok_def owned_icd_def)

definition sample_ops :: "array_op list" where
  "sample_ops = [Push [1], Push [2], Insert [3] 3, Erase 1 2, Pop, Replace [9] 0]"

lemma sample_ops_spec:
  "list_ops owned_icd sample_ops [] =
     Some ([[10]], [[2], [3], [0], [4], [10]], [[3], [0], [4], [2]])"
  by (simp add: sample_ops_def owned_icd_def copied_def initial_def padded_def)

text \<open>
  C13. A program over \<open>utarray.h\<close> (pushes, pops, resizes, insertions at any position, erasures,
  replacements, clears) whose calls the list specification allows returns, and the array then
  holds exactly the elements of the specification's list, in order, and the destructor has run
  on exactly the elements the specification destroys, in order.
\<close>

theorem array_program_refines_list:
  assumes "icd_ok c" "allocates L" "list_ops c ops [] = Some (xs, cs, es)"
  shows "returns (array_ops L ops (utarray_init c))
           (\<lambda>a. elems a = xs \<and> dtored a = destroyed c es)"
  by (rule returns_mono [OF array_ops_refine [OF utarray_init_represents [OF assms(1)] assms(2,3)]])
    (simp add: represents_def view_def)

theorem array_program_refines_list_witness:
  "returns (array_ops glibc sample_ops (utarray_init owned_icd))
     (\<lambda>a. elems a = [[10]] \<and> dtored a = destroyed owned_icd [[3], [0], [4], [2]])"
  by (rule array_program_refines_list [OF owned_icd_ok(1) glibc_allocates sample_ops_spec])

text \<open>
  C27. Well-formedness is an invariant of the type: after any allowed program the number of
  slots is 0 or a power of two from 8 to \<open>2 ^ 31\<close>, the block has that many slots of \<open>sz\<close> bytes,
  and the index of the next free slot is within them.
\<close>

theorem array_program_well_formed:
  assumes "icd_ok c" "allocates L" "list_ops c ops [] = Some (xs, cs, es)"
  shows "returns (array_ops L ops (utarray_init c)) array_ok"
  by (rule returns_mono [OF array_ops_refine [OF utarray_init_represents [OF assms(1)] assms(2,3)]])
    (simp add: represents_def)

theorem array_program_well_formed_witness:
  "returns (array_ops glibc sample_ops (utarray_init owned_icd)) array_ok"
  by (rule array_program_well_formed [OF owned_icd_ok(1) glibc_allocates sample_ops_spec])

text \<open>
  C30. Ownership: with a destructor set, a program followed by \<open>utarray_done\<close> destroys every
  element that the copy constructor or the initialiser ever made exactly once, and no other.
\<close>

theorem array_elements_destroyed_once:
  assumes "icd_ok c" "idtor c" "allocates L" "list_ops c ops [] = Some (xs, cs, es)"
  shows "returns (then_run (array_ops L ops (utarray_init c)) utarray_done)
           (\<lambda>a. mset (dtored a) = mset cs)"
proof -
  have "returns (utarray_done a) (\<lambda>a. mset (dtored a) = mset cs)"
    if "represents (c, xs, [] @ destroyed c es) a" for a
    using done_destroys_all(2) [OF that]
    by (rule returns_mono)
      (use list_ops_ownership [OF assms(4)] assms(2) in \<open>simp add: destroyed_def add.commute\<close>)
  then show ?thesis
    using array_ops_refine [OF utarray_init_represents [OF assms(1)] assms(3,4)]
    by (auto elim: returns_mono)
qed

theorem array_elements_destroyed_once_witness:
  "returns (then_run (array_ops glibc sample_ops (utarray_init owned_icd)) utarray_done)
     (\<lambda>a. mset (dtored a) = mset [[2], [3], [0], [4], [10]])"
  by (rule array_elements_destroyed_once [OF owned_icd_ok glibc_allocates sample_ops_spec])

text \<open>
  C40. Growing stops at half the range of \<open>unsigned\<close>: a request for more than \<open>2 ^ 31\<close> slots
  doubles the capacity to 0 and starts again at 8, for ever; the call never returns.
\<close>

theorem array_reserve_beyond_half_never_returns:
  assumes "array_ok a" "2 ^ 31 < unat (ai a) + unat by'" "unat (ai a) + unat by' < 2 ^ 32"
  shows "utarray_reserve L by' a = None"
  by (rule utarray_reserve_diverges [OF assms])

theorem array_reserve_beyond_half_never_returns_witness:
  "utarray_reserve glibc 0x80000001 (utarray_init ut_int_icd) = None"
  by (rule array_reserve_beyond_half_never_returns)
    (use representsD(1) [OF utarray_init_represents [OF ut_icds_ok(1)]] in \<open>simp_all add: utarray_init_def\<close>)

end
