(* ===== verification/Ring_Buffer.thy ===== *)
theory Ring_Buffer
  imports Ut_Array_Spec
begin

text \<open>
  The ring buffer \<open>src/contrib/uthash/utringbuffer.h\<close>: \<open>n\<close> slots that are allocated once, the
  index \<open>i\<close> of the next slot to write and the flag \<open>f\<close> that it has wrapped.  Elements, callbacks
  and the log of destroyed elements are those of \<open>Ut_Array\<close>.  The macros on positions are used
  with \<open>unsigned\<close> and with \<open>size_t\<close> arguments, so their models take words of any length.  The
  abstraction is the list of the last \<open>n\<close> elements pushed.
\<close>

section \<open>The code\<close>

record ut_ringbuffer =
  ri :: uint
  rn :: uint
  rf :: bool
  ricd :: ut_icd
  rd :: "elt list option"
  rdtored :: "elt list"

definition ring_slots :: "ut_ringbuffer \<Rightarrow> elt list" where
  "ring_slots a = (case rd a of None \<Rightarrow> [] | Some d \<Rightarrow> d)"

text \<open>The block is not checked against NULL.\<close>

definition utringbuffer_init :: "libc \<Rightarrow> uint \<Rightarrow> ut_icd \<Rightarrow> ut_ringbuffer" where
  "utringbuffer_init L n icd =
     \<lparr>ri = 0, rn = n, rf = False, ricd = icd,
      rd = (if n \<noteq> 0 then realloc_slots L (ucast n * isz icd) (isz icd) None else None),
      rdtored = []\<rparr>"

definition utringbuffer_len :: "ut_ringbuffer \<Rightarrow> uint" where
  "utringbuffer_len a = (if rf a then rn a else ri a)"

definition utringbuffer_empty :: "ut_ringbuffer \<Rightarrow> bool" where
  "utringbuffer_empty a \<longleftrightarrow> ri a = 0 \<and> \<not> rf a"

definition utringbuffer_full :: "ut_ringbuffer \<Rightarrow> bool" where
  "utringbuffer_full a \<longleftrightarrow> rf a"

definition utringbuffer_real_idx :: "ut_ringbuffer \<Rightarrow> 'w::len word \<Rightarrow> 'w word" where
  "utringbuffer_real_idx a j = (if rf a then (j + ucast (ri a)) mod ucast (rn a) else j)"

definition utringbuffer_fake_idx :: "ut_ringbuffer \<Rightarrow> size_t \<Rightarrow> size_t" where
  "utringbuffer_fake_idx a j =
     (if rf a then (j + ucast (rn a) - ucast (ri a)) mod ucast (rn a) else j)"

text \<open>A pointer to an element is the index of its slot.\<close>

definition utringbuffer_eltptr :: "ut_ringbuffer \<Rightarrow> 'w::len word \<Rightarrow> nat option" where
  "utringbuffer_eltptr a j =
     (if j < ucast (utringbuffer_len a) then Some (unat (utringbuffer_real_idx a j)) else None)"

definition utringbuffer_eltidx :: "ut_ringbuffer \<Rightarrow> nat \<Rightarrow> size_t" where
  "utringbuffer_eltidx a e = utringbuffer_fake_idx a (word_of_nat e)"

definition utringbuffer_front :: "ut_ringbuffer \<Rightarrow> nat option" where
  "utringbuffer_front a = utringbuffer_eltptr a (0 :: uint)"

definition utringbuffer_back :: "ut_ringbuffer \<Rightarrow> nat option" where
  "utringbuffer_back a =
     (if utringbuffer_empty a then None else utringbuffer_eltptr a (utringbuffer_len a - 1))"

definition utringbuffer_next :: "ut_ringbuffer \<Rightarrow> nat option \<Rightarrow> nat option" where
  "utringbuffer_next a e =
     (case e of
        None \<Rightarrow> utringbuffer_front a
      | Some e \<Rightarrow> utringbuffer_eltptr a (utringbuffer_eltidx a e + 1))"

definition utringbuffer_prev :: "ut_ringbuffer \<Rightarrow> nat option \<Rightarrow> nat option" where
  "utringbuffer_prev a e =
     (case e of
        None \<Rightarrow> utringbuffer_back a
      | Some e \<Rightarrow> utringbuffer_eltptr a (utringbuffer_eltidx a e - 1))"

definition ring_dtor :: "nat option \<Rightarrow> ut_ringbuffer \<Rightarrow> ut_ringbuffer run" where
  "ring_dtor e a =
     (case e of
        None \<Rightarrow> stopped Undefined
      | Some j \<Rightarrow> if j < length (ring_slots a)
                  then returned (a\<lparr>rdtored := rdtored a @ [ring_slots a ! j]\<rparr>)
                  else stopped Undefined)"

fun ring_dtors :: "nat list \<Rightarrow> ut_ringbuffer \<Rightarrow> ut_ringbuffer run" where
  "ring_dtors [] a = returned a"
| "ring_dtors (j # js) a =
     then_run (ring_dtor (utringbuffer_eltptr a (word_of_nat j :: uint)) a) (ring_dtors js)"

definition utringbuffer_clear :: "ut_ringbuffer \<Rightarrow> ut_ringbuffer run" where
  "utringbuffer_clear a =
     then_run
       (if idtor (ricd a) then
          (if rf a then ring_dtors [0..<unat (rn a)] a else ring_dtors [0..<unat (ri a)] a)
        else returned a)
       (\<lambda>a. returned (a\<lparr>ri := 0, rf := False\<rparr>))"

definition utringbuffer_done :: "ut_ringbuffer \<Rightarrow> ut_ringbuffer run" where
  "utringbuffer_done a =
     then_run (utringbuffer_clear a) (\<lambda>a. returned (a\<lparr>rd := None, rn := 0\<rparr>))"

definition utringbuffer_new :: "libc \<Rightarrow> uint \<Rightarrow> ut_icd \<Rightarrow> ut_ringbuffer run" where
  "utringbuffer_new L n icd =
     (if malloc_ok L 56 then returned (utringbuffer_init L n icd) else stopped Undefined)"

definition utringbuffer_free :: "ut_ringbuffer \<Rightarrow> elt list run" where
  "utringbuffer_free r = then_run (utringbuffer_done r) (\<lambda>r. returned (rdtored r))"

definition utringbuffer_push_back :: "elt \<Rightarrow> ut_ringbuffer \<Rightarrow> ut_ringbuffer run" where
  "utringbuffer_push_back p a =
     then_run (if idtor (ricd a) \<and> rf a then ring_dtor (Some (unat (ri a))) a else returned a) (\<lambda>a.
     then_run (if unat (ri a) < length (ring_slots a)
               then returned (a\<lparr>rd := Some ((ring_slots a)[unat (ri a) := copied (ricd a) p])\<rparr>)
               else stopped Undefined) (\<lambda>a.
     let a = a\<lparr>ri := ri a + 1\<rparr> in
     returned (if ri a = rn a then a\<lparr>ri := 0, rf := True\<rparr> else a)))"

fun ring_pushes :: "elt list \<Rightarrow> ut_ringbuffer \<Rightarrow> ut_ringbuffer run" where
  "ring_pushes [] a = returned a"
| "ring_pushes (p # ps) a = then_run (utringbuffer_push_back p a) (ring_pushes ps)"

section \<open>The list a buffer holds\<close>

definition ring_elems :: "ut_ringbuffer \<Rightarrow> elt list" where
  "ring_elems a =
     (if rf a then drop (unat (ri a)) (ring_slots a) @ take (unat (ri a)) (ring_slots a)
      else take (unat (ri a)) (ring_slots a))"

definition ring_ok :: "ut_ringbuffer \<Rightarrow> bool" where
  "ring_ok a \<longleftrightarrow> unat (ri a) < unat (rn a) \<and> length (ring_slots a) = unat (rn a)"

definition last_n :: "nat \<Rightarrow> 'a list \<Rightarrow> 'a list" where
  "last_n n xs = drop (length xs - n) xs"

lemma ring_ok_length:
  assumes "ring_ok a"
  shows "length (ring_elems a) = unat (utringbuffer_len a)" "length (ring_elems a) \<le> unat (rn a)"
  using assms by (auto simp: ring_ok_def ring_elems_def utringbuffer_len_def)

lemma init_ring_ok:
  assumes "allocates L" "icd_ok c" "n \<noteq> 0"
  shows "ring_ok (utringbuffer_init L n c)" "ring_elems (utringbuffer_init L n c) = []"
    "rn (utringbuffer_init L n c) = n" "ricd (utringbuffer_init L n c) = c"
    "rdtored (utringbuffer_init L n c) = []"
proof -
  obtain d where "realloc_slots L (ucast n * isz c) (isz c) None = Some d" "length d = unat n"
    using realloc_slots_grows [OF assms(1,2), of None n] assms(3) by auto
  then show "ring_ok (utringbuffer_init L n c)" "ring_elems (utringbuffer_init L n c) = []"
    "rn (utringbuffer_init L n c) = n" "ricd (utringbuffer_init L n c) = c"
    "rdtored (utringbuffer_init L n c) = []"
    using assms(3) by (simp_all add: utringbuffer_init_def ring_ok_def ring_elems_def
        ring_slots_def word_gt_0 unat_gt_0)
qed

lemma push_back_ring:
  assumes "ring_ok a"
  shows "returns (utringbuffer_push_back p a) (\<lambda>b. ring_ok b \<and> rn b = rn a \<and> ricd b = ricd a \<and>
           ring_elems b = last_n (unat (rn a)) (ring_elems a @ [copied (ricd a) p]) \<and>
           rdtored b = rdtored a @ destroyed (ricd a) (if rf a then [hd (ring_elems a)] else []))"
proof -
  let ?i = "unat (ri a)" and ?d = "ring_slots a" let ?e = "copied (ricd a) p"
  let ?b = "a\<lparr>rdtored := rdtored a @ destroyed (ricd a) (if rf a then [hd (ring_elems a)] else []),
              rd := Some (?d[?i := ?e]), ri := ri a + 1\<rparr>"
  have i: "?i < unat (rn a)" "length ?d = unat (rn a)" using assms by (simp_all add: ring_ok_def)
  have "unat (rn a) < 2 ^ LENGTH(32)" by (rule unsigned_less)
  then have suc: "unat (ri a + 1) = ?i + 1" using i(1) by (simp add: unat_word_ariths)
  have hd: "hd (ring_elems a) = ?d ! ?i" if "rf a"
    using that i by (simp add: ring_elems_def hd_append hd_drop_conv_nth)
  have run: "utringbuffer_push_back p a =
      returned (if ri a + 1 = rn a then ?b\<lparr>ri := 0, rf := True\<rparr> else ?b)"
    using i hd by (auto simp: utringbuffer_push_back_def ring_dtor_def Let_def destroyed_def ring_slots_def)
  have last: "ri a + 1 = rn a \<longleftrightarrow> ?i + 1 = unat (rn a)" using suc by (metis unsigned_word_eqI)
  show ?thesis
  proof (cases "?i + 1 = unat (rn a)")
    case True
    have "?d[?i := ?e] = take ?i ?d @ [?e]" using True i by (simp add: upd_conv_take_nth_drop)
    then show ?thesis
      unfolding run using True last i
      by (auto simp: ring_ok_def ring_elems_def ring_slots_def last_n_def word_gt_0 unat_gt_0)
  next
    case False
    have "?d[?i := ?e] = take ?i ?d @ ?e # drop (Suc ?i) ?d" using i by (simp add: upd_conv_take_nth_drop)
    then show ?thesis
      unfolding run using False last i suc
      by (auto simp: ring_ok_def ring_elems_def ring_slots_def last_n_def)
  qed
qed

lemma last_n_last_n: "last_n n (last_n n xs @ ys) = last_n n (xs @ ys)"
  by (cases "n \<le> length xs") (simp_all add: last_n_def add.commute)

text \<open>The elements destroyed so far followed by those present are all that were ever pushed.\<close>

lemma ring_pushes_ring:
  assumes "ring_ok a" "ricd a = c"
  shows "returns (ring_pushes ps a) (\<lambda>b. ring_ok b \<and> rn b = rn a \<and> ricd b = c \<and>
           ring_elems b = last_n (unat (rn a)) (ring_elems a @ map (copied c) ps) \<and>
           rdtored b @ destroyed c (ring_elems b) =
             rdtored a @ destroyed c (ring_elems a @ map (copied c) ps))"
  using assms
proof (induction ps arbitrary: a)
  case Nil
  then show ?case using ring_ok_length(2) [of a] by (simp add: last_n_def)
next
  case (Cons p ps)
  let ?xs = "ring_elems a" and ?n = "unat (rn a)"
  obtain b where b: "utringbuffer_push_back p a = returned b" "ring_ok b" "rn b = rn a" "ricd b = c"
      "ring_elems b = last_n ?n (?xs @ [copied c p])"
      "rdtored b = rdtored a @ destroyed c (if rf a then [hd ?xs] else [])"
    using push_back_ring [OF Cons.prems(1), of p] Cons.prems(2) by (auto elim!: returnsE)
  have "(if rf a then [hd ?xs] else []) @ last_n ?n (?xs @ [copied c p]) = ?xs @ [copied c p]"
  proof (cases "rf a")
    case True
    then have "length ?xs = ?n" "?xs \<noteq> []"
      using ring_ok_length(1) [OF Cons.prems(1)] Cons.prems(1)
      by (auto simp: utringbuffer_len_def ring_ok_def simp flip: length_greater_0_conv)
    then show ?thesis using True by (cases ?xs) (simp_all add: last_n_def)
  next
    case False
    then have "length ?xs < ?n"
      using ring_ok_length(1) [OF Cons.prems(1)] Cons.prems(1) by (auto simp: utringbuffer_len_def ring_ok_def)
    then show ?thesis using False by (simp add: last_n_def)
  qed
  then have "rdtored b @ destroyed c (ring_elems b) = rdtored a @ destroyed c (?xs @ [copied c p])"
    by (simp add: b(5,6) flip: destroyed_append)
  then have kept: "rdtored b @ destroyed c (ring_elems b @ ys) = rdtored a @ destroyed c (?xs @ copied c p # ys)" for ys
    using destroyed_append by (metis append.assoc append_Cons append_Nil)
  show ?case
    unfolding ring_pushes.simps b(1) then_run_simps
  proof (rule returns_mono [OF Cons.IH [OF b(2,4)]], elim conjE, intro conjI)
    fix x
    assume x: "ring_elems x = last_n (unat (rn b)) (ring_elems b @ map (copied c) ps)"
      "rdtored x @ destroyed c (ring_elems x) = rdtored b @ destroyed c (ring_elems b @ map (copied c) ps)"
    show "ring_elems x = last_n ?n (?xs @ map (copied c) (p # ps))"
      by (simp add: x(1) b(3,5) last_n_last_n)
    show "rdtored x @ destroyed c (ring_elems x) =
        rdtored a @ destroyed c (?xs @ map (copied c) (p # ps))"
      by (simp only: x(2) kept list.map)
  qed (simp_all add: b(3))
qed

lemma eltptr_generic:
  fixes j :: "'w::len word"
  assumes "ring_ok a" "unat j < length (ring_elems a)"
    and "32 \<le> LENGTH('w)" "2 * unat (rn a) \<le> 2 ^ LENGTH('w)"
  shows "\<exists>k. utringbuffer_eltptr a j = Some k \<and> k < length (ring_slots a) \<and>
           ring_slots a ! k = ring_elems a ! unat j \<and>
           k = (if rf a then (unat j + unat (ri a)) mod unat (rn a) else unat j)"
proof -
  let ?n = "unat (rn a)" and ?i = "unat (ri a)" and ?d = "ring_slots a"
  have ok: "?i < ?n" "length ?d = ?n" using assms(1) by (simp_all add: ring_ok_def)
  have cast: "unat (ucast x :: 'w word) = unat x" for x :: uint
  proof -
    have "unat x < 2 ^ LENGTH(32)" by (rule unsigned_less)
    also have "\<dots> \<le> 2 ^ LENGTH('w)" using assms(3) by (intro power_increasing) simp_all
    finally show ?thesis by (simp add: unsigned_ucast_eq take_bit_nat_eq_self)
  qed
  have lt: "unat j < unat (utringbuffer_len a)" using assms(2) ring_ok_length(1) [OF assms(1)] by simp
  then have in': "j < ucast (utringbuffer_len a)" by (simp add: word_less_nat_alt cast)
  show ?thesis
  proof (cases "rf a")
    case True
    have jn: "unat j < ?n" using lt True by (simp add: utringbuffer_len_def)
    then have "unat (j + ucast (ri a)) = unat j + ?i"
      using ok(1) assms(4) by (simp add: unat_word_ariths cast)
    then have idx: "unat (utringbuffer_real_idx a j) = (unat j + ?i) mod ?n"
      using True by (simp add: utringbuffer_real_idx_def unat_mod_distrib cast)
    have "(unat j + ?i) mod ?n < ?n" using ok(1) by (intro mod_less_divisor) simp
    moreover have "?d ! ((unat j + ?i) mod ?n) = ring_elems a ! unat j"
      using True jn ok by (auto simp: ring_elems_def nth_append mod_if add.commute)
    ultimately show ?thesis
      using True in' idx ok(2) by (simp add: utringbuffer_eltptr_def)
  next
    case False
    then show ?thesis using in' lt ok
      by (simp add: utringbuffer_eltptr_def utringbuffer_real_idx_def ring_elems_def utringbuffer_len_def)
  qed
qed

section \<open>Positions\<close>

lemma unat_ucast_size: "unat (ucast (x :: uint) :: size_t) = unat x"
proof -
  have "unat x < 2 ^ LENGTH(32)" by (rule unsigned_less)
  then show ?thesis by (simp add: unsigned_ucast_eq take_bit_nat_eq_self)
qed

lemma eltidx_inverse:
  assumes "ring_ok a" "j < length (ring_elems a)"
    and "k = (if rf a then (j + unat (ri a)) mod unat (rn a) else j)"
  shows "unat (utringbuffer_eltidx a k) = j"
proof -
  let ?n = "unat (rn a)" and ?i = "unat (ri a)"
  have ok: "?i < ?n" using assms(1) by (simp add: ring_ok_def)
  have n: "?n < 2 ^ LENGTH(32)" by (rule unsigned_less)
  have jn: "j < ?n" using assms(2) ring_ok_length(2) [OF assms(1)] by simp
  have kn: "k < ?n" using assms(3) jn ok by (auto intro: mod_less_divisor)
  then have k: "unat (word_of_nat k :: size_t) = k" using n by (simp add: unat_of_nat)
  show ?thesis
  proof (cases "rf a")
    case True
    have "unat (word_of_nat k + ucast (rn a) :: size_t) = k + ?n"
      using kn k n by (simp add: unat_word_ariths unat_ucast_size)
    then have "unat (word_of_nat k + ucast (rn a) - ucast (ri a) :: size_t) = k + ?n - ?i"
      using ok by (simp add: unat_sub_if' unat_ucast_size)
    then have "unat (utringbuffer_eltidx a k) = (k + ?n - ?i) mod ?n"
      using True by (simp add: utringbuffer_eltidx_def utringbuffer_fake_idx_def unat_mod_distrib unat_ucast_size)
    also have "\<dots> = j" using True assms(3) jn ok by (auto simp: mod_if)
    finally show ?thesis .
  next
    case False
    then show ?thesis using assms(3) k by (simp add: utringbuffer_eltidx_def utringbuffer_fake_idx_def)
  qed
qed

text \<open>The slot of the element at position \<open>j\<close>, and NULL beyond the last.\<close>

definition ring_at :: "ut_ringbuffer \<Rightarrow> nat \<Rightarrow> nat option" where
  "ring_at a j =
     (if j < length (ring_elems a)
      then Some (if rf a then (j + unat (ri a)) mod unat (rn a) else j) else None)"

lemma eltptr_is_ring_at:
  fixes j :: "'w::len word"
  assumes "ring_ok a" "32 \<le> LENGTH('w)" "2 * unat (rn a) \<le> 2 ^ LENGTH('w)"
  shows "utringbuffer_eltptr a j = ring_at a (unat j)"
proof (cases "unat j < length (ring_elems a)")
  case True
  then show ?thesis using eltptr_generic [of a j] assms by (auto simp: ring_at_def)
next
  case False
  have "unat (utringbuffer_len a) < 2 ^ LENGTH(32)" by (rule unsigned_less)
  also have "(2::nat) ^ LENGTH(32) \<le> 2 ^ LENGTH('w)" using assms(2) by (intro power_increasing) simp_all
  finally have "unat (ucast (utringbuffer_len a) :: 'w word) = unat (utringbuffer_len a)"
    by (simp add: unsigned_ucast_eq take_bit_nat_eq_self)
  then show ?thesis
    using False ring_ok_length(1) [OF assms(1)]
    by (simp add: utringbuffer_eltptr_def ring_at_def word_less_nat_alt)
qed

lemma eltptr_size_is_ring_at: "ring_ok a \<Longrightarrow> utringbuffer_eltptr a (j :: size_t) = ring_at a (unat j)"
proof -
  assume "ring_ok a"
  have "unat (rn a) < 2 ^ LENGTH(32)" by (rule unsigned_less)
  then show ?thesis by (intro eltptr_is_ring_at [OF \<open>ring_ok a\<close>]) simp_all
qed

lemma ring_next_at:
  assumes "ring_ok a" "j < length (ring_elems a)"
  shows "utringbuffer_next a (ring_at a j) = ring_at a (j + 1)"
proof -
  obtain k where k: "ring_at a j = Some k" "k = (if rf a then (j + unat (ri a)) mod unat (rn a) else j)"
    using assms(2) by (simp add: ring_at_def)
  have j: "unat (utringbuffer_eltidx a k) = j" by (rule eltidx_inverse [OF assms k(2)])
  have "j < unat (rn a)" "unat (rn a) < 2 ^ LENGTH(32)"
    using assms(2) ring_ok_length(2) [OF assms(1)] unsigned_less [of "rn a"] by simp_all
  then have "unat (utringbuffer_eltidx a k + 1) = j + 1" using j by (simp add: unat_word_ariths)
  then show ?thesis by (simp add: k(1) utringbuffer_next_def eltptr_size_is_ring_at [OF assms(1)])
qed

lemma ring_prev_at:
  assumes "ring_ok a" "j < length (ring_elems a)"
  shows "utringbuffer_prev a (ring_at a j) = (if j = 0 then None else ring_at a (j - 1))"
proof -
  obtain k where k: "ring_at a j = Some k" "k = (if rf a then (j + unat (ri a)) mod unat (rn a) else j)"
    using assms(2) by (simp add: ring_at_def)
  have j: "unat (utringbuffer_eltidx a k) = j" by (rule eltidx_inverse [OF assms k(2)])
  have len: "length (ring_elems a) < 2 ^ LENGTH(32)"
    using ring_ok_length(2) [OF assms(1)] unsigned_less [of "rn a"] by (rule le_less_trans)
  show ?thesis
  proof (cases "j = 0")
    case True
    then have "utringbuffer_eltidx a k = 0" using j by (simp add: unat_eq_zero)
    then have "unat (utringbuffer_eltidx a k - 1) = 2 ^ 64 - 1"
      by (simp add: unsigned_minus_1_eq_mask mask_eq_exp_minus_1)
    then have "ring_at a (unat (utringbuffer_eltidx a k - 1)) = None" using len by (simp add: ring_at_def)
    then show ?thesis
      using True k(1) by (simp add: utringbuffer_prev_def eltptr_size_is_ring_at [OF assms(1)])
  next
    case False
    then have "utringbuffer_eltidx a k \<noteq> 0" using j by auto
    then have "unat (utringbuffer_eltidx a k - 1) = j - 1" using j by (simp add: unat_minus_one)
    then show ?thesis
      using False by (simp add: k(1) utringbuffer_prev_def eltptr_size_is_ring_at [OF assms(1)])
  qed
qed

lemma ring_front_back:
  assumes "ring_ok a" "unat (rn a) \<le> 2 ^ 31" "ring_elems a \<noteq> []"
  shows "utringbuffer_front a = ring_at a 0" "utringbuffer_back a = ring_at a (length (ring_elems a) - 1)"
proof -
  have at: "utringbuffer_eltptr a (j :: uint) = ring_at a (unat j)" for j
    by (rule eltptr_is_ring_at [OF assms(1)]) (use assms(2) in simp_all)
  show "utringbuffer_front a = ring_at a 0" by (simp add: utringbuffer_front_def at)
  have len: "length (ring_elems a) = unat (utringbuffer_len a)" by (rule ring_ok_length(1) [OF assms(1)])
  then have nz: "utringbuffer_len a \<noteq> 0" using assms(3) by (metis length_0_conv unat_0)
  then have "\<not> utringbuffer_empty a" by (auto simp: utringbuffer_empty_def utringbuffer_len_def split: if_splits)
  then show "utringbuffer_back a = ring_at a (length (ring_elems a) - 1)"
    by (simp add: utringbuffer_back_def at unat_minus_one nz len)
qed

section \<open>Clearing\<close>

lemma ring_dtors_run:
  assumes "ring_ok a" "unat (rn a) \<le> 2 ^ 31" "\<forall>j \<in> set js. j < length (ring_elems a)"
  shows "ring_dtors js a = returned (a\<lparr>rdtored := rdtored a @ map ((!) (ring_elems a)) js\<rparr>)"
  using assms
proof (induction js arbitrary: a)
  case (Cons j js)
  have len: "length (ring_elems a) \<le> 2 ^ 31" using ring_ok_length(2) [OF Cons.prems(1)] Cons.prems(2) by simp
  then have j: "unat (word_of_nat j :: uint) = j" using Cons.prems(3) by (simp add: unat_of_nat)
  obtain k where k: "utringbuffer_eltptr a (word_of_nat j :: uint) = Some k" "k < length (ring_slots a)"
      "ring_slots a ! k = ring_elems a ! j"
    using eltptr_generic [of a "word_of_nat j :: uint"] Cons.prems j by auto
  let ?a = "a\<lparr>rdtored := rdtored a @ [ring_elems a ! j]\<rparr>"
  have same: "ring_elems ?a = ring_elems a" "ring_ok ?a = ring_ok a"
    by (simp_all add: ring_elems_def ring_ok_def ring_slots_def)
  show ?case using Cons.IH [of ?a] Cons.prems k by (simp add: ring_dtor_def same)
qed simp

lemma clear_ring:
  assumes "ring_ok a" "unat (rn a) \<le> 2 ^ 31"
  shows "returns (utringbuffer_clear a) (\<lambda>b. ring_ok b \<and> ring_elems b = [] \<and> rn b = rn a \<and>
           ricd b = ricd a \<and> rdtored b = rdtored a @ destroyed (ricd a) (ring_elems a))"
proof -
  let ?b = "a\<lparr>rdtored := rdtored a @ destroyed (ricd a) (ring_elems a), ri := 0, rf := False\<rparr>"
  have len: "length (ring_elems a) = (if rf a then unat (rn a) else unat (ri a))"
    using ring_ok_length(1) [OF assms(1)] by (simp add: utringbuffer_len_def)
  have "ring_dtors [0..<length (ring_elems a)] a =
      returned (a\<lparr>rdtored := rdtored a @ ring_elems a\<rparr>)"
    using ring_dtors_run [OF assms, of "[0..<length (ring_elems a)]"] by (simp add: map_nth)
  then have "utringbuffer_clear a = returned ?b"
    by (auto simp: utringbuffer_clear_def destroyed_def len split: if_splits)
  moreover have "0 < unat (rn a)" using assms(1) by (simp add: ring_ok_def)
  ultimately show ?thesis using assms(1) by (auto simp: ring_ok_def ring_elems_def ring_slots_def)
qed

section \<open>Properties\<close>

lemma ring_pushes_from_init:
  assumes "icd_ok c" "allocates L" "n \<noteq> 0"
  shows "returns (ring_pushes ps (utringbuffer_init L n c)) (\<lambda>a. ring_ok a \<and> rn a = n \<and> ricd a = c \<and>
           ring_elems a = last_n (unat n) (map (copied c) ps) \<and>
           rdtored a @ destroyed c (ring_elems a) = destroyed c (map (copied c) ps))"
  using ring_pushes_ring [of "utringbuffer_init L n c" c ps] init_ring_ok [OF assms(2,1,3)]
  by (simp add: destroyed_append)

text \<open>Without a block (a failed, unchecked \<open>malloc\<close>) or without slots, a push has no defined behaviour.\<close>

lemma push_without_block: "rd a = None \<Longrightarrow> \<not> rf a \<Longrightarrow> utringbuffer_push_back p a = stopped Undefined"
  by (simp add: utringbuffer_push_back_def ring_slots_def)

text \<open>
  C26. After any sequence of pushes the buffer holds the last \<open>n\<close> elements pushed, oldest first,
  its length is their number, it is full exactly when \<open>n\<close> or more were pushed, and the
  destructor has run on the overwritten elements, in order.
\<close>

theorem ring_buffer_holds_last_n:
  assumes "icd_ok c" "allocates L" "n \<noteq> 0"
  shows "returns (ring_pushes ps (utringbuffer_init L n c)) (\<lambda>a.
           ring_elems a = map (copied c) (last_n (unat n) ps) \<and>
           unat (utringbuffer_len a) = min (unat n) (length ps) \<and>
           (utringbuffer_full a \<longleftrightarrow> unat n \<le> length ps) \<and>
           rdtored a = destroyed c (map (copied c) (take (length ps - unat n) ps)))"
proof (rule returns_mono [OF ring_pushes_from_init [OF assms, of ps]], elim conjE)
  fix a
  assume a: "ring_ok a" "rn a = n" "ricd a = c" "ring_elems a = last_n (unat n) (map (copied c) ps)"
    "rdtored a @ destroyed c (ring_elems a) = destroyed c (map (copied c) ps)"
  have len: "unat (utringbuffer_len a) = min (unat n) (length ps)"
    using ring_ok_length(1) [OF a(1)] a(4) by (simp add: last_n_def)
  have "unat (ri a) < unat n" using a(1,2) by (simp add: ring_ok_def)
  then have full: "utringbuffer_full a \<longleftrightarrow> unat n \<le> length ps"
    using len a(2) by (auto simp: utringbuffer_full_def utringbuffer_len_def split: if_splits)
  have "map (copied c) ps = map (copied c) (take (length ps - unat n) ps) @ ring_elems a"
    by (simp add: a(4) last_n_def drop_map flip: map_append)
  then have "rdtored a @ destroyed c (ring_elems a) =
      destroyed c (map (copied c) (take (length ps - unat n) ps)) @ destroyed c (ring_elems a)"
    using a(5) by (metis destroyed_append)
  then show "ring_elems a = map (copied c) (last_n (unat n) ps) \<and>
      unat (utringbuffer_len a) = min (unat n) (length ps) \<and>
      (utringbuffer_full a \<longleftrightarrow> unat n \<le> length ps) \<and>
      rdtored a = destroyed c (map (copied c) (take (length ps - unat n) ps))"
    using len full a(4) by (simp add: last_n_def drop_map)
qed

theorem ring_buffer_holds_last_n_witness:
  "returns (ring_pushes [[1], [2], [3]] (utringbuffer_init glibc 2 owned_icd)) (\<lambda>a.
     ring_elems a = [[3], [4]] \<and> rdtored a = [[2]])"
  using ring_buffer_holds_last_n [OF owned_icd_ok(1) glibc_allocates, of 2 "[[1], [2], [3]]"]
  by (simp add: last_n_def copied_def destroyed_def owned_icd_def returns_def) blast

text \<open>
  C39. Walking: from any element \<open>utringbuffer_next\<close> gives the element pushed after it and NULL
  after the newest, \<open>utringbuffer_prev\<close> the one pushed before it and NULL before the oldest,
  although the elements wrap around the end of the block: the two undo each other.
\<close>

theorem ring_buffer_next_prev_walk:
  assumes "ring_ok a" "j < length (ring_elems a)" "utringbuffer_eltptr a (word_of_nat j :: size_t) = Some e"
  shows "ring_slots a ! e = ring_elems a ! j \<and>
         utringbuffer_next a (Some e) =
           (if j + 1 < length (ring_elems a) then utringbuffer_eltptr a (word_of_nat (j + 1) :: size_t) else None) \<and>
         utringbuffer_prev a (Some e) =
           (if j = 0 then None else utringbuffer_eltptr a (word_of_nat (j - 1) :: size_t))"
proof -
  have n: "unat (rn a) < 2 ^ LENGTH(32)" by (rule unsigned_less)
  then have idx: "unat (word_of_nat i :: size_t) = i" if "i \<le> length (ring_elems a)" for i
    using that ring_ok_length(2) [OF assms(1)] by (simp add: unat_of_nat)
  then have at: "utringbuffer_eltptr a (word_of_nat i :: size_t) = ring_at a i"
    if "i \<le> length (ring_elems a)" for i
    using that eltptr_size_is_ring_at [OF assms(1)] by simp
  have e: "ring_at a j = Some e" using assms(2,3) at [of j] by simp
  have "ring_slots a ! e = ring_elems a ! j"
    using eltptr_generic [of a "word_of_nat j :: size_t"] assms idx [of j] n by auto
  moreover have "utringbuffer_next a (Some e) =
      (if j + 1 < length (ring_elems a) then utringbuffer_eltptr a (word_of_nat (j + 1) :: size_t) else None)"
    using ring_next_at [OF assms(1,2)] e at [of "j + 1"] by (simp add: ring_at_def)
  moreover have prev: "utringbuffer_eltptr a (word_of_nat (j - 1) :: size_t) = ring_at a (j - 1)"
    by (rule at) (use assms(2) in simp)
  have "utringbuffer_prev a (Some e) =
      (if j = 0 then None else utringbuffer_eltptr a (word_of_nat (j - 1) :: size_t))"
    unfolding prev using ring_prev_at [OF assms(1,2)] e by simp
  ultimately show ?thesis by blast
qed

definition wrapped_ring :: ut_ringbuffer where
  "wrapped_ring = \<lparr>ri = 1, rn = 3, rf = True, ricd = owned_icd, rd = Some [[4], [2], [3]], rdtored = [[1]]\<rparr>"

theorem ring_buffer_next_prev_walk_witness:
  "utringbuffer_next wrapped_ring (Some 2) = Some 0 \<and> utringbuffer_prev wrapped_ring (Some 2) = Some 1 \<and>
   ring_slots wrapped_ring ! 2 = ring_elems wrapped_ring ! 1"
  using ring_buffer_next_prev_walk [of wrapped_ring 1 2]
  by (simp add: wrapped_ring_def ring_ok_def ring_elems_def ring_slots_def utringbuffer_eltptr_def
      utringbuffer_len_def utringbuffer_real_idx_def)

text \<open>
  A ring buffer with a destructor destroys everything it was given, once and in the order
  of the pushes: what was overwritten, then what \<open>utringbuffer_done\<close> finds.
\<close>

theorem ring_buffer_destroys_all_in_order:
  assumes "icd_ok c" "idtor c" "allocates L" "n \<noteq> 0" "unat n \<le> 2 ^ 31"
  shows "returns (then_run (ring_pushes ps (utringbuffer_init L n c)) utringbuffer_done)
           (\<lambda>a. rdtored a = map (copied c) ps)"
  unfolding returns_then
proof (rule returns_mono [OF ring_pushes_from_init [OF assms(1,3,4), of ps]], elim conjE)
  fix a
  assume "ring_ok a" "rn a = n" "ricd a = c"
    "rdtored a @ destroyed c (ring_elems a) = destroyed c (map (copied c) ps)"
  then show "returns (utringbuffer_done a) (\<lambda>a. rdtored a = map (copied c) ps)"
    using clear_ring [of a] assms(2,5)
    by (auto simp: utringbuffer_done_def destroyed_def elim!: returns_mono)
qed

theorem ring_buffer_destroys_all_in_order_witness:
  "returns (then_run (ring_pushes [[1], [2], [3]] (utringbuffer_init glibc 2 owned_icd)) utringbuffer_done)
     (\<lambda>a. rdtored a = [[2], [3], [4]])"
  using ring_buffer_destroys_all_in_order [OF owned_icd_ok glibc_allocates, of 2 "[[1], [2], [3]]"]
  by (simp add: copied_def owned_icd_def)

end
