(* ===== verification/Ut_String.thy ===== *)
theory Ut_String
  imports Alloc Loops
begin

text \<open>
  The dynamic string \<open>src/contrib/uthash/utstring.h\<close>: a growing block of \<open>n\<close> bytes with a string
  of \<open>i\<close> bytes and its terminator in front, and the Knuth-Morris-Pratt search in both
  directions.  \<open>long\<close> values are integers (lengths and positions of objects are far from their
  bounds) except where the code converts \<open>size_t\<close> to \<open>long\<close> or to \<open>int\<close>; an index outside an
  array has no defined behaviour.  \<open>vsnprintf\<close> is the C library's: it writes as much of the
  formatted text as fits and returns the length of the whole text, or \<open>- 1\<close> when an \<open>int\<close>
  cannot hold it.
\<close>

section \<open>The string\<close>

record ut_string =
  us_d :: "block option"
  us_n :: size_t
  us_i :: size_t

definition utstring_reserve :: "libc \<Rightarrow> size_t \<Rightarrow> ut_string \<Rightarrow> ut_string run" where
  "utstring_reserve L amt s =
     (if us_n s - us_i s < amt
      then (case c_realloc L (us_d s) (us_n s + amt) of
              None \<Rightarrow> stopped (Exit (- 1))
            | Some b \<Rightarrow> returned (s\<lparr>us_d := Some b, us_n := us_n s + amt\<rparr>))
      else returned s)"

definition store_bytes :: "size_t \<Rightarrow> byte list \<Rightarrow> ut_string \<Rightarrow> ut_string run" where
  "store_bytes off bs s = Some (bind_out (mem_write (us_d s) (unat off) bs) (\<lambda>p. Inr (s\<lparr>us_d := p\<rparr>)))"

definition utstring_init :: "libc \<Rightarrow> ut_string run" where
  "utstring_init L =
     then_run (utstring_reserve L 100 \<lparr>us_d = None, us_n = 0, us_i = 0\<rparr>) (store_bytes 0 [0])"

definition utstring_new :: "libc \<Rightarrow> ut_string run" where
  "utstring_new L = (if malloc_ok L 24 then utstring_init L else stopped (Exit (- 1)))"

text \<open>The freed block stays reachable through \<open>d\<close>; here it is gone.\<close>

definition utstring_done :: "ut_string \<Rightarrow> ut_string" where
  "utstring_done s = s\<lparr>us_d := None, us_n := 0\<rparr>"

definition utstring_clear :: "ut_string \<Rightarrow> ut_string run" where
  "utstring_clear s = (let s = s\<lparr>us_i := 0\<rparr> in store_bytes 0 [0] s)"

definition utstring_renew :: "libc \<Rightarrow> ut_string option \<Rightarrow> ut_string run" where
  "utstring_renew L p = (case p of Some s \<Rightarrow> utstring_clear s | None \<Rightarrow> utstring_new L)"

definition utstring_bincpy :: "libc \<Rightarrow> byte list \<Rightarrow> ut_string \<Rightarrow> ut_string run" where
  "utstring_bincpy L b s =
     (let l = word_of_nat (length b) in
      then_run (utstring_reserve L (l + 1) s) (\<lambda>s.
      then_run (if l \<noteq> 0 then store_bytes (us_i s) b s else returned s) (\<lambda>s.
      let s = s\<lparr>us_i := us_i s + l\<rparr> in store_bytes (us_i s) [0] s)))"

definition utstring_concat :: "libc \<Rightarrow> ut_string \<Rightarrow> ut_string \<Rightarrow> ut_string run" where
  "utstring_concat L src dst =
     then_run (utstring_reserve L (us_i src + 1) dst) (\<lambda>dst.
     then_run (if us_i src \<noteq> 0
               then then_run (Some (mem_read (us_d src) 0 (unat (us_i src)))) (\<lambda>b. store_bytes (us_i dst) b dst)
               else returned dst) (\<lambda>dst.
     let dst = dst\<lparr>us_i := us_i dst + us_i src\<rparr> in store_bytes (us_i dst) [0] dst))"

definition utstring_len :: "ut_string \<Rightarrow> size_t" where
  "utstring_len s = us_i s"

definition utstring_body :: "ut_string \<Rightarrow> block option" where
  "utstring_body s = us_d s"

definition vsnprintf :: "byte list \<Rightarrow> size_t \<Rightarrow> ut_string \<Rightarrow> (int \<times> ut_string) run" where
  "vsnprintf txt size' s =
     then_run (if size' = 0 then returned s
               else store_bytes (us_i s) (take (unat size' - 1) txt @ [0]) s) (\<lambda>s.
     returned (if length txt < 2 ^ 31 then int (length txt) else - 1, s))"

text \<open>The loop of \<open>utstring_printf_va\<close> returns from its middle: the flag says that it did.\<close>

definition utstring_printf_va :: "libc \<Rightarrow> byte list \<Rightarrow> ut_string \<Rightarrow> ut_string run" where
  "utstring_printf_va L txt s =
     then_run
       (while_run (\<lambda>(fin, s). returned (\<not> fin))
         (\<lambda>(fin, s). then_run (vsnprintf txt (us_n s - us_i s) s) (\<lambda>(n, s).
            if n > - 1 \<and> word_of_int n < us_n s - us_i s
            then returned (True, s\<lparr>us_i := us_i s + word_of_int n\<rparr>)
            else then_run (if n > - 1 then utstring_reserve L (word_of_int (n + 1)) s
                           else utstring_reserve L (us_n s * 2) s) (\<lambda>s. returned (False, s))))
         (False, s))
       (\<lambda>(fin, s). returned s)"

definition utstring_printf :: "libc \<Rightarrow> byte list \<Rightarrow> ut_string \<Rightarrow> ut_string run" where
  "utstring_printf L txt s = utstring_printf_va L txt s"

section \<open>Building the search tables\<close>

definition nth_run :: "'a list \<Rightarrow> int \<Rightarrow> 'a run" where
  "nth_run xs k = (if 0 \<le> k \<and> nat k < length xs then returned (xs ! nat k) else stopped Undefined)"

definition upd_run :: "'a list \<Rightarrow> int \<Rightarrow> 'a \<Rightarrow> 'a list run" where
  "upd_run xs k x = (if 0 \<le> k \<and> nat k < length xs then returned (xs[nat k := x]) else stopped Undefined)"

definition differ_at :: "byte list \<Rightarrow> int \<Rightarrow> byte list \<Rightarrow> int \<Rightarrow> bool run" where
  "differ_at xs i ys j = then_run (nth_run xs i) (\<lambda>a. then_run (nth_run ys j) (\<lambda>b. returned (a \<noteq> b)))"

definition utstring_BuildTable :: "byte list \<Rightarrow> size_t \<Rightarrow> int list \<Rightarrow> int list run" where
  "utstring_BuildTable needle needle_len table =
     (let i = 0; j = i - 1; m = sint needle_len in
      then_run (upd_run table i j) (\<lambda>table.
      then_run
        (while_run (\<lambda>(i, j, table). returned (i < m))
          (\<lambda>(i, j, table).
             then_run (while_run (\<lambda>j. if j > - 1 then differ_at needle i needle j else returned False)
                                 (\<lambda>j. nth_run table j) j) (\<lambda>j.
             let i = i + 1; j = j + 1 in
             then_run (if i < m
                       then then_run (differ_at needle i needle j) (\<lambda>ne.
                              if \<not> ne then nth_run table j else returned j)
                       else returned j) (\<lambda>x.
             then_run (upd_run table i x) (\<lambda>table. returned (i, j, table)))))
          (i, j, table))
        (\<lambda>(i, j, table). returned table)))"

definition utstring_BuildTableR :: "byte list \<Rightarrow> size_t \<Rightarrow> int list \<Rightarrow> int list run" where
  "utstring_BuildTableR needle needle_len table =
     (let i = sint needle_len - 1; j = i + 1; m = sint needle_len in
      then_run (upd_run table (i + 1) j) (\<lambda>table.
      then_run
        (while_run (\<lambda>(i, j, table). returned (i \<ge> 0))
          (\<lambda>(i, j, table).
             then_run (while_run (\<lambda>j. if j < m then differ_at needle i needle j else returned False)
                                 (\<lambda>j. nth_run table (j + 1)) j) (\<lambda>j.
             let i = i - 1; j = j - 1 in
             then_run (if i \<ge> 0
                       then then_run (differ_at needle i needle j) (\<lambda>ne.
                              if \<not> ne then nth_run table (j + 1) else returned j)
                       else returned j) (\<lambda>x.
             then_run (upd_run table (i + 1) x) (\<lambda>table. returned (i, j, table)))))
          (i, j, table))
        (\<lambda>(i, j, table). returned table)))"

section \<open>Searching\<close>

text \<open>The state of a search loop: \<open>i\<close>, \<open>j\<close>, the position found and whether the loop was left.\<close>

definition utstring_find_table ::
  "byte list \<Rightarrow> size_t \<Rightarrow> byte list \<Rightarrow> size_t \<Rightarrow> int list \<Rightarrow> int run" where
  "utstring_find_table haystack haystack_len needle needle_len table =
     then_run
       (while_run
         (\<lambda>(i, j, pos, left). returned (\<not> left \<and> j < int_of_size haystack_len \<and>
            (haystack_len - word_of_int j) + word_of_int i \<ge> needle_len))
         (\<lambda>(i, j, pos, left).
            then_run (while_run (\<lambda>i. if i > - 1 then differ_at needle i haystack j else returned False)
                                (\<lambda>i. nth_run table i) i) (\<lambda>i.
            let i = i + 1; j = j + 1 in
            returned (if i \<ge> int_of_size needle_len then (i, j, j - i, True) else (i, j, pos, False))))
         (0, 0, - 1, False))
       (\<lambda>(i, j, pos, left). returned pos)"

definition utstring_findR_table ::
  "byte list \<Rightarrow> size_t \<Rightarrow> byte list \<Rightarrow> size_t \<Rightarrow> int list \<Rightarrow> int run" where
  "utstring_findR_table haystack haystack_len needle needle_len table =
     then_run
       (while_run
         (\<lambda>(i, j, pos, left). returned (\<not> left \<and> j \<ge> 0 \<and> j \<ge> i))
         (\<lambda>(i, j, pos, left).
            then_run (while_run (\<lambda>i. if i < int_of_size needle_len then differ_at needle i haystack j
                                     else returned False)
                                (\<lambda>i. nth_run table (i + 1)) i) (\<lambda>i.
            let i = i - 1; j = j - 1 in
            returned (if i < 0 then (i, j, j + 1, True) else (i, j, pos, False))))
         (sint (needle_len - 1), sint (haystack_len - 1), - 1, False))
       (\<lambda>(i, j, pos, left). returned pos)"

text \<open>The table's memory is fresh.\<close>

definition fresh_table :: "libc \<Rightarrow> size_t \<Rightarrow> int list" where
  "fresh_table L needle_len = map (\<lambda>k. uint (indet L k)) [0..<unat needle_len + 1]"

definition utstring_find :: "libc \<Rightarrow> ut_string \<Rightarrow> int \<Rightarrow> byte list \<Rightarrow> int run" where
  "utstring_find L s start needle =
     (let needle_len = word_of_nat (length needle);
          v_start = (if start < 0 then sint (us_i s + word_of_int start) else start);
          haystack_len = sint (us_i s - word_of_int v_start) in
      if haystack_len \<ge> sint needle_len \<and> needle_len > 0 \<and> malloc_ok L (8 * (length needle + 1))
      then then_run (utstring_BuildTable needle needle_len (fresh_table L needle_len)) (\<lambda>table.
           then_run (if v_start < 0 then stopped Undefined
                     else utstring_find_table (drop (nat v_start) (block_bytes (us_d s)))
                            (word_of_int haystack_len) needle needle_len table) (\<lambda>pos.
           returned (if pos \<ge> 0 then pos + v_start else pos)))
      else returned (- 1))"

definition utstring_findR :: "libc \<Rightarrow> ut_string \<Rightarrow> int \<Rightarrow> byte list \<Rightarrow> int run" where
  "utstring_findR L s start needle =
     (let needle_len = word_of_nat (length needle);
          v_start = (if start < 0 then sint (us_i s + word_of_int start) else start);
          haystack_len = v_start + 1 in
      if haystack_len \<ge> sint needle_len \<and> needle_len > 0 \<and> malloc_ok L (8 * (length needle + 1))
      then then_run (utstring_BuildTableR needle needle_len (fresh_table L needle_len)) (\<lambda>table.
           utstring_findR_table (block_bytes (us_d s)) (word_of_int haystack_len) needle needle_len table)
      else returned (- 1))"

end
