(* ===== verification/Kmp.thy ===== *)
theory Kmp
  imports Ut_String
begin

text \<open>
  Correctness of the string searches of \<open>utstring.h\<close>.  A border of a prefix is a shorter prefix
  that is also a suffix of it; the table holds, for each position, the longest border at which
  a mismatch there can go on.  The loops keep the longest border with the next character as
  their invariant; the search from the right is the search from the left on reversed strings.
\<close>

section \<open>Borders\<close>

definition border :: "'a list \<Rightarrow> nat \<Rightarrow> nat \<Rightarrow> bool" where
  "border p k r \<longleftrightarrow> r < k \<and> (\<forall>x < r. p ! x = p ! (k - r + x))"

definition occurs :: "'a list \<Rightarrow> 'a list \<Rightarrow> nat \<Rightarrow> bool" where
  "occurs h p s \<longleftrightarrow> s + length p \<le> length h \<and> (\<forall>x < length p. h ! (s + x) = p ! x)"

lemma border_less: "border p k r \<Longrightarrow> r < k"
  by (simp add: border_def)

lemma border_0: "border p k 0 \<longleftrightarrow> 0 < k"
  by (simp add: border_def)

lemma border_trans:
  assumes "border p i j" "border p j r"
  shows "border p i r"
proof -
  have "p ! x = p ! (i - r + x)" if "x < r" for x
  proof -
    have "p ! x = p ! (j - r + x)" using assms(2) that by (simp add: border_def)
    also have "\<dots> = p ! (i - j + (j - r + x))"
      using assms that by (auto simp: border_def)
    also have "i - j + (j - r + x) = i - r + x" using assms by (simp add: border_def)
    finally show ?thesis .
  qed
  then show ?thesis using assms by (simp add: border_def)
qed

lemma border_of_border:
  assumes "border p i j" "border p i r" "r < j"
  shows "border p j r"
proof -
  have "p ! x = p ! (j - r + x)" if "x < r" for x
  proof -
    have "p ! x = p ! (i - r + x)" using assms(2) that by (simp add: border_def)
    also have "i - r + x = i - j + (j - r + x)" using assms by (simp add: border_def)
    also have "p ! (i - j + (j - r + x)) = p ! (j - r + x)"
      using assms(1,3) that by (simp add: border_def)
    finally show ?thesis .
  qed
  then show ?thesis using assms(3) by (simp add: border_def)
qed

lemma border_Suc: "border p (Suc i) (Suc r) \<longleftrightarrow> border p i r \<and> p ! r = p ! i"
proof
  assume b: "border p (Suc i) (Suc r)"
  have "p ! x = p ! (i - r + x)" if "x < Suc r" for x using b that by (simp add: border_def)
  then show "border p i r \<and> p ! r = p ! i" using b by (auto simp: border_def)
next
  assume "border p i r \<and> p ! r = p ! i"
  then show "border p (Suc i) (Suc r)" by (auto simp: border_def less_Suc_eq)
qed

text \<open>
  \<open>longest p k c j\<close>: \<open>j\<close> is the longest border of the first \<open>k\<close> characters at which the character
  condition \<open>c\<close> holds, and \<open>- 1\<close> if there is none.
\<close>

definition longest :: "'a list \<Rightarrow> nat \<Rightarrow> ('a \<Rightarrow> bool) \<Rightarrow> int \<Rightarrow> bool" where
  "longest p k c j \<longleftrightarrow>
     (\<forall>r. border p k r \<longrightarrow> c (p ! r) \<longrightarrow> int r \<le> j) \<and>
     (j = - 1 \<or> (\<exists>r. j = int r \<and> border p k r \<and> c (p ! r)))"

definition any :: "'a \<Rightarrow> bool" where
  "any x \<longleftrightarrow> True"

text \<open>The entry of the table for a mismatch at \<open>k\<close>.\<close>

definition entry_ok :: "'a list \<Rightarrow> nat \<Rightarrow> int \<Rightarrow> bool" where
  "entry_ok p k t \<longleftrightarrow> longest p k (if k < length p then (\<lambda>x. x \<noteq> p ! k) else any) t"

definition table_ok_upto :: "'a list \<Rightarrow> nat \<Rightarrow> int list \<Rightarrow> bool" where
  "table_ok_upto p n table \<longleftrightarrow>
     length table = length p + 1 \<and> (\<forall>k \<le> n. entry_ok p k (table ! k))"

lemma longest_less: "longest p k c j \<Longrightarrow> j < int k"
  by (auto simp: longest_def dest: border_less)

lemma longest_ge: "longest p k c j \<Longrightarrow> - 1 \<le> j"
  by (auto simp: longest_def)

lemma entry_0: "entry_ok p 0 (- 1)"
  by (simp add: entry_ok_def longest_def border_def)

text \<open>A candidate whose character fits extends to the longest border of one more character.\<close>

lemma extend_longest:
  assumes "\<forall>q. border p i q \<longrightarrow> p ! q = p ! i \<longrightarrow> int q \<le> j"
    and "j = - 1 \<or> (\<exists>q. j = int q \<and> border p i q \<and> p ! q = p ! i)"
  shows "longest p (Suc i) any (j + 1)"
proof -
  have "int q \<le> j + 1" if "border p (Suc i) q" for q
    using that assms by (cases q) (auto simp: border_Suc)
  moreover have "\<exists>q. j + 1 = int q \<and> border p (Suc i) q"
    using assms(2)
  proof
    assume "j = - 1" then show ?thesis by (intro exI [of _ 0]) (simp add: border_0)
  next
    assume "\<exists>q. j = int q \<and> border p i q \<and> p ! q = p ! i"
    then obtain q where "j = int q" "border p i q" "p ! q = p ! i" by blast
    then show ?thesis by (intro exI [of _ "Suc q"]) (simp add: border_Suc)
  qed
  ultimately show ?thesis by (auto simp: longest_def any_def)
qed

text \<open>The table's entry from the longest border: itself, or the entry of that border.\<close>

lemma entry_from_longest:
  assumes "longest p k any (int j)" "k < length p" "entry_ok p j t"
  shows "entry_ok p k (if p ! k \<noteq> p ! j then int j else t)"
proof -
  have j: "border p k j" "\<forall>r. border p k r \<longrightarrow> r \<le> j" using assms(1) by (auto simp: longest_def any_def)
  have jl: "j < length p" using border_less [OF j(1)] assms(2) by simp
  show ?thesis
  proof (cases "p ! k = p ! j")
    case True
    then have t: "longest p j (\<lambda>x. x \<noteq> p ! k) t" using assms(3) jl by (simp add: entry_ok_def)
    have "int r \<le> t" if "border p k r" "p ! r \<noteq> p ! k" for r
    proof -
      have "r \<noteq> j" using that True by auto
      then have "border p j r" using j that border_of_border [OF j(1)] by (simp add: le_neq_implies_less)
      then show ?thesis using t that(2) by (simp add: longest_def)
    qed
    then show ?thesis
      using t True assms(2) border_trans [OF j(1)] by (auto simp: entry_ok_def longest_def)
  next
    case False
    then show ?thesis using j assms(2) by (auto simp: entry_ok_def longest_def)
  qed
qed

section \<open>Going back through the table\<close>

text \<open>
  A chain of candidates: pattern prefixes all of which end where the text (or the pattern
  itself) has been read up to, so that the shorter ones are exactly the borders of each.
\<close>

definition candidates :: "'a list \<Rightarrow> nat set \<Rightarrow> bool" where
  "candidates p C \<longleftrightarrow> (\<forall>r \<in> C. r < length p \<and> (\<forall>q < r. q \<in> C \<longleftrightarrow> border p r q))"

definition best :: "'a list \<Rightarrow> nat set \<Rightarrow> 'a \<Rightarrow> int \<Rightarrow> bool" where
  "best p C y j \<longleftrightarrow> (\<forall>q \<in> C. p ! q = y \<longrightarrow> int q \<le> j)"

lemma mismatch_step:
  assumes "candidates p C" "r \<in> C" "best p C y (int r)" "p ! r \<noteq> y" "entry_ok p r t"
  shows "best p C y t" "t = - 1 \<or> (\<exists>q \<in> C. t = int q)" "- 1 \<le> t" "t < int r"
proof -
  have "r < length p" using assms(1,2) by (simp add: candidates_def)
  then have t: "longest p r (\<lambda>x. x \<noteq> p ! r) t" using assms(5) by (simp add: entry_ok_def)
  show "- 1 \<le> t" "t < int r" using longest_ge [OF t] longest_less [OF t] by simp_all
  have C: "q \<in> C \<longleftrightarrow> border p r q" if "q < r" for q using assms(1,2) that by (simp add: candidates_def)
  show "best p C y t" unfolding best_def
  proof (intro ballI impI)
    fix q assume q: "q \<in> C" "p ! q = y"
    then have "q \<le> r" "q \<noteq> r" using assms(3,4) by (auto simp: best_def)
    then have "border p r q" using C [of q] q(1) by simp
    then show "int q \<le> t" using t q(2) assms(4) by (simp add: longest_def)
  qed
  show "t = - 1 \<or> (\<exists>q \<in> C. t = int q)"
  proof -
    have "t = - 1 \<or> (\<exists>q. t = int q \<and> border p r q)" using t unfolding longest_def by blast
    then show ?thesis using C border_less by blast
  qed
qed

lemma back_loop:
  assumes "candidates p C" "\<forall>r \<in> C. entry_ok p r (table ! r)" "length table = length p + 1"
    and "\<forall>r < length p. ne (int r) = returned (p ! r \<noteq> y)"
    and "best p C y j" "j = - 1 \<or> (\<exists>q \<in> C. j = int q)"
  shows "returns (while_run (\<lambda>j. if j > - 1 then ne j else returned False) (\<lambda>j. nth_run table j) j)
           (\<lambda>j. best p C y j \<and> (j = - 1 \<or> (\<exists>q \<in> C. j = int q \<and> p ! q = y)))"
proof (rule returns_while_measure
    [of "\<lambda>j. best p C y j \<and> (j = - 1 \<or> (\<exists>q \<in> C. j = int q))" j _ _ "\<lambda>j. nat (j + 1)"])
  show "best p C y j \<and> (j = - 1 \<or> (\<exists>q \<in> C. j = int q))" using assms(5,6) by simp
next
  fix j assume "best p C y j \<and> (j = - 1 \<or> (\<exists>q \<in> C. j = int q))"
  then have b: "best p C y j" and "j = - 1 \<or> (\<exists>q \<in> C. j = int q)" by simp_all
  from this(2) show "returns (if j > - 1 then ne j else returned False) (\<lambda>t.
      if t then returns (nth_run table j) (\<lambda>j'. (best p C y j' \<and> (j' = - 1 \<or> (\<exists>q \<in> C. j' = int q))) \<and>
        nat (j' + 1) < nat (j + 1))
      else best p C y j \<and> (j = - 1 \<or> (\<exists>q \<in> C. j = int q \<and> p ! q = y)))"
  proof
    assume "j = - 1"
    then show ?thesis using b by simp
  next
    assume "\<exists>q \<in> C. j = int q"
    then obtain r where r: "r \<in> C" "j = int r" by blast
    then have rl: "r < length p" using assms(1) by (simp add: candidates_def)
    have e: "entry_ok p r (table ! r)" using assms(2) r(1) by blast
    note step = mismatch_step [OF assms(1) r(1) _ _ e]
    show ?thesis
    proof (cases "p ! r = y")
      case True
      then show ?thesis using r rl b assms(4) by auto
    next
      case False
      then show ?thesis
        using r rl b assms(3,4) step [of y] by (auto simp: nth_run_def)
    qed
  qed
qed

section \<open>The table\<close>

lemma border_candidates: "i < length p \<Longrightarrow> candidates p {r. border p i r}"
  unfolding candidates_def
proof (intro ballI conjI allI impI, goal_cases)
  case (1 r)
  then show ?case using border_less [of p i r] by simp
next
  case (2 r q)
  then show ?case using border_trans [of p i r q] border_of_border [of p i r q] by blast
qed

lemma extend_border:
  assumes "best p {r. border p i r} (p ! i) j"
    and "j = - 1 \<or> (\<exists>q \<in> {r. border p i r}. j = int q \<and> p ! q = p ! i)"
  shows "longest p (Suc i) any (j + 1)"
  by (rule extend_longest) (use assms in \<open>auto simp: best_def\<close>)

lemma sint_small: "unat (n :: size_t) < 2 ^ 63 \<Longrightarrow> sint n = int (unat n)"
proof -
  assume "unat n < 2 ^ 63"
  then have "uint n < 2 ^ 63" by (subst uint_less_iff_unat)
  moreover have "0 \<le> uint n" by simp
  ultimately have "signed_take_bit 63 (uint n) = uint n"
    by (intro signed_take_bit_int_eq_self) (linarith | simp)+
  then show ?thesis by (simp add: sint_uint)
qed

lemma differ_at_run:
  "i < length xs \<Longrightarrow> j < length ys \<Longrightarrow> differ_at xs (int i) ys (int j) = returned (xs ! i \<noteq> ys ! j)"
  by (simp add: differ_at_def nth_run_def)

lemma table_extend:
  assumes "table_ok_upto p k table" "entry_ok p (Suc k) t" "k < length p"
  shows "table_ok_upto p (Suc k) (table[Suc k := t])"
  using assms by (auto simp: table_ok_upto_def le_Suc_eq nth_list_update)

lemma BuildTable_returns:
  assumes "length p = unat n" "unat n < 2 ^ 63" "length table = length p + 1"
  shows "returns (utstring_BuildTable p n table) (table_ok_upto p (length p))"
proof -
  let ?m = "length p"
  have m: "sint n = int ?m" using assms(1,2) by (simp add: sint_small)
  let ?I = "\<lambda>(i, j, table). \<exists>k \<le> ?m. i = int k \<and> longest p k any j \<and> table_ok_upto p k table"
  let ?fall = "\<lambda>i j table. while_run (\<lambda>j. if j > - 1 then differ_at p i p j else returned False)
      (\<lambda>j. nth_run table j) j"
  let ?body = "\<lambda>(i, j, table). then_run (?fall i j table) (\<lambda>j. let i = i + 1; j = j + 1 in
      then_run (if i < int ?m then then_run (differ_at p i p j) (\<lambda>ne.
                  if \<not> ne then nth_run table j else returned j) else returned j) (\<lambda>x.
      then_run (upd_run table i x) (\<lambda>table. returned (i, j, table))))"
  have "returns (while_run (\<lambda>(i, j, table). returned (i < int ?m)) ?body (0, - 1, table[0 := - 1]))
      (\<lambda>(i, j, table). table_ok_upto p ?m table)"
  proof (rule returns_while_measure [of ?I _ _ _ "\<lambda>(i, j, table). ?m - nat i"])
    show "?I (0, - 1, table[0 := - 1])"
      using assms(3) entry_0 by (auto simp: table_ok_upto_def longest_def border_def)
  next
    fix st assume st: "?I st"
    obtain i j table where eq: "st = (i, j, table)" by (cases st) auto
    with st obtain k where k: "k \<le> ?m" "i = int k" "longest p k any j" "table_ok_upto p k table" by auto
    show "returns ((\<lambda>(i, j, table). returned (i < int ?m)) st) (\<lambda>t.
        if t then returns (?body st) (\<lambda>st'. ?I st' \<and>
            (\<lambda>(i, j, table). ?m - nat i) st' < (\<lambda>(i, j, table). ?m - nat i) st)
        else (\<lambda>(i, j, table). table_ok_upto p ?m table) st)"
    proof (cases "k < ?m")
      case False
      then show ?thesis using k eq by simp
    next
      case True
      let ?C = "{r. border p k r}"
      have len: "length table = ?m + 1" using k(4) by (simp add: table_ok_upto_def)
      have "returns (?fall i j table)
          (\<lambda>j. best p ?C (p ! k) j \<and> (j = - 1 \<or> (\<exists>q \<in> ?C. j = int q \<and> p ! q = p ! k)))"
      proof (rule back_loop [OF border_candidates [OF True] _ len])
        show "\<forall>r \<in> ?C. entry_ok p r (table ! r)"
          using k(4) by (auto simp: table_ok_upto_def dest: border_less)
        show "\<forall>r < ?m. differ_at p i p (int r) = returned (p ! r \<noteq> p ! k)"
          using True by (auto simp: k(2) differ_at_run)
        show "best p ?C (p ! k) j" "j = - 1 \<or> (\<exists>q \<in> ?C. j = int q)"
          using k(3) by (auto simp: best_def longest_def any_def)
      qed
      then obtain j' where j': "?fall i j table = returned j'"
          "best p ?C (p ! k) j'" "j' = - 1 \<or> (\<exists>q \<in> ?C. j' = int q \<and> p ! q = p ! k)"
        by (rule returnsE) blast
      have l: "longest p (Suc k) any (j' + 1)" by (rule extend_border [OF j'(2,3)])
      obtain q where q: "j' + 1 = int q" "border p (Suc k) q"
        using l border_0 [of p "Suc k"] by (auto simp: longest_def any_def)
      obtain x where x: "(if i + 1 < int ?m then then_run (differ_at p (i + 1) p (j' + 1)) (\<lambda>ne.
            if \<not> ne then nth_run table (j' + 1) else returned (j' + 1)) else returned (j' + 1)) = returned x"
          "entry_ok p (Suc k) x"
      proof (cases "Suc k < ?m")
        case False
        then have "entry_ok p (Suc k) (j' + 1)" using l True by (simp add: entry_ok_def)
        then show thesis using False by (intro that [of "j' + 1"]) (auto simp: k(2))
      next
        case True
        have ql: "q \<le> k" using border_less [OF q(2)] by simp
        then have "entry_ok p q (table ! q)" using k(4) by (simp add: table_ok_upto_def)
        then have "entry_ok p (Suc k) (if p ! Suc k \<noteq> p ! q then int q else table ! q)"
          using entry_from_longest [of p "Suc k" q] l True by (simp add: q(1))
        moreover have "differ_at p (i + 1) p (j' + 1) = returned (p ! Suc k \<noteq> p ! q)"
        proof -
          have "i + 1 = int (Suc k)" by (simp add: k(2))
          then show ?thesis using True ql differ_at_run [of "Suc k" p q p] by (simp only: q(1))
        qed
        moreover have "nth_run table (j' + 1) = returned (table ! q)"
          using ql True len by (simp add: nth_run_def q(1))
        ultimately show thesis
          using True by (intro that [of "if p ! Suc k \<noteq> p ! q then int q else table ! q"])
            (auto simp: k(2) q(1))
      qed
      have "upd_run table (i + 1) x = returned (table[Suc k := x])"
        using True len by (simp add: upd_run_def k(2) nat_add_distrib)
      then have "?body st = returned (i + 1, j' + 1, table[Suc k := x])"
        by (simp add: eq j'(1) Let_def x(1) del: if_split)
      then show ?thesis
        using True l table_extend [OF k(4) x(2) True] by (auto simp: eq k(2) intro!: exI [of _ "Suc k"])
    qed
  qed
  then show ?thesis
    using assms(3) by (auto simp: utstring_BuildTable_def m Let_def upd_run_def elim!: returns_mono)
qed

section \<open>The search\<close>

text \<open>The pattern prefixes that end at position \<open>b\<close> of the text.\<close>

definition ending_at :: "'a list \<Rightarrow> 'a list \<Rightarrow> nat \<Rightarrow> nat set" where
  "ending_at h p b = {r. r < length p \<and> r \<le> b \<and> (\<forall>x < r. h ! (b - r + x) = p ! x)}"

lemma ending_at_candidates: "candidates p (ending_at h p b)"
  unfolding candidates_def
proof (intro ballI conjI allI impI)
  fix r assume r: "r \<in> ending_at h p b"
  then show "r < length p" by (simp add: ending_at_def)
  fix q assume q: "q < r"
  have "h ! (b - q + x) = p ! (r - q + x)" if "x < q" for x
  proof -
    have "\<forall>x < r. h ! (b - r + x) = p ! x" "r - q + x < r" using r q that by (auto simp: ending_at_def)
    then have "h ! (b - r + (r - q + x)) = p ! (r - q + x)" by blast
    moreover have "b - r + (r - q + x) = b - q + x" using r q by (simp add: ending_at_def)
    ultimately show ?thesis by simp
  qed
  then show "q \<in> ending_at h p b \<longleftrightarrow> border p r q"
    using r q by (auto simp: ending_at_def border_def)
qed

lemma ending_at_Suc:
  "Suc q < length p \<Longrightarrow> Suc q \<in> ending_at h p (Suc b) \<longleftrightarrow> q \<in> ending_at h p b \<and> p ! q = h ! b"
  by (auto simp: ending_at_def less_Suc_eq)

lemma occurs_ending:
  assumes "p \<noteq> []"
  shows "occurs h p s \<and> s + length p = Suc b \<longleftrightarrow>
         b < length h \<and> s + length p = Suc b \<and> length p - 1 \<in> ending_at h p b \<and> p ! (length p - 1) = h ! b"
proof -
  obtain m where m: "length p = Suc m" using assms by (cases p) auto
  then show ?thesis by (auto simp: occurs_def ending_at_def less_Suc_eq) 
qed

text \<open>
  The state between two rounds: \<open>a\<close> characters of the pattern match before \<open>b\<close>, no more do, and
  no occurrence ends there yet.
\<close>

definition search_inv :: "'a list \<Rightarrow> 'a list \<Rightarrow> nat \<Rightarrow> nat \<Rightarrow> bool" where
  "search_inv h p a b \<longleftrightarrow>
     b \<le> length h \<and> a \<in> ending_at h p b \<and> (\<forall>q \<in> ending_at h p b. q \<le> a) \<and>
     (\<forall>s. s + length p \<le> b \<longrightarrow> \<not> occurs h p s)"

definition first_occurrence :: "'a list \<Rightarrow> 'a list \<Rightarrow> int \<Rightarrow> bool" where
  "first_occurrence h p pos \<longleftrightarrow>
     (if \<exists>s. occurs h p s then \<exists>s. pos = int s \<and> occurs h p s \<and> (\<forall>s' < s. \<not> occurs h p s')
      else pos = - 1)"

lemma search_inv_init: "p \<noteq> [] \<Longrightarrow> search_inv h p 0 0"
  by (auto simp: search_inv_def ending_at_def occurs_def)

lemma search_step:
  assumes "search_inv h p a b" "b < length h" "p \<noteq> []"
    and "best p (ending_at h p b) (h ! b) j" "j = - 1 \<or> (\<exists>q \<in> ending_at h p b. j = int q \<and> p ! q = h ! b)"
  shows "j + 1 \<ge> int (length p) \<Longrightarrow> \<exists>s. int (Suc b) - (j + 1) = int s \<and> first_occurrence h p (int s)"
    and "\<not> j + 1 \<ge> int (length p) \<Longrightarrow> \<exists>a'. j + 1 = int a' \<and> search_inv h p a' (Suc b)"
proof -
  let ?m = "length p"
  have old: "\<forall>s. s + ?m \<le> b \<longrightarrow> \<not> occurs h p s" using assms(1) by (simp add: search_inv_def)
  have lt: "j + 1 \<le> int ?m" using assms(3,5) by (auto simp: ending_at_def Suc_le_eq)
  show "\<exists>s. int (Suc b) - (j + 1) = int s \<and> first_occurrence h p (int s)" if "j + 1 \<ge> int ?m"
  proof -
    have j: "j = int (?m - 1)" using lt that assms(3) by (cases p) auto
    then have q: "?m - 1 \<in> ending_at h p b" "p ! (?m - 1) = h ! b" using assms(3,5) by auto
    have "?m - 1 \<le> b" using q(1) by (simp add: ending_at_def)
    then have mb: "?m \<le> Suc b" by linarith
    then have occ: "occurs h p (Suc b - ?m)"
      using occurs_ending [OF assms(3), of h "Suc b - ?m" b] q assms(2) by simp
    have "\<not> occurs h p s'" if "s' < Suc b - ?m" for s' using old that by simp
    then have "first_occurrence h p (int (Suc b - ?m))" using occ by (auto simp: first_occurrence_def)
    then show ?thesis using mb j assms(3) by (intro exI [of _ "Suc b - ?m"]) (cases p; simp)
  qed
  show "\<exists>a'. j + 1 = int a' \<and> search_inv h p a' (Suc b)" if ge: "\<not> j + 1 \<ge> int ?m"
  proof -
    obtain a' where a': "j + 1 = int a'" using assms(5) by (metis add.commute add.right_inverse int_ops(1) of_nat_Suc)
    have "a' \<in> ending_at h p (Suc b)"
    proof (cases a')
      case 0
      then show ?thesis using assms(3) by (simp add: ending_at_def)
    next
      case (Suc q)
      then show ?thesis using a' ge assms(5) by (subst Suc, subst ending_at_Suc) auto
    qed
    moreover have "q \<le> a'" if "q \<in> ending_at h p (Suc b)" for q
    proof (cases q)
      case (Suc r)
      then have "r \<in> ending_at h p b" "p ! r = h ! b"
        using that ending_at_Suc [of r p h b] by (auto simp: ending_at_def)
      then have "int r \<le> j" using assms(4) by (simp add: best_def)
      then show ?thesis using Suc a' by simp
    qed simp
    moreover have "\<not> occurs h p s" if "s + ?m \<le> Suc b" for s
    proof
      assume o: "occurs h p s"
      then have "s + ?m = Suc b" using old that by (meson le_SucE)
      then have "?m - 1 \<in> ending_at h p b" "p ! (?m - 1) = h ! b"
        using occurs_ending [OF assms(3), of h s b] o by blast+
      then have "int (?m - 1) \<le> j" using assms(4) by (simp add: best_def)
      then show False using ge assms(3) by (cases p) auto
    qed
    ultimately show ?thesis using a' assms(2) by (auto simp: search_inv_def)
  qed
qed

lemma search_exit:
  assumes "search_inv h p a b" "\<not> (b < length h \<and> length p \<le> length h - b + a)" "p \<noteq> []"
  shows "first_occurrence h p (- 1)"
proof -
  have "\<not> occurs h p s" for s
  proof
    assume o: "occurs h p s"
    then have e: "s + length p \<le> length h" by (simp add: occurs_def)
    have new: "b < s + length p" using assms(1) o by (meson not_le search_inv_def)
    then have b: "b < length h" using e by simp
    show False
    proof (cases "s \<le> b")
      case True
      then have "b - s \<in> ending_at h p b" using o new by (auto simp: ending_at_def occurs_def)
      then have "b - s \<le> a" using assms(1) by (simp add: search_inv_def)
      then show False using assms(2) b e True by simp
    next
      case False
      then show False using assms(2) b e by simp
    qed
  qed
  then show ?thesis by (auto simp: first_occurrence_def)
qed

lemma search_loop_returns:
  assumes "p \<noteq> []" "table_ok_upto p (length p) table" "h = take (length h) str"
    and cond: "\<And>a b. a < length p \<Longrightarrow> a \<le> b \<Longrightarrow> b \<le> length h \<Longrightarrow>
                 goes (int a) (int b) \<longleftrightarrow> b < length h \<and> length p \<le> length h - b + a"
    and fin: "\<And>a. a \<le> length p \<Longrightarrow> whole (int a) \<longleftrightarrow> length p \<le> a"
  shows "returns (while_run (\<lambda>(i, j, pos, left). returned (\<not> left \<and> goes i j))
            (\<lambda>(i, j, pos, left).
               then_run (while_run (\<lambda>i. if i > - 1 then differ_at p i str j else returned False)
                                   (\<lambda>i. nth_run table i) i) (\<lambda>i.
               let i = i + 1; j = j + 1 in
               returned (if whole i then (i, j, j - i, True) else (i, j, pos, False))))
            (0, 0, - 1, False))
          (\<lambda>(i, j, pos, left). first_occurrence h p pos \<and>
             (if left then 0 \<le> pos \<and> j = pos + int (length p) else pos = - 1))"
proof (rule returns_while_measure [of "\<lambda>(i, j, pos, left).
      if left then first_occurrence h p pos \<and> 0 \<le> pos \<and> j = pos + int (length p)
      else pos = - 1 \<and> (\<exists>a b. i = int a \<and> j = int b \<and> search_inv h p a b)" _ _ _
      "\<lambda>(i, j, pos, left). if left then 0 else Suc (length h - nat j)"], goal_cases)
  case 1
  show ?case using search_inv_init [OF assms(1)] by (auto intro!: exI [of _ 0])
next
  case (2 st)
  obtain i j pos left where st: "st = (i, j, pos, left)" by (cases st) auto
  show ?case
  proof (cases left)
    case True
    then show ?thesis using 2 st by simp
  next
    case False
    then obtain a b where inv: "pos = - 1" "i = int a" "j = int b" "search_inv h p a b" using 2 st by auto
    then have ab: "a < length p" "a \<le> b" "b \<le> length h" by (auto simp: search_inv_def ending_at_def)
    show ?thesis
    proof (cases "goes i j")
      case stop: False
      then have "\<not> (b < length h \<and> length p \<le> length h - b + a)" using cond [OF ab] inv(2,3) by simp
      then have "first_occurrence h p pos" using search_exit [OF inv(4) _ assms(1)] inv(1) by blast
      then show ?thesis using stop False inv(1) by (simp add: st)
    next
      case True
      then have b: "b < length h" using cond [OF ab] inv(2,3) by simp
      let ?C = "ending_at h p b"
      let ?fall = "while_run (\<lambda>i. if i > - 1 then differ_at p i str j else returned False)
          (\<lambda>i. nth_run table i) i"
      have "returns ?fall (\<lambda>j. best p ?C (h ! b) j \<and> (j = - 1 \<or> (\<exists>q \<in> ?C. j = int q \<and> p ! q = h ! b)))"
      proof (rule back_loop [OF ending_at_candidates])
        show "\<forall>r \<in> ?C. entry_ok p r (table ! r)"
          using assms(2) by (auto simp: table_ok_upto_def ending_at_def)
        show "length table = length p + 1" using assms(2) by (simp add: table_ok_upto_def)
        show "\<forall>r < length p. differ_at p (int r) str j = returned (p ! r \<noteq> h ! b)"
        proof -
          have "length h \<le> length str" by (metis assms(3) length_take min.cobounded1)
          moreover have "str ! b = h ! b" by (metis assms(3) b nth_take)
          ultimately show ?thesis using b by (simp add: inv(3) differ_at_run)
        qed
        show "best p ?C (h ! b) i" using inv(4) by (auto simp: best_def search_inv_def inv(2))
        show "i = - 1 \<or> (\<exists>q \<in> ?C. i = int q)" using inv(4) by (auto simp: search_inv_def inv(2))
      qed
      then obtain k where k: "?fall = returned k" "best p ?C (h ! b) k"
          "k = - 1 \<or> (\<exists>q \<in> ?C. k = int q \<and> p ! q = h ! b)" by (rule returnsE) blast
      have ka: "\<exists>a'. k + 1 = int a' \<and> a' \<le> length p"
        using k(3)
      proof
        assume "k = - 1" then show ?thesis by (intro exI [of _ 0]) simp
      next
        assume "\<exists>q \<in> ?C. k = int q \<and> p ! q = h ! b"
        then obtain q where "q < length p" "k = int q" by (auto simp: ending_at_def)
        then show ?thesis by (intro exI [of _ "Suc q"]) simp
      qed
      then have w: "whole (k + 1) \<longleftrightarrow> k + 1 \<ge> int (length p)" using fin by auto
      note step = search_step [OF inv(4) b assms(1) k(2,3)]
      show ?thesis
      proof (cases "k + 1 \<ge> int (length p)")
        case found: True
        then obtain s where "j + 1 - (k + 1) = int s" "first_occurrence h p (int s)"
          using step(1) by (auto simp: inv(3))
        moreover have "k + 1 = int (length p)" using found ka by auto
        ultimately show ?thesis using True False k(1) w found by (simp add: st Let_def)
      next
        case going: False
        then obtain a' where "k + 1 = int a'" "search_inv h p a' (Suc b)" using step(2) by blast
        then show ?thesis
          using True False k(1) w going inv(1,3) b
          by (auto simp: st Let_def intro!: exI [of _ a'] exI [of _ "Suc b"])
      qed
    qed
  qed
qed

lemma unat_of_nat_le: "n \<le> unat (w :: size_t) \<Longrightarrow> unat (word_of_nat n :: size_t) = n"
proof -
  assume "n \<le> unat w"
  also have "unat w < 2 ^ LENGTH(64)" by (rule unsigned_less)
  finally show ?thesis by (simp add: unat_of_nat)
qed

lemma find_table_returns:
  assumes "length p = unat needle_len" "0 < unat needle_len" "unat needle_len < 2 ^ 31"
    and "h = take (unat hay_len) str" "unat hay_len \<le> length str" "unat hay_len < 2 ^ 31"
    and "table_ok_upto p (length p) table"
  shows "returns (utstring_find_table str hay_len p needle_len table) (first_occurrence h p)"
proof -
  have len: "length h = unat hay_len" using assms(4,5) by simp
  have ints: "int_of_size hay_len = int (length h)" "int_of_size needle_len = int (length p)"
    using assms(1,3,6) len by (simp_all add: int_of_size_small)
  let ?goes = "\<lambda>i j. j < int_of_size hay_len \<and> (hay_len - word_of_int j) + word_of_int i \<ge> needle_len"
  have "?goes (int a) (int b) \<longleftrightarrow> b < length h \<and> length p \<le> length h - b + a"
    if "a < length p" "a \<le> b" "b \<le> length h" for a b
  proof -
    have ua: "unat (word_of_nat a :: size_t) = a" "unat (word_of_nat b :: size_t) = b"
      using that assms(1) len unat_of_nat_le [of a needle_len] unat_of_nat_le [of b hay_len] by simp_all
    then have "unat (hay_len - word_of_nat b) = length h - b" using that len by (simp add: unat_sub_if')
    then have "unat (hay_len - word_of_nat b + word_of_nat a) = length h - b + a"
      using that ua(1) len assms(1,3,6) by (simp add: unat_word_ariths)
    then show ?thesis using assms(1) by (simp add: ints word_le_nat_alt)
  qed
  moreover have "h = take (length h) str" using assms(4) len by simp
  moreover have "p \<noteq> []" using assms(1,2) by auto
  ultimately show ?thesis
    using search_loop_returns [of p table h str ?goes "\<lambda>i. i \<ge> int_of_size needle_len"] assms(7)
    by (auto simp: utstring_find_table_def ints elim!: returns_mono)
qed

end
