(* ===== verification/Kmp_Reverse.thy ===== *)
theory Kmp_Reverse
  imports Kmp
begin

text \<open>
  The search from the right is the search from the left on the reversed strings: the positions
  \<open>k\<close> and \<open>m - 1 - k\<close> correspond, and so do the tables read from their two ends.  Each loop of
  the code for the right mirrors the loop for the left, so its result is the mirror image.
\<close>

section \<open>Mirrored reads and writes\<close>

definition mirror :: "int \<Rightarrow> int list \<Rightarrow> int list" where
  "mirror m table = map (\<lambda>t. m - 1 - t) (rev table)"

lemma nth_run_rev: "nth_run (rev xs) k = nth_run xs (int (length xs) - 1 - k)"
proof (cases "0 \<le> k \<and> k < int (length xs)")
  case True
  then have "nat (int (length xs) - 1 - k) = length xs - Suc (nat k)" by linarith
  then show ?thesis using True by (auto simp: nth_run_def rev_nth nat_less_iff)
qed (auto simp: nth_run_def nat_less_iff)

lemma differ_at_rev:
  "differ_at (rev xs) i (rev ys) j = differ_at xs (int (length xs) - 1 - i) ys (int (length ys) - 1 - j)"
  by (simp add: differ_at_def nth_run_rev)

lemma nth_run_map: "nth_run (map f xs) k = then_run (nth_run xs k) (\<lambda>x. returned (f x))"
  by (simp add: nth_run_def)

lemma nth_run_mirror:
  assumes "int (length table) = m + 1" "nth_run table k = returned x"
  shows "nth_run (mirror m table) (m - k) = returned (m - 1 - x)"
  using assms by (simp add: mirror_def nth_run_map nth_run_rev)

lemma upd_run_mirror:
  assumes "int (length table) = m + 1" "upd_run table k x = returned table'"
  shows "int (length table') = m + 1"
    "upd_run (mirror m table) (m - k) (m - 1 - x) = returned (mirror m table')"
proof -
  have k: "0 \<le> k" "k \<le> m" "table' = table[nat k := x]"
    using assms by (auto simp: upd_run_def nat_less_iff split: if_splits)
  then show "int (length table') = m + 1" using assms(1) by simp
  have "nat (m - k) = length table - Suc (nat k)" "nat k < length table" using k assms(1) by linarith+
  then show "upd_run (mirror m table) (m - k) (m - 1 - x) = returned (mirror m table')"
    using k assms(1) by (auto simp: upd_run_def mirror_def rev_update map_update)
qed

text \<open>Going back through the mirrored table.\<close>

lemma back_loop_mirror:
  assumes "while_run (\<lambda>j. if j > - 1 then ne j else returned False) (\<lambda>j. nth_run table j) j = returned q"
    and "int (length table) = m + 1" "\<And>j v. ne j = returned v \<Longrightarrow> ne' (m - 1 - j) = returned v"
  shows "while_run (\<lambda>j. if j < m then ne' j else returned False)
           (\<lambda>j. nth_run (mirror m table) (j + 1)) (m - 1 - j) = returned (m - 1 - q)"
proof -
  have "True \<and> while_run (\<lambda>j. if j < m then ne' j else returned False)
      (\<lambda>j. nth_run (mirror m table) (j + 1)) ((\<lambda>j. m - 1 - j) j) = returned ((\<lambda>j. m - 1 - j) q)"
  proof (rule while_run_simulates [OF assms(1), of "\<lambda>_. True"], goal_cases)
    case (2 s v)
    then show ?case using assms(3) [of s v] by (auto split: if_splits)
  next
    case (3 s s')
    then show ?case using nth_run_mirror [OF assms(2) 3(3)] by (simp add: algebra_simps)
  qed simp
  then show ?thesis by simp
qed

section \<open>The table from the right\<close>

lemma BuildTableR_mirrors:
  assumes "length p = unat n" "unat n < 2 ^ 63" "length table = length p + 1"
    and "utstring_BuildTable (rev p) n table = returned table'"
  shows "utstring_BuildTableR p n (mirror (int (length p)) table) = returned (mirror (int (length p)) table')"
proof -
  let ?m = "int (length p)" and ?P = "rev p"
  have m: "sint n = ?m" using assms(1,2) by (simp add: sint_small)
  let ?c = "\<lambda>(i, j, table). returned (i < ?m)"
  let ?b = "\<lambda>(i, j, table). then_run (while_run (\<lambda>j. if j > - 1 then differ_at ?P i ?P j else returned False)
                     (\<lambda>j. nth_run table j) j) (\<lambda>j. let i = i + 1; j = j + 1 in
      then_run (if i < ?m then then_run (differ_at ?P i ?P j) (\<lambda>ne.
                  if \<not> ne then nth_run table j else returned j) else returned j) (\<lambda>x.
      then_run (upd_run table i x) (\<lambda>table. returned (i, j, table))))"
  let ?c' = "\<lambda>(i, j, table). returned (i \<ge> 0)"
  let ?b' = "\<lambda>(i, j, table). then_run (while_run (\<lambda>j. if j < ?m then differ_at p i p j else returned False)
                     (\<lambda>j. nth_run table (j + 1)) j) (\<lambda>j. let i = i - 1; j = j - 1 in
      then_run (if i \<ge> 0 then then_run (differ_at p i p j) (\<lambda>ne.
                  if \<not> ne then nth_run table (j + 1) else returned j) else returned j) (\<lambda>x.
      then_run (upd_run table (i + 1) x) (\<lambda>table. returned (i, j, table))))"
  let ?g = "\<lambda>(i, j, table). (?m - 1 - i, ?m - 1 - j, mirror ?m table)"
  let ?inv = "\<lambda>(i, j, table). int (length table) = ?m + 1"
  obtain t0 where t0: "upd_run table 0 (- 1) = returned t0"
    using assms(3) by (simp add: upd_run_def)
  note init = upd_run_mirror [OF _ t0, of ?m]
  have "then_run (while_run ?c ?b (0, - 1, t0)) (\<lambda>(i, j, table). returned table) = returned table'"
    using assms(4) t0 by (simp add: utstring_BuildTable_def m Let_def)
  then obtain i j where run: "while_run ?c ?b (0, - 1, t0) = returned (i, j, table')"
    by (auto simp: then_run_eq_returned Let_def)
  have "?inv (i, j, table') \<and> while_run ?c' ?b' (?g (0, - 1, t0)) = returned (?g (i, j, table'))"
  proof (rule while_run_simulates [OF run, of ?inv], goal_cases)
    case 1
    then show ?case using init(1) assms(3) by simp
  next
    case (2 s v)
    then show ?case by (auto split: prod.splits)
  next
    case (3 s s')
    obtain i j table where s: "s = (i, j, table)" by (cases s) auto
    have len: "int (length table) = ?m + 1" using 3(1) s by simp
    obtain q x table2 where f: "while_run (\<lambda>j. if j > - 1 then differ_at ?P i ?P j else returned False)
          (\<lambda>j. nth_run table j) j = returned q"
        "(if i + 1 < ?m then then_run (differ_at ?P (i + 1) ?P (q + 1)) (\<lambda>ne.
            if \<not> ne then nth_run table (q + 1) else returned (q + 1)) else returned (q + 1)) = returned x"
        "upd_run table (i + 1) x = returned table2" "s' = (i + 1, q + 1, table2)"
      using 3(3) by (auto simp: s then_run_eq_returned Let_def)
    have goback: "while_run (\<lambda>j. if j < ?m then differ_at p (?m - 1 - i) p j else returned False)
        (\<lambda>j. nth_run (mirror ?m table) (j + 1)) (?m - 1 - j) = returned (?m - 1 - q)"
      by (rule back_loop_mirror [OF f(1) len]) (simp add: differ_at_rev)
    have entry: "(if ?m - 1 - i - 1 \<ge> 0 then then_run (differ_at p (?m - 1 - i - 1) p (?m - 1 - q - 1)) (\<lambda>ne.
          if \<not> ne then nth_run (mirror ?m table) (?m - 1 - q - 1 + 1) else returned (?m - 1 - q - 1))
        else returned (?m - 1 - q - 1)) = returned (?m - 1 - x)"
    proof (cases "i + 1 < ?m")
      case False
      then show ?thesis using f(2) by auto
    next
      case True
      have diff: "differ_at ?P (i + 1) ?P (q + 1) = differ_at p (?m - 1 - i - 1) p (?m - 1 - q - 1)"
        by (simp add: differ_at_rev algebra_simps)
      from f(2) True obtain ne where ne: "differ_at ?P (i + 1) ?P (q + 1) = returned ne"
          "(if \<not> ne then nth_run table (q + 1) else returned (q + 1)) = returned x"
        by (auto simp: then_run_eq_returned)
      have "nth_run (mirror ?m table) (?m - 1 - q - 1 + 1) = returned (?m - 1 - x)" if "\<not> ne"
        using nth_run_mirror [OF len, of "q + 1" x] ne(2) that by (simp add: algebra_simps)
      then show ?thesis using True ne diff by auto
    qed
    have upd: "upd_run (mirror ?m table) (?m - 1 - i - 1 + 1) (?m - 1 - x) = returned (mirror ?m table2)"
      using upd_run_mirror(2) [OF len f(3)] by (simp add: algebra_simps)
    have "?b' (?g s) = returned (?m - 1 - i - 1, ?m - 1 - q - 1, mirror ?m table2)"
      by (simp only: s prod.case Let_def goback entry upd then_run_simps)
    then show ?case
      using upd_run_mirror(1) [OF len f(3)] by (simp add: f(4) algebra_simps)
  qed
  then show ?thesis
    using init(2) assms(3) by (simp add: utstring_BuildTableR_def m Let_def)
qed

section \<open>The search from the right\<close>

definition last_occurrence :: "'a list \<Rightarrow> 'a list \<Rightarrow> int \<Rightarrow> bool" where
  "last_occurrence h p pos \<longleftrightarrow>
     (if \<exists>s. occurs h p s then \<exists>s. pos = int s \<and> occurs h p s \<and> (\<forall>s' > s. \<not> occurs h p s')
      else pos = - 1)"

lemma occurs_rev:
  assumes "s + length p \<le> length h"
  shows "occurs (rev h) (rev p) (length h - length p - s) \<longleftrightarrow> occurs h p s"
proof -
  have eq: "rev h ! (length h - length p - s + x) = h ! (s + (length p - 1 - x))"
      "rev p ! x = p ! (length p - 1 - x)" if "x < length p" for x
    using assms that by (simp_all add: rev_nth add.commute)
  have "(\<forall>x < length p. rev h ! (length h - length p - s + x) = rev p ! x) \<longleftrightarrow>
      (\<forall>x < length p. h ! (s + (length p - 1 - x)) = p ! (length p - 1 - x))"
    by (intro all_cong) (simp only: eq)
  also have "\<dots> \<longleftrightarrow>
      (\<forall>x < length p. h ! (s + x) = p ! x)"
  proof (intro iffI allI impI)
    fix x assume a: "\<forall>x < length p. h ! (s + (length p - 1 - x)) = p ! (length p - 1 - x)" "x < length p"
    then show "h ! (s + x) = p ! x" using a(1) [rule_format, of "length p - 1 - x"] by simp
  next
    fix x assume a: "\<forall>x < length p. h ! (s + x) = p ! x" "x < length p"
    show "h ! (s + (length p - 1 - x)) = p ! (length p - 1 - x)"
      by (rule a(1) [rule_format]) (use a(2) in simp)
  qed
  finally show ?thesis using assms by (simp add: occurs_def)
qed

lemma occurs_rev_iff:
  "occurs (rev h) (rev p) t \<longleftrightarrow> t + length p \<le> length h \<and> occurs h p (length h - length p - t)"
proof (cases "t + length p \<le> length h")
  case True
  then show ?thesis using occurs_rev [of "length h - length p - t" p h] by simp
qed (simp add: occurs_def)

lemma first_occurrence_rev:
  assumes "first_occurrence (rev h) (rev p) pos"
  shows "last_occurrence h p (if pos = - 1 then - 1 else int (length h) - int (length p) - pos)"
proof (cases "\<exists>s. occurs h p s")
  case False
  then have "pos = - 1" using assms by (auto simp: first_occurrence_def occurs_rev_iff)
  then show ?thesis using False by (simp add: last_occurrence_def)
next
  case True
  then have "\<exists>t. occurs (rev h) (rev p) t" using occurs_rev by (metis occurs_def)
  then obtain t where t: "pos = int t" "occurs (rev h) (rev p) t" "\<forall>t' < t. \<not> occurs (rev h) (rev p) t'"
    using assms by (auto simp: first_occurrence_def)
  then have tl: "t + length p \<le> length h" and o: "occurs h p (length h - length p - t)"
    by (simp_all add: occurs_rev_iff)
  have "\<not> occurs h p s'" if "s' > length h - length p - t" for s'
  proof
    assume o': "occurs h p s'"
    then have "s' + length p \<le> length h" by (simp add: occurs_def)
    then show False using occurs_rev [of s' p h] o' t(3) that tl by simp
  qed
  moreover have "int (length h) - int (length p) - pos = int (length h - length p - t)"
    using tl t(1) by linarith
  ultimately have "\<exists>s. int (length h) - int (length p) - pos = int s \<and> occurs h p s \<and>
      (\<forall>s' > s. \<not> occurs h p s')" using o by blast
  moreover have "pos \<noteq> - 1" using t(1) by simp
  ultimately show ?thesis using True by (simp only: last_occurrence_def if_True if_False simp_thms)
qed

lemma differ_at_prefix:
  assumes "differ_at p i (take n str) j = returned v"
  shows "differ_at p i str j = returned v"
  using assms by (auto simp: differ_at_def then_run_eq_returned nth_run_def split: if_splits)

lemma findR_table_returns:
  assumes "length p = unat needle_len" "0 < unat needle_len" "unat needle_len < 2 ^ 31"
    and "h = take (unat hay_len) str" "unat hay_len \<le> length str" "unat hay_len < 2 ^ 63" "h \<noteq> []"
    and "table_ok_upto (rev p) (length p) table"
  shows "returns (utstring_findR_table str hay_len p needle_len (mirror (int (length p)) table))
           (last_occurrence h p)"
proof -
  let ?m = "int (length p)" and ?H = "int (length h)" and ?P = "rev p" and ?h = "rev h"
  have len: "length h = unat hay_len" using assms(4,5) by simp
  have ilen: "int_of_size needle_len = ?m" using assms(1,3) by (simp add: int_of_size_small)
  have tlen: "int (length table) = ?m + 1" using assms(8) by (simp add: table_ok_upto_def)
  have start: "sint (needle_len - 1) = ?m - 1" "sint (hay_len - 1) = ?H - 1"
  proof -
    have "sint (n - 1) = int (unat n) - 1" if "0 < unat n" "unat n < 2 ^ 63" for n :: size_t
    proof -
      have "n \<noteq> 0" using that(1) by auto
      then have "unat (n - 1) = unat n - 1" by (rule unat_minus_one)
      then show ?thesis using that sint_small [of "n - 1"] by (simp add: of_nat_diff)
    qed
    moreover have "0 < unat hay_len" using assms(7) len by (metis length_greater_0_conv)
    ultimately show "sint (needle_len - 1) = ?m - 1" "sint (hay_len - 1) = ?H - 1"
      using assms(1-3,6) len by simp_all
  qed
  let ?goes = "\<lambda>i j. j < ?H \<and> ?H - j + i \<ge> ?m"
  let ?c = "\<lambda>(i, j, pos, left). returned (\<not> left \<and> ?goes i j)"
  let ?b = "\<lambda>(i, j, pos, left).
      then_run (while_run (\<lambda>i. if i > - 1 then differ_at ?P i ?h j else returned False)
                          (\<lambda>i. nth_run table i) i) (\<lambda>i.
      let i = i + 1; j = j + 1 in
      returned (if i \<ge> ?m then (i, j, j - i, True) else (i, j, pos, False)))"
  let ?c' = "\<lambda>(i, j, pos, left). returned (\<not> left \<and> j \<ge> 0 \<and> j \<ge> i)"
  let ?b' = "\<lambda>(i, j, pos, left).
      then_run (while_run (\<lambda>i. if i < ?m then differ_at p i str j else returned False)
                          (\<lambda>i. nth_run (mirror ?m table) (i + 1)) i) (\<lambda>i.
      let i = i - 1; j = j - 1 in
      returned (if i < 0 then (i, j, j + 1, True) else (i, j, pos, False)))"
  let ?g = "\<lambda>(i, j, pos :: int, left). (?m - 1 - i, ?H - 1 - j, if left then ?H - j else - 1 :: int, left :: bool)"
  have "returns (while_run ?c ?b (0, 0, - 1, False)) (\<lambda>(i, j, pos, left). first_occurrence ?h ?P pos \<and>
      (if left then 0 \<le> pos \<and> j = pos + int (length ?P) else pos = - 1))"
  proof (rule search_loop_returns)
    show "?P \<noteq> []" using assms(1,2) by auto
    show "table_ok_upto ?P (length ?P) table" using assms(8) by simp
    show "?goes (int a) (int b) \<longleftrightarrow> b < length ?h \<and> length ?P \<le> length ?h - b + a"
      if "a < length ?P" "a \<le> b" "b \<le> length ?h" for a b using that by auto
  qed simp_all
  then obtain i j pos left where run: "while_run ?c ?b (0, 0, - 1, False) = returned (i, j, pos, left)"
      and pos: "first_occurrence ?h ?P pos" "if left then 0 \<le> pos \<and> j = pos + ?m else pos = - 1"
    by (auto elim!: returnsE)
  have "True \<and> while_run ?c' ?b' (?g (0, 0, - 1, False)) = returned (?g (i, j, pos, left))"
  proof (rule while_run_simulates [OF run, where I = "\<lambda>_. True" and g = ?g], goal_cases)
    case (2 s v)
    then show ?case by (auto split: prod.splits)
  next
    case (3 s s')
    obtain i j pos left where s: "s = (i, j, pos, left)" by (cases s) auto
    obtain q where f: "while_run (\<lambda>i. if i > - 1 then differ_at ?P i ?h j else returned False)
          (\<lambda>i. nth_run table i) i = returned q"
        "s' = (if q + 1 \<ge> ?m then (q + 1, j + 1, j + 1 - (q + 1), True) else (q + 1, j + 1, pos, False))"
      using 3(3) by (auto simp: s then_run_eq_returned Let_def)
    have left: "\<not> left" using 3(2) by (simp add: s)
    have goback: "while_run (\<lambda>i. if i < ?m then differ_at p i str (?H - 1 - j) else returned False)
        (\<lambda>i. nth_run (mirror ?m table) (i + 1)) (?m - 1 - i) = returned (?m - 1 - q)"
    proof (rule back_loop_mirror [OF f(1) tlen])
      fix k v assume "differ_at ?P k ?h j = returned v"
      then have "differ_at p (?m - 1 - k) h (?H - 1 - j) = returned v" by (simp add: differ_at_rev)
      then show "differ_at p (?m - 1 - k) str (?H - 1 - j) = returned v"
        using differ_at_prefix assms(4) by blast
    qed
    have "?b' (?g s) = returned (?g s')"
      by (simp only: s prod.case Let_def goback then_run_simps) (auto simp: f(2) left)
    then show ?case by simp
  qed simp
  then have "utstring_findR_table str hay_len p needle_len (mirror ?m table) =
      returned (if left then ?H - j else - 1)"
    by (simp add: utstring_findR_table_def ilen start)
  moreover have "last_occurrence h p (if left then ?H - j else - 1)"
  proof (cases left)
    case True
    then have "?H - ?m - pos = ?H - j" "pos \<noteq> - 1" using pos(2) by simp_all
    then show ?thesis using first_occurrence_rev [OF pos(1)] True by metis
  next
    case False
    then show ?thesis using first_occurrence_rev [OF pos(1)] pos(2) by simp
  qed
  ultimately show ?thesis by simp
qed

end
