(* ===== verification/Ut_String_Laws.thy ===== *)
theory Ut_String_Laws
  imports Kmp_Reverse Ut_Array_Spec
begin

text \<open>
  The dynamic string of \<open>utstring.h\<close> against byte strings: every way of building a string appends
  to (or empties) the bytes it holds and keeps them terminated, and the two searches return the
  first and the last position of the pattern in them.
\<close>

section \<open>Well-formed strings\<close>

definition str_block :: "ut_string \<Rightarrow> bool" where
  "str_block s \<longleftrightarrow>
     length (block_bytes (us_d s)) = unat (us_n s) \<and> unat (us_i s) < unat (us_n s) \<and> us_d s \<noteq> None"

definition str_bytes :: "ut_string \<Rightarrow> byte list" where
  "str_bytes s = take (unat (us_i s)) (block_bytes (us_d s))"

definition terminated :: "ut_string \<Rightarrow> bool" where
  "terminated s \<longleftrightarrow> block_bytes (us_d s) ! unat (us_i s) = 0"

definition str_holds :: "byte list \<Rightarrow> ut_string \<Rightarrow> bool" where
  "str_holds t s \<longleftrightarrow> str_block s \<and> str_bytes s = t \<and> terminated s"

lemma str_bytes_length: "str_block s \<Longrightarrow> length (str_bytes s) = unat (us_i s)"
  by (simp add: str_block_def str_bytes_def)




section \<open>Building strings\<close>










section \<open>Programs over strings\<close>










section \<open>Searching\<close>

text \<open>The first position at or after \<open>v\<close>, the last one up to an end, or \<open>- 1\<close>.\<close>

definition first_from :: "byte list \<Rightarrow> nat \<Rightarrow> byte list \<Rightarrow> int \<Rightarrow> bool" where
  "first_from t v needle pos \<longleftrightarrow>
     (if \<exists>q \<ge> v. occurs t needle q
      then \<exists>q \<ge> v. pos = int q \<and> occurs t needle q \<and> (\<forall>r. v \<le> r \<and> r < q \<longrightarrow> \<not> occurs t needle r)
      else pos = - 1)"

lemma occurs_drop: "v \<le> length t \<Longrightarrow> occurs (drop v t) p q \<longleftrightarrow> occurs t p (v + q)"
  by (auto simp: occurs_def add.assoc)

lemma first_occurrence_drop:
  assumes "first_occurrence (drop v t) p pos" "v \<le> length t"
  shows "first_from t v p (if pos \<ge> 0 then pos + int v else pos)"
proof (cases "\<exists>q. occurs (drop v t) p q")
  case True
  then obtain q where q: "pos = int q" "occurs t p (v + q)" "\<forall>r < q. \<not> occurs t p (v + r)"
    using assms by (auto simp: first_occurrence_def occurs_drop)
  have "\<not> occurs t p r" if "v \<le> r" "r < v + q" for r
    using q(3) that by (metis le_add_diff_inverse less_diff_conv2 add.commute)
  then show ?thesis using q by (auto simp: first_from_def intro!: exI [of _ "v + q"])
next
  case False
  have "\<not> occurs t p q" if "v \<le> q" for q
    using False assms(2) that by (metis le_add_diff_inverse occurs_drop)
  then show ?thesis using False assms(1) by (auto simp: first_occurrence_def first_from_def)
qed

text \<open>The position at which a search starts; \<open>- 1\<close> is the last byte.\<close>

definition start_position :: "ut_string \<Rightarrow> int \<Rightarrow> int" where
  "start_position s start = (if start < 0 then int (unat (us_i s)) + start else start)"

lemma sint_plus_long:
  assumes "- (2 ^ 63) \<le> int (unat (w :: size_t)) + k" "int (unat w) + k < 2 ^ 63"
  shows "sint (w + word_of_int k) = int (unat w) + k"
proof -
  have "w + word_of_int k = word_of_int (int (unat w) + k)" by simp
  moreover have "sint (word_of_int x :: size_t) = signed_take_bit 63 x" for x
    by (simp add: sint_sbintrunc')
  ultimately have "sint (w + word_of_int k) = signed_take_bit 63 (int (unat w) + k)"
    by (simp only:)
  also have "\<dots> = int (unat w) + k"
    by (rule signed_take_bit_int_eq_self) (use assms in simp_all)
  finally show ?thesis .
qed

lemma start_runs:
  assumes "unat (us_i s) < 2 ^ 62" "- (2 ^ 62) \<le> start" "start < 2 ^ 62"
  shows "(if start < 0 then sint (us_i s + word_of_int start) else start) = start_position s start"
    "sint (us_i s - word_of_int (start_position s start)) = int (unat (us_i s)) - start_position s start"
proof -
  define n where "n = int (unat (us_i s))"
  have n: "0 \<le> n" "n < 2 ^ 62" using assms(1) by (simp_all add: n_def del: of_nat_unat)
  have small: "sint (us_i s + word_of_int k) = n + k" if "- (2 ^ 63) \<le> n + k" "n + k < 2 ^ 63" for k
    using that sint_plus_long [of "us_i s" k] by (simp add: n_def del: of_nat_unat)
  have p: "start_position s start = (if start < 0 then n + start else start)"
    by (simp add: start_position_def n_def)
  show "(if start < 0 then sint (us_i s + word_of_int start) else start) = start_position s start"
    using small [of start] assms(2,3) n by (auto simp: p)
  have "sint (us_i s + word_of_int (- start_position s start)) = n + - start_position s start"
    by (rule small) (use assms(2,3) n in \<open>auto simp: p\<close>)
  then show "sint (us_i s - word_of_int (start_position s start)) = int (unat (us_i s)) - start_position s start"
    by (simp add: n_def)
qed

lemma word_of_small_int:
  "unat (word_of_nat n :: size_t) = n" "sint (word_of_nat n :: size_t) = int n" if "n < 2 ^ 63"
proof -
  show n: "unat (word_of_nat n :: size_t) = n" using that by (simp add: unat_of_nat)
  show "sint (word_of_nat n :: size_t) = int n" using that sint_small [of "word_of_nat n"] by (simp only: n)
qed

lemma BuildTable_fresh:
  assumes "0 < length needle" "length needle < 2 ^ 31"
  obtains table where "utstring_BuildTable needle (word_of_nat (length needle))
      (fresh_table L (word_of_nat (length needle))) = returned table"
    "table_ok_upto needle (length needle) table"
proof -
  have "unat (word_of_nat (length needle) :: size_t) = length needle"
    using assms(2) by (simp add: word_of_small_int)
  then have "returns (utstring_BuildTable needle (word_of_nat (length needle))
      (fresh_table L (word_of_nat (length needle)))) (table_ok_upto needle (length needle))"
    using assms by (intro BuildTable_returns) (simp_all add: fresh_table_def)
  then show thesis using that by (auto elim: returnsE)
qed

lemma first_from_none: "length t < v + length needle \<Longrightarrow> first_from t v needle (- 1)"
  by (auto simp: first_from_def occurs_def)

lemma find_run:
  assumes "str_holds t s" "length t < 2 ^ 62" "0 < length needle" "length needle < 2 ^ 31" "allocates L"
    and "- int (length t) \<le> start" "start < 2 ^ 62"
  shows "utstring_find L s start needle =
      (if int (length t) - start_position s start \<ge> int (length needle)
       then then_run (utstring_BuildTable needle (word_of_nat (length needle))
                       (fresh_table L (word_of_nat (length needle)))) (\<lambda>table.
            then_run (utstring_find_table (drop (nat (start_position s start)) (block_bytes (us_d s)))
                       (word_of_int (int (length t) - start_position s start)) needle
                       (word_of_nat (length needle)) table) (\<lambda>pos.
            returned (if pos \<ge> 0 then pos + start_position s start else pos)))
       else returned (- 1))"
    and "0 \<le> start_position s start"
proof -
  let ?m = "word_of_nat (length needle) :: size_t" and ?v = "start_position s start"
  have i: "unat (us_i s) = length t" using assms(1) str_bytes_length by (auto simp: str_holds_def)
  have m: "unat ?m = length needle" "sint ?m = int (length needle)"
    using assms(4) word_of_small_int [of "length needle"] by simp_all
  show v: "0 \<le> ?v" using assms(6) by (simp only: start_position_def i) auto
  have r1: "(if start < 0 then sint (us_i s + word_of_int start) else start) = ?v"
    by (rule start_runs(1)) (use assms(2,6,7) i in simp_all)
  have r2: "sint (us_i s - word_of_int ?v) = int (length t) - ?v"
    unfolding i [symmetric] by (rule start_runs(2)) (use assms(2,6,7) i in simp_all)
  have "?m > 0" using m(1) assms(3) by (metis unat_gt_0 word_greater_zero_iff)
  moreover have "(?v < 0) = False" using v by simp
  moreover have "malloc_ok L (8 * (length needle + 1))" using assms(5) by (simp add: allocates_def)
  ultimately show "utstring_find L s start needle =
      (if int (length t) - ?v \<ge> int (length needle)
       then then_run (utstring_BuildTable needle ?m (fresh_table L ?m)) (\<lambda>table.
            then_run (utstring_find_table (drop (nat ?v) (block_bytes (us_d s)))
                       (word_of_int (int (length t) - ?v)) needle ?m table) (\<lambda>pos.
            returned (if pos \<ge> 0 then pos + ?v else pos)))
       else returned (- 1))"
    by (simp only: utstring_find_def Let_def r1 r2 m(2) simp_thms if_False)
qed

lemma find_str:
  assumes "str_holds t s" "length t < 2 ^ 31" "0 < length needle" "length needle < 2 ^ 31" "allocates L"
    and "- int (length t) \<le> start" "start < 2 ^ 62"
  shows "returns (utstring_find L s start needle) (first_from t (nat (start_position s start)) needle)"
proof -
  let ?m = "word_of_nat (length needle) :: size_t" and ?v = "start_position s start"
  have i: "unat (us_i s) = length t" using assms(1) str_bytes_length by (auto simp: str_holds_def)
  have m: "unat ?m = length needle" using assms(4) word_of_small_int [of "length needle"] by simp
  have "length t < 2 ^ 62" using assms(2) by simp
  note run = find_run(1) [OF assms(1) this assms(3-7)] and v = find_run(2) [OF assms(1) this assms(3-7)]
  show ?thesis
  proof (cases "int (length t) - ?v \<ge> int (length needle)")
    case False
    then have "length t < nat ?v + length needle" using v by linarith
    then show ?thesis using False run first_from_none by simp
  next
    case True
    then have vt: "nat ?v \<le> length t" using v by linarith
    let ?h = "drop (nat ?v) t"
    have hay: "word_of_int (int (length t) - ?v) = (word_of_nat (length ?h) :: size_t)"
      using vt v by (metis int_nat_eq length_drop of_nat_diff of_int_of_nat_eq)
    have uh: "unat (word_of_nat (length ?h) :: size_t) = length ?h"
      using assms(2) by (intro word_of_small_int) simp
    obtain table where table: "utstring_BuildTable needle ?m (fresh_table L ?m) = returned table"
        "table_ok_upto needle (length needle) table" using BuildTable_fresh [OF assms(3,4)] .
    have blk: "length t \<le> length (block_bytes (us_d s))" "t = take (length t) (block_bytes (us_d s))"
      using assms(1) i by (auto simp: str_holds_def str_block_def str_bytes_def)
    have "returns (utstring_find_table (drop (nat ?v) (block_bytes (us_d s))) (word_of_nat (length ?h)) needle ?m table)
        (first_occurrence ?h needle)"
    proof (rule find_table_returns)
      show "?h = take (unat (word_of_nat (length ?h) :: size_t)) (drop (nat ?v) (block_bytes (us_d s)))"
        unfolding uh using blk by (metis drop_take length_drop)
      show "unat (word_of_nat (length ?h) :: size_t) \<le> length (drop (nat ?v) (block_bytes (us_d s)))"
        unfolding uh using blk(1) by simp
      show "unat (word_of_nat (length ?h) :: size_t) < 2 ^ 31" unfolding uh using assms(2) by simp
    qed (use m assms(3,4) table(2) in simp_all)
    then obtain pos where pos: "utstring_find_table (drop (nat ?v) (block_bytes (us_d s)))
        (word_of_nat (length ?h)) needle ?m table = returned pos" "first_occurrence ?h needle pos"
      by (rule returnsE)
    have "utstring_find L s start needle = returned (if pos \<ge> 0 then pos + int (nat ?v) else pos)"
      using run True table(1) pos(1) v by (simp add: hay)
    then show ?thesis using first_occurrence_drop [OF pos(2) vt] by simp
  qed
qed

text \<open>The last occurrence that ends at or before position \<open>v\<close>.\<close>

definition last_upto :: "byte list \<Rightarrow> nat \<Rightarrow> byte list \<Rightarrow> int \<Rightarrow> bool" where
  "last_upto t v needle pos \<longleftrightarrow>
     (if \<exists>q. occurs t needle q \<and> q + length needle \<le> v + 1
      then \<exists>q. pos = int q \<and> occurs t needle q \<and> q + length needle \<le> v + 1 \<and>
               (\<forall>r > q. r + length needle \<le> v + 1 \<longrightarrow> \<not> occurs t needle r)
      else pos = - 1)"

lemma occurs_take: "v < length t \<Longrightarrow> occurs (take (v + 1) t) p q \<longleftrightarrow> occurs t p q \<and> q + length p \<le> v + 1"
  by (auto simp: occurs_def)

lemma last_occurrence_take:
  assumes "v < length t"
  shows "last_occurrence (take (v + 1) t) p = last_upto t v p"
proof
  fix pos
  show "last_occurrence (take (v + 1) t) p pos = last_upto t v p pos"
    unfolding last_occurrence_def last_upto_def occurs_take [OF assms] by auto
qed

lemma BuildTableR_fresh:
  assumes "0 < length needle" "length needle < 2 ^ 31"
  obtains table where "utstring_BuildTableR needle (word_of_nat (length needle))
      (fresh_table L (word_of_nat (length needle))) = returned (mirror (int (length needle)) table)"
    "table_ok_upto (rev needle) (length needle) table"
proof -
  let ?m = "int (length needle)" and ?n = "word_of_nat (length needle) :: size_t"
  let ?t = "fresh_table L ?n"
  have n: "unat ?n = length needle" using assms(2) by (simp add: word_of_small_int)
  have len: "length ?t = length needle + 1" unfolding fresh_table_def n by simp
  have mm: "mirror ?m (mirror ?m ?t) = ?t" by (simp add: mirror_def rev_map comp_def)
  have lenm: "length (mirror ?m ?t) = length needle + 1" using len by (simp add: mirror_def)
  have "returns (utstring_BuildTable (rev needle) ?n (mirror ?m ?t)) (table_ok_upto (rev needle) (length (rev needle)))"
    using assms n lenm by (intro BuildTable_returns) simp_all
  then obtain table where t: "utstring_BuildTable (rev needle) ?n (mirror ?m ?t) = returned table"
      "table_ok_upto (rev needle) (length needle) table" by (auto elim: returnsE)
  have "utstring_BuildTableR needle ?n (mirror ?m (mirror ?m ?t)) = returned (mirror ?m table)"
    by (rule BuildTableR_mirrors [OF _ _ _ t(1)]) (use n assms(2) lenm in simp_all)
  then show thesis using that [OF _ t(2)] by (simp only: mm)
qed

lemma findR_str:
  assumes "str_holds t s" "length t < 2 ^ 62" "0 < length needle" "length needle < 2 ^ 31" "allocates L"
    and "- int (length t) \<le> start" "start < int (length t)"
  shows "returns (utstring_findR L s start needle) (last_upto t (nat (start_position s start)) needle)"
proof -
  let ?m = "word_of_nat (length needle) :: size_t" and ?v = "start_position s start"
  have i: "unat (us_i s) = length t" using assms(1) str_bytes_length by (auto simp: str_holds_def)
  have m: "unat ?m = length needle" "sint ?m = int (length needle)"
    using assms(4) word_of_small_int [of "length needle"] by simp_all
  have v: "0 \<le> ?v" "?v < int (length t)" using assms(6,7) by (simp_all only: start_position_def i) auto
  have r1: "(if start < 0 then sint (us_i s + word_of_int start) else start) = ?v"
    by (rule start_runs(1)) (use assms(2,6,7) i in simp_all)
  have run: "utstring_findR L s start needle =
      (if ?v + 1 \<ge> int (length needle)
       then then_run (utstring_BuildTableR needle ?m (fresh_table L ?m)) (\<lambda>table.
            utstring_findR_table (block_bytes (us_d s)) (word_of_int (?v + 1)) needle ?m table)
       else returned (- 1))"
  proof -
    have "?m > 0" using m(1) assms(3) by (metis unat_gt_0 word_greater_zero_iff)
    moreover have "malloc_ok L (8 * (length needle + 1))" using assms(5) by (simp add: allocates_def)
    ultimately show ?thesis by (simp only: utstring_findR_def Let_def r1 m(2) simp_thms)
  qed
  have vt: "nat ?v < length t" using v by linarith
  show ?thesis
  proof (cases "?v + 1 \<ge> int (length needle)")
    case False
    then have "nat ?v + 1 < length needle" using v by linarith
    then show ?thesis using False run by (auto simp: last_upto_def)
  next
    case True
    let ?h = "take (nat ?v + 1) t"
    have hay: "word_of_int (?v + 1) = (word_of_nat (nat ?v + 1) :: size_t)"
      using v(1) by (metis int_nat_eq of_int_of_nat_eq of_nat_1 of_nat_add)
    have uh: "unat (word_of_nat (nat ?v + 1) :: size_t) = nat ?v + 1"
      by (rule word_of_small_int(1)) (use vt assms(2) in simp)
    obtain table where table: "utstring_BuildTableR needle ?m (fresh_table L ?m) =
        returned (mirror (int (length needle)) table)" "table_ok_upto (rev needle) (length needle) table"
      using BuildTableR_fresh [OF assms(3,4)] .
    have blk: "length t \<le> length (block_bytes (us_d s))" "t = take (length t) (block_bytes (us_d s))"
      using assms(1) i by (auto simp: str_holds_def str_block_def str_bytes_def)
    have "returns (utstring_findR_table (block_bytes (us_d s)) (word_of_nat (nat ?v + 1)) needle ?m
        (mirror (int (length needle)) table)) (last_occurrence ?h needle)"
    proof (rule findR_table_returns)
      show "?h = take (unat (word_of_nat (nat ?v + 1) :: size_t)) (block_bytes (us_d s))"
        unfolding uh using blk vt by (metis Suc_eq_plus1 Suc_leI min.absorb1 take_take)
      show "unat (word_of_nat (nat ?v + 1) :: size_t) \<le> length (block_bytes (us_d s))"
        unfolding uh using blk(1) vt by simp
      show "unat (word_of_nat (nat ?v + 1) :: size_t) < 2 ^ 63" unfolding uh using vt assms(2) by simp
      show "?h \<noteq> []" using vt by auto
    qed (use m assms(3,4) table(2) in simp_all)
    moreover have "utstring_findR L s start needle =
        utstring_findR_table (block_bytes (us_d s)) (word_of_nat (nat ?v + 1)) needle ?m
          (mirror (int (length needle)) table)"
      using run True table(1) by (simp only: hay if_True then_run_simps)
    ultimately show ?thesis by (simp only: last_occurrence_take [OF vt])
  qed
qed

section \<open>Properties\<close>

definition hello :: "byte list" where
  "hello = [97, 98, 97, 98, 99]"

definition hello_string :: ut_string where
  "hello_string = \<lparr>us_d = Some (hello @ [0, 0, 0]), us_n = 8, us_i = 5\<rparr>"

lemma hello_holds: "str_holds hello hello_string"
  by (simp add: str_holds_def str_block_def str_bytes_def terminated_def hello_string_def hello_def)



text \<open>
  C12. Searching from the left (Knuth-Morris-Pratt): for every string and pattern of less than
  \<open>2 ^ 31\<close> bytes the table is built and the search returns, with the first position at or after
  the start at which the pattern occurs, and \<open>- 1\<close> exactly when there is none; a negative start
  counts from the end.
\<close>

theorem string_find_returns_first_occurrence:
  assumes "str_holds t s" "length t < 2 ^ 31" "0 < length needle" "length needle < 2 ^ 31" "allocates L"
    and "- int (length t) \<le> start" "start < 2 ^ 62"
  shows "returns (utstring_find L s start needle)
           (first_from t (nat (if start < 0 then int (length t) + start else start)) needle)"
proof -
  have "unat (us_i s) = length t" using assms(1) str_bytes_length by (auto simp: str_holds_def)
  then show ?thesis using find_str [OF assms] by (simp only: start_position_def)
qed

theorem string_find_returns_first_occurrence_witness:
  "returns (utstring_find glibc hello_string 1 [97, 98]) (first_from hello 1 [97, 98])"
  using string_find_returns_first_occurrence [OF hello_holds _ _ _ glibc_allocates, of "[97, 98]" 1]
  by (simp add: hello_def)

text \<open>
  Searching from the right returns the last occurrence that ends at or before the start
  position, and \<open>- 1\<close> exactly when there is none.
\<close>

theorem string_findR_returns_last_occurrence:
  assumes "str_holds t s" "length t < 2 ^ 62" "0 < length needle" "length needle < 2 ^ 31" "allocates L"
    and "- int (length t) \<le> start" "start < int (length t)"
  shows "returns (utstring_findR L s start needle)
           (last_upto t (nat (if start < 0 then int (length t) + start else start)) needle)"
proof -
  have "unat (us_i s) = length t" using assms(1) str_bytes_length by (auto simp: str_holds_def)
  then show ?thesis using findR_str [OF assms] by (simp only: start_position_def)
qed

theorem string_findR_returns_last_occurrence_witness:
  "returns (utstring_findR glibc hello_string (- 1) [97, 98]) (last_upto hello 4 [97, 98])"
  using string_findR_returns_last_occurrence [OF hello_holds _ _ _ glibc_allocates, of "[97, 98]" "- 1"]
  by (simp add: hello_def)

text \<open>
  The search from the left is blind to large strings: the length is converted to \<open>int\<close>, so in
  a string of \<open>2 ^ 31\<close> bytes or more (less than \<open>2 ^ 32\<close>) it finds nothing, whatever the string holds.
\<close>

theorem string_find_blind_from_2GiB:
  assumes "str_holds t s" "2 ^ 31 \<le> length t" "length t < 2 ^ 32" "0 < length needle"
    and "length needle < 2 ^ 31" "allocates L"
  shows "utstring_find L s 0 needle = returned (- 1)"
proof -
  have small: "length t < 2 ^ 62" "- int (length t) \<le> 0" using assms(3) by simp_all
  have v: "start_position s 0 = 0" by (simp add: start_position_def)
  obtain table where table: "utstring_BuildTable needle (word_of_nat (length needle))
      (fresh_table L (word_of_nat (length needle))) = returned table"
    using BuildTable_fresh [OF assms(4,5)] .
  have n: "unat (word_of_nat (length t) :: size_t) = length t"
    using assms(3) by (intro word_of_small_int) simp
  have "int_of_size (word_of_nat (length t)) < 0"
    by (rule int_of_size_negative) (use assms(2,3) n in simp_all)
  then have "utstring_find_table (block_bytes (us_d s)) (word_of_nat (length t)) needle
      (word_of_nat (length needle)) table = returned (- 1)"
    by (simp add: utstring_find_table_def while_run_step)
  then show ?thesis
    using find_run(1) [OF assms(1) small(1) assms(4-6) small(2)] table assms(2,5) by (simp add: v)
qed

definition big_string :: ut_string where
  "big_string = \<lparr>us_d = Some (replicate (2 ^ 31 + 1) 0), us_n = 2 ^ 31 + 1, us_i = 2 ^ 31\<rparr>"

lemma big_holds: "str_holds (replicate (2 ^ 31) 0) big_string"
  by (simp add: str_holds_def str_block_def str_bytes_def terminated_def big_string_def nth_replicate
      take_replicate)

theorem string_find_blind_from_2GiB_witness:
  "utstring_find glibc big_string 0 [0] = returned (- 1) \<and> occurs (str_bytes big_string) [0] 0"
proof
  show "utstring_find glibc big_string 0 [0] = returned (- 1)"
    by (rule string_find_blind_from_2GiB [OF big_holds _ _ _ _ glibc_allocates]) simp_all
  have "str_bytes big_string = replicate (2 ^ 31) 0" using big_holds by (simp add: str_holds_def)
  then show "occurs (str_bytes big_string) [0] 0" by (simp only: occurs_def) simp
qed

end
