(* ===== verification/Link_Heap.thy ===== *)
theory Link_Heap
  imports Loops
begin

text \<open>
  The memory that the list macros of \<open>src/contrib/uthash/utlist.h\<close> and \<open>utstack.h\<close> work on: the
  elements are addresses, \<open>0\<close> is NULL, and each element has a \<open>next\<close> and a \<open>prev\<close> pointer.  Only
  elements in the domain of a field exist; reading or writing a field of anything else has no
  defined behaviour.  A list in the heap is a path of \<open>next\<close> pointers.
\<close>

section \<open>Fields\<close>

type_synonym addr = nat

record links =
  nexts :: "addr \<Rightarrow> addr option"
  prevs :: "addr \<Rightarrow> addr option"

definition get_next :: "links \<Rightarrow> addr \<Rightarrow> addr run" where
  "get_next h p =
     (case nexts h p of Some q \<Rightarrow> if p \<noteq> 0 then returned q else stopped Undefined
                      | None \<Rightarrow> stopped Undefined)"

definition get_prev :: "links \<Rightarrow> addr \<Rightarrow> addr run" where
  "get_prev h p =
     (case prevs h p of Some q \<Rightarrow> if p \<noteq> 0 then returned q else stopped Undefined
                      | None \<Rightarrow> stopped Undefined)"

definition set_next :: "addr \<Rightarrow> addr \<Rightarrow> links \<Rightarrow> links run" where
  "set_next p q h =
     (if p \<noteq> 0 \<and> nexts h p \<noteq> None then returned (h\<lparr>nexts := (nexts h)(p \<mapsto> q)\<rparr>)
      else stopped Undefined)"

definition set_prev :: "addr \<Rightarrow> addr \<Rightarrow> links \<Rightarrow> links run" where
  "set_prev p q h =
     (if p \<noteq> 0 \<and> prevs h p \<noteq> None then returned (h\<lparr>prevs := (prevs h)(p \<mapsto> q)\<rparr>)
      else stopped Undefined)"

text \<open>\<open>assert\<close> ends the process when its condition is false.\<close>

definition assert_run :: "bool \<Rightarrow> 'a run \<Rightarrow> 'a run" where
  "assert_run b m = (if b then m else stopped Abort)"

definition node :: "links \<Rightarrow> addr \<Rightarrow> bool" where
  "node h p \<longleftrightarrow> p \<noteq> 0 \<and> nexts h p \<noteq> None \<and> prevs h p \<noteq> None"

definition same_nodes :: "links \<Rightarrow> links \<Rightarrow> bool" where
  "same_nodes h h' \<longleftrightarrow> dom (nexts h') = dom (nexts h) \<and> dom (prevs h') = dom (prevs h)"

named_theorems link_simps \<open>running the accesses to fields of existing elements\<close>

lemma get_next_run [link_simps]: "p \<noteq> 0 \<Longrightarrow> nexts h p = Some q \<Longrightarrow> get_next h p = returned q"
  by (simp add: get_next_def)

lemma get_prev_run [link_simps]: "p \<noteq> 0 \<Longrightarrow> prevs h p = Some q \<Longrightarrow> get_prev h p = returned q"
  by (simp add: get_prev_def)

lemma set_next_run [link_simps]:
  "p \<noteq> 0 \<Longrightarrow> nexts h p \<noteq> None \<Longrightarrow> set_next p q h = returned (h\<lparr>nexts := (nexts h)(p \<mapsto> q)\<rparr>)"
  by (simp add: set_next_def)

lemma set_prev_run [link_simps]:
  "p \<noteq> 0 \<Longrightarrow> prevs h p \<noteq> None \<Longrightarrow> set_prev p q h = returned (h\<lparr>prevs := (prevs h)(p \<mapsto> q)\<rparr>)"
  by (simp add: set_prev_def)

lemma assert_run_simps [simp]: "assert_run True m = m" "assert_run False m = stopped Abort"
  by (simp_all add: assert_run_def)

lemma same_nodes_refl [simp]: "same_nodes h h"
  by (simp add: same_nodes_def)

lemma same_nodes_trans: "same_nodes h h1 \<Longrightarrow> same_nodes h1 h2 \<Longrightarrow> same_nodes h h2"
  by (simp add: same_nodes_def)

lemma same_nodes_update [simp]:
  "nexts h p \<noteq> None \<Longrightarrow> same_nodes h (h\<lparr>nexts := (nexts h)(p \<mapsto> q)\<rparr>)"
  "prevs h p \<noteq> None \<Longrightarrow> same_nodes h (h\<lparr>prevs := (prevs h)(p \<mapsto> q)\<rparr>)"
  by (auto simp: same_nodes_def)

lemma same_nodes_node: "same_nodes h h' \<Longrightarrow> node h' p = node h p"
  unfolding same_nodes_def node_def by (metis domIff)

lemma same_nodes_next: "same_nodes h h' \<Longrightarrow> nexts h' p = None \<longleftrightarrow> nexts h p = None"
  unfolding same_nodes_def by (metis domIff)

text \<open>A program that changes only fields of the elements of \<open>S\<close>.\<close>

definition only_in :: "addr set \<Rightarrow> links \<Rightarrow> links \<Rightarrow> bool" where
  "only_in S h h' \<longleftrightarrow> same_nodes h h' \<and>
     (\<forall>x. x \<notin> S \<longrightarrow> nexts h' x = nexts h x \<and> prevs h' x = prevs h x)"

lemma only_in_refl [simp]: "only_in S h h"
  by (simp add: only_in_def)

lemma only_in_trans: "only_in S h h1 \<Longrightarrow> only_in S h1 h2 \<Longrightarrow> only_in S h h2"
  by (auto simp: only_in_def intro: same_nodes_trans)

lemma only_in_mono: "only_in S h h' \<Longrightarrow> S \<subseteq> T \<Longrightarrow> only_in T h h'"
  by (auto simp: only_in_def)

lemma only_in_same: "only_in S h h' \<Longrightarrow> same_nodes h h'"
  by (simp add: only_in_def)

section \<open>Paths\<close>

fun path :: "(addr \<Rightarrow> addr option) \<Rightarrow> addr \<Rightarrow> addr list \<Rightarrow> addr \<Rightarrow> bool" where
  "path f p [] q \<longleftrightarrow> p = q"
| "path f p (x # xs) q \<longleftrightarrow> p = x \<and> x \<noteq> 0 \<and> (\<exists>n. f x = Some n \<and> path f n xs q)"

text \<open>The last element of a list, NULL for the empty one.\<close>

definition last0 :: "addr list \<Rightarrow> addr" where
  "last0 xs = (if xs = [] then 0 else last xs)"

definition hd0 :: "addr list \<Rightarrow> addr" where
  "hd0 xs = (if xs = [] then 0 else hd xs)"

lemma last0_simps [simp]: "last0 [] = 0" "last0 (xs @ [x]) = x" "xs \<noteq> [] \<Longrightarrow> last0 xs = last xs"
  by (simp_all add: last0_def)

lemma hd0_simps [simp]: "hd0 [] = 0" "hd0 (x # xs) = x"
  by (simp_all add: hd0_def)

lemma path_append: "path f p (xs @ ys) q \<longleftrightarrow> (\<exists>r. path f p xs r \<and> path f r ys q)"
  by (induction xs arbitrary: p) auto

lemma path_cong: "(\<And>x. x \<in> set xs \<Longrightarrow> f x = g x) \<Longrightarrow> path f p xs q = path g p xs q"
  by (induction xs arbitrary: p) auto

lemma path_upd [simp]: "a \<notin> set xs \<Longrightarrow> path (f(a := v)) p xs q = path f p xs q"
  by (rule path_cong) auto

lemma path_nonzero: "path f p xs q \<Longrightarrow> 0 \<notin> set xs"
  by (induction xs arbitrary: p) auto

lemma path_dom: "path f p xs q \<Longrightarrow> x \<in> set xs \<Longrightarrow> f x \<noteq> None"
  by (induction xs arbitrary: p) auto

lemma path_hd: "path f p xs 0 \<Longrightarrow> p = hd0 xs"
  by (cases xs) auto

lemma path_empty: "path f p xs 0 \<Longrightarrow> p = 0 \<longleftrightarrow> xs = []"
  by (cases xs) auto

lemma path_unique: "path f p xs 0 \<Longrightarrow> path f p ys 0 \<Longrightarrow> xs = ys"
proof (induction xs arbitrary: p ys)
  case Nil
  then show ?case by (cases ys) auto
next
  case (Cons x xs)
  then show ?case by (cases ys) auto
qed

lemma path_from: "path f p xs 0 \<Longrightarrow> x \<in> set xs \<Longrightarrow> \<exists>ys zs. xs = ys @ x # zs \<and> path f x (x # zs) 0"
  by (metis path.simps(2) path_append split_list)

lemma path_distinct: "path f p xs 0 \<Longrightarrow> distinct xs"
proof (induction xs arbitrary: p)
  case (Cons x xs)
  then obtain n where n: "f x = Some n" "path f n xs 0" by auto
  have "x \<notin> set xs"
  proof
    assume "x \<in> set xs"
    then obtain ys zs where "xs = ys @ x # zs" "path f x (x # zs) 0" using path_from [OF n(2)] by blast
    moreover from this(2) n have "x # zs = x # xs" by (auto intro: path_unique)
    ultimately show False by (metis append_Cons length_append length_Cons list.inject
        add_Suc_right less_add_Suc2 nat_neq_iff)
  qed
  then show ?case using Cons.IH [OF n(2)] by simp
qed simp

lemma path_snoc:
  assumes "path f p xs a" "a \<noteq> 0" "f a = Some q"
  shows "path f p (xs @ [a]) q"
  using assms by (auto simp: path_append)

lemma path_Cons: "path f p (x # xs) 0 \<longleftrightarrow> p = x \<and> x \<noteq> 0 \<and> f x = Some (hd0 xs) \<and> path f (hd0 xs) xs 0"
  by (auto dest: path_hd)

lemma path_mid:
  "path f p (as @ x # bs) 0 \<longleftrightarrow>
     path f p as x \<and> x \<noteq> 0 \<and> f x = Some (hd0 bs) \<and> path f (hd0 bs) bs 0"
  unfolding path_append path_Cons by auto

lemma path_next: "path f p (as @ x # bs) 0 \<Longrightarrow> f x = Some (hd0 bs)"
  unfolding path_mid by blast

lemma path_mid_notin: "path f p (as @ x # bs) 0 \<Longrightarrow> x \<notin> set as \<and> x \<notin> set bs"
  using path_distinct by fastforce

lemma path_insert:
  assumes "path f p (as @ t # bs) 0" "e \<noteq> 0" "e \<notin> set (as @ t # bs)"
  shows "path (f(e \<mapsto> hd0 bs, t \<mapsto> e)) p (as @ t # e # bs) 0"
proof -
  have "t \<notin> set as" "t \<notin> set bs" using path_mid_notin [OF assms(1)] by auto
  moreover have "path f p as t" "t \<noteq> 0" "path f (hd0 bs) bs 0" using assms(1) unfolding path_mid by blast+
  moreover have "e \<notin> set as" "e \<notin> set bs" "e \<noteq> t" using assms(3) by auto
  ultimately show ?thesis using assms(2) unfolding path_mid path_Cons by simp
qed

lemma path_remove:
  assumes "path f p (as @ t # x # bs) 0"
  shows "path (f(t \<mapsto> hd0 bs)) p (as @ t # bs) 0"
proof -
  have "t \<notin> set as" "t \<notin> set (x # bs)" using path_mid_notin [OF assms(1)] by auto
  moreover have "path f p as t" "t \<noteq> 0" "path f (hd0 bs) bs 0"
    using assms(1) unfolding path_mid path_Cons by blast+
  ultimately show ?thesis unfolding path_mid path_Cons by simp
qed

lemma path_replace:
  assumes "path f p (as @ t # x # bs) 0" "e \<noteq> 0" "e \<notin> set (as @ t # bs)"
  shows "path (f(e \<mapsto> hd0 bs, t \<mapsto> e)) p (as @ t # e # bs) 0"
proof -
  have "path (f(t \<mapsto> hd0 bs)) p (as @ t # bs) 0" by (rule path_remove [OF assms(1)])
  then have "path (f(t \<mapsto> hd0 bs, e \<mapsto> hd0 bs, t \<mapsto> e)) p (as @ t # e # bs) 0"
    by (rule path_insert) (use assms in auto)
  moreover have "f(t \<mapsto> hd0 bs, e \<mapsto> hd0 bs, t \<mapsto> e) = f(e \<mapsto> hd0 bs, t \<mapsto> e)" by auto
  ultimately show ?thesis by simp
qed

lemma only_in_update [simp]:
  "x \<in> S \<Longrightarrow> nexts h x \<noteq> None \<Longrightarrow> only_in S h (h\<lparr>nexts := (nexts h)(x \<mapsto> v)\<rparr>)"
  "x \<in> S \<Longrightarrow> prevs h x \<noteq> None \<Longrightarrow> only_in S h (h\<lparr>prevs := (prevs h)(x \<mapsto> v)\<rparr>)"
  by (auto simp: only_in_def)

end
