(* ===== verification/Merge_Sort.thy ===== *)
theory Merge_Sort
  imports Link_Heap
begin

text \<open>
  The bottom-up merge sort behind \<open>LL_SORT\<close>, \<open>DL_SORT\<close> and \<open>CDL_SORT\<close> of \<open>utlist.h\<close>.  First on
  plain lists: one pass merges neighbouring blocks of \<open>k\<close> elements, and a pass over blocks that
  are sorted leaves sorted blocks of \<open>2 k\<close> and keeps equal elements in order.  Then the macro
  itself, over the three ways its copies follow and set pointers, which the locale
  \<open>sort_links\<close> states as an interface; inside it the macro is proved to sort, stably.
\<close>

section \<open>Passes over lists\<close>

fun merge_by :: "('a \<Rightarrow> 'a \<Rightarrow> int) \<Rightarrow> 'a list \<Rightarrow> 'a list \<Rightarrow> 'a list" where
  "merge_by cmp [] ys = ys"
| "merge_by cmp (x # xs) [] = x # xs"
| "merge_by cmp (x # xs) (y # ys) =
     (if cmp x y \<le> 0 then x # merge_by cmp xs (y # ys) else y # merge_by cmp (x # xs) ys)"

function merge_pass :: "('a \<Rightarrow> 'a \<Rightarrow> int) \<Rightarrow> nat \<Rightarrow> 'a list \<Rightarrow> 'a list" where
  "merge_pass cmp k xs =
     (if xs = [] \<or> k = 0 then xs
      else merge_by cmp (take k xs) (take k (drop k xs)) @ merge_pass cmp k (drop (2 * k) xs))"
  by pat_completeness auto
termination by (relation "measure (\<lambda>(cmp, k, xs). length xs)") auto

declare merge_pass.simps [simp del]

lemma merge_by_Nil [simp]: "merge_by cmp xs [] = xs"
  by (cases xs) auto

lemma merge_by_left: "ys = [] \<or> cmp x (hd ys) \<le> 0 \<Longrightarrow> merge_by cmp (x # xs) ys = x # merge_by cmp xs ys"
  by (cases ys) simp_all

lemma merge_by_right: "xs = [] \<or> \<not> cmp (hd xs) y \<le> 0 \<Longrightarrow> merge_by cmp xs (y # ys) = y # merge_by cmp xs ys"
  by (cases xs) simp_all

lemma merge_by_length [simp]: "length (merge_by cmp xs ys) = length xs + length ys"
  by (induction cmp xs ys rule: merge_by.induct) auto

lemma merge_by_mset [simp]: "mset (merge_by cmp xs ys) = mset xs + mset ys"
  by (induction cmp xs ys rule: merge_by.induct) auto

lemma merge_by_set [simp]: "set (merge_by cmp xs ys) = set xs \<union> set ys"
  by (metis merge_by_mset set_mset_mset set_mset_union)

text \<open>The comparison orders the elements by a key.\<close>

definition by_key :: "('a \<Rightarrow> 'a \<Rightarrow> int) \<Rightarrow> ('a \<Rightarrow> 'k::linorder) \<Rightarrow> bool" where
  "by_key cmp key \<longleftrightarrow> (\<forall>x y. cmp x y \<le> 0 \<longleftrightarrow> key x \<le> key y)"

lemma by_key_iff:
  "by_key cmp key \<Longrightarrow> cmp x y \<le> 0 \<longleftrightarrow> key x \<le> key y"
  "by_key cmp key \<Longrightarrow> 0 < cmp x y \<longleftrightarrow> key y < key x"
  unfolding by_key_def by (blast, metis not_le)

lemma merge_by_sorted:
  "by_key cmp key \<Longrightarrow> sorted (map key xs) \<Longrightarrow> sorted (map key ys) \<Longrightarrow>
     sorted (map key (merge_by cmp xs ys))"
  by (induction cmp xs ys rule: merge_by.induct) (auto simp: by_key_iff intro: order_trans less_imp_le)

lemma merge_by_stable:
  "by_key cmp key \<Longrightarrow> sorted (map key xs) \<Longrightarrow>
     filter (\<lambda>x. key x = c) (merge_by cmp xs ys) =
     filter (\<lambda>x. key x = c) xs @ filter (\<lambda>x. key x = c) ys"
proof (induction cmp xs ys rule: merge_by.induct)
  case (3 cmp x xs y ys)
  show ?case
  proof (cases "cmp x y \<le> 0")
    case True
    then show ?thesis using 3 by simp
  next
    case False
    then have lt: "key y < key x" using 3(3) by (simp add: by_key_iff)
    have "filter (\<lambda>z. key z = key y) (x # xs) = []"
      using lt 3(4) by (auto simp: filter_empty_conv)
    then show ?thesis using False 3 by auto
  qed
qed simp_all

fun blocks_sorted :: "('a \<Rightarrow> 'k::linorder) \<Rightarrow> nat \<Rightarrow> 'a list \<Rightarrow> bool" where
  "blocks_sorted key 0 xs \<longleftrightarrow> False"
| "blocks_sorted key (Suc k) [] \<longleftrightarrow> True"
| "blocks_sorted key (Suc k) (x # xs) \<longleftrightarrow>
     sorted (map key (x # take k xs)) \<and> blocks_sorted key (Suc k) (drop k xs)"

lemma blocks_sorted_unfold:
  "0 < k \<Longrightarrow> blocks_sorted key k xs \<longleftrightarrow>
     xs = [] \<or> sorted (map key (take k xs)) \<and> blocks_sorted key k (drop k xs)"
  by (cases k; cases xs) auto

lemma blocks_sorted_Nil [simp]: "0 < k \<Longrightarrow> blocks_sorted key k []"
  by (cases k) simp_all

lemma blocks_of_one: "blocks_sorted key 1 xs"
  by (induction xs) (auto simp: One_nat_def)

lemma blocks_sorted_whole: "blocks_sorted key k xs \<Longrightarrow> length xs \<le> k \<Longrightarrow> sorted (map key xs)"
  by (cases "k = 0"; cases "xs = []") (auto simp: blocks_sorted_unfold [of k key xs])

lemma merge_pass_mset: "mset (merge_pass cmp k xs) = mset xs"
proof (induction cmp k xs rule: merge_pass.induct)
  case (1 cmp k xs)
  have "mset xs = mset (take k xs @ take k (drop k xs) @ drop k (drop k xs))"
    by (simp only: append_take_drop_id)
  then show ?case using 1 by (subst merge_pass.simps) (simp add: mult_2 add.assoc)
qed

lemma merge_pass_length [simp]: "length (merge_pass cmp k xs) = length xs"
  by (metis merge_pass_mset size_mset)

lemma merge_pass_set [simp]: "set (merge_pass cmp k xs) = set xs"
  by (metis merge_pass_mset set_mset_mset)

lemma merge_pass_sorted:
  "by_key cmp key \<Longrightarrow> blocks_sorted key k xs \<Longrightarrow> 0 < k \<Longrightarrow> blocks_sorted key (2 * k) (merge_pass cmp k xs)"
proof (induction cmp k xs rule: merge_pass.induct)
  case (1 cmp k xs)
  show ?case
  proof (cases "xs = []")
    case True
    then show ?thesis using 1(4) by (subst merge_pass.simps) simp
  next
    case False
    let ?ys = "drop k xs" and ?m = "merge_by cmp (take k xs) (take k (drop k xs))"
    have s: "sorted (map key (take k xs))" "blocks_sorted key k ?ys"
      using 1(3,4) False by (auto simp: blocks_sorted_unfold [of k key xs])
    have s2: "sorted (map key (take k ?ys))" "blocks_sorted key k (drop (2 * k) xs)"
      using s(2) 1(4) by (auto simp: blocks_sorted_unfold [of k key ?ys] mult_2)
    have rest: "blocks_sorted key (2 * k) (merge_pass cmp k (drop (2 * k) xs))"
      using 1 s2(2) False by blast
    have m: "sorted (map key ?m)" using merge_by_sorted [OF 1(2) s(1) s2(1)] .
    have eq: "merge_pass cmp k xs = ?m @ merge_pass cmp k (drop (2 * k) xs)"
      using False 1(4) by (subst merge_pass.simps) simp
    have "length ?m \<le> 2 * k" by simp
    moreover have "merge_pass cmp k (drop (2 * k) xs) = []" if "length ?m < 2 * k"
    proof -
      have "length xs \<le> 2 * k" using that by (auto simp: min_def split: if_splits)
      then show ?thesis by (subst merge_pass.simps) simp
    qed
    ultimately have td: "take (2 * k) (?m @ merge_pass cmp k (drop (2 * k) xs)) = ?m"
        "drop (2 * k) (?m @ merge_pass cmp k (drop (2 * k) xs)) = merge_pass cmp k (drop (2 * k) xs)"
      by (cases "length ?m < 2 * k"; simp)+
    have "0 < 2 * k" using 1(4) by simp
    from blocks_sorted_unfold [OF this, of key "?m @ merge_pass cmp k (drop (2 * k) xs)"]
    show ?thesis unfolding eq td using m rest by blast
  qed
qed

lemma merge_pass_stable:
  "by_key cmp key \<Longrightarrow> blocks_sorted key k xs \<Longrightarrow>
     filter (\<lambda>x. key x = c) (merge_pass cmp k xs) = filter (\<lambda>x. key x = c) xs"
proof (induction cmp k xs rule: merge_pass.induct)
  case (1 cmp k xs)
  show ?case
  proof (cases "xs = [] \<or> k = 0")
    case True
    then show ?thesis by (subst merge_pass.simps) simp
  next
    case False
    let ?ys = "drop k xs"
    have s: "sorted (map key (take k xs))" "blocks_sorted key k ?ys"
      using 1(3) False by (auto simp: blocks_sorted_unfold [of k key xs])
    have s2: "blocks_sorted key k (drop (2 * k) xs)"
      using s(2) False by (auto simp: blocks_sorted_unfold [of k key ?ys] mult_2)
    have "xs = take k xs @ take k ?ys @ drop (2 * k) xs"
      by (metis append_take_drop_id drop_drop mult_2)
    then have "filter (\<lambda>x. key x = c) xs = filter (\<lambda>x. key x = c) (take k xs @ take k ?ys @ drop (2 * k) xs)"
      by (rule arg_cong)
    then show ?thesis
      using False 1(1) [OF False 1(2) s2] merge_by_stable [OF 1(2) s(1)]
      by (subst merge_pass.simps) simp
  qed
qed

lemma sorted_stable_unique:
  assumes "mset ys = mset xs" "\<forall>c. filter (\<lambda>x. key x = c) ys = filter (\<lambda>x. key x = c) xs" "sorted (map key ys)"
  shows "sort_key key xs = ys"
proof (rule properties_for_sort_key)
  show "filter (\<lambda>x. key a = key x) ys = filter (\<lambda>x. key a = key x) xs" for a
    using assms(2) by (metis (mono_tags, lifting) filter_cong)
qed (use assms in simp_all)

lemma sort_key_map: "sort_key f (map g xs) = map g (sort_key (\<lambda>x. f (g x)) xs)"
  by (rule sorted_stable_unique) (simp_all add: filter_map comp_def sort_key_stable)

section \<open>The macro\<close>

text \<open>
  \<open>adv\<close> follows a \<open>next\<close> pointer (knowing the old head, where a circular list ends), \<open>link\<close>
  puts an element behind the tail (NULL at first), \<open>close\<close> finishes a pass; \<open>int\<close> counters are
  checked against their range.
\<close>

definition chk_int :: "int \<Rightarrow> int run" where
  "chk_int i = (if fits_int i then returned i else stopped Undefined)"

text \<open>Stepping \<open>q\<close> over at most \<open>insize\<close> elements, counting them in \<open>psize\<close>.\<close>

definition sort_skip :: "(addr \<Rightarrow> links \<Rightarrow> addr \<Rightarrow> addr run) \<Rightarrow> addr \<Rightarrow> links \<Rightarrow> int \<Rightarrow> addr \<Rightarrow> (int \<times> addr) run" where
  "sort_skip adv oldhead h insize p =
     then_run
       (while_run (\<lambda>(i, psize, q, left). returned (\<not> left \<and> i < insize))
         (\<lambda>(i, psize, q, left). then_run (adv oldhead h q) (\<lambda>q.
            returned (if q = 0 then (i, psize + 1, q, True) else (i + 1, psize + 1, q, False))))
         (0, 0, p, False))
       (\<lambda>(i, psize, q, left). returned (psize, q))"

definition sort_merge ::
  "(addr \<Rightarrow> links \<Rightarrow> addr \<Rightarrow> addr run) \<Rightarrow> (addr \<Rightarrow> addr \<Rightarrow> links \<Rightarrow> links run) \<Rightarrow>
   (addr \<Rightarrow> addr \<Rightarrow> int) \<Rightarrow> addr \<Rightarrow>
   links \<times> addr \<times> addr \<times> addr \<times> addr \<times> int \<times> int \<Rightarrow>
   (links \<times> addr \<times> addr \<times> addr \<times> addr \<times> int \<times> int) run" where
  "sort_merge adv link cmp oldhead =
     while_run (\<lambda>(h, list, tail, p, q, psize, qsize). returned (psize > 0 \<or> (qsize > 0 \<and> q \<noteq> 0)))
       (\<lambda>(h, list, tail, p, q, psize, qsize).
          then_run
            (if psize = 0 then
               then_run (adv oldhead h q) (\<lambda>q'. returned (q, p, q', psize, qsize - 1))
             else if qsize = 0 \<or> q = 0 then
               then_run (adv oldhead h p) (\<lambda>p'. returned (p, p', q, psize - 1, qsize))
             else if cmp p q \<le> 0 then
               then_run (adv oldhead h p) (\<lambda>p'. returned (p, p', q, psize - 1, qsize))
             else
               then_run (adv oldhead h q) (\<lambda>q'. returned (q, p, q', psize, qsize - 1)))
            (\<lambda>(e, p, q, psize, qsize).
               then_run (link tail e h) (\<lambda>h.
               returned (h, if tail \<noteq> 0 then list else e, e, p, q, psize, qsize))))"

definition sort_pass ::
  "(addr \<Rightarrow> links \<Rightarrow> addr \<Rightarrow> addr run) \<Rightarrow> (addr \<Rightarrow> addr \<Rightarrow> links \<Rightarrow> links run) \<Rightarrow> (int \<Rightarrow> int run) \<Rightarrow>
   (addr \<Rightarrow> addr \<Rightarrow> int) \<Rightarrow> addr \<Rightarrow> int \<Rightarrow> links \<times> addr \<times> addr \<times> addr \<times> int \<Rightarrow>
   (links \<times> addr \<times> addr \<times> addr \<times> int) run" where
  "sort_pass adv link ctr cmp oldhead insize =
     while_run (\<lambda>(h, list, tail, p, nmerges). returned (p \<noteq> 0))
       (\<lambda>(h, list, tail, p, nmerges).
          then_run (ctr (nmerges + 1)) (\<lambda>nmerges.
          then_run (sort_skip adv oldhead h insize p) (\<lambda>(psize, q).
          then_run (sort_merge adv link cmp oldhead (h, list, tail, p, q, psize, insize))
            (\<lambda>(h, list, tail, p, q, psize, qsize). returned (h, list, tail, q, nmerges)))))"

text \<open>One round of the outer loop: a pass, its end, and the doubling of the size of the runs.\<close>

definition sort_round ::
  "(addr \<Rightarrow> links \<Rightarrow> addr \<Rightarrow> addr run) \<Rightarrow> (addr \<Rightarrow> addr \<Rightarrow> links \<Rightarrow> links run) \<Rightarrow>
   (addr \<Rightarrow> addr \<Rightarrow> links \<Rightarrow> links run) \<Rightarrow> (int \<Rightarrow> int run) \<Rightarrow> (addr \<Rightarrow> addr \<Rightarrow> int) \<Rightarrow>
   links \<times> addr \<times> addr \<times> int \<times> bool \<Rightarrow> (links \<times> addr \<times> addr \<times> int \<times> bool) run" where
  "sort_round adv link close ctr cmp = (\<lambda>(h, list, tail, insize, looping).
     then_run (sort_pass adv link ctr cmp list insize (h, 0, 0, list, 0)) (\<lambda>(h, list, tail, p, nmerges).
     then_run (close list tail h) (\<lambda>h.
     then_run (ctr (insize * 2)) (\<lambda>insize'.
     returned (h, list, tail, insize', if nmerges \<le> 1 then False else looping)))))"

text \<open>The head and the tail of the sorted list are returned with the links.\<close>

definition sort_list ::
  "(addr \<Rightarrow> links \<Rightarrow> addr \<Rightarrow> addr run) \<Rightarrow> (addr \<Rightarrow> addr \<Rightarrow> links \<Rightarrow> links run) \<Rightarrow>
   (addr \<Rightarrow> addr \<Rightarrow> links \<Rightarrow> links run) \<Rightarrow> (int \<Rightarrow> int run) \<Rightarrow> (addr \<Rightarrow> addr \<Rightarrow> int) \<Rightarrow> links \<Rightarrow> addr \<Rightarrow>
   (links \<times> addr \<times> addr) run" where
  "sort_list adv link close ctr cmp h list =
     (if list \<noteq> 0 then
        then_run
          (while_run (\<lambda>(h, list, tail, insize, looping). returned looping) (sort_round adv link close ctr cmp)
            (h, list, 0, 1, True))
          (\<lambda>(h, list, tail, insize, looping). returned (h, list, tail))
      else returned (h, list, 0))"

lemma hd0_link: "0 \<notin> set os \<Longrightarrow> (if last0 os \<noteq> 0 then hd0 os else a) = hd0 (os @ [a])"
  by (cases os) (auto simp: last0_def dest: last_in_set split: if_splits)

section \<open>What the macro relies on\<close>

text \<open>
  \<open>nx o h p\<close> is the element after \<open>p\<close> in a list that started at \<open>o\<close>, \<open>el\<close> says that an element
  has the fields of its kind of list, \<open>out h xs\<close> that \<open>xs\<close> has been linked up as the output so
  far, \<open>lst h p xs\<close> that \<open>p\<close> is the head of the list \<open>xs\<close>.
\<close>

locale sort_links =
  fixes nx :: "addr \<Rightarrow> links \<Rightarrow> addr \<Rightarrow> addr option"
    and adv :: "addr \<Rightarrow> links \<Rightarrow> addr \<Rightarrow> addr run"
    and link :: "addr \<Rightarrow> addr \<Rightarrow> links \<Rightarrow> links run"
    and close :: "addr \<Rightarrow> addr \<Rightarrow> links \<Rightarrow> links run"
    and ctr :: "int \<Rightarrow> int run"
    and el :: "links \<Rightarrow> addr \<Rightarrow> bool"
    and out :: "links \<Rightarrow> addr list \<Rightarrow> bool"
    and lst :: "links \<Rightarrow> addr \<Rightarrow> addr list \<Rightarrow> bool"
  assumes adv_law: "el h p \<Longrightarrow> nx old h p = Some q \<Longrightarrow> adv old h p = returned q"
    and el_nonzero: "el h p \<Longrightarrow> p \<noteq> 0"
    and el_same: "same_nodes h h' \<Longrightarrow> el h' p = el h p"
    and out_empty: "out h []"
    and link_law: "out h xs \<Longrightarrow> \<forall>x\<in>set xs. el h x \<Longrightarrow> el h e \<Longrightarrow> e \<notin> set xs \<Longrightarrow> distinct xs \<Longrightarrow>
      returns (link (last0 xs) e h) (\<lambda>h'. out h' (xs @ [e]) \<and> only_in (set (xs @ [e])) h h' \<and>
        (\<forall>old p. p \<notin> set xs \<longrightarrow> nx old h' p = nx old h p))"
    and close_law: "out h xs \<Longrightarrow> xs \<noteq> [] \<Longrightarrow> \<forall>x\<in>set xs. el h x \<Longrightarrow> distinct xs \<Longrightarrow>
      returns (close (hd xs) (last xs) h) (\<lambda>h'. lst h' (hd xs) xs \<and> only_in (set xs) h h')"
    and ctr_law: "0 \<le> i \<Longrightarrow> i < 2 ^ 31 \<Longrightarrow> ctr i = returned i"
    and open_law: "lst h p xs \<Longrightarrow> path (nx p h) p xs 0 \<and> (\<forall>x\<in>set xs. el h x)"
begin

lemma skip_returns:
  assumes "path (nx old h) p xs 0" "\<forall>x\<in>set xs. el h x" "xs \<noteq> []" "0 < k"
  shows "sort_skip adv old h (int k) p = returned (int (length (take k xs)), hd0 (drop k xs))"
proof -
  let ?I = "\<lambda>(i, psize, q, left).
    if left then psize = int (length xs) \<and> q = 0 \<and> length xs \<le> k
    else \<exists>j. j \<le> k \<and> j < length xs \<and> i = int j \<and> psize = int j \<and> path (nx old h) q (drop j xs) 0"
  let ?m = "\<lambda>(i, psize, q, left). if left then 0 else Suc (nat (int k - i))"
  let ?Q = "\<lambda>(i, psize, q, left). psize = int (length (take k xs)) \<and> q = hd0 (drop k xs)"
  have "returns (while_run (\<lambda>(i, psize, q, left). returned (\<not> left \<and> i < int k))
         (\<lambda>(i, psize, q, left). then_run (adv old h q) (\<lambda>q.
            returned (if q = 0 then (i, psize + 1, q, True) else (i + 1, psize + 1, q, False))))
         (0, 0, p, False)) ?Q"
  proof (rule returns_while_measure [of ?I _ _ _ ?m], goal_cases)
    case 1
    show ?case using assms by auto
  next
    case (2 s)
    obtain i psize q left where s: "s = (i, psize, q, left)" by (cases s)
    show ?case
    proof (cases left)
      case True
      then show ?thesis using 2 s by simp
    next
      case False
      then obtain j where j: "j \<le> k" "j < length xs" "i = int j" "psize = int j"
          "path (nx old h) q (drop j xs) 0"
        using 2 s by auto
      show ?thesis
      proof (cases "j < k")
        case True
        have d: "drop j xs = xs ! j # drop (Suc j) xs" using j(2) by (simp add: Cons_nth_drop_Suc)
        then obtain n where n: "q = xs ! j" "nx old h q = Some n" "path (nx old h) n (drop (Suc j) xs) 0"
          using j(5) by auto
        have "adv old h q = returned n" using adv_law n j(2) assms(2) by simp
        moreover have "n = 0 \<longleftrightarrow> length xs = Suc j" using path_empty [OF n(3)] j(2) by auto
        ultimately show ?thesis using True False j s n(3) by (auto intro!: exI [of _ "Suc j"])
      next
        case f: False
        then show ?thesis using False j s path_hd [OF j(5)] by simp
      qed
    qed
  qed
  then show ?thesis by (auto simp: sort_skip_def returns_def)
qed


lemma nx_after_link:
  assumes "path (nx old h) p xs q" "\<forall>p. p \<notin> S \<longrightarrow> nx old h' p = nx old h p" "set xs \<inter> S = {}"
  shows "path (nx old h') p xs q"
proof -
  have "path (nx old h') p xs q = path (nx old h) p xs q"
    by (rule path_cong) (use assms(2,3) in blast)
  then show ?thesis using assms(1) by simp
qed

text \<open>One element moves from the front of a run to the end of the output.\<close>

lemma link_step:
  assumes "out h os" "el h e" "\<forall>x\<in>set os. el h x" "distinct (os @ e # us)"
    "path (nx old h) p as z" "path (nx old h) q ys 0" "set as \<union> set ys \<subseteq> set us"
    "only_in S h0 h" "insert e (set os) \<subseteq> S"
  obtains h' where "link (last0 os) e h = returned h'" "out h' (os @ [e])" "only_in S h0 h'"
    "path (nx old h') p as z" "path (nx old h') q ys 0" "\<forall>x. el h' x = el h x"
proof -
  have "e \<notin> set os" "distinct os" using assms(4) by auto
  then obtain h' where h': "link (last0 os) e h = returned h'" "out h' (os @ [e])"
      "only_in (set (os @ [e])) h h'" "\<forall>old p. p \<notin> set os \<longrightarrow> nx old h' p = nx old h p"
    using link_law [OF assms(1,3,2)] by (auto elim: returnsE)
  have d: "set as \<inter> set os = {}" "set ys \<inter> set os = {}" using assms(4,7) by auto
  show ?thesis
  proof (rule that [OF h'(1,2)])
    show "only_in S h0 h'"
      using only_in_trans [OF assms(8) only_in_mono [OF h'(3)]] assms(9) by simp
    show "path (nx old h') p as z" using nx_after_link [OF assms(5)] h'(4) d(1) by blast
    show "path (nx old h') q ys 0" using nx_after_link [OF assms(6)] h'(4) d(2) by blast
    show "\<forall>x. el h' x = el h x" using el_same [OF only_in_same [OF h'(3)]] by blast
  qed
qed

definition merging :: "addr \<Rightarrow> addr set \<Rightarrow> links \<Rightarrow> addr list \<Rightarrow> addr list \<Rightarrow> (addr \<Rightarrow> addr \<Rightarrow> int) \<Rightarrow>
    links \<times> addr \<times> addr \<times> addr \<times> addr \<times> int \<times> int \<Rightarrow> addr list \<Rightarrow> addr list \<Rightarrow> addr list \<Rightarrow> nat \<Rightarrow> bool" where
  "merging old S h0 T D cmp s os as ys n \<longleftrightarrow>
     (case s of (h, list, tail, p, q, psize, qsize) \<Rightarrow>
        out h os \<and> list = hd0 os \<and> tail = last0 os \<and>
        (\<exists>z. path (nx old h) p as z) \<and> path (nx old h) q ys 0 \<and>
        psize = int (length as) \<and> qsize = int n \<and>
        distinct (os @ as @ ys) \<and> set (os @ as @ ys) \<subseteq> S \<and> (\<forall>x\<in>S. el h x) \<and> only_in S h0 h \<and>
        os @ merge_by cmp as (take n ys) = T \<and> drop n ys = D)"


lemma take_from_p:
  assumes "merging old S h0 T D cmp (h, list, tail, p, q, psize, qsize) os (a # as) ys n"
    and "n = 0 \<or> ys = [] \<or> cmp a (hd ys) \<le> 0"
  shows "p = a" "\<exists>p' h'. adv old h p = returned p' \<and> link tail a h = returned h' \<and>
     merging old S h0 T D cmp (h', if tail \<noteq> 0 then list else a, a, p', q, psize - 1, qsize) (os @ [a]) as ys n"
proof -
  obtain z where m: "out h os" "list = hd0 os" "tail = last0 os" "path (nx old h) p (a # as) z"
      "path (nx old h) q ys 0" "psize = int (length (a # as))" "qsize = int n"
      "distinct (os @ a # as @ ys)" "insert a (set (os @ as @ ys)) \<subseteq> S" "\<forall>x\<in>S. el h x"
      "only_in S h0 h" "os @ merge_by cmp (a # as) (take n ys) = T" "drop n ys = D"
    using assms(1) unfolding merging_def by auto
  then obtain p' where p': "nx old h a = Some p'" "path (nx old h) p' as z" "p = a" "a \<noteq> 0" by auto
  show "p = a" by fact
  have a: "adv old h p = returned p'" using adv_law [of h a] p' m(9,10) by blast
  have S: "insert a (set os) \<subseteq> S" "el h a" "\<forall>x\<in>set os. el h x" using m(9,10) by auto
  obtain h' where h': "link (last0 os) a h = returned h'" "out h' (os @ [a])" "only_in S h0 h'"
      "path (nx old h') p' as z" "path (nx old h') q ys 0" "\<forall>x. el h' x = el h x"
    using link_step [OF m(1) S(2,3) m(8) p'(2) m(5) _ m(11) S(1)] by auto
  have mb: "merge_by cmp (a # as) (take n ys) = a # merge_by cmp as (take n ys)"
    by (rule merge_by_left) (use assms(2) in \<open>cases n; cases ys; simp\<close>)
  have z0: "0 \<notin> set os" using S(3) el_nonzero [of h 0] by blast
  have hd: "(if tail \<noteq> 0 then list else a) = hd0 (os @ [a])"
    unfolding m(2,3) by (rule hd0_link [OF z0])
  have "merging old S h0 T D cmp (h', if tail \<noteq> 0 then list else a, a, p', q, psize - 1, qsize) (os @ [a]) as ys n"
    unfolding merging_def prod.case
  proof (intro conjI, goal_cases)
    case 1 show ?case by (rule h'(2))
  next
    case 2 show ?case by (rule hd)
  next
    case 3 show ?case by simp
  next
    case 4 show ?case by (rule exI) (rule h'(4))
  next
    case 5 show ?case by (rule h'(5))
  next
    case 6 show ?case using m(6) by simp
  next
    case 7 show ?case by (rule m(7))
  next
    case 8 show ?case using m(8) by simp
  next
    case 9 show ?case using m(9) by simp
  next
    case 10 show ?case using m(10) h'(6) by simp
  next
    case 11 show ?case by (rule h'(3))
  next
    case 12 show ?case using m(12) mb by simp
  next
    case 13 show ?case by (rule m(13))
  qed
  then show "\<exists>p' h'. adv old h p = returned p' \<and> link tail a h = returned h' \<and>
     merging old S h0 T D cmp (h', if tail \<noteq> 0 then list else a, a, p', q, psize - 1, qsize) (os @ [a]) as ys n"
    using a h'(1) m(3) by blast
qed

lemma take_from_q:
  assumes "merging old S h0 T D cmp (h, list, tail, p, q, psize, qsize) os as (b # ys) (Suc n)"
    and "as = [] \<or> \<not> cmp (hd as) b \<le> 0"
  shows "q = b" "\<exists>q' h'. adv old h q = returned q' \<and> link tail b h = returned h' \<and>
     merging old S h0 T D cmp (h', if tail \<noteq> 0 then list else b, b, p, q', psize, qsize - 1) (os @ [b]) as ys n"
proof -
  obtain z where m: "out h os" "list = hd0 os" "tail = last0 os" "path (nx old h) p as z"
      "path (nx old h) q (b # ys) 0" "psize = int (length as)" "qsize = int (Suc n)"
      "distinct (os @ b # as @ ys)" "insert b (set (os @ as @ ys)) \<subseteq> S" "\<forall>x\<in>S. el h x"
      "only_in S h0 h" "os @ merge_by cmp as (b # take n ys) = T" "drop n ys = D"
    using assms(1) unfolding merging_def by auto
  then obtain q' where q': "nx old h b = Some q'" "path (nx old h) q' ys 0" "q = b" by auto
  show "q = b" by fact
  have a: "adv old h q = returned q'" using adv_law [of h b] q' m(9,10) by blast
  have S: "insert b (set os) \<subseteq> S" "el h b" "\<forall>x\<in>set os. el h x" using m(9,10) by auto
  obtain h' where h': "link (last0 os) b h = returned h'" "out h' (os @ [b])" "only_in S h0 h'"
      "path (nx old h') p as z" "path (nx old h') q' ys 0" "\<forall>x. el h' x = el h x"
    using link_step [OF m(1) S(2,3) m(8) m(4) q'(2) _ m(11) S(1)] by auto
  have mb: "merge_by cmp as (b # take n ys) = b # merge_by cmp as (take n ys)"
    by (rule merge_by_right) (rule assms(2))
  have z0: "0 \<notin> set os" using S(3) el_nonzero [of h 0] by blast
  have hd: "(if tail \<noteq> 0 then list else b) = hd0 (os @ [b])"
    unfolding m(2,3) by (rule hd0_link [OF z0])
  have "merging old S h0 T D cmp (h', if tail \<noteq> 0 then list else b, b, p, q', psize, qsize - 1) (os @ [b]) as ys n"
    unfolding merging_def prod.case
  proof (intro conjI, goal_cases)
    case 1 show ?case by (rule h'(2))
  next
    case 2 show ?case by (rule hd)
  next
    case 3 show ?case by simp
  next
    case 4 show ?case by (rule exI) (rule h'(4))
  next
    case 5 show ?case by (rule h'(5))
  next
    case 6 show ?case by (rule m(6))
  next
    case 7 show ?case using m(7) by simp
  next
    case 8 show ?case using m(8) by auto
  next
    case 9 show ?case using m(9) by auto
  next
    case 10 show ?case using m(10) h'(6) by simp
  next
    case 11 show ?case by (rule h'(3))
  next
    case 12 show ?case using m(12) mb by simp
  next
    case 13 show ?case by (rule m(13))
  qed
  then show "\<exists>q' h'. adv old h q = returned q' \<and> link tail b h = returned h' \<and>
     merging old S h0 T D cmp (h', if tail \<noteq> 0 then list else b, b, p, q', psize, qsize - 1) (os @ [b]) as ys n"
    using a h'(1) m(3) by blast
qed


lemma merge_returns:
  assumes "merging old S h0 T D cmp s os as ys n"
  shows "returns (sort_merge adv link cmp old s)
    (\<lambda>s'. \<exists>ys' n'. merging old S h0 T D cmp s' T [] ys' n' \<and> ys' = D)"
proof -
  define I where "I s \<longleftrightarrow> (\<exists>os as ys n. merging old S h0 T D cmp s os as ys n)" for s
  show ?thesis unfolding sort_merge_def
  proof (rule returns_while_measure [of I _ _ _
        "\<lambda>(h, list, tail, p, q, psize, qsize). nat psize + nat qsize"], goal_cases)
    case 1
    show ?case using assms unfolding I_def by blast
  next
    case (2 s)
    then obtain os as ys n where inv: "merging old S h0 T D cmp s os as ys n" unfolding I_def by blast
    obtain h list tail p q psize qsize where s: "s = (h, list, tail, p, q, psize, qsize)"
      by (cases s)
    note m = inv [unfolded s]
    have ps: "psize = int (length as)" and qs: "qsize = int n" and pq: "path (nx old h) q ys 0"
      and pa: "\<exists>z. path (nx old h) p as z"
      using m unfolding merging_def by auto
    have q0: "q = 0 \<longleftrightarrow> ys = []" by (rule path_empty [OF pq])
    consider (stop) "as = []" "n = 0 \<or> ys = []"
      | (p) a as' where "as = a # as'" "n = 0 \<or> ys = [] \<or> cmp a (hd ys) \<le> 0"
      | (q) b ys' n' where "ys = b # ys'" "n = Suc n'" "as = [] \<or> \<not> cmp (hd as) b \<le> 0"
      by (cases as; cases ys; cases n) auto
    then show ?case
    proof cases
      case stop
      then have "os = T" "ys = D" using m unfolding merging_def by auto
      then show ?thesis using inv stop s ps qs q0 by auto
    next
      case p
      note m' = m [unfolded p(1)]
      from take_from_p [OF m' p(2)] obtain p' h' where r: "p = a" "adv old h p = returned p'"
          "link tail a h = returned h'"
          "I (h', if tail \<noteq> 0 then list else a, a, p', q, psize - 1, qsize)"
        unfolding I_def by blast
      have "q = hd0 ys" by (rule path_hd [OF pq])
      then have c: "qsize = 0 \<or> q = 0 \<or> cmp p q \<le> 0" using p(2) q0 qs r(1) by (cases ys) auto
      have "psize > 0" using ps p(1) by simp
      then show ?thesis using c r s by auto
    next
      case q
      note m' = m [unfolded q(1,2)]
      from take_from_q [OF m' q(3)] obtain q' h' where r: "q = b" "adv old h q = returned q'"
          "link tail b h = returned h'"
          "I (h', if tail \<noteq> 0 then list else b, b, p, q', psize, qsize - 1)"
        unfolding I_def by blast
      have c: "psize = 0 \<or> \<not> cmp p q \<le> 0" using q(3) ps pa r(1) by (cases as) auto
      have "qsize > 0" "q \<noteq> 0" "0 \<le> psize" using qs q(1,2) q0 ps by auto
      then show ?thesis using c r s by auto
    qed
  qed
qed


definition passing :: "addr \<Rightarrow> links \<Rightarrow> (addr \<Rightarrow> addr \<Rightarrow> int) \<Rightarrow> nat \<Rightarrow> addr list \<Rightarrow>
    links \<times> addr \<times> addr \<times> addr \<times> int \<Rightarrow> addr list \<Rightarrow> addr list \<Rightarrow> nat \<Rightarrow> bool" where
  "passing old h0 cmp k xs s os ys nm \<longleftrightarrow>
     (case s of (h, list, tail, p, nmerges) \<Rightarrow>
        out h os \<and> list = hd0 os \<and> tail = last0 os \<and> path (nx old h) p ys 0 \<and> nmerges = int nm \<and>
        distinct (os @ ys) \<and> set (os @ ys) = set xs \<and> (\<forall>x\<in>set xs. el h x) \<and> only_in (set xs) h0 h \<and>
        os @ merge_pass cmp k ys = merge_pass cmp k xs \<and> ys = drop (2 * k * nm) xs \<and>
        (nm = 0 \<or> 2 * k * (nm - 1) < length xs))"

lemma passing_step:
  assumes "passing old h0 cmp k xs (h, list, tail, p, nmerges) os ys nm" "ys \<noteq> []" "0 < k"
    and "length xs \<le> 2 ^ 30"
  shows "ctr (nmerges + 1) = returned (nmerges + 1)"
    and "returns (then_run (sort_skip adv old h (int k) p) (\<lambda>(psize, q).
          then_run (sort_merge adv link cmp old (h, list, tail, p, q, psize, int k))
            (\<lambda>(h, list, tail, p, q, psize, qsize). returned (h, list, tail, q, nmerges + 1))))
          (\<lambda>s'. \<exists>os'. passing old h0 cmp k xs s' os' (drop (2 * k) ys) (Suc nm))"
proof -
  have m: "out h os" "list = hd0 os" "tail = last0 os" "path (nx old h) p ys 0" "nmerges = int nm"
      "distinct (os @ ys)" "set (os @ ys) = set xs" "\<forall>x\<in>set xs. el h x" "only_in (set xs) h0 h"
      "os @ merge_pass cmp k ys = merge_pass cmp k xs" "ys = drop (2 * k * nm) xs"
    using assms(1) unfolding passing_def by auto
  have lt: "2 * k * nm < length xs" using assms(2) m(11) by simp
  have "nm \<le> 2 * k * nm" using assms(3) by simp
  then have "nm < 2 ^ 30" using lt assms(4) by linarith
  then show "ctr (nmerges + 1) = returned (nmerges + 1)"
    unfolding m(5) by (intro ctr_law) simp_all
  let ?as = "take k ys" and ?bs = "drop k ys"
  let ?T = "os @ merge_by cmp ?as (take k ?bs)" and ?D = "drop k ?bs"
  have ab: "?as @ ?bs = ys" by simp
  have sk: "sort_skip adv old h (int k) p = returned (int (length ?as), hd0 ?bs)"
    by (rule skip_returns [OF m(4) _ assms(2,3)]) (use m(7,8) in auto)
  obtain z where z: "path (nx old h) p ?as z" "path (nx old h) z ?bs 0"
    using m(4) path_append [of "nx old h" p ?as ?bs 0] unfolding ab by blast
  have "merging old (set xs) h0 ?T ?D cmp (h, list, tail, p, hd0 ?bs, int (length ?as), int k) os ?as ?bs k"
    unfolding merging_def prod.case ab
    using m(1,2,3,6,7,8,9) z path_hd [OF z(2)] by blast
  from merge_returns [OF this] obtain h' list' tail' p' q' ps' qs' n' where r:
      "sort_merge adv link cmp old (h, list, tail, p, hd0 ?bs, int (length ?as), int k) =
         returned (h', list', tail', p', q', ps', qs')"
      "merging old (set xs) h0 ?T ?D cmp (h', list', tail', p', q', ps', qs') ?T [] ?D n'"
    by (auto elim!: returnsE)
  have D: "?D = drop (2 * k) ys" by (simp add: mult_2)
  have mp: "merge_pass cmp k ys = merge_by cmp ?as (take k ?bs) @ merge_pass cmp k ?D"
    using assms(2,3) D by (subst merge_pass.simps) simp
  have "mset (?T @ ?D) = mset (os @ ys)"
    by (metis (no_types, lifting) ab append_take_drop_id merge_by_mset mset_append add.assoc)
  then have st: "set (?T @ ?D) = set xs" using m(7) by (metis set_mset_mset)
  have "passing old h0 cmp k xs (h', list', tail', q', nmerges + 1) ?T ?D (Suc nm)"
    unfolding passing_def prod.case
    using r(2) m(5,10,11) st lt mp unfolding merging_def by (simp add: algebra_simps)
  then show "returns (then_run (sort_skip adv old h (int k) p) (\<lambda>(psize, q).
          then_run (sort_merge adv link cmp old (h, list, tail, p, q, psize, int k))
            (\<lambda>(h, list, tail, p, q, psize, qsize). returned (h, list, tail, q, nmerges + 1))))
          (\<lambda>s'. \<exists>os'. passing old h0 cmp k xs s' os' (drop (2 * k) ys) (Suc nm))"
    unfolding sk then_run_simps prod.case r(1) returns_simps D by blast
qed

lemma pass_returns:
  assumes "path (nx old h) p xs 0" "distinct xs" "\<forall>x\<in>set xs. el h x" "0 < k" "length xs \<le> 2 ^ 30"
  shows "returns (sort_pass adv link ctr cmp old (int k) (h, 0, 0, p, 0))
    (\<lambda>(h', list, tail, p, nmerges). out h' (merge_pass cmp k xs) \<and> only_in (set xs) h h' \<and>
       list = hd0 (merge_pass cmp k xs) \<and> tail = last0 (merge_pass cmp k xs) \<and>
       (nmerges \<le> 1 \<longleftrightarrow> length xs \<le> 2 * k))"
proof -
  define I where "I s \<longleftrightarrow> (\<exists>os ys nm. passing old h cmp k xs s os ys nm)" for s
  show ?thesis unfolding sort_pass_def
  proof (rule returns_while_measure [of I _ _ _
        "\<lambda>(h, list, tail, p, nmerges). length xs - 2 * k * nat nmerges"], goal_cases)
    case 1
    have "passing old h cmp k xs (h, 0, 0, p, 0) [] xs 0"
      unfolding passing_def using assms out_empty by simp
    then show ?case unfolding I_def by blast
  next
    case (2 s)
    then obtain os ys nm where inv: "passing old h cmp k xs s os ys nm" unfolding I_def by blast
    obtain h1 list tail p1 nmerges where s: "s = (h1, list, tail, p1, nmerges)" by (cases s)
    note m = inv [unfolded s]
    have pth: "path (nx old h1) p1 ys 0" and nm: "nmerges = int nm" and ys: "ys = drop (2 * k * nm) xs"
      and rest: "out h1 os" "list = hd0 os" "tail = last0 os" "only_in (set xs) h h1"
        "os @ merge_pass cmp k ys = merge_pass cmp k xs" "nm = 0 \<or> 2 * k * (nm - 1) < length xs"
      using m unfolding passing_def by auto
    show ?case
    proof (cases "ys = []")
      case True
      then have os: "os = merge_pass cmp k xs" using rest(5) by (simp add: merge_pass.simps)
      have le: "length xs \<le> 2 * k * nm" using True ys by simp
      have "nm \<le> 1 \<longleftrightarrow> length xs \<le> 2 * k"
      proof
        assume "nm \<le> 1"
        then have "2 * k * nm \<le> 2 * k * 1" by (intro mult_le_mono le_refl)
        then show "length xs \<le> 2 * k" using le by linarith
      next
        assume "length xs \<le> 2 * k"
        then have "nm = 0 \<or> 2 * k * (nm - 1) < 2 * k * 1" using rest(6) by linarith
        then have "nm = 0 \<or> nm - 1 < 1" using assms(4) nat_mult_less_cancel_disj by blast
        then show "nm \<le> 1" by linarith
      qed
      then show ?thesis using True s nm rest os path_empty [OF pth] by simp
    next
      case False
      then have p1: "p1 \<noteq> 0" and lt: "2 * k * nm < length xs" using path_empty [OF pth] ys by auto
      have dec: "length xs - 2 * k * Suc nm < length xs - 2 * k * nm"
        using lt assms(4) by (intro diff_less_mono2) simp_all
      have "I s' \<and> (case s' of (h, list, tail, p, nmerges) \<Rightarrow> length xs - 2 * k * nat nmerges) <
            length xs - 2 * k * nat nmerges"
        if p: "passing old h cmp k xs s' os' ys' (Suc nm)" for s' os' ys'
      proof
        show "I s'" using p unfolding I_def by blast
        obtain h' l' t' p' n' where s': "s' = (h', l', t', p', n')" by (cases s')
        have "n' = int (Suc nm)" using p unfolding s' passing_def by blast
        then show "(case s' of (h, list, tail, p, nmerges) \<Rightarrow> length xs - 2 * k * nat nmerges) <
            length xs - 2 * k * nat nmerges"
          unfolding s' prod.case nm nat_int using dec by (simp only: nat_int)
      qed
      then have "returns (then_run (sort_skip adv old h1 (int k) p1) (\<lambda>(psize, q).
          then_run (sort_merge adv link cmp old (h1, list, tail, p1, q, psize, int k))
            (\<lambda>(h, list, tail, p, q, psize, qsize). returned (h, list, tail, q, nmerges + 1))))
          (\<lambda>s'. I s' \<and> (case s' of (h, list, tail, p, nmerges) \<Rightarrow> length xs - 2 * k * nat nmerges) <
            length xs - 2 * k * nat nmerges)"
        by (intro returns_mono [OF passing_step(2) [OF m False assms(4,5)]]) blast
      then show ?thesis
        unfolding s prod.case then_run_simps passing_step(1) [OF m False assms(4,5)] returns_simps
        using p1 by simp
    qed
  qed
qed


text \<open>A round turns sorted runs of \<open>k\<close> into sorted runs of \<open>2 k\<close>, and goes on while there are two.\<close>

lemma round_returns:
  assumes "lst h p ys" "ys \<noteq> []" "length ys \<le> 2 ^ 30" "0 < k" "k < 2 ^ 30"
  shows "returns (sort_round adv link close ctr cmp (h, p, t, int k, True))
    (\<lambda>(h', p', t', insize, looping). lst h' p' (merge_pass cmp k ys) \<and> only_in (set ys) h h' \<and>
       t' = last (merge_pass cmp k ys) \<and> insize = int (2 * k) \<and> (looping \<longleftrightarrow> 2 * k < length ys))"
proof -
  have o: "path (nx p h) p ys 0" "\<forall>x\<in>set ys. el h x" using open_law [OF assms(1)] by auto
  let ?zs = "merge_pass cmp k ys"
  obtain h2 list tail p2 nm where r: "sort_pass adv link ctr cmp p (int k) (h, 0, 0, p, 0) =
        returned (h2, list, tail, p2, nm)"
      "out h2 ?zs" "only_in (set ys) h h2" "list = hd0 ?zs" "tail = last0 ?zs" "nm \<le> 1 \<longleftrightarrow> length ys \<le> 2 * k"
    using pass_returns [OF o(1) path_distinct [OF o(1)] o(2) assms(4,3), of cmp] by (auto elim!: returnsE)
  have z: "?zs \<noteq> []" using assms(2) merge_pass_length [of cmp k ys] by force
  have "\<forall>x\<in>set ?zs. el h2 x" using o(2) el_same [OF only_in_same [OF r(3)]] by simp
  moreover have "distinct ?zs"
    using path_distinct [OF o(1)] by (metis merge_pass_mset mset_eq_imp_distinct_iff)
  ultimately obtain h3 where c: "close (hd ?zs) (last ?zs) h2 = returned h3"
      "lst h3 (hd ?zs) ?zs" "only_in (set ?zs) h2 h3"
    using close_law [OF r(2) z] by (auto elim!: returnsE)
  have hl: "list = hd ?zs" "tail = last ?zs" using r(4,5) z by (auto simp: hd0_def)
  have ch: "ctr (int k * 2) = returned (int k * 2)" using assms(5) by (intro ctr_law) simp_all
  have "only_in (set ys) h h3" using only_in_trans [OF r(3) c(3) [unfolded merge_pass_set]] .
  then show ?thesis
    unfolding sort_round_def prod.case r(1) then_run_simps hl c(1) ch returns_simps
    using c(2) r(6) by (simp add: not_le)
qed

text \<open>
  The number of elements is at most \<open>2 ^ 30\<close>: with more, \<open>insize *= 2\<close> leaves the range of
  \<open>int\<close>.
\<close>

definition sorting :: "(addr \<Rightarrow> 'k::linorder) \<Rightarrow> links \<Rightarrow> addr list \<Rightarrow> links \<times> addr \<times> addr \<times> int \<times> bool \<Rightarrow>
    addr list \<Rightarrow> nat \<Rightarrow> bool" where
  "sorting key h0 xs s ys k \<longleftrightarrow>
     (case s of (h, list, tail, insize, looping) \<Rightarrow>
        lst h list ys \<and> insize = int k \<and> 0 < k \<and> only_in (set xs) h0 h \<and> mset ys = mset xs \<and>
        blocks_sorted key k ys \<and> (\<forall>c. filter (\<lambda>x. key x = c) ys = filter (\<lambda>x. key x = c) xs) \<and>
        (if looping then k = 1 \<or> k < length xs else length xs \<le> k \<and> tail = last ys))"

lemma sorting_round:
  assumes "sorting key h0 xs (h, list, tail, insize, True) ys k" "xs \<noteq> []" "length xs \<le> 2 ^ 30" "by_key cmp key"
  shows "returns (sort_round adv link close ctr cmp (h, list, tail, insize, True))
    (\<lambda>s'. sorting key h0 xs s' (merge_pass cmp k ys) (2 * k) \<and>
       (snd (snd (snd (snd s'))) \<longrightarrow> 2 * k < length xs))"
proof -
  have m: "lst h list ys" "insize = int k" "0 < k" "only_in (set xs) h0 h" "mset ys = mset xs"
      "blocks_sorted key k ys" "\<forall>c. filter (\<lambda>x. key x = c) ys = filter (\<lambda>x. key x = c) xs"
      "k = 1 \<or> k < length xs"
    using assms(1) unfolding sorting_def by auto
  have len: "length ys = length xs" and st: "set ys = set xs"
    using m(5) by (auto dest: mset_eq_length mset_eq_setD)
  have "ys \<noteq> []" "length ys \<le> 2 ^ 30" "k < 2 ^ 30" using len assms(2,3) m(8) by auto
  from round_returns [OF m(1) this(1,2) m(3) this(3), of cmp tail] show ?thesis
    unfolding m(2)
  proof (rule returns_mono, goal_cases)
    case (1 s')
    obtain h' p' t' i' l' where s': "s' = (h', p', t', i', l')" by (cases s')
    have r: "lst h' p' (merge_pass cmp k ys)" "only_in (set ys) h h'" "t' = last (merge_pass cmp k ys)"
        "i' = int (2 * k)" "l' \<longleftrightarrow> 2 * k < length ys"
      using 1 unfolding s' by simp_all
    have "only_in (set xs) h0 h'" using only_in_trans [OF m(4) r(2) [unfolded st]] .
    moreover have "blocks_sorted key (2 * k) (merge_pass cmp k ys)"
      by (rule merge_pass_sorted [OF assms(4) m(6,3)])
    moreover have "\<forall>c. filter (\<lambda>x. key x = c) (merge_pass cmp k ys) = filter (\<lambda>x. key x = c) xs"
      using merge_pass_stable [OF assms(4) m(6)] m(7) by simp
    ultimately show ?case
      unfolding s' sorting_def prod.case using r m(3,5) len by (simp add: merge_pass_mset)
  qed
qed

lemma sorting_done:
  assumes "sorting key h0 xs (h, list, tail, insize, False) ys k"
  shows "lst h list (sort_key key xs)" "only_in (set xs) h0 h" "tail = last (sort_key key xs)"
proof -
  have y: "lst h list ys" "only_in (set xs) h0 h" "mset ys = mset xs" "blocks_sorted key k ys"
      "\<forall>c. filter (\<lambda>x. key x = c) ys = filter (\<lambda>x. key x = c) xs" "length xs \<le> k" "tail = last ys"
    using assms unfolding sorting_def by auto
  have "length ys \<le> k" using mset_eq_length [OF y(3)] y(6) by simp
  then have "sort_key key xs = ys" using blocks_sorted_whole [OF y(4)] sorted_stable_unique [OF y(3,5)] by blast
  then show "lst h list (sort_key key xs)" "only_in (set xs) h0 h" "tail = last (sort_key key xs)"
    using y(1,2,7) by simp_all
qed

theorem sort_list_returns:
  assumes "lst h p xs" "length xs \<le> 2 ^ 30" "by_key cmp key"
  shows "returns (sort_list adv link close ctr cmp h p)
    (\<lambda>(h', p', t'). lst h' p' (sort_key key xs) \<and> t' = last0 (sort_key key xs) \<and> only_in (set xs) h h')"
proof (cases "p = 0")
  case True
  have "xs = []" using open_law [OF assms(1)] path_empty [of _ p xs] True by blast
  then show ?thesis using True assms(1) by (simp add: sort_list_def)
next
  case p0: False
  have ne: "xs \<noteq> []" using open_law [OF assms(1)] path_empty [of _ p xs] p0 by blast
  define I where "I s \<longleftrightarrow> (\<exists>ys k. sorting key h xs s ys k)" for s
  have "returns (while_run (\<lambda>(h, list, tail, insize, looping). returned looping) (sort_round adv link close ctr cmp)
      (h, p, 0, 1, True)) (\<lambda>s. I s \<and> \<not> snd (snd (snd (snd s))))"
  proof (rule returns_while_measure [of I _ _ _
        "\<lambda>(h, list, tail, insize, looping). if looping then Suc (length xs - nat insize) else 0"], goal_cases)
    case 1
    have "sorting key h xs (h, p, 0, 1, True) xs 1"
      unfolding sorting_def using assms(1) blocks_of_one [of key xs] by simp
    then show ?case unfolding I_def by blast
  next
    case (2 s)
    obtain h1 list tail insize looping where s: "s = (h1, list, tail, insize, looping)" by (cases s)
    show ?case
    proof (cases looping)
      case False
      then show ?thesis using 2 s by simp
    next
      case True
      then obtain ys k where i: "sorting key h xs (h1, list, tail, insize, True) ys k"
        using 2 unfolding I_def s by auto
      then have k: "insize = int k" "0 < k" unfolding sorting_def by auto
      have "returns (sort_round adv link close ctr cmp (h1, list, tail, insize, True))
          (\<lambda>s'. I s' \<and> (case s' of (h, list, tail, insize, looping) \<Rightarrow>
             if looping then Suc (length xs - nat insize) else 0) < Suc (length xs - nat insize))"
      proof (rule returns_mono [OF sorting_round [OF i ne assms(2,3)]], goal_cases)
        case (1 s')
        obtain h' p' t' i' l' where s': "s' = (h', p', t', i', l')" by (cases s')
        have "I s'" using 1 unfolding I_def by blast
        moreover have "i' = int (2 * k)" using 1 unfolding s' sorting_def by blast
        moreover have "l' \<Longrightarrow> 2 * k < length xs" using 1 unfolding s' by simp
        moreover have "length xs - 2 * k < length xs - k" if "2 * k < length xs" using that k(2) by linarith
        ultimately show ?case unfolding s' prod.case k(1) by (simp add: nat_mult_distrib)
      qed
      then show ?thesis using True s by simp
    qed
  qed
  then obtain h' p' t' ins ys k where w: "while_run (\<lambda>(h, list, tail, insize, looping). returned looping)
        (sort_round adv link close ctr cmp) (h, p, 0, 1, True) = returned (h', p', t', ins, False)"
      "sorting key h xs (h', p', t', ins, False) ys k"
    unfolding I_def by (auto elim!: returnsE)
  have "sort_key key xs \<noteq> []" using ne by (metis length_0_conv length_sort)
  then show ?thesis using w(1) sorting_done [OF w(2)] p0 by (simp add: sort_list_def)
qed

text \<open>The macros of \<open>utlist.h\<close> keep the head only.\<close>

lemma sort_head_returns:
  assumes "lst h p xs" "length xs \<le> 2 ^ 30" "by_key cmp key"
  shows "returns (then_run (sort_list adv link close ctr cmp h p) (\<lambda>(h, list, tail). returned (h, list)))
    (\<lambda>(h', p'). lst h' p' (sort_key key xs) \<and> only_in (set xs) h h')"
  using sort_list_returns [OF assms] by (auto elim!: returnsE)

end

end
