(* ===== verification/Link_Ops.thy ===== *)
theory Link_Ops
  imports Merge_Sort
begin

text \<open>
  What the three kinds of list of \<open>utlist.h\<close> have in common.  The operations are a datatype, and
  their meaning is a function on plain lists of addresses; \<open>linked_list\<close> is the interface that
  each kind of list provides, and inside it every program of operations is proved to compute
  what the function on lists says.  \<open>seek\<close> is the loop that most macros walk a list with.
\<close>

section \<open>Walking\<close>

definition seek :: "links \<Rightarrow> (addr \<Rightarrow> bool) \<Rightarrow> addr \<Rightarrow> addr run" where
  "seek h P =
     while_run (\<lambda>t. then_run (get_next h t) (\<lambda>n. returned (P n))) (get_next h)"

lemma seek_returns:
  assumes "path (nexts h) p (p # as) n" "\<forall>a\<in>set as. P a" "\<not> P n"
  shows "seek h P p = returned (last (p # as))"
  using assms
proof (induction as arbitrary: p)
  case Nil
  then show ?case by (simp add: seek_def while_run_step link_simps)
next
  case (Cons a as)
  then have n: "p \<noteq> 0" "nexts h p = Some a" "P a" "path (nexts h) a (a # as) n" by auto
  then have "seek h P p = seek h P a" by (simp add: seek_def while_run_step link_simps)
  then show ?case using Cons n(4) by simp
qed

text \<open>The last of the leading elements that satisfy \<open>P\<close>, in a list that ends in \<open>z\<close>.\<close>

lemma seek_lower_bound:
  assumes "path (nexts h) x (x # as) z" "z \<notin> set as"
  shows "seek h (\<lambda>n. n \<noteq> z \<and> P n) x = returned (last (x # takeWhile P as))"
proof -
  have "path (nexts h) x ((x # takeWhile P as) @ dropWhile P as) z" using assms(1) by simp
  then obtain r where r: "path (nexts h) x (x # takeWhile P as) r" "path (nexts h) r (dropWhile P as) z"
    unfolding path_append by blast
  have "\<forall>a\<in>set (takeWhile P as). a \<noteq> z \<and> P a"
    using assms(2) by (metis set_takeWhileD)
  moreover have "\<not> (r \<noteq> z \<and> P r)"
    using r(2) hd_dropWhile [of P as] by (cases "dropWhile P as") auto
  ultimately show ?thesis by (intro seek_returns [OF r(1)])
qed

lemma insert_position:
  assumes "takeWhile P xs \<noteq> []"
  obtains as t where "takeWhile P xs = as @ [t]" "xs = as @ t # dropWhile P xs" "last0 (takeWhile P xs) = t"
proof (cases "takeWhile P xs" rule: rev_cases)
  case (snoc as t)
  show ?thesis
  proof (rule that [OF snoc])
    show "xs = as @ t # dropWhile P xs"
      using takeWhile_dropWhile_id [of P xs] unfolding snoc by simp
    show "last0 (takeWhile P xs) = t" unfolding snoc by simp
  qed
qed (use assms in simp)

text \<open>\<open>for (el = head; el; el = el->next)\<close>, with a body that may break out of the loop.\<close>

definition foreach ::
  "(links \<Rightarrow> addr \<Rightarrow> addr run) \<Rightarrow> links \<Rightarrow> (addr \<Rightarrow> bool) \<Rightarrow> addr \<Rightarrow> addr run" where
  "foreach nxt h brk = while_run (\<lambda>el. returned (el \<noteq> 0 \<and> \<not> brk el)) (nxt h)"

definition count_each :: "(links \<Rightarrow> addr \<Rightarrow> addr run) \<Rightarrow> links \<Rightarrow> addr \<Rightarrow> int run" where
  "count_each nxt h head =
     then_run
       (while_run (\<lambda>(el, counter). returned (el \<noteq> 0))
         (\<lambda>(el, counter). then_run (chk_int (counter + 1)) (\<lambda>counter.
            then_run (nxt h el) (\<lambda>n. returned (n, counter))))
         (head, 0))
       (\<lambda>(el, counter). returned counter)"

text \<open>
  The safe variant reads the next pointer before the body runs, so the body may unlink and
  release the element; \<open>body\<close> acts on the links and the head.
\<close>

definition foreach_safe ::
  "(links \<Rightarrow> addr \<Rightarrow> addr run) \<Rightarrow> (addr \<Rightarrow> links \<Rightarrow> addr \<Rightarrow> (links \<times> addr) run) \<Rightarrow>
   links \<Rightarrow> addr \<Rightarrow> (links \<times> addr) run" where
  "foreach_safe nxt body h head =
     then_run
       (while_run (\<lambda>(h, head, el). returned (el \<noteq> 0))
         (\<lambda>(h, head, el). then_run (nxt h el) (\<lambda>tmp.
            then_run (body el h head) (\<lambda>(h, head). returned (h, head, tmp))))
         (h, head, head))
       (\<lambda>(h, head, el). returned (h, head))"

text \<open>The elements in order, as \<open>nxt\<close> visits them.\<close>

fun visits :: "(addr \<Rightarrow> addr run) \<Rightarrow> addr \<Rightarrow> addr list \<Rightarrow> bool" where
  "visits f p [] \<longleftrightarrow> p = 0"
| "visits f p (x # xs) \<longleftrightarrow> p = x \<and> x \<noteq> 0 \<and> (\<exists>n. f x = returned n \<and> visits f n xs)"

lemma visits_path: "path (nexts h) p xs 0 \<Longrightarrow> visits (get_next h) p xs"
  by (induction xs arbitrary: p) (auto simp: link_simps)

lemma foreach_returns:
  "visits (nxt h) p xs \<Longrightarrow> foreach nxt h brk p = returned (hd0 (dropWhile (\<lambda>x. \<not> brk x) xs))"
proof (induction xs arbitrary: p)
  case Nil
  then show ?case by (simp add: foreach_def while_run_step)
next
  case (Cons x xs)
  then obtain n where n: "p = x" "x \<noteq> 0" "nxt h x = returned n" "visits (nxt h) n xs" by auto
  show ?case
  proof (cases "brk x")
    case True
    then show ?thesis using n by (simp add: foreach_def while_run_step)
  next
    case False
    then have "foreach nxt h brk p = foreach nxt h brk n"
      using n by (simp add: foreach_def while_run_step)
    then show ?thesis using Cons.IH n False by simp
  qed
qed

lemma count_each_returns:
  assumes "visits (nxt h) p xs" "length xs < 2 ^ 31"
  shows "count_each nxt h p = returned (int (length xs))"
proof -
  let ?w = "while_run (\<lambda>(el, counter). returned (el \<noteq> 0))
         (\<lambda>(el, counter). then_run (chk_int (counter + 1)) (\<lambda>counter.
            then_run (nxt h el) (\<lambda>n. returned (n, counter))))"
  have "?w (p, int c) = returned (0, int (c + length xs))" if "c + length xs < 2 ^ 31" for c
    using assms(1) that
  proof (induction xs arbitrary: p c)
    case Nil
    then show ?case by (simp add: while_run_step)
  next
    case (Cons x xs)
    then obtain n where n: "p = x" "x \<noteq> 0" "nxt h x = returned n" "visits (nxt h) n xs" by auto
    have "chk_int (int c + 1) = returned (int c + 1)"
      using Cons.prems(2) by (simp add: chk_int_def fits_int_def)
    then have "?w (p, int c) = ?w (n, int (Suc c))"
      using n by (simp add: while_run_step add.commute)
    then show ?case using Cons.IH [OF n(4), of "Suc c"] Cons.prems(2) by simp
  qed
  from this [of 0] show ?thesis using assms(2) by (simp add: count_each_def)
qed

lemma foreach_safe_filters:
  assumes "R h p xs" "\<And>h p xs. R h p xs \<Longrightarrow> visits (nxt h) p xs"
    and "\<And>h p as x bs. R h p (as @ x # bs) \<Longrightarrow> nxt h x = returned (hd0 bs) \<and> x \<noteq> 0 \<and> distinct (as @ x # bs)"
    and "\<And>h p xs x. R h p xs \<Longrightarrow> x \<in> set xs \<Longrightarrow> returns (del x h p) (\<lambda>(h', p'). R h' p' (remove1 x xs))"
  shows "returns (foreach_safe nxt (\<lambda>el h head. if P el then del el h head else returned (h, head)) h p)
    (\<lambda>(h', p'). R h' p' (filter (\<lambda>x. \<not> P x) xs))"
proof -
  let ?w = "while_run (\<lambda>(h, head, el). returned (el \<noteq> 0))
         (\<lambda>(h, head, el). then_run (nxt h el) (\<lambda>tmp.
            then_run (if P el then del el h head else returned (h, head)) (\<lambda>(h, head). returned (h, head, tmp))))"
  have w: "returns (?w (h, p, hd0 ys)) (\<lambda>(h', p', el). R h' p' (filter (\<lambda>x. \<not> P x) (ks @ ys)))"
    if "R h p (ks @ ys)" "\<forall>k\<in>set ks. \<not> P k" for ks ys h p
    using that
  proof (induction ys arbitrary: h p ks)
    case Nil
    then show ?case by (simp add: while_run_step)
  next
    case (Cons y ys)
    note n = assms(3) [OF Cons.prems(1)]
    show ?case
    proof (cases "P y")
      case True
      obtain h1 p1 where d: "del y h p = returned (h1, p1)" "R h1 p1 (remove1 y (ks @ y # ys))"
        using assms(4) [OF Cons.prems(1), of y] by (auto elim!: returnsE)
      have "remove1 y (ks @ y # ys) = ks @ ys" using n by (auto simp: remove1_append)
      then show ?thesis using Cons.IH [of h1 p1 ks] Cons.prems(2) d n True by (simp add: while_run_step)
    next
      case False
      then show ?thesis using Cons.IH [of h p "ks @ [y]"] Cons.prems n by (simp add: while_run_step)
    qed
  qed
  have "p = hd0 xs" using assms(2) [OF assms(1)] by (cases xs) auto
  then show ?thesis using w [of h p "[]" xs] assms(1) by (auto simp: foreach_safe_def elim!: returnsE)
qed

section \<open>Operations and their meaning\<close>

datatype link_op =
  Prepend addr
| Append addr
| Delete addr
| Replace_elem addr addr
| Prepend_elem addr addr
| Append_elem addr addr
| Insert_inorder addr
| Sort_all

fun added :: "link_op \<Rightarrow> addr set" where
  "added (Prepend e) = {e}"
| "added (Append e) = {e}"
| "added (Delete d) = {}"
| "added (Replace_elem x e) = {e}"
| "added (Prepend_elem x e) = {e}"
| "added (Append_elem x e) = {e}"
| "added (Insert_inorder e) = {e}"
| "added Sort_all = {}"

definition before :: "addr \<Rightarrow> addr list \<Rightarrow> addr list" where
  "before x xs = takeWhile (\<lambda>y. y \<noteq> x) xs"

definition behind :: "addr \<Rightarrow> addr list \<Rightarrow> addr list" where
  "behind x xs = tl (dropWhile (\<lambda>y. y \<noteq> x) xs)"

text \<open>
  \<open>None\<close>: the caller has broken the rules of the macros (an element that is already in the
  list is added, an element that is not in the list is named).
\<close>

fun link_spec :: "(addr \<Rightarrow> 'k::linorder) \<Rightarrow> link_op \<Rightarrow> addr list \<Rightarrow> addr list option" where
  "link_spec key (Prepend e) xs = (if e \<notin> set xs then Some (e # xs) else None)"
| "link_spec key (Append e) xs = (if e \<notin> set xs then Some (xs @ [e]) else None)"
| "link_spec key (Delete d) xs = (if d \<in> set xs then Some (remove1 d xs) else None)"
| "link_spec key (Replace_elem x e) xs =
     (if x \<in> set xs \<and> e \<notin> set xs then Some (before x xs @ e # behind x xs) else None)"
| "link_spec key (Prepend_elem x e) xs =
     (if e \<in> set xs then None
      else if x = 0 then Some (xs @ [e])
      else if x \<in> set xs then Some (before x xs @ e # x # behind x xs) else None)"
| "link_spec key (Append_elem x e) xs =
     (if e \<in> set xs then None
      else if x = 0 then Some (e # xs)
      else if x \<in> set xs then Some (before x xs @ x # e # behind x xs) else None)"
| "link_spec key (Insert_inorder e) xs =
     (if e \<notin> set xs
      then Some (takeWhile (\<lambda>x. key x < key e) xs @ e # dropWhile (\<lambda>x. key x < key e) xs) else None)"
| "link_spec key Sort_all xs = (if length xs \<le> 2 ^ 30 then Some (sort_key key xs) else None)"

fun links_spec :: "(addr \<Rightarrow> 'k::linorder) \<Rightarrow> link_op list \<Rightarrow> addr list \<Rightarrow> addr list option" where
  "links_spec key [] xs = Some xs"
| "links_spec key (op # ops) xs = Option.bind (link_spec key op xs) (links_spec key ops)"

fun run_links ::
  "(link_op \<Rightarrow> links \<Rightarrow> addr \<Rightarrow> (links \<times> addr) run) \<Rightarrow> link_op list \<Rightarrow> links \<Rightarrow> addr \<Rightarrow> (links \<times> addr) run" where
  "run_links step [] h p = returned (h, p)"
| "run_links step (op # ops) h p = then_run (step op h p) (\<lambda>(h, p). run_links step ops h p)"

text \<open>A comparison function that orders by a key, and tells smaller from equal.\<close>

definition three_way :: "(addr \<Rightarrow> addr \<Rightarrow> int) \<Rightarrow> (addr \<Rightarrow> 'k::linorder) \<Rightarrow> bool" where
  "three_way cmp key \<longleftrightarrow> (\<forall>x y. (cmp x y < 0 \<longleftrightarrow> key x < key y) \<and> (0 < cmp x y \<longleftrightarrow> key y < key x))"

lemma three_way_by_key: "three_way cmp key \<Longrightarrow> by_key cmp key"
  unfolding three_way_def by_key_def by (metis not_le)

lemma three_way_less: "three_way cmp key \<Longrightarrow> 0 \<le> cmp x y \<longleftrightarrow> \<not> key x < key y"
  unfolding three_way_def by (metis not_le)

lemma split_at:
  assumes "x \<in> set xs" "distinct xs"
  shows "xs = before x xs @ x # behind x xs" "x \<notin> set (before x xs)"
    "remove1 x xs = before x xs @ behind x xs"
proof -
  have "dropWhile (\<lambda>y. y \<noteq> x) xs \<noteq> []" using assms(1) by (simp add: dropWhile_eq_Nil_conv)
  then have "dropWhile (\<lambda>y. y \<noteq> x) xs = x # behind x xs"
    unfolding behind_def using hd_dropWhile [of "\<lambda>y. y \<noteq> x" xs]
    by (cases "dropWhile (\<lambda>y. y \<noteq> x) xs") auto
  then show eq: "xs = before x xs @ x # behind x xs"
    unfolding before_def by (metis takeWhile_dropWhile_id)
  show nb: "x \<notin> set (before x xs)" unfolding before_def by (metis (full_types) set_takeWhileD)
  have "remove1 x (before x xs @ x # behind x xs) = before x xs @ behind x xs"
    using nb by (simp add: remove1_append)
  then show "remove1 x xs = before x xs @ behind x xs" using eq by simp
qed

lemma parts_subset:
  "set (before x xs) \<subseteq> set xs" "set (behind x xs) \<subseteq> set xs"
  "set (takeWhile P xs) \<subseteq> set xs" "set (dropWhile P xs) \<subseteq> set xs"
  unfolding before_def behind_def
  by (auto dest: set_takeWhileD set_dropWhileD, metis list.sel(2) list.set_sel(2) set_dropWhileD)

lemma link_spec_set: "link_spec key op xs = Some ys \<Longrightarrow> set ys \<subseteq> set xs \<union> added op"
  by (cases op) (auto split: if_splits dest: parts_subset [THEN subsetD] set_remove1_subset [THEN subsetD])

section \<open>The interface of a kind of list\<close>

locale linked_list = sort_links nx adv link close ctr el out lst
  for nx :: "addr \<Rightarrow> links \<Rightarrow> addr \<Rightarrow> addr option"
    and adv :: "addr \<Rightarrow> links \<Rightarrow> addr \<Rightarrow> addr run"
    and link :: "addr \<Rightarrow> addr \<Rightarrow> links \<Rightarrow> links run"
    and close :: "addr \<Rightarrow> addr \<Rightarrow> links \<Rightarrow> links run"
    and ctr :: "int \<Rightarrow> int run"
    and el :: "links \<Rightarrow> addr \<Rightarrow> bool"
    and out :: "links \<Rightarrow> addr list \<Rightarrow> bool"
    and lst :: "links \<Rightarrow> addr \<Rightarrow> addr list \<Rightarrow> bool" +
  fixes step :: "(addr \<Rightarrow> addr \<Rightarrow> int) \<Rightarrow> link_op \<Rightarrow> links \<Rightarrow> addr \<Rightarrow> (links \<times> addr) run"
  assumes sort_step: "step cmp Sort_all h p =
      then_run (sort_list adv link close ctr cmp h p) (\<lambda>(h, list, tail). returned (h, list))"
    and step_at_0: "step cmp (Prepend_elem 0 e) = step cmp (Append e)" "step cmp (Append_elem 0 e) = step cmp (Prepend e)"
    and step_prepend: "lst h p xs \<Longrightarrow> el h e \<Longrightarrow> e \<notin> set xs \<Longrightarrow>
      returns (step cmp (Prepend e) h p) (\<lambda>(h', p'). lst h' p' (e # xs) \<and> only_in (insert e (set xs)) h h')"
    and step_append: "lst h p xs \<Longrightarrow> el h e \<Longrightarrow> e \<notin> set xs \<Longrightarrow>
      returns (step cmp (Append e) h p) (\<lambda>(h', p'). lst h' p' (xs @ [e]) \<and> only_in (insert e (set xs)) h h')"
    and step_delete: "lst h p xs \<Longrightarrow> x \<in> set xs \<Longrightarrow>
      returns (step cmp (Delete x) h p) (\<lambda>(h', p'). lst h' p' (remove1 x xs) \<and> only_in (set xs) h h')"
    and step_replace: "lst h p (as @ x # bs) \<Longrightarrow> el h e \<Longrightarrow> e \<notin> set (as @ x # bs) \<Longrightarrow>
      returns (step cmp (Replace_elem x e) h p) (\<lambda>(h', p'). lst h' p' (as @ e # bs) \<and> only_in (insert e (set (as @ x # bs))) h h')"
    and step_prepend_elem: "lst h p (as @ x # bs) \<Longrightarrow> el h e \<Longrightarrow> e \<notin> set (as @ x # bs) \<Longrightarrow>
      returns (step cmp (Prepend_elem x e) h p) (\<lambda>(h', p'). lst h' p' (as @ e # x # bs) \<and> only_in (insert e (set (as @ x # bs))) h h')"
    and step_append_elem: "lst h p (as @ x # bs) \<Longrightarrow> el h e \<Longrightarrow> e \<notin> set (as @ x # bs) \<Longrightarrow>
      returns (step cmp (Append_elem x e) h p) (\<lambda>(h', p'). lst h' p' (as @ x # e # bs) \<and> only_in (insert e (set (as @ x # bs))) h h')"
    and step_insert: "lst h p xs \<Longrightarrow> el h e \<Longrightarrow> e \<notin> set xs \<Longrightarrow> three_way cmp (key :: addr \<Rightarrow> int) \<Longrightarrow>
      returns (step cmp (Insert_inorder e) h p) (\<lambda>(h', p'). lst h' p' (takeWhile (\<lambda>x. key x < key e) xs @ e # dropWhile (\<lambda>x. key x < key e) xs) \<and> only_in (insert e (set xs)) h h')"
begin

lemma lst_distinct: "lst h p xs \<Longrightarrow> distinct xs"
  using open_law path_distinct by blast

lemma lst_nonzero: "lst h p xs \<Longrightarrow> 0 \<notin> set xs"
  using open_law path_nonzero by blast

text \<open>The elements are visited in order, each once.\<close>

lemma lst_visits: "lst h p xs \<Longrightarrow> visits (adv p h) p xs"
proof -
  assume l: "lst h p xs"
  have "visits (adv p h) q ys" if "path (nx p h) q ys 0" "\<forall>y\<in>set ys. el h y" for q ys
    using that
  proof (induction ys arbitrary: q)
    case (Cons y ys)
    then obtain n where n: "q = y" "y \<noteq> 0" "nx p h y = Some n" "path (nx p h) n ys 0" by auto
    have "adv p h y = returned n" using adv_law [OF _ n(3)] Cons.prems(2) by simp
    then show ?case using n Cons.IH [OF n(4)] Cons.prems(2) by simp
  qed simp
  then show "visits (adv p h) p xs" using open_law [OF l] by blast
qed

lemma step_law:
  assumes "lst h p xs" "\<forall>e\<in>added op. el h e" "three_way cmp (key :: addr \<Rightarrow> int)" "op \<noteq> Sort_all"
    and "link_spec key op xs = Some ys"
  shows "returns (step cmp op h p) (\<lambda>(h', p'). lst h' p' ys \<and> only_in (set xs \<union> added op) h h')"
proof -
  note sp = split_at(1) [OF _ lst_distinct [OF assms(1)]]
  show ?thesis
  proof (cases op)
    case (Replace_elem x e)
    then have x: "x \<in> set xs" "e \<notin> set xs" "ys = before x xs @ e # behind x xs"
      using assms(5) by (auto split: if_splits)
    show ?thesis
      using step_replace [of h p "before x xs" x "behind x xs" e cmp, folded sp [OF x(1)]]
        assms(1,2) x Replace_elem by simp
  next
    case (Prepend_elem x e)
    show ?thesis
    proof (cases "x = 0")
      case True
      then show ?thesis using step_append [OF assms(1)] assms(2,5) Prepend_elem
        by (auto simp: step_at_0 split: if_splits)
    next
      case False
      then have x: "x \<in> set xs" "e \<notin> set xs" "ys = before x xs @ e # x # behind x xs"
        using assms(5) Prepend_elem by (auto split: if_splits)
      show ?thesis
        using step_prepend_elem [of h p "before x xs" x "behind x xs" e cmp, folded sp [OF x(1)]]
          assms(1,2) x Prepend_elem by simp
    qed
  next
    case (Append_elem x e)
    show ?thesis
    proof (cases "x = 0")
      case True
      then show ?thesis using step_prepend [OF assms(1)] assms(2,5) Append_elem
        by (auto simp: step_at_0 split: if_splits)
    next
      case False
      then have x: "x \<in> set xs" "e \<notin> set xs" "ys = before x xs @ x # e # behind x xs"
        using assms(5) Append_elem by (auto split: if_splits)
      show ?thesis
        using step_append_elem [of h p "before x xs" x "behind x xs" e cmp, folded sp [OF x(1)]]
          assms(1,2) x Append_elem by simp
    qed
  qed (use assms step_prepend step_append step_delete step_insert in \<open>auto split: if_splits\<close>)
qed

lemma any_step:
  assumes "lst h p xs" "\<forall>e\<in>added op. el h e" "three_way cmp (key :: addr \<Rightarrow> int)" "link_spec key op xs = Some ys"
  shows "returns (step cmp op h p) (\<lambda>(h', p'). lst h' p' ys \<and> only_in (set xs \<union> added op) h h')"
proof (cases "op = Sort_all")
  case True
  then have "length xs \<le> 2 ^ 30" "ys = sort_key key xs" using assms(4) by (auto split: if_splits)
  then show ?thesis
    using sort_head_returns [OF assms(1) _ three_way_by_key [OF assms(3)]] True by (simp add: sort_step)
next
  case False
  then show ?thesis using step_law assms by blast
qed

lemma program_refines:
  assumes "lst h p xs" "\<forall>op\<in>set ops. \<forall>e\<in>added op. el h e" "three_way cmp (key :: addr \<Rightarrow> int)"
    and "links_spec key ops xs = Some ys"
  shows "returns (run_links (step cmp) ops h p)
    (\<lambda>(h', p'). lst h' p' ys \<and> only_in (set xs \<union> (\<Union>op\<in>set ops. added op)) h h')"
  using assms(1,2,4)
proof (induction ops arbitrary: h p xs)
  case Nil
  then show ?case by simp
next
  case (Cons op ops)
  obtain zs where zs: "link_spec key op xs = Some zs" "links_spec key ops zs = Some ys"
    using Cons.prems(3) by (auto simp: bind_eq_Some_conv)
  obtain h1 p1 where s: "step cmp op h p = returned (h1, p1)" "lst h1 p1 zs"
      "only_in (set xs \<union> added op) h h1"
    using any_step [OF Cons.prems(1) _ assms(3) zs(1)] Cons.prems(2) by (auto elim!: returnsE)
  have "\<forall>op\<in>set ops. \<forall>e\<in>added op. el h1 e"
    using Cons.prems(2) el_same [OF only_in_same [OF s(3)]] by simp
  from Cons.IH [OF s(2) this zs(2)] obtain h2 p2 where r: "run_links (step cmp) ops h1 p1 = returned (h2, p2)"
      "lst h2 p2 ys" "only_in (set zs \<union> (\<Union>op\<in>set ops. added op)) h1 h2"
    by (auto elim!: returnsE)
  let ?A = "set xs \<union> (\<Union>op\<in>set (op # ops). added op)"
  have "only_in ?A h h1" by (rule only_in_mono [OF s(3)]) auto
  moreover have "only_in ?A h1 h2" by (rule only_in_mono [OF r(3)]) (use link_spec_set [OF zs(1)] in auto)
  ultimately show ?case using s(1) r(1,2) only_in_trans by simp
qed

end

end
