(* ===== verification/Ut_List.thy ===== *)
theory Ut_List
  imports Link_Ops
begin

text \<open>
  The singly linked lists of \<open>utlist.h\<close> and the stack of \<open>utstack.h\<close>.  A macro that assigns to
  \<open>head\<close> returns the new head beside the changed links.  The model is that of the macros for
  compilers with \<open>__typeof\<close>; an element needs only a \<open>next\<close> field.
\<close>

section \<open>Singly linked lists\<close>

definition LL_PREPEND2 :: "addr \<Rightarrow> links \<Rightarrow> addr \<Rightarrow> (links \<times> addr) run" where
  "LL_PREPEND2 add h head =
     then_run (set_next add head h) (\<lambda>h. returned (h, add))"

definition LL_CONCAT2 :: "addr \<Rightarrow> links \<Rightarrow> addr \<Rightarrow> (links \<times> addr) run" where
  "LL_CONCAT2 head2 h head1 =
     (if head1 \<noteq> 0 then
        then_run (seek h (\<lambda>n. n \<noteq> 0) head1) (\<lambda>tmp.
        then_run (set_next tmp head2 h) (\<lambda>h. returned (h, head1)))
      else returned (h, head2))"

definition LL_APPEND2 :: "addr \<Rightarrow> links \<Rightarrow> addr \<Rightarrow> (links \<times> addr) run" where
  "LL_APPEND2 add h head =
     then_run (set_next add 0 h) (\<lambda>h.
     if head \<noteq> 0 then
       then_run (seek h (\<lambda>n. n \<noteq> 0) head) (\<lambda>tmp.
       then_run (set_next tmp add h) (\<lambda>h. returned (h, head)))
     else returned (h, add))"

definition LL_DELETE2 :: "addr \<Rightarrow> links \<Rightarrow> addr \<Rightarrow> (links \<times> addr) run" where
  "LL_DELETE2 del h head =
     (if head = del then then_run (get_next h head) (\<lambda>n. returned (h, n))
      else
        then_run (seek h (\<lambda>n. n \<noteq> 0 \<and> n \<noteq> del) head) (\<lambda>tmp.
        then_run (get_next h tmp) (\<lambda>n.
        if n \<noteq> 0 then
          then_run (get_next h del) (\<lambda>m.
          then_run (set_next tmp m h) (\<lambda>h. returned (h, head)))
        else returned (h, head))))"

definition LL_COUNT2 :: "links \<Rightarrow> addr \<Rightarrow> int run" where
  "LL_COUNT2 h head = count_each get_next h head"

definition LL_FOREACH_SAFE2 ::
  "(addr \<Rightarrow> links \<Rightarrow> addr \<Rightarrow> (links \<times> addr) run) \<Rightarrow> links \<Rightarrow> addr \<Rightarrow> (links \<times> addr) run" where
  "LL_FOREACH_SAFE2 body h head = foreach_safe get_next body h head"

definition LL_SEARCH_SCALAR2 :: "(addr \<Rightarrow> 'v) \<Rightarrow> 'v \<Rightarrow> links \<Rightarrow> addr \<Rightarrow> addr run" where
  "LL_SEARCH_SCALAR2 field val h head = foreach get_next h (\<lambda>out. field out = val) head"

definition LL_SEARCH2 :: "(addr \<Rightarrow> 'e \<Rightarrow> int) \<Rightarrow> 'e \<Rightarrow> links \<Rightarrow> addr \<Rightarrow> addr run" where
  "LL_SEARCH2 cmp elt h head = foreach get_next h (\<lambda>out. cmp out elt = 0) head"

definition LL_LOWER_BOUND2 :: "(addr \<Rightarrow> 'e \<Rightarrow> int) \<Rightarrow> 'e \<Rightarrow> links \<Rightarrow> addr \<Rightarrow> addr run" where
  "LL_LOWER_BOUND2 cmp like h head =
     (if head = 0 \<or> cmp head like \<ge> 0 then returned 0
      else seek h (\<lambda>n. n \<noteq> 0 \<and> \<not> cmp n like \<ge> 0) head)"

definition LL_REPLACE_ELEM2 :: "addr \<Rightarrow> addr \<Rightarrow> links \<Rightarrow> addr \<Rightarrow> (links \<times> addr) run" where
  "LL_REPLACE_ELEM2 el add h head =
     assert_run (head \<noteq> 0) (assert_run (el \<noteq> 0) (assert_run (add \<noteq> 0)
       (then_run (get_next h el) (\<lambda>n.
        then_run (set_next add n h) (\<lambda>h.
        if head = el then returned (h, add)
        else
          then_run (seek h (\<lambda>n. n \<noteq> 0 \<and> n \<noteq> el) head) (\<lambda>tmp.
          then_run (get_next h tmp) (\<lambda>n.
          if n \<noteq> 0 then then_run (set_next tmp add h) (\<lambda>h. returned (h, head))
          else returned (h, head))))))))"

definition LL_PREPEND_ELEM2 :: "addr \<Rightarrow> addr \<Rightarrow> links \<Rightarrow> addr \<Rightarrow> (links \<times> addr) run" where
  "LL_PREPEND_ELEM2 el add h head =
     (if el \<noteq> 0 then
        assert_run (head \<noteq> 0) (assert_run (add \<noteq> 0)
          (then_run (set_next add el h) (\<lambda>h.
           if head = el then returned (h, add)
           else
             then_run (seek h (\<lambda>n. n \<noteq> 0 \<and> n \<noteq> el) head) (\<lambda>tmp.
             then_run (get_next h tmp) (\<lambda>n.
             if n \<noteq> 0 then then_run (set_next tmp add h) (\<lambda>h. returned (h, head))
             else returned (h, head))))))
      else LL_APPEND2 add h head)"

definition LL_APPEND_ELEM2 :: "addr \<Rightarrow> addr \<Rightarrow> links \<Rightarrow> addr \<Rightarrow> (links \<times> addr) run" where
  "LL_APPEND_ELEM2 el add h head =
     (if el \<noteq> 0 then
        assert_run (head \<noteq> 0) (assert_run (add \<noteq> 0)
          (then_run (get_next h el) (\<lambda>n.
           then_run (set_next add n h) (\<lambda>h.
           then_run (set_next el add h) (\<lambda>h. returned (h, head))))))
      else LL_PREPEND2 add h head)"

definition LL_INSERT_INORDER2 :: "(addr \<Rightarrow> addr \<Rightarrow> int) \<Rightarrow> addr \<Rightarrow> links \<Rightarrow> addr \<Rightarrow> (links \<times> addr) run" where
  "LL_INSERT_INORDER2 cmp add h head =
     (if head \<noteq> 0 then
        then_run (LL_LOWER_BOUND2 cmp add h head) (\<lambda>tmp. LL_APPEND_ELEM2 tmp add h head)
      else then_run (set_next add 0 h) (\<lambda>h. returned (h, add)))"

text \<open>The parts of \<open>LL_SORT2\<close> that tell the kinds of list apart.\<close>

definition ll_sort_adv :: "addr \<Rightarrow> links \<Rightarrow> addr \<Rightarrow> addr run" where
  "ll_sort_adv oldhead h p = get_next h p"

definition ll_sort_link :: "addr \<Rightarrow> addr \<Rightarrow> links \<Rightarrow> links run" where
  "ll_sort_link tail e h = (if tail \<noteq> 0 then set_next tail e h else returned h)"

definition ll_sort_close :: "addr \<Rightarrow> addr \<Rightarrow> links \<Rightarrow> links run" where
  "ll_sort_close list tail h = (if tail \<noteq> 0 then set_next tail 0 h else returned h)"

definition LL_SORT2 :: "(addr \<Rightarrow> addr \<Rightarrow> int) \<Rightarrow> links \<Rightarrow> addr \<Rightarrow> (links \<times> addr) run" where
  "LL_SORT2 cmp h list =
     then_run (sort_list ll_sort_adv ll_sort_link ll_sort_close chk_int cmp h list)
       (\<lambda>(h, list, tail). returned (h, list))"

fun LL_step :: "(addr \<Rightarrow> addr \<Rightarrow> int) \<Rightarrow> link_op \<Rightarrow> links \<Rightarrow> addr \<Rightarrow> (links \<times> addr) run" where
  "LL_step cmp (Prepend e) = LL_PREPEND2 e"
| "LL_step cmp (Append e) = LL_APPEND2 e"
| "LL_step cmp (Delete d) = LL_DELETE2 d"
| "LL_step cmp (Replace_elem x e) = LL_REPLACE_ELEM2 x e"
| "LL_step cmp (Prepend_elem x e) = LL_PREPEND_ELEM2 x e"
| "LL_step cmp (Append_elem x e) = LL_APPEND_ELEM2 x e"
| "LL_step cmp (Insert_inorder e) = LL_INSERT_INORDER2 cmp e"
| "LL_step cmp Sort_all = LL_SORT2 cmp"

section \<open>Stack\<close>

definition STACK_TOP :: "addr \<Rightarrow> addr" where
  "STACK_TOP head = head"

definition STACK_EMPTY :: "addr \<Rightarrow> bool" where
  "STACK_EMPTY head \<longleftrightarrow> head = 0"

definition STACK_PUSH2 :: "addr \<Rightarrow> links \<Rightarrow> addr \<Rightarrow> (links \<times> addr) run" where
  "STACK_PUSH2 add h head = then_run (set_next add head h) (\<lambda>h. returned (h, add))"

text \<open>The result is the popped element; the links do not change.\<close>

definition STACK_POP2 :: "links \<Rightarrow> addr \<Rightarrow> (addr \<times> addr) run" where
  "STACK_POP2 h head = then_run (get_next h head) (\<lambda>n. returned (head, n))"

definition STACK_COUNT2 :: "links \<Rightarrow> addr \<Rightarrow> int run" where
  "STACK_COUNT2 h head = count_each get_next h head"

section \<open>The list in memory\<close>

definition ll_el :: "links \<Rightarrow> addr \<Rightarrow> bool" where
  "ll_el h p \<longleftrightarrow> p \<noteq> 0 \<and> nexts h p \<noteq> None"

definition ll :: "links \<Rightarrow> addr \<Rightarrow> addr list \<Rightarrow> bool" where
  "ll h p xs \<longleftrightarrow> path (nexts h) p xs 0"

lemma ll_distinct: "ll h p xs \<Longrightarrow> distinct xs"
  unfolding ll_def by (rule path_distinct)

lemma ll_hd: "ll h p xs \<Longrightarrow> p = hd0 xs"
  unfolding ll_def by (rule path_hd)

lemma ll_el_in: "ll h p xs \<Longrightarrow> x \<in> set xs \<Longrightarrow> ll_el h x"
  unfolding ll_def ll_el_def using path_dom path_nonzero by metis

text \<open>The walk stops at the element whose next one is \<open>x\<close>, or at the last one.\<close>

lemma seek_before:
  assumes "path (nexts h) p (as @ t # bs) 0" "x = hd0 bs" "x \<notin> set (as @ [t])" "0 \<notin> set as"
  shows "seek h (\<lambda>n. n \<noteq> 0 \<and> n \<noteq> x) p = returned t" "x = 0 \<Longrightarrow> seek h (\<lambda>n. n \<noteq> 0) p = returned t"
proof -
  obtain c cs where c: "as @ [t] = c # cs" by (cases "as @ [t]") auto
  have pth: "path (nexts h) p (as @ [t]) x" using assms(1) unfolding assms(2) path_mid by (simp add: path_append)
  then have p: "p = c" using c by simp
  have l: "last (c # cs) = t" using c by (metis last_snoc)
  have nz: "\<forall>a\<in>set cs. a \<noteq> 0 \<and> a \<noteq> x"
  proof -
    have "0 \<notin> set (as @ [t])" using path_nonzero [OF pth] .
    then show ?thesis using assms(3) unfolding c by (metis list.set_intros(2))
  qed
  show "seek h (\<lambda>n. n \<noteq> 0 \<and> n \<noteq> x) p = returned t"
    using seek_returns [of h c cs x "\<lambda>n. n \<noteq> 0 \<and> n \<noteq> x"] pth nz unfolding p c l by blast
  show "seek h (\<lambda>n. n \<noteq> 0) p = returned t" if "x = 0"
    using seek_returns [of h c cs x "\<lambda>n. n \<noteq> 0"] pth nz that unfolding p c l by blast
qed

section \<open>The operations\<close>

lemma LL_PREPEND2_returns:
  "ll h p xs \<Longrightarrow> ll_el h e \<Longrightarrow> e \<notin> set xs \<Longrightarrow>
     returns (LL_PREPEND2 e h p) (\<lambda>(h', p'). ll h' p' (e # xs) \<and> only_in (insert e (set xs)) h h')"
  by (simp add: LL_PREPEND2_def ll_el_def ll_def link_simps)

lemma LL_APPEND2_returns:
  assumes "ll h p xs" "ll_el h e" "e \<notin> set xs"
  shows "returns (LL_APPEND2 e h p) (\<lambda>(h', p'). ll h' p' (xs @ [e]) \<and> only_in (insert e (set xs)) h h')"
proof (cases "xs = []")
  case True
  then show ?thesis using assms by (simp add: LL_APPEND2_def ll_el_def ll_def link_simps)
next
  case False
  then obtain as t where xs: "xs = as @ [t]" by (cases xs rule: rev_cases) auto
  let ?h = "h\<lparr>nexts := (nexts h)(e \<mapsto> 0)\<rparr>"
  have e: "e \<noteq> 0" "nexts h e \<noteq> None" using assms(2) by (auto simp: ll_el_def)
  have p: "path (nexts ?h) p (as @ t # []) 0" using assms(1,3) xs by (simp add: ll_def)
  have t: "t \<noteq> 0" "nexts ?h t \<noteq> None" "t \<noteq> e" using path_nonzero [OF p] path_dom [OF p, of t] assms(3) xs by auto
  have s: "seek ?h (\<lambda>n. n \<noteq> 0) p = returned t"
    by (rule seek_before(2) [OF p _ _ _ refl]) (use path_nonzero [OF p] in auto)
  have "p \<noteq> 0" using path_hd [OF p] path_nonzero [OF p] by (cases as) auto
  moreover have "path ((nexts h)(e \<mapsto> 0, t \<mapsto> e)) p (as @ t # e # []) 0"
    using path_insert [of "nexts h" p as t "[]" e] assms(1,3) e xs by (simp add: ll_def)
  ultimately show ?thesis
    using e t s xs by (simp add: LL_APPEND2_def ll_def link_simps) (auto simp: only_in_def same_nodes_def)
qed

text \<open>Where \<open>x\<close> is not the head, the element \<open>t\<close> in front of it is found.\<close>

lemma found_before:
  assumes "path (nexts h) p (as @ t # x # bs) 0"
  shows "p \<noteq> 0" "p \<noteq> x" "seek h (\<lambda>n. n \<noteq> 0 \<and> n \<noteq> x) p = returned t" "get_next h t = returned x"
    "get_next h x = returned (hd0 bs)" "t \<noteq> 0" "x \<noteq> 0" "nexts h t \<noteq> None" "nexts h x \<noteq> None"
proof -
  have d: "distinct (as @ t # x # bs)" by (rule path_distinct [OF assms])
  have z: "0 \<notin> set (as @ t # x # bs)" by (rule path_nonzero [OF assms])
  have p: "p = hd0 (as @ t # x # bs)" by (rule path_hd [OF assms])
  show "p \<noteq> 0" using p z by (cases as) auto
  show "p \<noteq> x" using p d by (cases as) auto
  show "seek h (\<lambda>n. n \<noteq> 0 \<and> n \<noteq> x) p = returned t"
    by (rule seek_before(1) [OF assms]) (use d z in auto)
  show tx: "t \<noteq> 0" "x \<noteq> 0" using z by auto
  have n: "nexts h t = Some x" "nexts h x = Some (hd0 bs)"
    using path_next [OF assms] path_next [of "nexts h" p "as @ [t]" x bs] assms by simp_all
  show "get_next h t = returned x" "get_next h x = returned (hd0 bs)"
    "nexts h t \<noteq> None" "nexts h x \<noteq> None"
    using n tx by (simp_all add: link_simps)
qed

lemma LL_CONCAT2_returns:
  assumes "ll h p xs" "ll h q ys" "set xs \<inter> set ys = {}"
  shows "returns (LL_CONCAT2 q h p) (\<lambda>(h', p'). ll h' p' (xs @ ys) \<and> only_in (set xs) h h')"
proof (cases "xs = []")
  case True
  then show ?thesis using assms by (simp add: LL_CONCAT2_def ll_def)
next
  case False
  then obtain as t where xs: "xs = as @ [t]" by (cases xs rule: rev_cases) auto
  have p: "path (nexts h) p (as @ t # []) 0" using assms(1) xs by (simp add: ll_def)
  have t: "t \<noteq> 0" "nexts h t \<noteq> None" "t \<notin> set as" "t \<notin> set ys"
    using path_nonzero [OF p] path_dom [OF p, of t] path_mid_notin [OF p] assms(3) xs by auto
  have s: "seek h (\<lambda>n. n \<noteq> 0) p = returned t"
    by (rule seek_before(2) [OF p _ _ _ refl]) (use path_nonzero [OF p] in auto)
  have q: "path (nexts h) q ys 0" "q = hd0 ys" using assms(2) path_hd by (auto simp: ll_def)
  have "path (nexts h) p as t" using p unfolding path_mid by blast
  then have "path ((nexts h)(t \<mapsto> q)) p (as @ t # ys) 0"
    using t q unfolding path_mid by simp
  moreover have "p \<noteq> 0" using path_hd [OF p] path_nonzero [OF p] by (cases as) auto
  ultimately show ?thesis using t s xs by (simp add: LL_CONCAT2_def ll_def link_simps)
qed

lemma LL_DELETE2_returns:
  assumes "ll h p xs" "x \<in> set xs"
  shows "returns (LL_DELETE2 x h p) (\<lambda>(h', p'). ll h' p' (remove1 x xs) \<and> only_in (set xs) h h')"
proof -
  obtain bs as where sp: "xs = as @ x # bs" "remove1 x xs = as @ bs"
    using split_at [OF assms(2) ll_distinct [OF assms(1)]] by metis
  have p: "path (nexts h) p (as @ x # bs) 0" using assms(1) sp(1) by (simp add: ll_def)
  show ?thesis
  proof (cases as rule: rev_cases)
    case Nil
    then show ?thesis using p sp path_hd [OF p]
      unfolding path_mid LL_DELETE2_def by (simp add: ll_def link_simps)
  next
    case (snoc as' t)
    then have q: "path (nexts h) p (as' @ t # x # bs) 0" using p by simp
    then show ?thesis using found_before [OF q] path_remove [OF q] sp snoc
      by (simp add: LL_DELETE2_def ll_def link_simps)
  qed
qed

lemma LL_APPEND_ELEM2_returns:
  assumes "ll h p (as @ x # bs)" "ll_el h e" "e \<notin> set (as @ x # bs)"
  shows "returns (LL_APPEND_ELEM2 x e h p)
    (\<lambda>(h', p'). ll h' p' (as @ x # e # bs) \<and> only_in (insert e (set (as @ x # bs))) h h')"
proof -
  have p: "path (nexts h) p (as @ x # bs) 0" using assms(1) by (simp add: ll_def)
  have x: "x \<noteq> 0" "nexts h x = Some (hd0 bs)" "x \<noteq> e" using p assms(3) unfolding path_mid by auto
  have "p \<noteq> 0" using path_hd [OF p] path_nonzero [OF p] by (cases as) auto
  then show ?thesis using x path_insert [OF p] assms(2,3)
    by (simp add: LL_APPEND_ELEM2_def ll_def ll_el_def link_simps) (auto simp: only_in_def same_nodes_def)
qed

lemma LL_PREPEND_ELEM2_returns:
  assumes "ll h p (as @ x # bs)" "ll_el h e" "e \<notin> set (as @ x # bs)"
  shows "returns (LL_PREPEND_ELEM2 x e h p)
    (\<lambda>(h', p'). ll h' p' (as @ e # x # bs) \<and> only_in (insert e (set (as @ x # bs))) h h')"
proof (cases as rule: rev_cases)
  case Nil
  then show ?thesis using assms
    by (simp add: LL_PREPEND_ELEM2_def ll_def ll_el_def link_simps)
next
  case (snoc as' t)
  let ?h = "h\<lparr>nexts := (nexts h)(e \<mapsto> x)\<rparr>"
  have e: "e \<noteq> 0" "nexts h e \<noteq> None" using assms(2) by (auto simp: ll_el_def)
  have q: "path (nexts h) p (as' @ t # x # bs) 0" using assms(1) snoc by (simp add: ll_def)
  then have "path (nexts ?h) p (as' @ t # x # bs) 0" using assms(3) snoc by simp
  note f = found_before [OF this]
  have "path ((nexts h)(e \<mapsto> x, t \<mapsto> e)) p (as' @ t # e # x # bs) 0"
    using path_insert [OF q e(1)] assms(3) snoc by simp
  then show ?thesis using f e assms(3) snoc
    by (simp add: LL_PREPEND_ELEM2_def ll_def link_simps) (auto simp: only_in_def same_nodes_def)
qed

lemma LL_REPLACE_ELEM2_returns:
  assumes "ll h p (as @ x # bs)" "ll_el h e" "e \<notin> set (as @ x # bs)"
  shows "returns (LL_REPLACE_ELEM2 x e h p)
    (\<lambda>(h', p'). ll h' p' (as @ e # bs) \<and> only_in (insert e (set (as @ x # bs))) h h')"
proof -
  have e: "e \<noteq> 0" "nexts h e \<noteq> None" using assms(2) by (auto simp: ll_el_def)
  have p: "path (nexts h) p (as @ x # bs) 0" using assms(1) by (simp add: ll_def)
  then have x: "get_next h x = returned (hd0 bs)" "x \<noteq> 0" unfolding path_mid by (auto simp: link_simps)
  have p0: "p \<noteq> 0" using path_hd [OF p] path_nonzero [OF p] by (cases as) auto
  show ?thesis
  proof (cases as rule: rev_cases)
    case Nil
    then have "p = x" "path (nexts h) (hd0 bs) bs 0" using p unfolding path_mid by auto
    then show ?thesis using x e p0 assms(3) Nil
      by (simp add: LL_REPLACE_ELEM2_def ll_def link_simps)
  next
    case (snoc as' t)
    let ?h = "h\<lparr>nexts := (nexts h)(e \<mapsto> hd0 bs)\<rparr>"
    have q: "path (nexts h) p (as' @ t # x # bs) 0" using p snoc by simp
    then have "path (nexts ?h) p (as' @ t # x # bs) 0" using assms(3) snoc by simp
    note f = found_before [OF this]
    have "path ((nexts h)(e \<mapsto> hd0 bs, t \<mapsto> e)) p (as' @ t # e # bs) 0"
      using path_replace [OF q e(1)] assms(3) snoc by simp
    then show ?thesis using f x e assms(3) snoc
      by (simp add: LL_REPLACE_ELEM2_def ll_def link_simps) (auto simp: only_in_def same_nodes_def)
  qed
qed

lemma LL_LOWER_BOUND2_returns:
  assumes "ll h p xs"
  shows "LL_LOWER_BOUND2 cmp like h p = returned (last0 (takeWhile (\<lambda>x. \<not> cmp x like \<ge> 0) xs))"
proof (cases "xs = [] \<or> cmp (hd xs) like \<ge> 0")
  case True
  then show ?thesis using ll_hd [OF assms] by (cases xs) (auto simp: LL_LOWER_BOUND2_def)
next
  case False
  then obtain x as where xs: "xs = x # as" "\<not> cmp x like \<ge> 0" by (cases xs) auto
  have p: "path (nexts h) x (x # as) 0" "p = x" using assms xs by (auto simp: ll_def)
  have "0 \<notin> set (x # as)" by (rule path_nonzero [OF p(1)])
  then show ?thesis
    using seek_lower_bound [OF p(1), of "\<lambda>n. \<not> cmp n like \<ge> 0"] xs p(2) by (simp add: LL_LOWER_BOUND2_def)
qed

lemma LL_INSERT_INORDER2_returns:
  assumes "ll h p xs" "ll_el h e" "e \<notin> set xs" "three_way cmp key"
  shows "returns (LL_INSERT_INORDER2 cmp e h p)
    (\<lambda>(h', p'). ll h' p' (takeWhile (\<lambda>x. key x < key e) xs @ e # dropWhile (\<lambda>x. key x < key e) xs) \<and>
       only_in (insert e (set xs)) h h')"
proof -
  let ?P = "\<lambda>x. key x < key e"
  have lb: "LL_LOWER_BOUND2 cmp e h p = returned (last0 (takeWhile ?P xs))"
    unfolding LL_LOWER_BOUND2_returns [OF assms(1)] three_way_less [OF assms(4)] by simp
  show ?thesis
  proof (cases "takeWhile ?P xs = []")
    case True
    then have dw: "dropWhile ?P xs = xs" by (metis append_Nil takeWhile_dropWhile_id)
    show ?thesis
      using LL_PREPEND2_returns [OF assms(1-3)] ll_hd [OF assms(1)] assms(1,2) lb
      unfolding LL_INSERT_INORDER2_def True dw
      by (cases "p = 0") (simp_all add: LL_PREPEND2_def LL_APPEND_ELEM2_def)
  next
    case False
    from insert_position [OF this] obtain as t where s: "takeWhile ?P xs = as @ [t]"
        "xs = as @ t # dropWhile ?P xs" "last0 (takeWhile ?P xs) = t" .
    have "p \<noteq> 0" using assms(1) path_empty [of "nexts h" p xs] s(2) unfolding ll_def by auto
    moreover have "returns (LL_APPEND_ELEM2 t e h p) (\<lambda>(h', p'). ll h' p' (as @ t # e # dropWhile ?P xs) \<and>
        only_in (insert e (set (as @ t # dropWhile ?P xs))) h h')"
      by (rule LL_APPEND_ELEM2_returns) (use assms(1,2,3) s(2) in simp_all)
    ultimately show ?thesis unfolding LL_INSERT_INORDER2_def lb s(1) last0_simps s(2) [symmetric] by simp
  qed
qed

section \<open>The interface\<close>

definition ll_nx :: "addr \<Rightarrow> links \<Rightarrow> addr \<Rightarrow> addr option" where
  "ll_nx oldhead h p = nexts h p"

definition ll_out :: "links \<Rightarrow> addr list \<Rightarrow> bool" where
  "ll_out h xs \<longleftrightarrow> xs = [] \<or> path (nexts h) (hd xs) (butlast xs) (last xs)"

lemma ll_nx_eq [simp]: "ll_nx o' h = nexts h"
  by (simp add: ll_nx_def fun_eq_iff)

interpretation ll_sort: sort_links ll_nx ll_sort_adv ll_sort_link ll_sort_close chk_int ll_el ll_out ll
proof (unfold_locales, goal_cases)
  case (1 h p q old)
  then show ?case by (simp add: ll_sort_adv_def ll_el_def link_simps)
next
  case (2 h p)
  then show ?case by (simp add: ll_el_def)
next
  case (3 h h' p)
  then show ?case by (simp add: ll_el_def same_nodes_next)
next
  case (4 h)
  show ?case by (simp add: ll_out_def)
next
  case (5 h xs e)
  show ?case
  proof (cases xs rule: rev_cases)
    case Nil
    then show ?thesis by (simp add: ll_sort_link_def ll_out_def)
  next
    case (snoc as t)
    then have t: "t \<noteq> 0" "nexts h t \<noteq> None" using 5(2) by (auto simp: ll_el_def)
    have "path (nexts h) (hd xs) as t" using 5(1) snoc by (simp add: ll_out_def)
    then have "path ((nexts h)(t \<mapsto> e)) (hd xs) (as @ [t]) e"
      using t 5(5) snoc by (simp add: path_append)
    then show ?thesis using t snoc
      by (cases as) (simp_all add: ll_sort_link_def ll_out_def link_simps butlast_append)
  qed
next
  case (6 h xs)
  then obtain as t where xs: "xs = as @ [t]" by (cases xs rule: rev_cases) auto
  then have t: "t \<noteq> 0" "nexts h t \<noteq> None" using 6(3) by (auto simp: ll_el_def)
  have "path (nexts h) (hd xs) as t" using 6(1) xs by (simp add: ll_out_def)
  then have "path ((nexts h)(t \<mapsto> 0)) (hd xs) (as @ [t]) 0"
    using t 6(4) xs by (simp add: path_append)
  then show ?case using t xs by (simp add: ll_sort_close_def ll_def link_simps)
next
  case (7 i)
  then show ?case by (simp add: chk_int_def fits_int_def)
next
  case (8 h p xs)
  then show ?case using ll_el_in by (auto simp: ll_def)
qed

interpretation ll_list: linked_list ll_nx ll_sort_adv ll_sort_link ll_sort_close chk_int ll_el ll_out ll LL_step
proof (unfold_locales, goal_cases)
  case (1 cmp h p)
  show ?case by (simp add: LL_SORT2_def)
next
  case (2 cmp e)
  show ?case by (simp add: LL_PREPEND_ELEM2_def fun_eq_iff)
next
  case (3 cmp e)
  show ?case by (simp add: LL_APPEND_ELEM2_def fun_eq_iff)
qed (unfold LL_step.simps, (rule LL_PREPEND2_returns LL_APPEND2_returns LL_DELETE2_returns
       LL_REPLACE_ELEM2_returns LL_PREPEND_ELEM2_returns LL_APPEND_ELEM2_returns LL_INSERT_INORDER2_returns; assumption)+)

end
