(* ===== verification/Double_Links.thy ===== *)
theory Double_Links
  imports Link_Ops
begin

text \<open>
  Doubly linked lists in memory, for the two kinds of \<open>utlist.h\<close>: a path of \<open>next\<close> pointers that
  ends in \<open>z\<close> (NULL, or the head of a circular list), with \<open>prev\<close> pointers that go back along it
  and from the head to the tail.  One lemma per way of changing the pointers.
\<close>

section \<open>Pointers back\<close>

fun backs :: "(addr \<Rightarrow> addr option) \<Rightarrow> addr \<Rightarrow> addr list \<Rightarrow> bool" where
  "backs g a [] \<longleftrightarrow> True"
| "backs g a (x # xs) \<longleftrightarrow> g x = Some a \<and> backs g x xs"

definition last_or :: "addr \<Rightarrow> addr list \<Rightarrow> addr" where
  "last_or a xs = (if xs = [] then a else last xs)"

definition hd_or :: "addr \<Rightarrow> addr list \<Rightarrow> addr" where
  "hd_or z xs = (if xs = [] then z else hd xs)"

lemma last_or_simps [simp]: "last_or a [] = a" "last_or a (x # xs) = last_or x xs" "last_or a (xs @ [x]) = x"
  by (simp_all add: last_or_def)

lemma hd_or_simps [simp]: "hd_or z [] = z" "hd_or z (x # xs) = x"
  by (simp_all add: hd_or_def)

lemma last0_Cons [simp]: "last0 (x # xs) = last_or x xs"
  by (simp add: last0_def last_or_def)

lemma last_or_append [simp]: "last_or a (xs @ ys) = last_or (last_or a xs) ys"
  by (induction xs arbitrary: a) simp_all

lemma last0_append [simp]: "last0 (xs @ y # ys) = last_or y ys"
  by (induction xs) simp_all

lemma last_or_in: "last_or x xs \<in> insert x (set xs)"
  by (auto simp: last_or_def)

lemma backs_append [simp]: "backs g a (xs @ ys) \<longleftrightarrow> backs g a xs \<and> backs g (last_or a xs) ys"
  by (induction xs arbitrary: a) auto

lemma backs_upd [simp]: "y \<notin> set xs \<Longrightarrow> backs (g(y := v)) a xs = backs g a xs"
  by (induction xs arbitrary: a) auto

lemma backs_head: "backs g a (x # xs) \<Longrightarrow> x \<notin> set xs \<Longrightarrow> backs (g(x \<mapsto> b)) b (x # xs)"
  by simp

lemma path_or: "path f p (x # xs) z \<longleftrightarrow> p = x \<and> x \<noteq> 0 \<and> f x = Some (hd_or z xs) \<and> path f (hd_or z xs) xs z"
  by (cases xs) auto

lemma path_at:
  "path f p (as @ x # bs) z \<longleftrightarrow>
     path f p as x \<and> x \<noteq> 0 \<and> f x = Some (hd_or z bs) \<and> path f (hd_or z bs) bs z"
  unfolding path_append path_or by auto

section \<open>Doubly linked\<close>

definition dbl ::
  "(addr \<Rightarrow> addr option) \<Rightarrow> (addr \<Rightarrow> addr option) \<Rightarrow> addr \<Rightarrow> addr list \<Rightarrow> addr \<Rightarrow> bool" where
  "dbl f g p xs z \<longleftrightarrow> path f p xs z \<and> backs g (last0 xs) xs \<and> distinct xs"

lemma dbl_empty [simp]: "dbl f g p [] z \<longleftrightarrow> p = z"
  by (simp add: dbl_def)

lemma dbl_hd: "dbl f g p xs z \<Longrightarrow> p = hd_or z xs"
  by (cases xs) (auto simp: dbl_def)

lemma dbl_zero: "dbl f g p xs z \<Longrightarrow> 0 \<notin> set xs"
  unfolding dbl_def using path_nonzero by blast

lemma dbl_at:
  assumes "dbl f g p (as @ x # bs) z"
  shows "x \<noteq> 0" "f x = Some (hd_or z bs)" "g x = Some (last_or (last_or x bs) as)"
    "x \<notin> set as" "x \<notin> set bs"
  using assms unfolding dbl_def path_at by simp_all

lemma dbl_head:
  assumes "dbl f g p xs z" "xs \<noteq> []"
  shows "p \<noteq> 0" "p \<in> set xs" "g p = Some (last xs)"
  using assms by (cases xs; simp add: dbl_def last_or_def)+

lemma dbl_one: "e \<noteq> 0 \<Longrightarrow> f e = Some z \<Longrightarrow> g e = Some e \<Longrightarrow> dbl f g e [e] z"
  by (simp add: dbl_def)

lemma dbl_insert:
  assumes "dbl f g p (as @ t # bs) z" "e \<noteq> 0" "e \<notin> set (as @ t # bs)"
  shows "dbl (f(e \<mapsto> hd_or z bs, t \<mapsto> e)) (g(e \<mapsto> t, hd_or p bs \<mapsto> e)) p (as @ t # e # bs) z"
proof -
  have d: "distinct (as @ t # bs)" "path f p as t" "t \<noteq> 0" "path f (hd_or z bs) bs z"
      "backs g (last_or t bs) as" "g t = Some (last_or (last_or t bs) as)" "backs g t bs"
    using assms(1) unfolding dbl_def path_at by auto
  have f: "path (f(e \<mapsto> hd_or z bs, t \<mapsto> e)) p (as @ t # e # bs) z"
    using d assms(2,3) unfolding path_at path_or by simp
  show ?thesis
  proof (cases bs)
    case Nil
    then have "p = hd_or t as" using d(2) by (cases as) auto
    then show ?thesis using f d assms(3) Nil by (cases as) (auto simp: dbl_def)
  next
    case (Cons b bs')
    then show ?thesis using f d assms(3) by (auto simp: dbl_def)
  qed
qed

lemma dbl_push:
  assumes "dbl f g p xs z" "xs \<noteq> []" "e \<noteq> 0" "e \<notin> set xs"
  shows "dbl (f(e \<mapsto> p)) (g(e \<mapsto> last xs, p \<mapsto> e)) e (e # xs) z"
  using assms by (cases xs) (auto simp: dbl_def last_or_def)

lemma dbl_end:
  assumes "dbl f g p xs z" "xs \<noteq> []"
  shows "dbl (f(last xs \<mapsto> z')) g p xs z'"
proof (cases xs rule: rev_cases)
  case (snoc ys y)
  then show ?thesis using assms by (auto simp: dbl_def path_append)
qed (use assms in simp)

lemma dbl_remove:
  assumes "dbl f g p (as @ t # x # bs) z"
  shows "dbl (f(t \<mapsto> hd_or z bs)) (g(hd_or p bs \<mapsto> t)) p (as @ t # bs) z"
proof -
  have d: "distinct (as @ t # x # bs)" "path f p as t" "t \<noteq> 0" "path f (hd_or z bs) bs z"
      "backs g (last_or x bs) as" "g t = Some (last_or (last_or x bs) as)" "backs g x bs"
    using assms unfolding dbl_def path_at path_or by auto
  have f: "path (f(t \<mapsto> hd_or z bs)) p (as @ t # bs) z" using d unfolding path_at by simp
  show ?thesis
  proof (cases bs)
    case Nil
    then have "p = hd_or t as" using d(2) by (cases as) auto
    then show ?thesis using f d Nil by (cases as) (auto simp: dbl_def)
  next
    case (Cons b bs')
    then show ?thesis using f d by (auto simp: dbl_def)
  qed
qed

lemma dbl_pop:
  assumes "dbl f g p (x # b # bs) z"
  shows "dbl f (g(b \<mapsto> last_or b bs)) b (b # bs) z"
  using assms by (auto simp: dbl_def)

lemma dbl_replace:
  assumes "dbl f g p (as @ t # x # bs) z" "e \<noteq> 0" "e \<notin> set (as @ t # x # bs)"
  shows "dbl (f(e \<mapsto> hd_or z bs, t \<mapsto> e)) (g(e \<mapsto> t, hd_or p bs \<mapsto> e)) p (as @ t # e # bs) z"
proof -
  have "dbl (f(t \<mapsto> hd_or z bs, e \<mapsto> hd_or z bs, t \<mapsto> e)) (g(hd_or p bs \<mapsto> t, e \<mapsto> t, hd_or p bs \<mapsto> e)) p (as @ t # e # bs) z"
    by (rule dbl_insert [OF dbl_remove [OF assms(1)] assms(2)]) (use assms(3) in auto)
  moreover have "f(t \<mapsto> hd_or z bs, e \<mapsto> hd_or z bs, t \<mapsto> e) = f(e \<mapsto> hd_or z bs, t \<mapsto> e)"
    "g(hd_or p bs \<mapsto> t, e \<mapsto> t, hd_or p bs \<mapsto> e) = g(e \<mapsto> t, hd_or p bs \<mapsto> e)" by auto
  ultimately show ?thesis by simp
qed

lemma dbl_replace_head:
  assumes "dbl f g p (x # b # bs) z" "e \<noteq> 0" "e \<notin> set (x # b # bs)"
  shows "dbl (f(e \<mapsto> b)) (g(e \<mapsto> last_or b bs, b \<mapsto> e)) e (e # b # bs) z"
  using assms by (auto simp: dbl_def)

lemma dbl_concat:
  assumes "dbl f g p xs z" "dbl f g q ys z'" "xs \<noteq> []" "ys \<noteq> []" "set xs \<inter> set ys = {}"
  shows "dbl (f(last xs \<mapsto> q)) (g(q \<mapsto> last xs, p \<mapsto> last ys)) p (xs @ ys) z'"
proof -
  obtain as t where xs: "xs = as @ [t]" using assms(3) by (cases xs rule: rev_cases) auto
  obtain y ys' where ys: "ys = y # ys'" using assms(4) by (cases ys) auto
  have d: "distinct (as @ [t])" "path f p as t" "t \<noteq> 0" "backs g t as" "g t = Some (last_or t as)"
    "distinct (y # ys')" "path f q ys z'" "q = y" "y \<noteq> 0" "backs g y ys'"
    using assms(1,2) unfolding dbl_def xs ys path_at by auto
  have f: "path (f(last xs \<mapsto> q)) p (xs @ ys) z'"
    using d assms(5) unfolding xs by (auto simp: path_append ys)
  have p: "p = hd_or t as" using d(2) by (cases as) auto
  show ?thesis using f d p assms(5) unfolding dbl_def xs ys
    by (cases as) (auto simp: last_or_def)
qed

end
