(* ===== verification/Ut_Dlist.thy ===== *)
theory Ut_Dlist
  imports Double_Links
begin

text \<open>
  The doubly linked lists of \<open>utlist.h\<close>.  The \<open>prev\<close> pointer of the head is the tail and the
  \<open>next\<close> pointer of the tail is NULL, so that appending needs no walk.
\<close>

section \<open>The macros\<close>

definition DL_PREPEND2 :: "addr \<Rightarrow> links \<Rightarrow> addr \<Rightarrow> (links \<times> addr) run" where
  "DL_PREPEND2 add h head =
     then_run (set_next add head h) (\<lambda>h.
     then_run
       (if head \<noteq> 0 then
          then_run (get_prev h head) (\<lambda>t.
          then_run (set_prev add t h) (set_prev head add))
        else set_prev add add h)
     (\<lambda>h. returned (h, add)))"

definition DL_APPEND2 :: "addr \<Rightarrow> links \<Rightarrow> addr \<Rightarrow> (links \<times> addr) run" where
  "DL_APPEND2 add h head =
     (if head \<noteq> 0 then
        then_run (get_prev h head) (\<lambda>t.
        then_run (set_prev add t h) (\<lambda>h.
        then_run (get_prev h head) (\<lambda>t.
        then_run (set_next t add h) (\<lambda>h.
        then_run (set_prev head add h) (\<lambda>h.
        then_run (set_next add 0 h) (\<lambda>h. returned (h, head)))))))
      else
        then_run (set_prev add add h) (\<lambda>h.
        then_run (set_next add 0 h) (\<lambda>h. returned (h, add))))"

definition DL_LOWER_BOUND2 :: "(addr \<Rightarrow> 'e \<Rightarrow> int) \<Rightarrow> 'e \<Rightarrow> links \<Rightarrow> addr \<Rightarrow> addr run" where
  "DL_LOWER_BOUND2 cmp like h head =
     (if head = 0 \<or> cmp head like \<ge> 0 then returned 0
      else seek h (\<lambda>n. n \<noteq> 0 \<and> \<not> cmp n like \<ge> 0) head)"

definition DL_CONCAT2 :: "addr \<Rightarrow> links \<Rightarrow> addr \<Rightarrow> (links \<times> addr) run" where
  "DL_CONCAT2 head2 h head1 =
     (if head2 \<noteq> 0 then
        if head1 \<noteq> 0 then
          then_run (get_prev h head2) (\<lambda>tmp.
          then_run (get_prev h head1) (\<lambda>t.
          then_run (set_prev head2 t h) (\<lambda>h.
          then_run (get_prev h head1) (\<lambda>t.
          then_run (set_next t head2 h) (\<lambda>h.
          then_run (set_prev head1 tmp h) (\<lambda>h. returned (h, head1)))))))
        else returned (h, head2)
      else returned (h, head1))"

definition DL_DELETE2 :: "addr \<Rightarrow> links \<Rightarrow> addr \<Rightarrow> (links \<times> addr) run" where
  "DL_DELETE2 del h head =
     assert_run (head \<noteq> 0)
       (then_run (get_prev h del) (\<lambda>b.
        assert_run (b \<noteq> 0)
          (if b = del then returned (h, 0)
           else if del = head then
             then_run (get_next h del) (\<lambda>n.
             assert_run (n \<noteq> 0)
               (then_run (set_prev n b h) (\<lambda>h.
                then_run (get_next h del) (\<lambda>n. returned (h, n)))))
           else
             then_run (get_next h del) (\<lambda>n.
             then_run (set_next b n h) (\<lambda>h.
             then_run (get_next h del) (\<lambda>n.
             if n \<noteq> 0 then
               then_run (get_prev h del) (\<lambda>b.
               then_run (set_prev n b h) (\<lambda>h. returned (h, head)))
             else
               then_run (get_prev h del) (\<lambda>b.
               then_run (set_prev head b h) (\<lambda>h. returned (h, head)))))))))"

definition DL_COUNT2 :: "links \<Rightarrow> addr \<Rightarrow> int run" where
  "DL_COUNT2 h head = count_each get_next h head"

definition DL_FOREACH_SAFE2 ::
  "(addr \<Rightarrow> links \<Rightarrow> addr \<Rightarrow> (links \<times> addr) run) \<Rightarrow> links \<Rightarrow> addr \<Rightarrow> (links \<times> addr) run" where
  "DL_FOREACH_SAFE2 body h head = foreach_safe get_next body h head"

definition DL_REPLACE_ELEM2 :: "addr \<Rightarrow> addr \<Rightarrow> links \<Rightarrow> addr \<Rightarrow> (links \<times> addr) run" where
  "DL_REPLACE_ELEM2 el add h head =
     assert_run (head \<noteq> 0) (assert_run (el \<noteq> 0) (assert_run (add \<noteq> 0)
       (if head = el then
          then_run (get_next h el) (\<lambda>n.
          then_run (set_next add n h) (\<lambda>h.
          then_run (get_next h el) (\<lambda>n.
          if n = 0 then then_run (set_prev add add h) (\<lambda>h. returned (h, add))
          else
            then_run (get_prev h el) (\<lambda>b.
            then_run (set_prev add b h) (\<lambda>h.
            then_run (get_next h add) (\<lambda>n.
            then_run (set_prev n add h) (\<lambda>h. returned (h, add))))))))
        else
          then_run (get_next h el) (\<lambda>n.
          then_run (set_next add n h) (\<lambda>h.
          then_run (get_prev h el) (\<lambda>b.
          then_run (set_prev add b h) (\<lambda>h.
          then_run (get_prev h add) (\<lambda>b.
          then_run (set_next b add h) (\<lambda>h.
          then_run (get_next h el) (\<lambda>n.
          if n = 0 then then_run (set_prev head add h) (\<lambda>h. returned (h, head))
          else
            then_run (get_next h add) (\<lambda>n.
            then_run (set_prev n add h) (\<lambda>h. returned (h, head)))))))))))))"

definition DL_PREPEND_ELEM2 :: "addr \<Rightarrow> addr \<Rightarrow> links \<Rightarrow> addr \<Rightarrow> (links \<times> addr) run" where
  "DL_PREPEND_ELEM2 el add h head =
     (if el \<noteq> 0 then
        assert_run (head \<noteq> 0) (assert_run (add \<noteq> 0)
          (then_run (set_next add el h) (\<lambda>h.
           then_run (get_prev h el) (\<lambda>b.
           then_run (set_prev add b h) (\<lambda>h.
           then_run (set_prev el add h) (\<lambda>h.
           if head = el then returned (h, add)
           else
             then_run (get_prev h add) (\<lambda>b.
             then_run (set_next b add h) (\<lambda>h. returned (h, head)))))))))
      else DL_APPEND2 add h head)"

definition DL_APPEND_ELEM2 :: "addr \<Rightarrow> addr \<Rightarrow> links \<Rightarrow> addr \<Rightarrow> (links \<times> addr) run" where
  "DL_APPEND_ELEM2 el add h head =
     (if el \<noteq> 0 then
        assert_run (head \<noteq> 0) (assert_run (add \<noteq> 0)
          (then_run (get_next h el) (\<lambda>n.
           then_run (set_next add n h) (\<lambda>h.
           then_run (set_prev add el h) (\<lambda>h.
           then_run (set_next el add h) (\<lambda>h.
           then_run (get_next h add) (\<lambda>n.
           if n \<noteq> 0 then then_run (set_prev n add h) (\<lambda>h. returned (h, head))
           else then_run (set_prev head add h) (\<lambda>h. returned (h, head)))))))))
      else DL_PREPEND2 add h head)"

definition DL_INSERT_INORDER2 :: "(addr \<Rightarrow> addr \<Rightarrow> int) \<Rightarrow> addr \<Rightarrow> links \<Rightarrow> addr \<Rightarrow> (links \<times> addr) run" where
  "DL_INSERT_INORDER2 cmp add h head =
     (if head \<noteq> 0 then
        then_run (DL_LOWER_BOUND2 cmp add h head) (\<lambda>tmp. DL_APPEND_ELEM2 tmp add h head)
      else
        then_run (set_prev add add h) (\<lambda>h.
        then_run (set_next add 0 h) (\<lambda>h. returned (h, add))))"

text \<open>The parts of \<open>DL_SORT2\<close>: an element is also linked back to the tail.\<close>

definition dl_sort_adv :: "addr \<Rightarrow> links \<Rightarrow> addr \<Rightarrow> addr run" where
  "dl_sort_adv oldhead h p = get_next h p"

definition dl_sort_link :: "addr \<Rightarrow> addr \<Rightarrow> links \<Rightarrow> links run" where
  "dl_sort_link tail e h =
     then_run (if tail \<noteq> 0 then set_next tail e h else returned h) (set_prev e tail)"

definition dl_sort_close :: "addr \<Rightarrow> addr \<Rightarrow> links \<Rightarrow> links run" where
  "dl_sort_close list tail h = then_run (set_prev list tail h) (set_next tail 0)"

definition DL_SORT2 :: "(addr \<Rightarrow> addr \<Rightarrow> int) \<Rightarrow> links \<Rightarrow> addr \<Rightarrow> (links \<times> addr) run" where
  "DL_SORT2 cmp h list =
     then_run (sort_list dl_sort_adv dl_sort_link dl_sort_close chk_int cmp h list)
       (\<lambda>(h, list, tail). returned (h, list))"

fun DL_step :: "(addr \<Rightarrow> addr \<Rightarrow> int) \<Rightarrow> link_op \<Rightarrow> links \<Rightarrow> addr \<Rightarrow> (links \<times> addr) run" where
  "DL_step cmp (Prepend e) = DL_PREPEND2 e"
| "DL_step cmp (Append e) = DL_APPEND2 e"
| "DL_step cmp (Delete d) = DL_DELETE2 d"
| "DL_step cmp (Replace_elem x e) = DL_REPLACE_ELEM2 x e"
| "DL_step cmp (Prepend_elem x e) = DL_PREPEND_ELEM2 x e"
| "DL_step cmp (Append_elem x e) = DL_APPEND_ELEM2 x e"
| "DL_step cmp (Insert_inorder e) = DL_INSERT_INORDER2 cmp e"
| "DL_step cmp Sort_all = DL_SORT2 cmp"

section \<open>The list in memory\<close>

definition dl :: "links \<Rightarrow> addr \<Rightarrow> addr list \<Rightarrow> bool" where
  "dl h p xs \<longleftrightarrow> dbl (nexts h) (prevs h) p xs 0"

lemma dl_path: "dl h p xs \<Longrightarrow> path (nexts h) p xs 0"
  by (simp add: dl_def dbl_def)

lemma dl_hd: "dl h p xs \<Longrightarrow> p = hd_or 0 xs"
  unfolding dl_def by (rule dbl_hd)

lemma dl_node: "dl h p xs \<Longrightarrow> x \<in> set xs \<Longrightarrow> node h x"
  using dbl_at [of "nexts h" "prevs h" p] unfolding dl_def node_def
  by (metis option.distinct(1) split_list)

lemma dl_distinct: "dl h p xs \<Longrightarrow> distinct xs"
  by (simp add: dl_def dbl_def)

lemma dl_nonzero: "dl h p xs \<Longrightarrow> 0 \<notin> set xs"
  unfolding dl_def by (rule dbl_zero)

lemma only_in_fields:
  "same_nodes h h' \<Longrightarrow> (\<And>x. x \<notin> S \<Longrightarrow> nexts h' x = nexts h x) \<Longrightarrow> (\<And>x. x \<notin> S \<Longrightarrow> prevs h' x = prevs h x) \<Longrightarrow>
     only_in S h h'"
  by (simp add: only_in_def)

section \<open>The operations\<close>

lemma DL_PREPEND2_returns:
  assumes "dl h p xs" "node h e" "e \<notin> set xs"
  shows "returns (DL_PREPEND2 e h p) (\<lambda>(h', p'). dl h' p' (e # xs) \<and> only_in (insert e (set xs)) h h')"
proof (cases "xs = []")
  case True
  then show ?thesis using assms dbl_one [of e]
    by (auto simp: DL_PREPEND2_def dl_def node_def link_simps only_in_def same_nodes_def)
next
  case False
  note hd = dbl_head [OF assms(1) [unfolded dl_def] False]
  have e: "e \<noteq> 0" "p \<noteq> e" "nexts h e \<noteq> None" "prevs h e \<noteq> None"
    using assms(2,3) hd(2) by (auto simp: node_def)
  have "dbl ((nexts h)(e \<mapsto> p)) ((prevs h)(e \<mapsto> last xs, p \<mapsto> e)) e (e # xs) 0"
    by (rule dbl_push) (use assms e False in \<open>simp_all add: dl_def\<close>)
  then show ?thesis using hd e
    by (auto simp: DL_PREPEND2_def dl_def link_simps only_in_def same_nodes_def)
qed

lemma DL_APPEND2_returns:
  assumes "dl h p xs" "node h e" "e \<notin> set xs"
  shows "returns (DL_APPEND2 e h p) (\<lambda>(h', p'). dl h' p' (xs @ [e]) \<and> only_in (insert e (set xs)) h h')"
proof (cases "xs = []")
  case True
  then show ?thesis using assms dbl_one [of e]
    by (auto simp: DL_APPEND2_def dl_def node_def link_simps only_in_def same_nodes_def)
next
  case False
  then obtain as t where xs: "xs = as @ [t]" by (cases xs rule: rev_cases) auto
  note hd = dbl_head [OF assms(1) [unfolded dl_def] False]
  have e: "e \<noteq> 0" "p \<noteq> e" "nexts h e \<noteq> None" "prevs h e \<noteq> None"
    using assms(2,3) hd(2) by (auto simp: node_def)
  have t: "t \<noteq> 0" "t \<noteq> e" "nexts h t \<noteq> None" "prevs h t \<noteq> None"
    using dl_node [OF assms(1), of t] assms(3) xs by (auto simp: node_def)
  have "dbl ((nexts h)(e \<mapsto> 0, t \<mapsto> e)) ((prevs h)(e \<mapsto> t, p \<mapsto> e)) p (as @ [t, e]) 0"
    using dbl_insert [of "nexts h" "prevs h" p as t "[]" 0 e] assms e xs by (simp add: dl_def)
  moreover have "(nexts h)(e \<mapsto> 0, t \<mapsto> e) = (nexts h)(t \<mapsto> e, e \<mapsto> 0)" using t by auto
  ultimately show ?thesis using hd e t xs
    by (auto simp: DL_APPEND2_def dl_def link_simps only_in_def same_nodes_def)
qed

lemma DL_CONCAT2_returns:
  assumes "dl h p xs" "dl h q ys" "set xs \<inter> set ys = {}"
  shows "returns (DL_CONCAT2 q h p) (\<lambda>(h', p'). dl h' p' (xs @ ys) \<and> only_in (set xs \<union> set ys) h h')"
proof (cases "xs = [] \<or> ys = []")
  case True
  then show ?thesis using assms dl_hd dl_nonzero by (cases xs; cases ys) (auto simp: DL_CONCAT2_def dl_def)
next
  case False
  then have ne: "xs \<noteq> []" "ys \<noteq> []" by auto
  note hd = dbl_head [OF assms(1) [unfolded dl_def] ne(1)] dbl_head [OF assms(2) [unfolded dl_def] ne(2)]
  have pq: "p \<noteq> q" using hd(2,5) assms(3) by auto
  have t: "last xs \<noteq> 0" "nexts h (last xs) \<noteq> None"
    using dl_node [OF assms(1), of "last xs"] ne by (auto simp: node_def)
  have "dbl ((nexts h)(last xs \<mapsto> q)) ((prevs h)(q \<mapsto> last xs, p \<mapsto> last ys)) p (xs @ ys) 0"
    using dbl_concat [OF _ _ ne assms(3)] assms(1,2) unfolding dl_def by blast
  then show ?thesis using hd pq t ne
    by (auto simp: DL_CONCAT2_def dl_def link_simps only_in_def same_nodes_def)
qed

text \<open>What is read around an element in the middle, and at an end.\<close>

lemma dl_around:
  assumes "dl h p (as @ t # x # bs)"
  shows "p \<noteq> 0" "p \<noteq> x" "t \<noteq> x" "p \<in> set (as @ [t])"
    "nexts h x = Some (hd_or 0 bs)" "prevs h x = Some t" "nexts h t = Some x" "prevs h t \<noteq> None"
    "x \<noteq> 0" "t \<noteq> 0" "prevs h p = Some (last_or x bs)" "nexts h p \<noteq> None" "x \<notin> set bs" "t \<notin> set bs" "p \<notin> set bs"
proof -
  let ?xs = "as @ t # x # bs"
  have d: "dbl (nexts h) (prevs h) p ?xs 0" using assms by (simp add: dl_def)
  note at = dbl_at [of "nexts h" "prevs h" p "as @ [t]" x bs 0] dbl_at [of "nexts h" "prevs h" p as t "x # bs" 0]
  have p: "p = hd_or t as" using dl_hd [OF assms] by (cases as) simp_all
  then show pin: "p \<in> set (as @ [t])" by (cases as) auto
  have dist: "distinct ?xs" using d by (simp add: dbl_def)
  show "p \<noteq> x" "p \<notin> set bs" "t \<noteq> x" "x \<notin> set bs" "t \<notin> set bs" using dist pin by auto
  show "p \<noteq> 0" "prevs h p = Some (last_or x bs)" using dbl_head [OF d] by (simp_all add: last_or_def)
  show "nexts h x = Some (hd_or 0 bs)" "prevs h x = Some t" "x \<noteq> 0" using at(1,2,3) d by simp_all
  show "nexts h t = Some x" "prevs h t \<noteq> None" "t \<noteq> 0" using at(6,7,8) d by simp_all
  show "nexts h p \<noteq> None" using dl_node [OF assms, of p] pin by (auto simp: node_def)
qed

lemma dl_in_rest:
  "dl h p (as @ b # bs) \<Longrightarrow> b \<noteq> 0 \<and> prevs h b \<noteq> None \<and> nexts h b \<noteq> None"
  using dl_node [of h p "as @ b # bs" b] by (simp add: node_def)

lemma DL_DELETE2_returns:
  assumes "dl h p xs" "x \<in> set xs"
  shows "returns (DL_DELETE2 x h p) (\<lambda>(h', p'). dl h' p' (remove1 x xs) \<and> only_in (set xs) h h')"
proof -
  obtain as bs where sp: "xs = as @ x # bs" "remove1 x xs = as @ bs"
    using split_at [OF assms(2) dl_distinct [OF assms(1)]] by metis
  note d = assms(1) [unfolded sp(1)]
  show ?thesis
  proof (cases as rule: rev_cases)
    case Nil
    note d' = d [unfolded Nil append_Nil]
    have x: "p = x" "x \<noteq> 0" "prevs h x = Some (last_or x bs)" "nexts h x = Some (hd_or 0 bs)" "x \<notin> set bs"
      using dl_hd [OF d'] dbl_at [of "nexts h" "prevs h" p "[]" x bs 0] d' unfolding dl_def by auto
    show ?thesis
    proof (cases bs)
      case Nil
      then show ?thesis using x \<open>as = []\<close> sp by (simp add: DL_DELETE2_def dl_def link_simps)
    next
      case (Cons b bs')
      have b: "b \<noteq> 0 \<and> prevs h b \<noteq> None \<and> nexts h b \<noteq> None"
        using dl_in_rest [of h p "[x]" b bs'] d' Cons by simp
      have l: "last_or b bs' \<in> set bs" using Cons last_or_in [of b bs'] by simp
      have "last_or b bs' \<noteq> 0" "last_or b bs' \<noteq> x" using l x(5) dl_nonzero [OF d'] by (metis list.set_intros(2))+
      note b = b this
      have "dl (h\<lparr>prevs := (prevs h)(b \<mapsto> last_or b bs')\<rparr>) b (b # bs')"
        using dbl_pop [of "nexts h" "prevs h" p x b bs' 0] d' Cons by (simp add: dl_def)
      then show ?thesis using x b \<open>as = []\<close> sp Cons by (auto simp: DL_DELETE2_def link_simps)
    qed
  next
    case (snoc as' t)
    then have d': "dl h p (as' @ t # x # bs)" using d by simp
    note ar = dl_around [OF d']
    have r: "dbl ((nexts h)(t \<mapsto> hd_or 0 bs)) ((prevs h)(hd_or p bs \<mapsto> t)) p (as' @ t # bs) 0"
      using dbl_remove d' unfolding dl_def by blast
    show ?thesis
    proof (cases bs)
      case Nil
      then show ?thesis using ar r snoc sp
        by (auto simp: DL_DELETE2_def dl_def link_simps only_in_def same_nodes_def)
    next
      case (Cons b bs')
      then have "b \<noteq> 0 \<and> prevs h b \<noteq> None" using dl_in_rest [of h p "as' @ [t, x]" b bs'] d' by simp
      then show ?thesis using ar r snoc sp Cons
        by (auto simp: DL_DELETE2_def dl_def link_simps only_in_def same_nodes_def)
    qed
  qed
qed

lemma DL_APPEND_ELEM2_returns:
  assumes "dl h p (as @ x # bs)" "node h e" "e \<notin> set (as @ x # bs)"
  shows "returns (DL_APPEND_ELEM2 x e h p)
    (\<lambda>(h', p'). dl h' p' (as @ x # e # bs) \<and> only_in (insert e (set (as @ x # bs))) h h')"
proof -
  have e: "e \<noteq> 0" "nexts h e \<noteq> None" "prevs h e \<noteq> None" using assms(2) by (auto simp: node_def)
  have x: "x \<noteq> 0" "nexts h x = Some (hd_or 0 bs)" "x \<noteq> e" "prevs h x \<noteq> None" "x \<notin> set bs"
    using dbl_at [OF assms(1) [unfolded dl_def]] assms(3) by auto
  have p: "p \<noteq> 0" "p \<in> set (as @ x # bs)" "prevs h p \<noteq> None"
    using dbl_head [OF assms(1) [unfolded dl_def]] by auto
  have pe: "p \<noteq> e" using p(2) assms(3) by blast
  have r: "dbl ((nexts h)(e \<mapsto> hd_or 0 bs, x \<mapsto> e)) ((prevs h)(e \<mapsto> x, hd_or p bs \<mapsto> e)) p (as @ x # e # bs) 0"
    using dbl_insert [OF assms(1) [unfolded dl_def] e(1) assms(3)] .
  show ?thesis
  proof (cases bs)
    case Nil
    then show ?thesis using x p pe e r
      by (auto simp: DL_APPEND_ELEM2_def dl_def link_simps only_in_def same_nodes_def)
  next
    case (Cons b bs')
    then have "b \<noteq> 0 \<and> prevs h b \<noteq> None" "b \<noteq> e" using dl_in_rest [of h p "as @ [x]" b bs'] assms(1,3) by auto
    then show ?thesis using x p pe e r Cons
      by (auto simp: DL_APPEND_ELEM2_def dl_def link_simps only_in_def same_nodes_def)
  qed
qed

lemma DL_PREPEND_ELEM2_returns:
  assumes "dl h p (as @ x # bs)" "node h e" "e \<notin> set (as @ x # bs)"
  shows "returns (DL_PREPEND_ELEM2 x e h p)
    (\<lambda>(h', p'). dl h' p' (as @ e # x # bs) \<and> only_in (insert e (set (as @ x # bs))) h h')"
proof -
  have e: "e \<noteq> 0" "nexts h e \<noteq> None" "prevs h e \<noteq> None" using assms(2) by (auto simp: node_def)
  show ?thesis
  proof (cases as rule: rev_cases)
    case Nil
    have d: "dl h p (x # bs)" using assms(1) Nil by simp
    have px: "p = x" "x \<noteq> 0" "prevs h x = Some (last (x # bs))"
      using dbl_head [OF d [unfolded dl_def]] dl_hd [OF d] by auto
    have "dbl ((nexts h)(e \<mapsto> p)) ((prevs h)(e \<mapsto> last (x # bs), p \<mapsto> e)) e (e # x # bs) 0"
      by (rule dbl_push) (use d e assms(3) Nil in \<open>simp_all add: dl_def\<close>)
    then show ?thesis using px e assms(3) Nil
      by (auto simp: DL_PREPEND_ELEM2_def dl_def link_simps only_in_def same_nodes_def)
  next
    case (snoc as' t)
    have d: "dl h p (as' @ t # x # bs)" using assms(1) snoc by simp
    note ar = dl_around [OF d]
    have ne: "t \<noteq> e" "x \<noteq> e" using assms(3) snoc by auto
    have "dbl ((nexts h)(e \<mapsto> x, t \<mapsto> e)) ((prevs h)(e \<mapsto> t, x \<mapsto> e)) p (as' @ t # e # x # bs) 0"
      using dbl_insert [OF d [unfolded dl_def] e(1)] assms(3) snoc by simp
    then show ?thesis using ar ne e snoc
      by (auto simp: DL_PREPEND_ELEM2_def dl_def link_simps only_in_def same_nodes_def)
  qed
qed

lemma DL_REPLACE_ELEM2_returns:
  assumes "dl h p (as @ x # bs)" "node h e" "e \<notin> set (as @ x # bs)"
  shows "returns (DL_REPLACE_ELEM2 x e h p)
    (\<lambda>(h', p'). dl h' p' (as @ e # bs) \<and> only_in (insert e (set (as @ x # bs))) h h')"
proof -
  have e: "e \<noteq> 0" "nexts h e \<noteq> None" "prevs h e \<noteq> None" "x \<noteq> e"
    using assms(2,3) by (auto simp: node_def)
  show ?thesis
  proof (cases as rule: rev_cases)
    case Nil
    have d: "dl h p (x # bs)" using assms(1) Nil by simp
    have px: "p = x" "x \<noteq> 0" "prevs h x = Some (last_or x bs)" "nexts h x = Some (hd_or 0 bs)" "x \<notin> set bs"
      using dl_hd [OF d] dbl_at [of "nexts h" "prevs h" p "[]" x bs 0] d unfolding dl_def by auto
    show ?thesis
    proof (cases bs)
      case Nil
      have "dbl ((nexts h)(e \<mapsto> 0)) ((prevs h)(e \<mapsto> e)) e [e] 0" using e(1) by (intro dbl_one) simp_all
      then show ?thesis using px e \<open>as = []\<close> Nil
        by (auto simp: DL_REPLACE_ELEM2_def dl_def link_simps only_in_def same_nodes_def)
    next
      case (Cons b bs')
      have b: "b \<noteq> 0 \<and> prevs h b \<noteq> None" "b \<noteq> e" "b \<noteq> x"
        using dl_in_rest [of h p "[x]" b bs'] d assms(3) Cons px(5) by auto
      have "dbl ((nexts h)(e \<mapsto> b)) ((prevs h)(e \<mapsto> last_or b bs', b \<mapsto> e)) e (e # b # bs') 0"
        by (rule dbl_replace_head [of _ _ p x]) (use d e assms(3) Cons \<open>as = []\<close> in \<open>simp_all add: dl_def\<close>)
      then show ?thesis using px e b \<open>as = []\<close> Cons
        by (auto simp: DL_REPLACE_ELEM2_def dl_def link_simps only_in_def same_nodes_def)
    qed
  next
    case (snoc as' t)
    have d: "dl h p (as' @ t # x # bs)" using assms(1) snoc by simp
    note ar = dl_around [OF d]
    have ne: "t \<noteq> e" "p \<noteq> e" using assms(3) snoc ar(4) by auto
    have r: "dbl ((nexts h)(e \<mapsto> hd_or 0 bs, t \<mapsto> e)) ((prevs h)(e \<mapsto> t, hd_or p bs \<mapsto> e)) p (as' @ t # e # bs) 0"
      using dbl_replace [OF d [unfolded dl_def] e(1)] assms(3) snoc by simp
    show ?thesis
    proof (cases bs)
      case Nil
      then show ?thesis using ar ne e r snoc
        by (auto simp: DL_REPLACE_ELEM2_def dl_def link_simps only_in_def same_nodes_def)
    next
      case (Cons b bs')
      have b: "b \<noteq> 0 \<and> prevs h b \<noteq> None" "b \<noteq> e"
        using dl_in_rest [of h p "as' @ [t, x]" b bs'] d assms(3) Cons by auto
      then show ?thesis using ar ne e r snoc Cons
        by (auto simp: DL_REPLACE_ELEM2_def dl_def link_simps only_in_def same_nodes_def)
    qed
  qed
qed

lemma DL_LOWER_BOUND2_returns:
  assumes "dl h p xs"
  shows "DL_LOWER_BOUND2 cmp like h p = returned (last0 (takeWhile (\<lambda>x. \<not> cmp x like \<ge> 0) xs))"
proof (cases "xs = [] \<or> cmp (hd xs) like \<ge> 0")
  case True
  then show ?thesis using dl_hd [OF assms] by (cases xs) (auto simp: DL_LOWER_BOUND2_def)
next
  case False
  then obtain x as where xs: "xs = x # as" "\<not> cmp x like \<ge> 0" by (cases xs) auto
  have p: "path (nexts h) x (x # as) 0" "p = x" using dl_path [OF assms] xs by auto
  have "0 \<notin> set (x # as)" by (rule path_nonzero [OF p(1)])
  then show ?thesis
    using seek_lower_bound [OF p(1), of "\<lambda>n. \<not> cmp n like \<ge> 0"] xs p(2)
    by (simp add: DL_LOWER_BOUND2_def last_or_def)
qed

lemma DL_INSERT_INORDER2_returns:
  assumes "dl h p xs" "node h e" "e \<notin> set xs" "three_way cmp key"
  shows "returns (DL_INSERT_INORDER2 cmp e h p)
    (\<lambda>(h', p'). dl h' p' (takeWhile (\<lambda>x. key x < key e) xs @ e # dropWhile (\<lambda>x. key x < key e) xs) \<and>
       only_in (insert e (set xs)) h h')"
proof -
  let ?P = "\<lambda>x. key x < key e"
  have lb: "DL_LOWER_BOUND2 cmp e h p = returned (last0 (takeWhile ?P xs))"
    unfolding DL_LOWER_BOUND2_returns [OF assms(1)] three_way_less [OF assms(4)] by simp
  show ?thesis
  proof (cases "takeWhile ?P xs = []")
    case True
    then have dw: "dropWhile ?P xs = xs" by (metis append_Nil takeWhile_dropWhile_id)
    have "p = 0 \<Longrightarrow> xs = []" using path_empty [OF dl_path [OF assms(1)]] by simp
    moreover have "DL_INSERT_INORDER2 cmp e h 0 = DL_APPEND2 e h 0"
      by (simp add: DL_INSERT_INORDER2_def DL_APPEND2_def)
    ultimately show ?thesis
      using DL_PREPEND2_returns [OF assms(1-3)] DL_APPEND2_returns [OF assms(1-3)] lb
      unfolding True dw by (cases "p = 0") (simp_all add: DL_INSERT_INORDER2_def DL_APPEND_ELEM2_def)
  next
    case False
    from insert_position [OF this] obtain as t where s: "takeWhile ?P xs = as @ [t]"
        "xs = as @ t # dropWhile ?P xs" "last0 (takeWhile ?P xs) = t" .
    have "p \<noteq> 0" using path_empty [OF dl_path [OF assms(1)]] s(2) by auto
    moreover have "returns (DL_APPEND_ELEM2 t e h p) (\<lambda>(h', p'). dl h' p' (as @ t # e # dropWhile ?P xs) \<and>
        only_in (insert e (set (as @ t # dropWhile ?P xs))) h h')"
      by (rule DL_APPEND_ELEM2_returns) (use assms(1,2,3) s(2) in simp_all)
    ultimately show ?thesis unfolding DL_INSERT_INORDER2_def lb s(3) s(1) s(2) [symmetric] by simp
  qed
qed

section \<open>The interface\<close>

definition dl_nx :: "addr \<Rightarrow> links \<Rightarrow> addr \<Rightarrow> addr option" where
  "dl_nx oldhead h p = nexts h p"

text \<open>The output of the sort: the first element goes back to NULL until the pass is over.\<close>

definition dl_out :: "links \<Rightarrow> addr list \<Rightarrow> bool" where
  "dl_out h xs \<longleftrightarrow> (xs = [] \<or> path (nexts h) (hd xs) (butlast xs) (last xs)) \<and> backs (prevs h) 0 xs"

lemma dl_nx_eq [simp]: "dl_nx o' h = nexts h"
  by (simp add: dl_nx_def fun_eq_iff)

interpretation dl_sort: sort_links dl_nx dl_sort_adv dl_sort_link dl_sort_close chk_int node dl_out dl
proof (unfold_locales, goal_cases)
  case (1 h p q old)
  then show ?case by (simp add: dl_sort_adv_def node_def link_simps)
next
  case (2 h p)
  then show ?case by (simp add: node_def)
next
  case (3 h h' p)
  then show ?case by (rule same_nodes_node)
next
  case (4 h)
  show ?case by (simp add: dl_out_def)
next
  case (5 h xs e)
  have e: "e \<noteq> 0" "prevs h e \<noteq> None" "nexts h e \<noteq> None" using 5(3) by (auto simp: node_def)
  show ?case
  proof (cases xs rule: rev_cases)
    case Nil
    then show ?thesis using e by (simp add: dl_sort_link_def dl_out_def link_simps)
  next
    case (snoc as t)
    then have t: "t \<noteq> 0" "nexts h t \<noteq> None" using 5(2) by (auto simp: node_def)
    have b: "backs ((prevs h)(e \<mapsto> t)) 0 (xs @ [e])" using 5(1,4) snoc by (simp add: dl_out_def)
    have "path (nexts h) (hd xs) as t" using 5(1) snoc by (simp add: dl_out_def)
    then have "path ((nexts h)(t \<mapsto> e)) (hd xs) (as @ [t]) e"
      using t 5(5) snoc by (simp add: path_append)
    then show ?thesis using t e b snoc
      by (cases as) (auto simp: dl_sort_link_def dl_out_def link_simps butlast_append only_in_def same_nodes_def)
  qed
next
  case (6 h xs)
  then obtain as t where xs: "xs = as @ [t]" by (cases xs rule: rev_cases) auto
  then have t: "t \<noteq> 0" "nexts h t \<noteq> None" using 6(3) by (auto simp: node_def)
  have hd: "hd xs \<noteq> 0" "prevs h (hd xs) \<noteq> None" "hd xs \<in> set xs" using 6(2,3) by (auto simp: node_def)
  have "path (nexts h) (hd xs) as t" using 6(1) xs by (simp add: dl_out_def)
  then have p: "path ((nexts h)(t \<mapsto> 0)) (hd xs) (as @ [t]) 0"
    using t 6(4) xs by (simp add: path_append)
  have "backs (prevs h) 0 xs" using 6(1) by (simp add: dl_out_def)
  then have "backs ((prevs h)(hd xs \<mapsto> t)) t xs" using 6(2,4) by (cases xs) simp_all
  then show ?case using t hd p xs 6(4)
    by (auto simp: dl_sort_close_def dl_def dbl_def link_simps only_in_def same_nodes_def)
next
  case (7 i)
  then show ?case by (simp add: chk_int_def fits_int_def)
next
  case (8 h p xs)
  then show ?case using dl_node dl_path by auto
qed

interpretation dl_list: linked_list dl_nx dl_sort_adv dl_sort_link dl_sort_close chk_int node dl_out dl DL_step
proof (unfold_locales, goal_cases)
  case (1 cmp h p)
  show ?case by (simp add: DL_SORT2_def)
next
  case (2 cmp e)
  show ?case by (simp add: DL_PREPEND_ELEM2_def fun_eq_iff)
next
  case (3 cmp e)
  show ?case by (simp add: DL_APPEND_ELEM2_def fun_eq_iff)
qed (unfold DL_step.simps, (rule DL_PREPEND2_returns DL_APPEND2_returns DL_DELETE2_returns
       DL_REPLACE_ELEM2_returns DL_PREPEND_ELEM2_returns DL_APPEND_ELEM2_returns DL_INSERT_INORDER2_returns; assumption)+)

end
