(* ===== verification/Ut_Cdlist.thy ===== *)
theory Ut_Cdlist
  imports Double_Links
begin

text \<open>
  The circular doubly linked lists of \<open>utlist.h\<close>: the \<open>next\<close> pointer of the tail is the head, so a
  walk ends where it began.
\<close>

section \<open>The macros\<close>

definition CDL_APPEND2 :: "addr \<Rightarrow> links \<Rightarrow> addr \<Rightarrow> (links \<times> addr) run" where
  "CDL_APPEND2 add h head =
     (if head \<noteq> 0 then
        then_run (get_prev h head) (\<lambda>t.
        then_run (set_prev add t h) (\<lambda>h.
        then_run (set_next add head h) (\<lambda>h.
        then_run (set_prev head add h) (\<lambda>h.
        then_run (get_prev h add) (\<lambda>t.
        then_run (set_next t add h) (\<lambda>h. returned (h, head)))))))
      else
        then_run (set_prev add add h) (\<lambda>h.
        then_run (set_next add add h) (\<lambda>h. returned (h, add))))"

definition CDL_PREPEND2 :: "addr \<Rightarrow> links \<Rightarrow> addr \<Rightarrow> (links \<times> addr) run" where
  "CDL_PREPEND2 add h head =
     then_run
       (if head \<noteq> 0 then
          then_run (get_prev h head) (\<lambda>t.
          then_run (set_prev add t h) (\<lambda>h.
          then_run (set_next add head h) (\<lambda>h.
          then_run (set_prev head add h) (\<lambda>h.
          then_run (get_prev h add) (\<lambda>t. set_next t add h)))))
        else then_run (set_prev add add h) (set_next add add))
       (\<lambda>h. returned (h, add))"

definition CDL_LOWER_BOUND2 :: "(addr \<Rightarrow> 'e \<Rightarrow> int) \<Rightarrow> 'e \<Rightarrow> links \<Rightarrow> addr \<Rightarrow> addr run" where
  "CDL_LOWER_BOUND2 cmp like h head =
     (if head = 0 \<or> cmp head like \<ge> 0 then returned 0
      else seek h (\<lambda>n. n \<noteq> head \<and> \<not> cmp n like \<ge> 0) head)"

definition CDL_DELETE2 :: "addr \<Rightarrow> links \<Rightarrow> addr \<Rightarrow> (links \<times> addr) run" where
  "CDL_DELETE2 del h head =
     then_run
       (if head = del then then_run (get_next h head) (\<lambda>n. returned (n = head)) else returned False)
       (\<lambda>single.
          if single then returned (h, 0)
          else
            then_run (get_next h del) (\<lambda>n.
            then_run (get_prev h del) (\<lambda>b.
            then_run (set_prev n b h) (\<lambda>h.
            then_run (get_prev h del) (\<lambda>b.
            then_run (get_next h del) (\<lambda>n.
            then_run (set_next b n h) (\<lambda>h.
            if del = head then then_run (get_next h del) (\<lambda>n. returned (h, n))
            else returned (h, head))))))))"

text \<open>The step of \<open>CDL_FOREACH2\<close>.\<close>

definition cdl_step_next :: "addr \<Rightarrow> links \<Rightarrow> addr \<Rightarrow> addr run" where
  "cdl_step_next head h el =
     then_run (get_next h el) (\<lambda>n. if n = head then returned 0 else get_next h el)"

definition CDL_COUNT2 :: "links \<Rightarrow> addr \<Rightarrow> int run" where
  "CDL_COUNT2 h head = count_each (cdl_step_next head) h head"

definition CDL_SEARCH_SCALAR2 :: "(addr \<Rightarrow> 'v) \<Rightarrow> 'v \<Rightarrow> links \<Rightarrow> addr \<Rightarrow> addr run" where
  "CDL_SEARCH_SCALAR2 field val h head = foreach (cdl_step_next head) h (\<lambda>out. field out = val) head"

definition CDL_SEARCH2 :: "(addr \<Rightarrow> 'e \<Rightarrow> int) \<Rightarrow> 'e \<Rightarrow> links \<Rightarrow> addr \<Rightarrow> addr run" where
  "CDL_SEARCH2 cmp elt h head = foreach (cdl_step_next head) h (\<lambda>out. cmp out elt = 0) head"

definition CDL_FOREACH_SAFE2 ::
  "(addr \<Rightarrow> links \<Rightarrow> addr \<Rightarrow> (links \<times> addr) run) \<Rightarrow> links \<Rightarrow> addr \<Rightarrow> (links \<times> addr) run" where
  "CDL_FOREACH_SAFE2 body h head =
     then_run (if head \<noteq> 0 then get_prev h head else returned 0) (\<lambda>tmp1.
     then_run
       (while_run (\<lambda>(h, head, el). returned (el \<noteq> 0))
         (\<lambda>(h, head, el). then_run (get_next h el) (\<lambda>tmp2.
            then_run (body el h head) (\<lambda>(h, head).
              returned (h, head, if el = tmp1 then 0 else tmp2))))
         (h, head, head))
       (\<lambda>(h, head, el). returned (h, head)))"

definition CDL_REPLACE_ELEM2 :: "addr \<Rightarrow> addr \<Rightarrow> links \<Rightarrow> addr \<Rightarrow> (links \<times> addr) run" where
  "CDL_REPLACE_ELEM2 el add h head =
     assert_run (head \<noteq> 0) (assert_run (el \<noteq> 0) (assert_run (add \<noteq> 0)
       (then_run (get_next h el) (\<lambda>n.
        if n = el then
          then_run (set_next add add h) (\<lambda>h.
          then_run (set_prev add add h) (\<lambda>h. returned (h, add)))
        else
          then_run (get_next h el) (\<lambda>n.
          then_run (set_next add n h) (\<lambda>h.
          then_run (get_prev h el) (\<lambda>b.
          then_run (set_prev add b h) (\<lambda>h.
          then_run (get_next h add) (\<lambda>n.
          then_run (set_prev n add h) (\<lambda>h.
          then_run (get_prev h add) (\<lambda>b.
          then_run (set_next b add h) (\<lambda>h.
          returned (h, if head = el then add else head)))))))))))))"

definition CDL_PREPEND_ELEM2 :: "addr \<Rightarrow> addr \<Rightarrow> links \<Rightarrow> addr \<Rightarrow> (links \<times> addr) run" where
  "CDL_PREPEND_ELEM2 el add h head =
     (if el \<noteq> 0 then
        assert_run (head \<noteq> 0) (assert_run (add \<noteq> 0)
          (then_run (set_next add el h) (\<lambda>h.
           then_run (get_prev h el) (\<lambda>b.
           then_run (set_prev add b h) (\<lambda>h.
           then_run (set_prev el add h) (\<lambda>h.
           then_run (get_prev h add) (\<lambda>b.
           then_run (set_next b add h) (\<lambda>h.
           returned (h, if head = el then add else head)))))))))
      else CDL_APPEND2 add h head)"

definition CDL_APPEND_ELEM2 :: "addr \<Rightarrow> addr \<Rightarrow> links \<Rightarrow> addr \<Rightarrow> (links \<times> addr) run" where
  "CDL_APPEND_ELEM2 el add h head =
     (if el \<noteq> 0 then
        assert_run (head \<noteq> 0) (assert_run (add \<noteq> 0)
          (then_run (get_next h el) (\<lambda>n.
           then_run (set_next add n h) (\<lambda>h.
           then_run (set_prev add el h) (\<lambda>h.
           then_run (set_next el add h) (\<lambda>h.
           then_run (get_next h add) (\<lambda>n.
           then_run (set_prev n add h) (\<lambda>h. returned (h, head)))))))))
      else CDL_PREPEND2 add h head)"

definition CDL_INSERT_INORDER2 :: "(addr \<Rightarrow> addr \<Rightarrow> int) \<Rightarrow> addr \<Rightarrow> links \<Rightarrow> addr \<Rightarrow> (links \<times> addr) run" where
  "CDL_INSERT_INORDER2 cmp add h head =
     (if head \<noteq> 0 then
        then_run (CDL_LOWER_BOUND2 cmp add h head) (\<lambda>tmp. CDL_APPEND_ELEM2 tmp add h head)
      else
        then_run (set_next add add h) (\<lambda>h.
        then_run (set_prev add add h) (\<lambda>h. returned (h, add))))"

text \<open>The parts of \<open>CDL_SORT2\<close>: a walk ends at the head that the pass began with.\<close>

definition cdl_sort_adv :: "addr \<Rightarrow> links \<Rightarrow> addr \<Rightarrow> addr run" where
  "cdl_sort_adv oldhead h p =
     then_run (get_next h p) (\<lambda>n. returned (if n = oldhead then 0 else n))"

definition cdl_sort_link :: "addr \<Rightarrow> addr \<Rightarrow> links \<Rightarrow> links run" where
  "cdl_sort_link tail e h =
     then_run (if tail \<noteq> 0 then set_next tail e h else returned h) (set_prev e tail)"

definition cdl_sort_close :: "addr \<Rightarrow> addr \<Rightarrow> links \<Rightarrow> links run" where
  "cdl_sort_close list tail h = then_run (set_prev list tail h) (set_next tail list)"

definition CDL_SORT2 :: "(addr \<Rightarrow> addr \<Rightarrow> int) \<Rightarrow> links \<Rightarrow> addr \<Rightarrow> (links \<times> addr) run" where
  "CDL_SORT2 cmp h list =
     then_run (sort_list cdl_sort_adv cdl_sort_link cdl_sort_close chk_int cmp h list)
       (\<lambda>(h, list, tail). returned (h, list))"

fun CDL_step :: "(addr \<Rightarrow> addr \<Rightarrow> int) \<Rightarrow> link_op \<Rightarrow> links \<Rightarrow> addr \<Rightarrow> (links \<times> addr) run" where
  "CDL_step cmp (Prepend e) = CDL_PREPEND2 e"
| "CDL_step cmp (Append e) = CDL_APPEND2 e"
| "CDL_step cmp (Delete d) = CDL_DELETE2 d"
| "CDL_step cmp (Replace_elem x e) = CDL_REPLACE_ELEM2 x e"
| "CDL_step cmp (Prepend_elem x e) = CDL_PREPEND_ELEM2 x e"
| "CDL_step cmp (Append_elem x e) = CDL_APPEND_ELEM2 x e"
| "CDL_step cmp (Insert_inorder e) = CDL_INSERT_INORDER2 cmp e"
| "CDL_step cmp Sort_all = CDL_SORT2 cmp"

section \<open>The list in memory\<close>

definition cdl :: "links \<Rightarrow> addr \<Rightarrow> addr list \<Rightarrow> bool" where
  "cdl h p xs \<longleftrightarrow> p = hd0 xs \<and> dbl (nexts h) (prevs h) p xs p"

lemma cdl_dbl: "cdl h p xs \<Longrightarrow> dbl (nexts h) (prevs h) p xs p"
  unfolding cdl_def by blast

lemma cdl_hd: "cdl h p xs \<Longrightarrow> p = hd_or 0 xs"
  by (simp add: cdl_def hd0_def hd_or_def)

lemma cdl_node: "cdl h p xs \<Longrightarrow> x \<in> set xs \<Longrightarrow> node h x"
  using dbl_at [of "nexts h" "prevs h" p] unfolding cdl_def node_def
  by (metis option.distinct(1) split_list)

lemma cdl_distinct: "cdl h p xs \<Longrightarrow> distinct xs"
  by (simp add: cdl_def dbl_def)

lemma cdl_nonzero: "cdl h p xs \<Longrightarrow> 0 \<notin> set xs"
  unfolding cdl_def using dbl_zero by blast

lemma cdl_empty: "cdl h p xs \<Longrightarrow> p = 0 \<longleftrightarrow> xs = []"
  using cdl_hd [of h p xs] cdl_nonzero [of h p xs] by (cases xs) auto

lemma cdl_around:
  assumes "cdl h p (as @ t # x # bs)"
  shows "p \<noteq> 0" "p \<noteq> x" "t \<noteq> x" "p \<in> set (as @ [t])"
    "nexts h x = Some (hd_or p bs)" "prevs h x = Some t" "nexts h t = Some x" "prevs h t \<noteq> None"
    "x \<noteq> 0" "t \<noteq> 0" "nexts h p \<noteq> None" "prevs h p \<noteq> None" "x \<notin> set bs" "t \<notin> set bs" "p \<notin> set bs"
proof -
  let ?xs = "as @ t # x # bs"
  note d = cdl_dbl [OF assms]
  note at = dbl_at [of "nexts h" "prevs h" p "as @ [t]" x bs p] dbl_at [of "nexts h" "prevs h" p as t "x # bs" p]
  have p: "p = hd_or t as" using cdl_hd [OF assms] by (cases as) simp_all
  then show pin: "p \<in> set (as @ [t])" by (cases as) auto
  have dist: "distinct ?xs" using d by (simp add: dbl_def)
  show "p \<noteq> x" "p \<notin> set bs" "t \<noteq> x" "x \<notin> set bs" "t \<notin> set bs" using dist pin by auto
  show "p \<noteq> 0" "prevs h p \<noteq> None" using dbl_head [OF d] by simp_all
  show "nexts h x = Some (hd_or p bs)" "prevs h x = Some t" "x \<noteq> 0" using at(1,2,3) d by simp_all
  show "nexts h t = Some x" "prevs h t \<noteq> None" "t \<noteq> 0" using at(6,7,8) d by simp_all
  show "nexts h p \<noteq> None" using cdl_node [OF assms, of p] pin by (auto simp: node_def)
qed

lemma cdl_in_rest:
  "cdl h p (as @ b # bs) \<Longrightarrow> b \<noteq> 0 \<and> prevs h b \<noteq> None \<and> nexts h b \<noteq> None"
  using cdl_node [of h p "as @ b # bs" b] by (simp add: node_def)

section \<open>The operations\<close>

lemma CDL_PREPEND2_returns:
  assumes "cdl h p xs" "node h e" "e \<notin> set xs"
  shows "returns (CDL_PREPEND2 e h p) (\<lambda>(h', p'). cdl h' p' (e # xs) \<and> only_in (insert e (set xs)) h h')"
proof (cases "xs = []")
  case True
  then show ?thesis using assms dbl_one [of e] cdl_empty [OF assms(1)]
    by (auto simp: CDL_PREPEND2_def cdl_def node_def link_simps only_in_def same_nodes_def)
next
  case False
  note hd = dbl_head [OF cdl_dbl [OF assms(1)] False]
  have e: "e \<noteq> 0" "p \<noteq> e" "nexts h e \<noteq> None" "prevs h e \<noteq> None"
    using assms(2,3) hd(2) by (auto simp: node_def)
  have t: "last xs \<noteq> 0" "last xs \<noteq> e" "nexts h (last xs) \<noteq> None" "last xs \<in> set xs"
    using cdl_node [OF assms(1), of "last xs"] False assms(3) by (auto simp: node_def)
  have "dbl ((nexts h)(e \<mapsto> p)) ((prevs h)(e \<mapsto> last xs, p \<mapsto> e)) e (e # xs) p"
    by (rule dbl_push) (use assms e False cdl_dbl in simp_all)
  then have "dbl ((nexts h)(e \<mapsto> p, last xs \<mapsto> e)) ((prevs h)(e \<mapsto> last xs, p \<mapsto> e)) e (e # xs) e"
    using dbl_end False by fastforce
  then show ?thesis using hd e t
    by (auto simp: CDL_PREPEND2_def cdl_def link_simps only_in_def same_nodes_def)
qed

lemma CDL_APPEND2_returns:
  assumes "cdl h p xs" "node h e" "e \<notin> set xs"
  shows "returns (CDL_APPEND2 e h p) (\<lambda>(h', p'). cdl h' p' (xs @ [e]) \<and> only_in (insert e (set xs)) h h')"
proof (cases "xs = []")
  case True
  then show ?thesis using assms dbl_one [of e] cdl_empty [OF assms(1)]
    by (auto simp: CDL_APPEND2_def cdl_def node_def link_simps only_in_def same_nodes_def)
next
  case False
  then obtain as t where xs: "xs = as @ [t]" by (cases xs rule: rev_cases) auto
  note hd = dbl_head [OF cdl_dbl [OF assms(1)] False]
  have e: "e \<noteq> 0" "p \<noteq> e" "nexts h e \<noteq> None" "prevs h e \<noteq> None"
    using assms(2,3) hd(2) by (auto simp: node_def)
  have t: "t \<noteq> 0" "t \<noteq> e" "nexts h t \<noteq> None" "prevs h t \<noteq> None"
    using cdl_node [OF assms(1), of t] assms(3) xs by (auto simp: node_def)
  have "dbl ((nexts h)(e \<mapsto> p, t \<mapsto> e)) ((prevs h)(e \<mapsto> t, p \<mapsto> e)) p (as @ [t, e]) p"
    using dbl_insert [of "nexts h" "prevs h" p as t "[]" p e] cdl_dbl [OF assms(1)] assms(3) e xs by simp
  moreover have "p = hd0 (as @ [t, e])" using cdl_hd [OF assms(1)] xs by (cases as) auto
  ultimately show ?thesis using hd e t xs
    by (auto simp: CDL_APPEND2_def cdl_def link_simps only_in_def same_nodes_def)
qed

lemma CDL_DELETE2_returns:
  assumes "cdl h p xs" "x \<in> set xs"
  shows "returns (CDL_DELETE2 x h p) (\<lambda>(h', p'). cdl h' p' (remove1 x xs) \<and> only_in (set xs) h h')"
proof -
  obtain as bs where sp: "xs = as @ x # bs" "remove1 x xs = as @ bs"
    using split_at [OF assms(2) cdl_distinct [OF assms(1)]] by metis
  note d = assms(1) [unfolded sp(1)]
  show ?thesis
  proof (cases as rule: rev_cases)
    case Nil
    note d' = d [unfolded Nil append_Nil]
    have x: "p = x" "x \<noteq> 0" "prevs h x = Some (last_or x bs)" "nexts h x = Some (hd_or x bs)" "x \<notin> set bs"
      using cdl_hd [OF d'] dbl_at [of "nexts h" "prevs h" p "[]" x bs p] cdl_dbl [OF d'] by auto
    show ?thesis
    proof (cases bs)
      case Nil
      then show ?thesis using x \<open>as = []\<close> sp by (simp add: CDL_DELETE2_def cdl_def link_simps)
    next
      case (Cons b bs')
      have b: "b \<noteq> 0 \<and> prevs h b \<noteq> None \<and> nexts h b \<noteq> None" "b \<noteq> x"
        using cdl_in_rest [of h p "[x]" b bs'] d' Cons x(5) by auto
      have l: "last_or b bs' \<in> set bs" using Cons last_or_in [of b bs'] by simp
      have l': "last_or b bs' \<noteq> x" using l x(5) by blast
      have "node h (last_or b bs')" using cdl_node [OF d'] l by simp
      then have l'': "last_or b bs' \<noteq> 0" "nexts h (last_or b bs') \<noteq> None" by (auto simp: node_def)
      have "dbl (nexts h) ((prevs h)(b \<mapsto> last_or b bs')) b (b # bs') p"
        using dbl_pop cdl_dbl [OF d'] Cons by blast
      then have "dbl ((nexts h)(last_or b bs' \<mapsto> b)) ((prevs h)(b \<mapsto> last_or b bs')) b (b # bs') b"
        using dbl_end [of "nexts h" _ b "b # bs'"] by (simp add: last_or_def)
      then show ?thesis using x b l l' l'' \<open>as = []\<close> sp Cons
        by (auto simp: CDL_DELETE2_def cdl_def link_simps only_in_def same_nodes_def)
    qed
  next
    case (snoc as' t)
    then have d': "cdl h p (as' @ t # x # bs)" using d by simp
    note ar = cdl_around [OF d']
    have r: "dbl ((nexts h)(t \<mapsto> hd_or p bs)) ((prevs h)(hd_or p bs \<mapsto> t)) p (as' @ t # bs) p"
      using dbl_remove cdl_dbl [OF d'] by blast
    have hd: "p = hd0 (as' @ t # bs)" using cdl_hd [OF d'] by (cases as') auto
    show ?thesis
    proof (cases bs)
      case Nil
      then show ?thesis using ar r hd snoc sp
        by (auto simp: CDL_DELETE2_def cdl_def link_simps only_in_def same_nodes_def)
    next
      case (Cons b bs')
      then have "b \<noteq> 0 \<and> prevs h b \<noteq> None" "b \<noteq> x" "b \<noteq> p"
        using cdl_in_rest [of h p "as' @ [t, x]" b bs'] d' ar(13,15) by auto
      then show ?thesis using ar r hd snoc sp Cons
        by (auto simp: CDL_DELETE2_def cdl_def link_simps only_in_def same_nodes_def)
    qed
  qed
qed

lemma CDL_APPEND_ELEM2_returns:
  assumes "cdl h p (as @ x # bs)" "node h e" "e \<notin> set (as @ x # bs)"
  shows "returns (CDL_APPEND_ELEM2 x e h p)
    (\<lambda>(h', p'). cdl h' p' (as @ x # e # bs) \<and> only_in (insert e (set (as @ x # bs))) h h')"
proof -
  note d = cdl_dbl [OF assms(1)]
  have e: "e \<noteq> 0" "nexts h e \<noteq> None" "prevs h e \<noteq> None" using assms(2) by (auto simp: node_def)
  have x: "x \<noteq> 0" "nexts h x = Some (hd_or p bs)" "x \<noteq> e" "prevs h x \<noteq> None"
    using dbl_at [OF d] assms(3) by auto
  have p: "p \<noteq> 0" "p \<in> set (as @ x # bs)" "prevs h p \<noteq> None" using dbl_head [OF d] by auto
  have pe: "p \<noteq> e" using p(2) assms(3) by blast
  have r: "dbl ((nexts h)(e \<mapsto> hd_or p bs, x \<mapsto> e)) ((prevs h)(e \<mapsto> x, hd_or p bs \<mapsto> e)) p (as @ x # e # bs) p"
    using dbl_insert [OF d e(1) assms(3)] .
  have hd: "p = hd0 (as @ x # e # bs)" using cdl_hd [OF assms(1)] by (cases as) auto
  have "hd_or p bs \<noteq> 0 \<and> prevs h (hd_or p bs) \<noteq> None" "hd_or p bs \<in> insert p (set bs)"
    using p cdl_in_rest [of h p "as @ [x]"] assms(1) by (cases bs; simp)+
  then show ?thesis using x p pe e r hd
    by (auto simp: CDL_APPEND_ELEM2_def cdl_def link_simps only_in_def same_nodes_def)
qed

lemma CDL_PREPEND_ELEM2_returns:
  assumes "cdl h p (as @ x # bs)" "node h e" "e \<notin> set (as @ x # bs)"
  shows "returns (CDL_PREPEND_ELEM2 x e h p)
    (\<lambda>(h', p'). cdl h' p' (as @ e # x # bs) \<and> only_in (insert e (set (as @ x # bs))) h h')"
proof -
  have e: "e \<noteq> 0" "nexts h e \<noteq> None" "prevs h e \<noteq> None" using assms(2) by (auto simp: node_def)
  show ?thesis
  proof (cases as rule: rev_cases)
    case Nil
    have d: "cdl h p (x # bs)" using assms(1) Nil by simp
    have px: "p = x" "x \<noteq> 0" "prevs h x \<noteq> None" using dbl_head [OF cdl_dbl [OF d]] cdl_hd [OF d] by auto
    have "CDL_PREPEND_ELEM2 x e h p = CDL_PREPEND2 e h p"
    proof -
      obtain t where t: "prevs h x = Some t" using px(3) by blast
      have "x \<noteq> e" using assms(3) by auto
      then show ?thesis using px e t
        by (auto simp: CDL_PREPEND_ELEM2_def CDL_PREPEND2_def link_simps)
    qed
    then show ?thesis using CDL_PREPEND2_returns [OF d assms(2)] assms(3) Nil by simp
  next
    case (snoc as' t)
    have d: "cdl h p (as' @ t # x # bs)" using assms(1) snoc by simp
    note ar = cdl_around [OF d]
    have ne: "t \<noteq> e" "x \<noteq> e" using assms(3) snoc by auto
    have "dbl ((nexts h)(e \<mapsto> x, t \<mapsto> e)) ((prevs h)(e \<mapsto> t, x \<mapsto> e)) p (as' @ t # e # x # bs) p"
      using dbl_insert [OF cdl_dbl [OF d] e(1)] assms(3) snoc by simp
    moreover have "p = hd0 (as' @ t # e # x # bs)" using cdl_hd [OF d] by (cases as') auto
    ultimately show ?thesis using ar ne e snoc
      by (auto simp: CDL_PREPEND_ELEM2_def cdl_def link_simps only_in_def same_nodes_def)
  qed
qed

lemma CDL_REPLACE_ELEM2_returns:
  assumes "cdl h p (as @ x # bs)" "node h e" "e \<notin> set (as @ x # bs)"
  shows "returns (CDL_REPLACE_ELEM2 x e h p)
    (\<lambda>(h', p'). cdl h' p' (as @ e # bs) \<and> only_in (insert e (set (as @ x # bs))) h h')"
proof -
  have e: "e \<noteq> 0" "nexts h e \<noteq> None" "prevs h e \<noteq> None" "x \<noteq> e"
    using assms(2,3) by (auto simp: node_def)
  show ?thesis
  proof (cases as rule: rev_cases)
    case Nil
    have d: "cdl h p (x # bs)" using assms(1) Nil by simp
    have px: "p = x" "x \<noteq> 0" "prevs h x = Some (last_or x bs)" "nexts h x = Some (hd_or x bs)" "x \<notin> set bs"
      using cdl_hd [OF d] dbl_at [of "nexts h" "prevs h" p "[]" x bs p] cdl_dbl [OF d] by auto
    show ?thesis
    proof (cases bs)
      case Nil
      have "dbl ((nexts h)(e \<mapsto> e)) ((prevs h)(e \<mapsto> e)) e [e] e" using e(1) by (intro dbl_one) simp_all
      then show ?thesis using px e \<open>as = []\<close> Nil
        by (auto simp: CDL_REPLACE_ELEM2_def cdl_def link_simps only_in_def same_nodes_def)
    next
      case (Cons b bs')
      have b: "b \<noteq> 0 \<and> prevs h b \<noteq> None" "b \<noteq> e" "b \<noteq> x"
        using cdl_in_rest [of h p "[x]" b bs'] d assms(3) Cons px(5) by auto
      have l: "last_or b bs' \<in> set bs" using Cons last_or_in [of b bs'] by simp
      have "node h (last_or b bs')" using cdl_node [OF d] l by simp
      then have l': "last_or b bs' \<noteq> 0" "nexts h (last_or b bs') \<noteq> None" "last_or b bs' \<noteq> e" "last_or b bs' \<noteq> x"
        using l assms(3) px(5) Nil unfolding node_def by (simp, simp, metis append_Nil list.set_intros(2), metis)
      have "dbl ((nexts h)(e \<mapsto> b)) ((prevs h)(e \<mapsto> last_or b bs', b \<mapsto> e)) e (e # b # bs') p"
        by (rule dbl_replace_head [of _ _ p x]) (use cdl_dbl [OF d] e assms(3) Cons \<open>as = []\<close> in simp_all)
      then have "dbl ((nexts h)(e \<mapsto> b, last_or b bs' \<mapsto> e)) ((prevs h)(e \<mapsto> last_or b bs', b \<mapsto> e)) e (e # b # bs') e"
        using dbl_end [of _ _ e "e # b # bs'"] by (simp add: last_or_def)
      then show ?thesis using px e b l l' \<open>as = []\<close> Cons
        by (auto simp: CDL_REPLACE_ELEM2_def cdl_def link_simps only_in_def same_nodes_def)
    qed
  next
    case (snoc as' t)
    have d: "cdl h p (as' @ t # x # bs)" using assms(1) snoc by simp
    note ar = cdl_around [OF d]
    have ne: "t \<noteq> e" "p \<noteq> e" using assms(3) snoc ar(4) by auto
    have r: "dbl ((nexts h)(e \<mapsto> hd_or p bs, t \<mapsto> e)) ((prevs h)(e \<mapsto> t, hd_or p bs \<mapsto> e)) p (as' @ t # e # bs) p"
      using dbl_replace [OF cdl_dbl [OF d] e(1)] assms(3) snoc by simp
    have hd: "p = hd0 (as' @ t # e # bs)" using cdl_hd [OF d] by (cases as') auto
    have n: "hd_or p bs \<noteq> 0" "prevs h (hd_or p bs) \<noteq> None" "hd_or p bs \<in> insert p (set bs)" "hd_or p bs \<noteq> x" "hd_or p bs \<noteq> e"
      using ar(1,2,12,13) ne(2) cdl_in_rest [of h p "as' @ [t, x]"] d assms(3) by (cases bs; simp; blast)+
    show ?thesis using ar ne e r hd n snoc
      by (auto simp: CDL_REPLACE_ELEM2_def cdl_def link_simps only_in_def same_nodes_def)
  qed
qed

lemma CDL_LOWER_BOUND2_returns:
  assumes "cdl h p xs"
  shows "CDL_LOWER_BOUND2 cmp like h p = returned (last0 (takeWhile (\<lambda>x. \<not> cmp x like \<ge> 0) xs))"
proof (cases "xs = [] \<or> cmp (hd xs) like \<ge> 0")
  case True
  then show ?thesis using cdl_hd [OF assms] by (cases xs) (auto simp: CDL_LOWER_BOUND2_def)
next
  case False
  then obtain x as where xs: "xs = x # as" "\<not> cmp x like \<ge> 0" by (cases xs) auto
  have p: "p = x" "path (nexts h) x (x # as) x" "x \<notin> set as" "x \<noteq> 0"
    using cdl_dbl [OF assms] xs unfolding dbl_def by auto
  then show ?thesis
    using seek_lower_bound [OF p(2,3), of "\<lambda>n. \<not> cmp n like \<ge> 0"] xs
    by (simp add: CDL_LOWER_BOUND2_def last_or_def)
qed

lemma CDL_INSERT_INORDER2_returns:
  assumes "cdl h p xs" "node h e" "e \<notin> set xs" "three_way cmp key"
  shows "returns (CDL_INSERT_INORDER2 cmp e h p)
    (\<lambda>(h', p'). cdl h' p' (takeWhile (\<lambda>x. key x < key e) xs @ e # dropWhile (\<lambda>x. key x < key e) xs) \<and>
       only_in (insert e (set xs)) h h')"
proof -
  let ?P = "\<lambda>x. key x < key e"
  have lb: "CDL_LOWER_BOUND2 cmp e h p = returned (last0 (takeWhile ?P xs))"
    unfolding CDL_LOWER_BOUND2_returns [OF assms(1)] three_way_less [OF assms(4)] by simp
  show ?thesis
  proof (cases "takeWhile ?P xs = []")
    case True
    then have dw: "dropWhile ?P xs = xs" by (metis append_Nil takeWhile_dropWhile_id)
    have "p = 0 \<Longrightarrow> xs = []" using cdl_empty [OF assms(1)] by simp
    moreover have "CDL_INSERT_INORDER2 cmp e h 0 = CDL_APPEND2 e h 0"
      using assms(2) by (auto simp: CDL_INSERT_INORDER2_def CDL_APPEND2_def node_def link_simps)
    ultimately show ?thesis
      using CDL_PREPEND2_returns [OF assms(1-3)] CDL_APPEND2_returns [OF assms(1-3)] lb
      unfolding True dw by (cases "p = 0") (simp_all add: CDL_INSERT_INORDER2_def CDL_APPEND_ELEM2_def)
  next
    case False
    from insert_position [OF this] obtain as t where s: "takeWhile ?P xs = as @ [t]"
        "xs = as @ t # dropWhile ?P xs" "last0 (takeWhile ?P xs) = t" .
    have "p \<noteq> 0" using cdl_empty [OF assms(1)] s(2) by auto
    moreover have "returns (CDL_APPEND_ELEM2 t e h p) (\<lambda>(h', p'). cdl h' p' (as @ t # e # dropWhile ?P xs) \<and>
        only_in (insert e (set (as @ t # dropWhile ?P xs))) h h')"
      by (rule CDL_APPEND_ELEM2_returns) (use assms(1,2,3) s(2) in simp_all)
    ultimately show ?thesis unfolding CDL_INSERT_INORDER2_def lb s(3) s(1) s(2) [symmetric] by simp
  qed
qed

section \<open>The interface\<close>

definition cdl_nx :: "addr \<Rightarrow> links \<Rightarrow> addr \<Rightarrow> addr option" where
  "cdl_nx oldhead h p = map_option (\<lambda>n. if n = oldhead then 0 else n) (nexts h p)"

definition cdl_out :: "links \<Rightarrow> addr list \<Rightarrow> bool" where
  "cdl_out h xs \<longleftrightarrow> (xs = [] \<or> path (nexts h) (hd xs) (butlast xs) (last xs)) \<and> backs (prevs h) 0 xs"

lemma cdl_nx_path:
  "path (nexts h) q ys z \<Longrightarrow> z \<notin> set ys \<Longrightarrow> path (cdl_nx z h) (if q = z then 0 else q) ys 0"
proof (induction ys arbitrary: q)
  case (Cons y ys)
  then obtain n where n: "q = y" "y \<noteq> 0" "nexts h y = Some n" "path (nexts h) n ys z" by auto
  have "path (cdl_nx z h) (if n = z then 0 else n) ys 0" by (rule Cons.IH [OF n(4)]) (use Cons.prems in simp)
  moreover have "cdl_nx z h y = Some (if n = z then 0 else n)" using n(3) by (simp add: cdl_nx_def)
  ultimately show ?case using n Cons.prems(2) by auto
qed simp

lemma cdl_open: "cdl h p xs \<Longrightarrow> path (cdl_nx p h) p xs 0"
proof (cases xs)
  case (Cons x as)
  assume c: "cdl h p xs"
  obtain n where n: "p = x" "x \<noteq> 0" "nexts h x = Some n" "path (nexts h) n as x" "x \<notin> set as"
    using cdl_dbl [OF c] Cons unfolding dbl_def by auto
  have "path (cdl_nx x h) (if n = x then 0 else n) as 0" by (rule cdl_nx_path [OF n(4,5)])
  moreover have "cdl_nx x h x = Some (if n = x then 0 else n)" using n(3) by (simp add: cdl_nx_def)
  ultimately show ?thesis using n Cons by auto
qed (simp add: cdl_def)

interpretation cdl_sort: sort_links cdl_nx cdl_sort_adv cdl_sort_link cdl_sort_close chk_int node cdl_out cdl
proof (unfold_locales, goal_cases)
  case (1 h p q old)
  then show ?case by (auto simp: cdl_sort_adv_def cdl_nx_def node_def link_simps)
next
  case (2 h p)
  then show ?case by (simp add: node_def)
next
  case (3 h h' p)
  then show ?case by (rule same_nodes_node)
next
  case (4 h)
  show ?case by (simp add: cdl_out_def)
next
  case (5 h xs e)
  have e: "e \<noteq> 0" "prevs h e \<noteq> None" "nexts h e \<noteq> None" using 5(3) by (auto simp: node_def)
  show ?case
  proof (cases xs rule: rev_cases)
    case Nil
    then show ?thesis using e by (simp add: cdl_sort_link_def cdl_out_def cdl_nx_def link_simps)
  next
    case (snoc as t)
    then have t: "t \<noteq> 0" "nexts h t \<noteq> None" using 5(2) by (auto simp: node_def)
    have b: "backs ((prevs h)(e \<mapsto> t)) 0 (xs @ [e])" using 5(1,4) snoc by (simp add: cdl_out_def)
    have "path (nexts h) (hd xs) as t" using 5(1) snoc by (simp add: cdl_out_def)
    then have "path ((nexts h)(t \<mapsto> e)) (hd xs) (as @ [t]) e"
      using t 5(5) snoc by (simp add: path_append)
    then show ?thesis using t e b snoc
      by (cases as) (auto simp: cdl_sort_link_def cdl_out_def cdl_nx_def link_simps butlast_append only_in_def same_nodes_def)
  qed
next
  case (6 h xs)
  then obtain as t where xs: "xs = as @ [t]" by (cases xs rule: rev_cases) auto
  then have t: "t \<noteq> 0" "nexts h t \<noteq> None" using 6(3) by (auto simp: node_def)
  have hd: "hd xs \<noteq> 0" "prevs h (hd xs) \<noteq> None" "hd xs \<in> set xs" "hd0 xs = hd xs"
    using 6(2,3) by (auto simp: node_def hd0_def)
  have "path (nexts h) (hd xs) as t" using 6(1) xs by (simp add: cdl_out_def)
  then have p: "path ((nexts h)(t \<mapsto> hd xs)) (hd xs) (as @ [t]) (hd xs)"
    using t 6(4) xs by (simp add: path_append)
  have "backs (prevs h) 0 xs" using 6(1) by (simp add: cdl_out_def)
  then have "backs ((prevs h)(hd xs \<mapsto> t)) t xs" using 6(2,4) by (cases xs) simp_all
  then show ?case using t hd p xs 6(4)
    by (auto simp: cdl_sort_close_def cdl_def dbl_def link_simps only_in_def same_nodes_def)
next
  case (7 i)
  then show ?case by (simp add: chk_int_def fits_int_def)
next
  case (8 h p xs)
  then show ?case using cdl_node cdl_open by auto
qed

interpretation cdl_list: linked_list cdl_nx cdl_sort_adv cdl_sort_link cdl_sort_close chk_int node cdl_out cdl CDL_step
proof (unfold_locales, goal_cases)
  case (1 cmp h p)
  show ?case by (simp add: CDL_SORT2_def)
next
  case (2 cmp e)
  show ?case by (simp add: CDL_PREPEND_ELEM2_def fun_eq_iff)
next
  case (3 cmp e)
  show ?case by (simp add: CDL_APPEND_ELEM2_def fun_eq_iff)
qed (unfold CDL_step.simps, (rule CDL_PREPEND2_returns CDL_APPEND2_returns CDL_DELETE2_returns
       CDL_REPLACE_ELEM2_returns CDL_PREPEND_ELEM2_returns CDL_APPEND_ELEM2_returns CDL_INSERT_INORDER2_returns; assumption)+)

end
