(* ===== verification/Ut_List_Laws.thy ===== *)
theory Ut_List_Laws
  imports Ut_List Ut_Dlist Ut_Cdlist
begin

text \<open>
  What the three kinds of list and the stack promise.  Each law is drawn from the interpretations
  of \<open>linked_list\<close> on the three sets of macros.
\<close>

section \<open>Iteration\<close>

lemma ll_visits: "ll h p xs \<Longrightarrow> visits (get_next h) p xs"
  unfolding ll_def by (rule visits_path)

lemma dl_visits: "dl h p xs \<Longrightarrow> visits (get_next h) p xs"
  using dl_path visits_path by blast

lemma cdl_visits: "cdl h p xs \<Longrightarrow> visits (cdl_step_next p h) p xs"
proof -
  assume c: "cdl h p xs"
  have "cdl_step_next p h = cdl_sort_adv p h"
    by (auto simp: fun_eq_iff cdl_step_next_def cdl_sort_adv_def get_next_def split: option.splits)
  then show ?thesis using cdl_list.lst_visits [OF c] by simp
qed

lemma ll_foreach_safe_deletes:
  assumes "ll h p xs"
  shows "returns (LL_FOREACH_SAFE2 (\<lambda>el h head. if P el then LL_DELETE2 el h head else returned (h, head)) h p)
    (\<lambda>(h', p'). ll h' p' (filter (\<lambda>x. \<not> P x) xs))"
  unfolding LL_FOREACH_SAFE2_def
proof (rule foreach_safe_filters [where R = ll], goal_cases)
  case 1
  show ?case by (rule assms)
next
  case (2 h p xs)
  then show ?case by (rule ll_visits)
next
  case (3 h p as x bs)
  have "path (nexts h) p (as @ x # bs) 0" using 3 by (simp add: ll_def)
  then have "x \<noteq> 0" "nexts h x = Some (hd0 bs)" unfolding path_mid by blast+
  then show ?case using ll_distinct [OF 3] by (simp add: link_simps)
next
  case (4 h p xs x)
  show ?case by (rule returns_mono [OF LL_DELETE2_returns [OF 4]]) auto
qed

lemma dl_foreach_safe_deletes:
  assumes "dl h p xs"
  shows "returns (DL_FOREACH_SAFE2 (\<lambda>el h head. if P el then DL_DELETE2 el h head else returned (h, head)) h p)
    (\<lambda>(h', p'). dl h' p' (filter (\<lambda>x. \<not> P x) xs))"
  unfolding DL_FOREACH_SAFE2_def
proof (rule foreach_safe_filters [where R = dl], goal_cases)
  case 1
  show ?case by (rule assms)
next
  case (2 h p xs)
  then show ?case by (rule dl_visits)
next
  case (3 h p as x bs)
  have "x \<noteq> 0" "nexts h x = Some (hd0 bs)" using dl_path [OF 3] unfolding path_mid by blast+
  then show ?case using dl_distinct [OF 3] by (simp add: link_simps)
next
  case (4 h p xs x)
  show ?case by (rule returns_mono [OF DL_DELETE2_returns [OF 4]]) auto
qed

lemma cdl_foreach_safe_deletes:
  assumes "cdl h p xs"
  shows "returns (CDL_FOREACH_SAFE2 (\<lambda>el h head. if P el then CDL_DELETE2 el h head else returned (h, head)) h p)
    (\<lambda>(h', p'). cdl h' p' (filter (\<lambda>x. \<not> P x) xs))"
proof (cases "xs = []")
  case True
  then show ?thesis using cdl_empty [OF assms] assms by (simp add: CDL_FOREACH_SAFE2_def while_run_step)
next
  case False
  let ?w = "while_run (\<lambda>(h, head, el). returned (el \<noteq> 0))
         (\<lambda>(h, head, el). then_run (get_next h el) (\<lambda>tmp2.
            then_run (if P el then CDL_DELETE2 el h head else returned (h, head)) (\<lambda>(h, head).
              returned (h, head, if el = last xs then 0 else tmp2))))"
  have w: "returns (?w (h, p, hd0 ys)) (\<lambda>(h', p', el). cdl h' p' (filter (\<lambda>x. \<not> P x) (ks @ ys)))"
    if "cdl h p (ks @ ys)" "\<forall>k\<in>set ks. \<not> P k" "ys \<noteq> [] \<Longrightarrow> last ys = last xs" for ks ys h p
    using that
  proof (induction ys arbitrary: h p ks)
    case Nil
    then show ?case by (simp add: while_run_step)
  next
    case (Cons y ys)
    note at = dbl_at [OF cdl_dbl [OF Cons.prems(1)]]
    have g: "get_next h y = returned (hd_or p ys)" "y \<noteq> 0" using at by (simp_all add: link_simps)
    have e: "(if y = last xs then 0 else hd_or p ys) = hd0 ys"
      using Cons.prems(3) at(5) last_in_set [of ys] by (cases "ys = []") (auto simp: hd0_def hd_or_def)
    have l: "ys \<noteq> [] \<Longrightarrow> last ys = last xs" using Cons.prems(3) by simp
    show ?case
    proof (cases "P y")
      case True
      obtain h1 p1 where d: "CDL_DELETE2 y h p = returned (h1, p1)" "cdl h1 p1 (remove1 y (ks @ y # ys))"
        using CDL_DELETE2_returns [OF Cons.prems(1), of y] by (auto elim!: returnsE)
      have "remove1 y (ks @ y # ys) = ks @ ys" using at(4) by (auto simp: remove1_append)
      then show ?thesis using Cons.IH [of h1 p1 ks] Cons.prems(2) d g e l True by (simp add: while_run_step)
    next
      case f: False
      then show ?thesis using Cons.IH [of h p "ks @ [y]"] Cons.prems g e l by (simp add: while_run_step)
    qed
  qed
  note hd = dbl_head [OF cdl_dbl [OF assms] False]
  have "p = hd0 xs" using assms by (simp add: cdl_def)
  then show ?thesis using w [of h p "[]" xs] assms hd
    by (auto simp: CDL_FOREACH_SAFE2_def link_simps elim!: returnsE)
qed

section \<open>Insertion in order\<close>

lemma insert_inorder_insort:
  "takeWhile (\<lambda>x. key x < key e) xs @ e # dropWhile (\<lambda>x. key x < key e) xs = insort_key key e xs"
  for key :: "'a \<Rightarrow> 'k::linorder"
  by (induction xs) auto

lemma fold_insort: "fold (insort_key key) es [] = sort_key key (rev es)"
  by (simp add: sort_key_def foldr_conv_fold)

lemma links_spec_insert_all:
  assumes "distinct (es @ xs)"
  shows "links_spec key (map Insert_inorder es) xs = Some (fold (insort_key key) es xs)"
  using assms
proof (induction es arbitrary: xs)
  case (Cons e es)
  then have "distinct (es @ insort_key key e xs)" by (auto simp: set_insort_key distinct_insort)
  then show ?case using Cons by (simp add: insert_inorder_insort)
qed simp

section \<open>The stack\<close>

fun push_all :: "addr list \<Rightarrow> links \<Rightarrow> addr \<Rightarrow> (links \<times> addr) run" where
  "push_all [] h p = returned (h, p)"
| "push_all (e # es) h p = then_run (STACK_PUSH2 e h p) (\<lambda>(h, p). push_all es h p)"

fun pop_all :: "nat \<Rightarrow> links \<Rightarrow> addr \<Rightarrow> (addr list \<times> addr) run" where
  "pop_all 0 h p = returned ([], p)"
| "pop_all (Suc n) h p =
     then_run (STACK_POP2 h p) (\<lambda>(x, p). then_run (pop_all n h p) (\<lambda>(xs, p). returned (x # xs, p)))"

lemma push_all_returns:
  "ll h p xs \<Longrightarrow> \<forall>e\<in>set es. ll_el h e \<Longrightarrow> distinct es \<Longrightarrow> set es \<inter> set xs = {} \<Longrightarrow>
     returns (push_all es h p) (\<lambda>(h', p'). ll h' p' (rev es @ xs))"
proof (induction es arbitrary: h p xs)
  case (Cons e es)
  obtain h1 p1 where s: "STACK_PUSH2 e h p = returned (h1, p1)" "ll h1 p1 (e # xs)" "only_in (insert e (set xs)) h h1"
    using LL_PREPEND2_returns [OF Cons.prems(1), of e] Cons.prems
    by (auto simp: STACK_PUSH2_def LL_PREPEND2_def elim!: returnsE)
  have "\<forall>e\<in>set es. ll_el h1 e" using Cons.prems(2) only_in_same [OF s(3)] same_nodes_next by (auto simp: ll_el_def)
  then show ?case using Cons.IH [OF s(2)] Cons.prems s(1) by simp
qed simp

lemma pop_all_returns:
  "ll h p (ys @ xs) \<Longrightarrow> pop_all (length ys) h p = returned (ys, hd0 xs)"
proof (induction ys arbitrary: p)
  case Nil
  then show ?case using ll_hd by simp
next
  case (Cons y ys)
  then have "p = y" "y \<noteq> 0" "nexts h y = Some (hd0 (ys @ xs))" "ll h (hd0 (ys @ xs)) (ys @ xs)"
    using path_Cons [of "nexts h" p y "ys @ xs"] by (auto simp: ll_def)
  then show ?case using Cons.IH by (simp add: STACK_POP2_def link_simps)
qed

section \<open>Laws of the lists\<close>

text \<open>
  C10. A program of prepends, appends, deletions, replacements, insertions at an element or in
  order, and sorts, run on a singly linked, a doubly linked and a circular list that hold the same
  elements, returns on all three and leaves in each the list that the operations give on plain
  lists; nothing but the elements of the list and the added ones is written.
\<close>

theorem list_kinds_refine_one_list:
  fixes key :: "addr \<Rightarrow> int"
  assumes "ll h1 p1 xs" "dl h2 p2 xs" "cdl h3 p3 xs"
    and "\<forall>op\<in>set ops. \<forall>e\<in>added op. ll_el h1 e \<and> node h2 e \<and> node h3 e"
    and "three_way cmp key" "links_spec key ops xs = Some ys"
  shows "returns (run_links (LL_step cmp) ops h1 p1)
      (\<lambda>(h, p). ll h p ys \<and> only_in (set xs \<union> (\<Union>op\<in>set ops. added op)) h1 h) \<and>
    returns (run_links (DL_step cmp) ops h2 p2)
      (\<lambda>(h, p). dl h p ys \<and> only_in (set xs \<union> (\<Union>op\<in>set ops. added op)) h2 h) \<and>
    returns (run_links (CDL_step cmp) ops h3 p3)
      (\<lambda>(h, p). cdl h p ys \<and> only_in (set xs \<union> (\<Union>op\<in>set ops. added op)) h3 h)"
  using ll_list.program_refines [OF assms(1) _ assms(5,6)] dl_list.program_refines [OF assms(2) _ assms(5,6)]
    cdl_list.program_refines [OF assms(3) _ assms(5,6)] assms(4) by simp

definition six_nodes :: links where
  "six_nodes = \<lparr>nexts = (\<lambda>p. if p \<le> 6 then Some 0 else None), prevs = (\<lambda>p. if p \<le> 6 then Some 0 else None)\<rparr>"

lemma six_nodes_empty: "ll six_nodes 0 []" "dl six_nodes 0 []" "cdl six_nodes 0 []"
  by (simp_all add: ll_def dl_def cdl_def)

lemma six_nodes_el: "p \<noteq> 0 \<Longrightarrow> p \<le> 6 \<Longrightarrow> ll_el six_nodes p \<and> node six_nodes p"
  by (simp add: ll_el_def node_def six_nodes_def)

lemma int_three_way: "three_way (\<lambda>x y. int x - int y) int"
  by (auto simp: three_way_def)

lemma list_kinds_refine_one_list_witness:
  "returns (run_links (LL_step (\<lambda>x y. int x - int y))
      [Append 4, Prepend 5, Append_elem 5 2, Delete 4, Sort_all, Insert_inorder 3] six_nodes 0)
    (\<lambda>(h, p). ll h p [2, 3, 5] \<and> only_in {2, 3, 4, 5} six_nodes h) \<and>
   returns (run_links (DL_step (\<lambda>x y. int x - int y))
      [Append 4, Prepend 5, Append_elem 5 2, Delete 4, Sort_all, Insert_inorder 3] six_nodes 0)
    (\<lambda>(h, p). dl h p [2, 3, 5] \<and> only_in {2, 3, 4, 5} six_nodes h) \<and>
   returns (run_links (CDL_step (\<lambda>x y. int x - int y))
      [Append 4, Prepend 5, Append_elem 5 2, Delete 4, Sort_all, Insert_inorder 3] six_nodes 0)
    (\<lambda>(h, p). cdl h p [2, 3, 5] \<and> only_in {2, 3, 4, 5} six_nodes h)"
proof -
  have u: "set [] \<union> (\<Union>op\<in>set [Append 4, Prepend 5, Append_elem 5 2, Delete 4, Sort_all, Insert_inorder 3]. added op) =
      {2, 3, 4, 5}" by auto
  have "links_spec int [Append 4, Prepend 5, Append_elem 5 2, Delete 4, Sort_all, Insert_inorder 3] [] =
      Some [2, 3, 5]" by (simp add: before_def behind_def)
  from list_kinds_refine_one_list [OF six_nodes_empty _ int_three_way this, unfolded u] show ?thesis
    using six_nodes_el by simp
qed

text \<open>
  C11. \<open>LL_SORT\<close>, \<open>DL_SORT\<close> and \<open>CDL_SORT\<close> return, for up to \<open>2 ^ 30\<close> elements, and leave the
  elements sorted by the key that the comparison orders by, equal elements in their old order;
  they write only the links of these elements.
\<close>

theorem list_sorts_are_stable:
  fixes key :: "addr \<Rightarrow> 'k::linorder"
  assumes "ll h1 p1 xs" "dl h2 p2 xs" "cdl h3 p3 xs" "length xs \<le> 2 ^ 30" "by_key cmp key"
  shows "returns (LL_SORT2 cmp h1 p1) (\<lambda>(h, p). ll h p (sort_key key xs) \<and> only_in (set xs) h1 h) \<and>
    returns (DL_SORT2 cmp h2 p2) (\<lambda>(h, p). dl h p (sort_key key xs) \<and> only_in (set xs) h2 h) \<and>
    returns (CDL_SORT2 cmp h3 p3) (\<lambda>(h, p). cdl h p (sort_key key xs) \<and> only_in (set xs) h3 h)"
  using ll_sort.sort_head_returns [OF assms(1,4,5)] dl_sort.sort_head_returns [OF assms(2,4,5)]
    cdl_sort.sort_head_returns [OF assms(3,4,5)] by (simp add: LL_SORT2_def DL_SORT2_def CDL_SORT2_def)

definition three_linked :: "addr \<Rightarrow> links" where
  "three_linked z = \<lparr>nexts = [1 \<mapsto> 2, 2 \<mapsto> 3, 3 \<mapsto> z], prevs = [1 \<mapsto> 3, 2 \<mapsto> 1, 3 \<mapsto> 2]\<rparr>"

lemma three_linked_lists:
  "ll (three_linked 0) 1 [1, 2, 3]" "dl (three_linked 0) 1 [1, 2, 3]" "cdl (three_linked 1) 1 [1, 2, 3]"
  by (simp_all add: three_linked_def ll_def dl_def cdl_def dbl_def)

lemma list_sorts_are_stable_witness:
  "returns (LL_SORT2 (\<lambda>x y. int (x mod 2) - int (y mod 2)) (three_linked 0) 1)
     (\<lambda>(h, p). ll h p [2, 1, 3] \<and> only_in {1, 2, 3} (three_linked 0) h) \<and>
   returns (DL_SORT2 (\<lambda>x y. int (x mod 2) - int (y mod 2)) (three_linked 0) 1)
     (\<lambda>(h, p). dl h p [2, 1, 3] \<and> only_in {1, 2, 3} (three_linked 0) h) \<and>
   returns (CDL_SORT2 (\<lambda>x y. int (x mod 2) - int (y mod 2)) (three_linked 1) 1)
     (\<lambda>(h, p). cdl h p [2, 1, 3] \<and> only_in {1, 2, 3} (three_linked 1) h)"
proof -
  have k: "by_key (\<lambda>x y. int (x mod 2) - int (y mod 2)) (\<lambda>x. x mod 2 :: nat)"
    by (auto simp: by_key_def)
  have s: "sort_key (\<lambda>x. x mod 2 :: nat) [1, 2, 3] = [2, 1, 3]" "set [1, 2, 3] = {1, 2, 3 :: nat}" by simp_all
  show ?thesis using list_sorts_are_stable [OF three_linked_lists _ k] unfolding s by simp
qed

text \<open>
  Counting visits each element once, in a circular list too, and a search returns the first
  element that matches, NULL when there is none.
\<close>

theorem list_iteration_visits_in_order:
  assumes "ll h1 p1 xs" "dl h2 p2 xs" "cdl h3 p3 xs" "length xs < 2 ^ 31"
  shows "LL_COUNT2 h1 p1 = returned (int (length xs)) \<and> DL_COUNT2 h2 p2 = returned (int (length xs)) \<and>
    CDL_COUNT2 h3 p3 = returned (int (length xs)) \<and>
    LL_SEARCH2 cmp elt h1 p1 = returned (hd0 (dropWhile (\<lambda>x. cmp x elt \<noteq> 0) xs)) \<and>
    CDL_SEARCH2 cmp elt h3 p3 = returned (hd0 (dropWhile (\<lambda>x. cmp x elt \<noteq> 0) xs)) \<and>
    LL_SEARCH_SCALAR2 field val h1 p1 = returned (hd0 (dropWhile (\<lambda>x. field x \<noteq> val) xs)) \<and>
    CDL_SEARCH_SCALAR2 field val h3 p3 = returned (hd0 (dropWhile (\<lambda>x. field x \<noteq> val) xs))"
  unfolding LL_COUNT2_def DL_COUNT2_def CDL_COUNT2_def LL_SEARCH2_def CDL_SEARCH2_def
    LL_SEARCH_SCALAR2_def CDL_SEARCH_SCALAR2_def
    count_each_returns [where nxt = get_next, OF ll_visits [OF assms(1)] assms(4)]
    count_each_returns [where nxt = get_next, OF dl_visits [OF assms(2)] assms(4)]
    count_each_returns [where nxt = "cdl_step_next p3", OF cdl_visits [OF assms(3)] assms(4)]
    foreach_returns [where nxt = get_next, OF ll_visits [OF assms(1)]]
    foreach_returns [where nxt = "cdl_step_next p3", OF cdl_visits [OF assms(3)]] by simp

lemma list_iteration_visits_in_order_witness:
  "LL_COUNT2 (three_linked 0) 1 = returned 3 \<and> DL_COUNT2 (three_linked 0) 1 = returned 3 \<and>
   CDL_COUNT2 (three_linked 1) 1 = returned 3 \<and>
   LL_SEARCH2 (\<lambda>x e. int x - e) 2 (three_linked 0) 1 = returned 2 \<and>
   CDL_SEARCH2 (\<lambda>x e. int x - e) 2 (three_linked 1) 1 = returned 2 \<and>
   LL_SEARCH_SCALAR2 (\<lambda>x. x * x) 16 (three_linked 0) 1 = returned 0 \<and>
   CDL_SEARCH_SCALAR2 (\<lambda>x. x * x) 16 (three_linked 1) 1 = returned 0"
  using list_iteration_visits_in_order [OF three_linked_lists, of "\<lambda>x e. int x - e" 2 "\<lambda>x. x * x" 16] by simp

text \<open>
  C32. A safe iteration whose body deletes the elements that satisfy \<open>P\<close> returns and leaves exactly
  the others, in order, in all three kinds of list, also when the head and the tail go.
\<close>

theorem foreach_safe_deletes_matching:
  assumes "ll h1 p1 xs" "dl h2 p2 xs" "cdl h3 p3 xs"
  shows "returns (LL_FOREACH_SAFE2 (\<lambda>el h head. if P el then LL_DELETE2 el h head else returned (h, head)) h1 p1)
      (\<lambda>(h, p). ll h p (filter (\<lambda>x. \<not> P x) xs)) \<and>
    returns (DL_FOREACH_SAFE2 (\<lambda>el h head. if P el then DL_DELETE2 el h head else returned (h, head)) h2 p2)
      (\<lambda>(h, p). dl h p (filter (\<lambda>x. \<not> P x) xs)) \<and>
    returns (CDL_FOREACH_SAFE2 (\<lambda>el h head. if P el then CDL_DELETE2 el h head else returned (h, head)) h3 p3)
      (\<lambda>(h, p). cdl h p (filter (\<lambda>x. \<not> P x) xs))"
  using ll_foreach_safe_deletes [OF assms(1)] dl_foreach_safe_deletes [OF assms(2)]
    cdl_foreach_safe_deletes [OF assms(3)] by blast

lemma foreach_safe_deletes_matching_witness:
  "returns (LL_FOREACH_SAFE2 (\<lambda>el h head. if odd el then LL_DELETE2 el h head else returned (h, head)) (three_linked 0) 1)
     (\<lambda>(h, p). ll h p [2]) \<and>
   returns (DL_FOREACH_SAFE2 (\<lambda>el h head. if odd el then DL_DELETE2 el h head else returned (h, head)) (three_linked 0) 1)
     (\<lambda>(h, p). dl h p [2]) \<and>
   returns (CDL_FOREACH_SAFE2 (\<lambda>el h head. if odd el then CDL_DELETE2 el h head else returned (h, head)) (three_linked 1) 1)
     (\<lambda>(h, p). cdl h p [2])"
  using foreach_safe_deletes_matching [OF three_linked_lists, of odd] by simp

text \<open>
  Inserting elements in order one by one into an empty list sorts them, in all three kinds of
  list; unlike the sort, it leaves equal elements in the reverse of the order of insertion.
\<close>

theorem insert_inorder_sorts_last_first:
  fixes key :: "addr \<Rightarrow> int"
  assumes "three_way cmp key" "distinct es" "\<forall>e\<in>set es. node h e"
  shows "returns (run_links (LL_step cmp) (map Insert_inorder es) h 0) (\<lambda>(h', p). ll h' p (sort_key key (rev es))) \<and>
    returns (run_links (DL_step cmp) (map Insert_inorder es) h 0) (\<lambda>(h', p). dl h' p (sort_key key (rev es))) \<and>
    returns (run_links (CDL_step cmp) (map Insert_inorder es) h 0) (\<lambda>(h', p). cdl h' p (sort_key key (rev es)))"
proof -
  have spec: "links_spec key (map Insert_inorder es) [] = Some (sort_key key (rev es))"
    using links_spec_insert_all [of es "[]" key] assms(2) by (simp add: fold_insort)
  have el: "\<forall>op\<in>set (map Insert_inorder es). \<forall>e\<in>added op. ll_el h e"
    "\<forall>op\<in>set (map Insert_inorder es). \<forall>e\<in>added op. node h e"
    using assms(3) by (auto simp: node_def ll_el_def)
  show ?thesis
    using ll_list.program_refines [OF _ el(1) assms(1) spec, of 0] dl_list.program_refines [OF _ el(2) assms(1) spec, of 0]
      cdl_list.program_refines [OF _ el(2) assms(1) spec, of 0]
    by (auto simp: ll_def dl_def cdl_def elim!: returns_mono)
qed

lemma insert_inorder_sorts_last_first_witness:
  "returns (run_links (LL_step (\<lambda>x y. int (x div 2) - int (y div 2))) (map Insert_inorder [4, 2, 3, 1]) six_nodes 0)
     (\<lambda>(h', p). ll h' p [1, 3, 2, 4]) \<and>
   returns (run_links (DL_step (\<lambda>x y. int (x div 2) - int (y div 2))) (map Insert_inorder [4, 2, 3, 1]) six_nodes 0)
     (\<lambda>(h', p). dl h' p [1, 3, 2, 4]) \<and>
   returns (run_links (CDL_step (\<lambda>x y. int (x div 2) - int (y div 2))) (map Insert_inorder [4, 2, 3, 1]) six_nodes 0)
     (\<lambda>(h', p). cdl h' p [1, 3, 2, 4])"
proof -
  have k: "three_way (\<lambda>x y. int (x div 2) - int (y div 2)) (\<lambda>x. int (x div 2))" by (auto simp: three_way_def)
  have d: "distinct [4, 2, 3, 1 :: nat]" by simp
  have n: "\<forall>e\<in>set [4, 2, 3, 1]. node six_nodes e" using six_nodes_el by simp
  have s: "sort_key (\<lambda>x. int (x div 2)) (rev [4, 2, 3, 1]) = [1, 3, 2, 4]" by simp
  show ?thesis using insert_inorder_sorts_last_first [OF k d n] unfolding s .
qed

text \<open>
  The stack is last in, first out: pushing elements and popping as many gives them back in
  reverse and the old stack below; the top, the emptiness and the count are those of the list.
\<close>

theorem stack_is_lifo:
  assumes "ll h p xs" "\<forall>e\<in>set es. ll_el h e" "distinct es" "set es \<inter> set xs = {}"
    and "length es + length xs < 2 ^ 31"
  shows "returns (push_all es h p) (\<lambda>(h', p'). ll h' p' (rev es @ xs) \<and>
      STACK_TOP p' = hd0 (rev es @ xs) \<and> (STACK_EMPTY p' \<longleftrightarrow> rev es @ xs = []) \<and>
      STACK_COUNT2 h' p' = returned (int (length es + length xs)) \<and>
      pop_all (length es) h' p' = returned (rev es, p))"
proof (rule returns_mono [OF push_all_returns [OF assms(1-4)]], goal_cases)
  case (1 s)
  then obtain h' p' where s: "s = (h', p')" and l: "ll h' p' (rev es @ xs)" by (cases s) simp
  have "STACK_COUNT2 h' p' = returned (int (length (rev es @ xs)))"
    unfolding STACK_COUNT2_def
    by (rule count_each_returns [where nxt = get_next, OF ll_visits [OF l]]) (use assms(5) in simp)
  moreover have "pop_all (length (rev es)) h' p' = returned (rev es, p)"
    using pop_all_returns [OF l] ll_hd [OF assms(1)] by simp
  moreover have "p' = 0 \<longleftrightarrow> rev es @ xs = []" using path_empty l unfolding ll_def by blast
  ultimately show ?case
    using l ll_hd [OF l] s by (simp add: STACK_TOP_def STACK_EMPTY_def)
qed

lemma stack_is_lifo_witness:
  "returns (push_all [3, 1, 2] six_nodes 0) (\<lambda>(h', p'). ll h' p' [2, 1, 3] \<and>
      STACK_TOP p' = 2 \<and> (STACK_EMPTY p' \<longleftrightarrow> False) \<and> STACK_COUNT2 h' p' = returned 3 \<and>
      pop_all 3 h' p' = returned ([2, 1, 3], 0))"
  using stack_is_lifo [OF six_nodes_empty(1), of "[3, 1, 2]"] six_nodes_el
  by (simp add: numeral_3_eq_3 del: push_all.simps pop_all.simps)

end
