(* ===== verification/Chain_Links.thy ===== *)
theory Chain_Links
  imports Double_Links
begin

text \<open>
  Doubly linked lists with NULL at both ends, as \<open>uthash.h\<close> keeps them: the elements of a table
  in order of insertion, and the handles of one bucket.  One lemma each for putting an element
  between two others and for taking one out, whichever ends they are at.
\<close>

definition chain_at :: "(addr \<Rightarrow> addr option) \<Rightarrow> (addr \<Rightarrow> addr option) \<Rightarrow> addr \<Rightarrow> addr list \<Rightarrow> bool" where
  "chain_at f g p xs \<longleftrightarrow> path f p xs 0 \<and> backs g 0 xs"

abbreviation linked :: "links \<Rightarrow> addr \<Rightarrow> addr list \<Rightarrow> bool" where
  "linked h p xs \<equiv> chain_at (nexts h) (prevs h) p xs"

lemma chain_at_Nil [simp]: "chain_at f g p [] \<longleftrightarrow> p = 0"
  by (simp add: chain_at_def)

lemma last_or_0 [simp]: "last_or 0 xs = last0 xs"
  by (simp add: last_or_def last0_def)

lemma chain_at_append:
  "chain_at f g p (as @ bs) \<longleftrightarrow> path f p as (hd0 bs) \<and> path f (hd0 bs) bs 0 \<and> backs g 0 as \<and> backs g (last0 as) bs"
  unfolding chain_at_def path_append by (auto dest: path_hd)

lemma chain_at_cong:
  "(\<And>x. x \<in> set xs \<Longrightarrow> f x = f' x) \<Longrightarrow> (\<And>x. x \<in> set xs \<Longrightarrow> g x = g' x) \<Longrightarrow>
     chain_at f g p xs = chain_at f' g' p xs"
proof (induction xs arbitrary: p)
  case Nil
  then show ?case by simp
next
  case (Cons x xs)
  have "backs g a xs = backs g' a xs" for a
    using Cons.prems(2) by (induction xs arbitrary: a) auto
  then show ?case using path_cong [of "x # xs" f f' p 0] Cons.prems unfolding chain_at_def by auto
qed

lemma chain_at_head: "chain_at f g p xs \<Longrightarrow> p = hd0 xs"
  unfolding chain_at_def by (blast dest: path_hd)

lemma chain_at_distinct: "chain_at f g p xs \<Longrightarrow> distinct xs"
  unfolding chain_at_def by (blast dest: path_distinct)

lemma chain_at_nonzero: "chain_at f g p xs \<Longrightarrow> 0 \<notin> set xs"
  unfolding chain_at_def by (blast dest: path_nonzero)

lemma chain_at_mid:
  assumes "chain_at f g p (as @ x # bs)"
  shows "x \<noteq> 0" "f x = Some (hd0 bs)" "g x = Some (last0 as)" "x \<notin> set as" "x \<notin> set bs"
proof -
  have "path f p (as @ x # bs) 0" "backs g 0 (as @ x # bs)" using assms by (simp_all add: chain_at_def)
  then show "x \<noteq> 0" "f x = Some (hd0 bs)" "g x = Some (last0 as)" "x \<notin> set as" "x \<notin> set bs"
    using path_mid_notin unfolding path_mid by auto
qed

lemma linked_node: "linked h p xs \<Longrightarrow> x \<in> set xs \<Longrightarrow> node h x"
  using chain_at_mid [of "nexts h" "prevs h" p] unfolding node_def by (metis option.distinct(1) split_list)

text \<open>An element \<open>e\<close> goes between \<open>as\<close> and \<open>bs\<close>.\<close>

lemma chain_at_insert:
  assumes "chain_at f g p (as @ bs)" "e \<noteq> 0" "e \<notin> set (as @ bs)"
  shows "chain_at (if as = [] then f(e \<mapsto> hd0 bs) else f(e \<mapsto> hd0 bs, last as \<mapsto> e))
    (if bs = [] then g(e \<mapsto> last0 as) else g(e \<mapsto> last0 as, hd bs \<mapsto> e))
    (if as = [] then e else p) (as @ e # bs)"
proof -
  have d: "distinct (as @ bs)" using chain_at_distinct [OF assms(1)] .
  have sp: "path f p as (hd0 bs)" "path f (hd0 bs) bs 0" "backs g 0 as" "backs g (last0 as) bs"
    using assms(1) unfolding chain_at_append by auto
  show ?thesis
    using sp assms(2,3) d unfolding chain_at_append
    by (cases as rule: rev_cases; cases bs) (auto simp: path_append path_Cons)
qed

text \<open>The element \<open>x\<close> between \<open>as\<close> and \<open>bs\<close> goes away.\<close>

lemma chain_at_remove:
  assumes "chain_at f g p (as @ x # bs)"
  shows "chain_at (if as = [] then f else f(last as \<mapsto> hd0 bs))
    (if bs = [] then g else g(hd bs \<mapsto> last0 as)) (if as = [] then hd0 bs else p) (as @ bs)"
proof -
  have d: "distinct (as @ x # bs)" using chain_at_distinct [OF assms(1)] .
  have sp: "path f p as x" "path f (hd0 bs) bs 0" "backs g 0 as" "backs g x bs"
    using assms(1) unfolding chain_at_append path_Cons by auto
  show ?thesis
    using sp d unfolding chain_at_append
    by (cases as rule: rev_cases; cases bs) (auto simp: path_append)
qed

section \<open>The two patches of the macros\<close>

text \<open>
  Taking \<open>del\<close> out of the list that begins at \<open>head\<close>: its neighbours are made to point past it,
  and the head moves when \<open>del\<close> has no predecessor.
\<close>

lemma neighbours:
  assumes "linked h p (as @ x # bs)"
  shows "get_next h x = returned (hd0 bs)" "get_prev h x = returned (last0 as)"
  using chain_at_mid [OF assms] by (simp_all add: link_simps)

lemma linked_ends:
  assumes "linked h p (as @ x # bs)"
  shows "as \<noteq> [] \<Longrightarrow> last as \<noteq> 0 \<and> nexts h (last as) \<noteq> None \<and> last as \<in> set (as @ x # bs) \<and> last as \<noteq> x"
    "bs \<noteq> [] \<Longrightarrow> hd bs \<noteq> 0 \<and> prevs h (hd bs) \<noteq> None \<and> hd bs \<in> set (as @ x # bs) \<and> hd bs \<noteq> x"
    "hd0 bs = 0 \<longleftrightarrow> bs = []" "last0 as = 0 \<longleftrightarrow> as = []"
proof -
  have n: "\<And>y. y \<in> set (as @ x # bs) \<Longrightarrow> node h y" using linked_node [OF assms] by blast
  have d: "x \<notin> set as" "x \<notin> set bs" using chain_at_mid [OF assms] by auto
  show "as \<noteq> [] \<Longrightarrow> last as \<noteq> 0 \<and> nexts h (last as) \<noteq> None \<and> last as \<in> set (as @ x # bs) \<and> last as \<noteq> x"
    using n [of "last as"] d by (auto simp: node_def)
  show "bs \<noteq> [] \<Longrightarrow> hd bs \<noteq> 0 \<and> prevs h (hd bs) \<noteq> None \<and> hd bs \<in> set (as @ x # bs) \<and> hd bs \<noteq> x"
    using n [of "hd bs"] d by (auto simp: node_def)
  show "hd0 bs = 0 \<longleftrightarrow> bs = []" "last0 as = 0 \<longleftrightarrow> as = []"
    using n [of "last as"] n [of "hd bs"] by (auto simp: hd0_def last0_def node_def)
qed

end
