(* ===== verification/Uthash_Order.thy ===== *)
theory Uthash_Order
  imports Chain_Links Ut_Dlist
begin

text \<open>
  The order of the elements of a hash table of \<open>uthash.h\<close>, with its pointers: the \<open>prev\<close> and
  \<open>next\<close> of the handles, the head that the program holds and the \<open>tail\<close> that the table holds.
  An element stands for its handle, as the two are a fixed offset apart.  The state is
  \<open>(links, head, tail)\<close>; an empty table has no tail, which is written \<open>0\<close>.
\<close>

type_synonym app_order = "links \<times> addr \<times> addr"

section \<open>The macros\<close>

text \<open>The first element: \<open>HASH_MAKE_TABLE\<close> makes it the tail.\<close>

definition order_first :: "addr \<Rightarrow> links \<Rightarrow> app_order run" where
  "order_first add h =
     then_run (set_next add 0 h) (\<lambda>h.
     then_run (set_prev add 0 h) (\<lambda>h. returned (h, add, add)))"

definition order_append :: "addr \<Rightarrow> app_order \<Rightarrow> app_order run" where
  "order_append add = (\<lambda>(h, head, tail).
     then_run (set_next add 0 h) (\<lambda>h.
     then_run (set_prev add tail h) (\<lambda>h.
     then_run (set_next tail add h) (\<lambda>h. returned (h, head, add)))))"

definition order_add :: "addr \<Rightarrow> app_order \<Rightarrow> app_order run" where
  "order_add add = (\<lambda>(h, head, tail).
     if head = 0 then order_first add h else order_append add (h, head, tail))"

text \<open>The element is inserted before the first that compares greater.\<close>

definition order_add_inorder :: "(addr \<Rightarrow> addr \<Rightarrow> int) \<Rightarrow> addr \<Rightarrow> app_order \<Rightarrow> app_order run" where
  "order_add_inorder cmp add = (\<lambda>(h, head, tail).
     if head = 0 then order_first add h
     else
       then_run (foreach get_next h (\<lambda>i. cmp i add > 0) head) (\<lambda>iter.
       if iter \<noteq> 0 then
         then_run (set_next add iter h) (\<lambda>h.
         then_run (get_prev h iter) (\<lambda>b.
         then_run (set_prev add b h) (\<lambda>h.
         then_run (if b \<noteq> 0 then then_run (set_next b add h) (\<lambda>h. returned (h, head)) else returned (h, add))
           (\<lambda>(h, head).
         then_run (set_prev iter add h) (\<lambda>h. returned (h, head, tail))))))
       else order_append add (h, head, tail)))"

definition order_delete :: "addr \<Rightarrow> app_order \<Rightarrow> app_order run" where
  "order_delete del = (\<lambda>(h, head, tail).
     if head = 0 then stopped Undefined
     else
       then_run (get_prev h del) (\<lambda>b.
       then_run (get_next h del) (\<lambda>n.
       if b = 0 \<and> n = 0 then returned (h, 0, 0)
       else
         then_run (if del = tail then if b = 0 then stopped Undefined else returned b else returned tail) (\<lambda>tail.
         then_run (if b \<noteq> 0 then then_run (set_next b n h) (\<lambda>h. returned (h, head)) else returned (h, n))
           (\<lambda>(h, head).
         then_run (if n \<noteq> 0 then set_prev n b h else returned h) (\<lambda>h. returned (h, head, tail)))))))"

text \<open>The parts of \<open>HASH_SRT\<close>; its counters are \<open>unsigned\<close>.\<close>

definition hs_adv :: "addr \<Rightarrow> links \<Rightarrow> addr \<Rightarrow> addr run" where
  "hs_adv oldhead h p = (if p \<noteq> 0 then get_next h p else returned 0)"

definition hs_link :: "addr \<Rightarrow> addr \<Rightarrow> links \<Rightarrow> links run" where
  "hs_link tail e h =
     then_run (if tail \<noteq> 0 then set_next tail e h else returned h) (\<lambda>h.
     if e \<noteq> 0 then set_prev e tail h else returned h)"

definition hs_close :: "addr \<Rightarrow> addr \<Rightarrow> links \<Rightarrow> links run" where
  "hs_close list tail h = (if tail \<noteq> 0 then set_next tail 0 h else returned h)"

definition hs_count :: "int \<Rightarrow> int run" where
  "hs_count i = returned (i mod 2 ^ 32)"

definition order_sort :: "(addr \<Rightarrow> addr \<Rightarrow> int) \<Rightarrow> app_order \<Rightarrow> app_order run" where
  "order_sort cmp = (\<lambda>(h, head, tail).
     if head \<noteq> 0 then sort_list hs_adv hs_link hs_close hs_count cmp h head else returned (h, head, tail))"

text \<open>
  The integrity check of \<open>HASH_FSCK\<close> on the order of the elements, with the number of items of
  the table; \<open>HASH_OOPS\<close> exits.
\<close>

definition fsck_walk :: "links \<Rightarrow> addr \<times> addr \<times> nat \<Rightarrow> (addr \<times> addr \<times> nat) run" where
  "fsck_walk h =
     while_run (\<lambda>(thh, prev, cnt). returned (thh \<noteq> 0))
       (\<lambda>(thh, prev, cnt).
          then_run (get_prev h thh) (\<lambda>b.
          if prev \<noteq> b then stopped (Exit (- 1))
          else then_run (get_next h thh) (\<lambda>n. returned (n, thh, (cnt + 1) mod 2 ^ 32))))"

definition order_fsck :: "nat \<Rightarrow> app_order \<Rightarrow> unit run" where
  "order_fsck num_items = (\<lambda>(h, head, tail).
     if head = 0 then returned ()
     else then_run (fsck_walk h (head, 0, 0)) (\<lambda>(thh, prev, cnt).
       if cnt \<noteq> num_items then stopped (Exit (- 1)) else returned ()))"

section \<open>The order in memory\<close>

definition app :: "app_order \<Rightarrow> addr list \<Rightarrow> bool" where
  "app s xs \<longleftrightarrow> (case s of (h, head, tail) \<Rightarrow> linked h head xs \<and> tail = last0 xs)"

lemma app_simp [simp]: "app (h, head, tail) xs \<longleftrightarrow> linked h head xs \<and> tail = last0 xs"
  by (simp add: app_def)

definition app_returns :: "app_order run \<Rightarrow> addr list \<Rightarrow> addr set \<Rightarrow> links \<Rightarrow> bool" where
  "app_returns m xs S h \<longleftrightarrow> returns m (\<lambda>s. app s xs \<and> only_in S h (fst s))"

lemma order_first_returns: "node h e \<Longrightarrow> app_returns (order_first e h) [e] {e} h"
  by (auto simp: app_returns_def order_first_def node_def link_simps chain_at_def only_in_def same_nodes_def)

lemma order_append_returns:
  assumes "linked h p xs" "xs \<noteq> []" "node h e" "e \<notin> set xs"
  shows "app_returns (order_append e (h, p, last xs)) (xs @ [e]) (insert e (set xs)) h"
proof -
  obtain as t where xs: "xs = as @ [t]" using assms(2) by (cases xs rule: rev_cases) auto
  have e: "e \<noteq> 0" "nexts h e \<noteq> None" "prevs h e \<noteq> None" "t \<noteq> e" using assms(3,4) xs by (auto simp: node_def)
  have t: "t \<noteq> 0" "nexts h t \<noteq> None" using linked_node [OF assms(1), of t] xs by (auto simp: node_def)
  have "chain_at ((nexts h)(e \<mapsto> 0, t \<mapsto> e)) ((prevs h)(e \<mapsto> t)) p ((as @ [t]) @ [e])"
    using chain_at_insert [of "nexts h" "prevs h" p "as @ [t]" "[]" e] assms e xs by simp
  then show ?thesis using e t xs
    by (auto simp: app_returns_def order_append_def link_simps only_in_def same_nodes_def)
qed

lemma order_add_returns:
  assumes "app s xs" "node (fst s) e" "e \<notin> set xs"
  shows "app_returns (order_add e s) (xs @ [e]) (insert e (set xs)) (fst s)"
proof -
  obtain h p t where s: "s = (h, p, t)" by (cases s)
  show ?thesis
  proof (cases "xs = []")
    case True
    then show ?thesis using assms order_first_returns [of h e] by (simp add: order_add_def s)
  next
    case False
    then have "p \<noteq> 0" using assms(1) path_empty [of "nexts h" p xs] by (auto simp: s chain_at_def)
    then show ?thesis using order_append_returns [of h p xs e] assms False by (simp add: order_add_def s)
  qed
qed

text \<open>Inserting before the first greater element keeps equal elements in order of insertion.\<close>

lemma order_add_inorder_returns:
  assumes "app s xs" "node (fst s) e" "e \<notin> set xs"
  shows "app_returns (order_add_inorder cmp e s)
    (takeWhile (\<lambda>x. \<not> cmp x e > 0) xs @ e # dropWhile (\<lambda>x. \<not> cmp x e > 0) xs) (insert e (set xs)) (fst s)"
proof -
  obtain h p t where s: "s = (h, p, t)" by (cases s)
  define as where "as = takeWhile (\<lambda>x. \<not> cmp x e > 0) xs"
  define bs where "bs = dropWhile (\<lambda>x. \<not> cmp x e > 0) xs"
  have xs: "xs = as @ bs" by (simp add: as_def bs_def)
  have l: "linked h p (as @ bs)" and t: "t = last0 (as @ bs)" using assms(1) s xs by auto
  have e: "e \<noteq> 0" "nexts h e \<noteq> None" "prevs h e \<noteq> None" "e \<notin> set (as @ bs)"
    using assms(2,3) s xs by (auto simp: node_def)
  have p: "p = 0 \<longleftrightarrow> xs = []" using l path_empty unfolding chain_at_def xs by blast
  have f: "foreach get_next h (\<lambda>i. cmp i e > 0) p = returned (hd0 bs)"
    unfolding bs_def using l by (intro foreach_returns visits_path) (simp add: xs [symmetric] chain_at_def)
  have "app_returns (order_add_inorder cmp e (h, p, t)) (as @ e # bs) (insert e (set xs)) h"
  proof (cases bs)
    case Nil
    then show ?thesis
      using order_append_returns [of h p xs e] order_first_returns [of h e] l t f p xs assms(2,3) s
      by (cases "xs = []") (auto simp: order_add_inorder_def)
  next
    case (Cons b bs')
    note m = chain_at_mid [OF l [unfolded Cons]]
    note ends = linked_ends [OF l [unfolded Cons]]
    have i: "chain_at (if as = [] then (nexts h)(e \<mapsto> b) else (nexts h)(e \<mapsto> b, last as \<mapsto> e))
        ((prevs h)(e \<mapsto> last0 as, b \<mapsto> e)) (if as = [] then e else p) (as @ e # b # bs')"
      using chain_at_insert [OF l e(1,4)] by (simp only: Cons hd0_simps list.sel list.distinct if_False)
    have b: "b \<noteq> e" "as \<noteq> [] \<Longrightarrow> last as \<noteq> e" using e(4) Cons by auto
    show ?thesis using i b e m ends f p xs t Cons
      by (auto simp: order_add_inorder_def app_returns_def link_simps only_in_def same_nodes_def)
  qed
  then show ?thesis by (simp add: s as_def bs_def)
qed

lemma order_delete_returns:
  assumes "app s (as @ x # bs)"
  shows "app_returns (order_delete x s) (as @ bs) (set (as @ x # bs)) (fst s)"
proof -
  obtain h p t where s: "s = (h, p, t)" by (cases s)
  have l: "linked h p (as @ x # bs)" and t: "t = last0 (as @ x # bs)" using assms s by auto
  note m = chain_at_mid [OF l] and ends = linked_ends [OF l] and r = chain_at_remove [OF l]
  note nb = neighbours [OF l]
  have p: "p \<noteq> 0" using l path_empty unfolding chain_at_def by blast
  have tx: "t = x \<longleftrightarrow> bs = []" using t m(5) by (cases bs rule: rev_cases) auto
  show ?thesis using r p tx t ends m
    by (cases "as = []"; cases "bs = []")
      (auto simp: s order_delete_def app_returns_def nb link_simps only_in_def same_nodes_def hd0_def last0_def)
qed

interpretation hash_sort: sort_links dl_nx hs_adv hs_link hs_close hs_count node dl_out linked
proof (unfold_locales, goal_cases)
  case (3 h h' p)
  then show ?case by (rule same_nodes_node)
next
  case (5 h xs e)
  then have "hs_link (last0 xs) e h = dl_sort_link (last0 xs) e h"
    by (cases "last0 xs = 0"; auto simp: hs_link_def dl_sort_link_def node_def set_next_def)
  then show ?case using dl_sort.link_law [OF 5] by simp
next
  case (6 h xs)
  then obtain as t where xs: "xs = as @ [t]" by (cases xs rule: rev_cases) auto
  then have t: "t \<noteq> 0" "nexts h t \<noteq> None" using 6(3) by (auto simp: node_def)
  have "path (nexts h) (hd xs) as t" using 6(1) xs by (simp add: dl_out_def)
  then have "path ((nexts h)(t \<mapsto> 0)) (hd xs) (as @ [t]) 0"
    using t 6(4) xs by (simp add: path_append)
  then show ?case using t xs 6(1) by (auto simp: hs_close_def chain_at_def dl_out_def link_simps)
next
  case (8 h p xs)
  then show ?case using linked_node by (auto simp: chain_at_def)
qed (auto simp: hs_adv_def hs_count_def node_def link_simps dl_out_def)

lemma order_sort_returns:
  assumes "app s xs" "length xs \<le> 2 ^ 30" "by_key cmp key"
  shows "app_returns (order_sort cmp s) (sort_key key xs) (set xs) (fst s)"
proof -
  obtain h p t where s: "s = (h, p, t)" by (cases s)
  have p: "p = 0 \<longleftrightarrow> xs = []" using assms(1) path_empty by (auto simp: s chain_at_def)
  have "linked h p xs" using assms(1) s by simp
  from hash_sort.sort_list_returns [OF this assms(2,3)] show ?thesis
    using p assms(1) by (cases "p = 0") (auto simp: order_sort_def app_returns_def s elim!: returns_mono)
qed

section \<open>The integrity check\<close>

text \<open>\<open>HASH_FSCK\<close> lets exactly the well-linked lists of the counted length pass.\<close>

lemma fsck_walk_accepts:
  assumes "linked h p (as @ bs)"
  shows "fsck_walk h (hd0 bs, last0 as, length as mod 2 ^ 32) =
    returned (0, last0 (as @ bs), length (as @ bs) mod 2 ^ 32)"
  using assms
proof (induction bs arbitrary: as)
  case Nil
  then show ?case by (simp add: fsck_walk_def while_run_step)
next
  case (Cons x bs)
  have "fsck_walk h (hd0 (x # bs), last0 as, length as mod 2 ^ 32) =
      fsck_walk h (hd0 bs, x, length (as @ [x]) mod 2 ^ 32)"
    using chain_at_mid [OF Cons.prems] neighbours [OF Cons.prems]
    by (simp add: fsck_walk_def while_run_step mod_Suc_eq)
  then show ?case using Cons.IH [of "as @ [x]"] Cons.prems by simp
qed

lemma fsck_walk_sound:
  assumes "fsck_walk h (p, 0, 0) = returned (q, b, n)"
  shows "\<exists>xs. linked h p xs \<and> b = last0 xs \<and> n = length xs mod 2 ^ 32"
proof -
  define I where "I s \<longleftrightarrow> (\<exists>xs. path (nexts h) p xs (fst s) \<and> backs (prevs h) 0 xs \<and>
      fst (snd s) = last0 xs \<and> snd (snd s) = length xs mod 2 ^ 32)" for s :: "addr \<times> addr \<times> nat"
  have "I (q, b, n) \<and> (case (q, b, n) of (thh, prev, cnt) \<Rightarrow> returned (thh \<noteq> 0)) = returned False"
  proof (rule while_run_invariant [OF assms [unfolded fsck_walk_def]])
    show "I (p, 0, 0)" unfolding I_def by (intro exI [of _ "[]"]) simp
  next
    fix s s' assume i: "I s" and c: "(case s of (thh, prev, cnt) \<Rightarrow> returned (thh \<noteq> 0)) = returned True"
      and b: "(case s of (thh, prev, cnt) \<Rightarrow> then_run (get_prev h thh) (\<lambda>b.
          if prev \<noteq> b then stopped (Exit (- 1))
          else then_run (get_next h thh) (\<lambda>n. returned (n, thh, (cnt + 1) mod 2 ^ 32)))) = returned s'"
    obtain t a k where s: "s = (t, a, k)" by (cases s)
    obtain m where m: "t \<noteq> 0" "prevs h t = Some a" "nexts h t = Some m" "s' = (m, t, (k + 1) mod 2 ^ 32)"
      using c b by (auto simp: s get_prev_def get_next_def then_run_eq_returned split: option.splits if_splits)
    obtain xs where "path (nexts h) p xs t" "backs (prevs h) 0 xs" "a = last0 xs" "k = length xs mod 2 ^ 32"
      using i unfolding I_def s by auto
    then show "I s'" unfolding I_def m(4) using m
      by (intro exI [of _ "xs @ [t]"]) (simp add: path_append mod_Suc_eq)
  qed
  then show ?thesis unfolding I_def chain_at_def by auto
qed

lemma order_fsck_iff:
  assumes "p \<noteq> 0"
  shows "order_fsck n (h, p, t) = returned () \<longleftrightarrow> (\<exists>xs. linked h p xs \<and> length xs mod 2 ^ 32 = n)"
proof
  assume "order_fsck n (h, p, t) = returned ()"
  then obtain q b where "fsck_walk h (p, 0, 0) = returned (q, b, n)"
    using assms by (auto simp: order_fsck_def then_run_eq_returned split: if_splits)
  from fsck_walk_sound [OF this] show "\<exists>xs. linked h p xs \<and> length xs mod 2 ^ 32 = n" by blast
next
  assume "\<exists>xs. linked h p xs \<and> length xs mod 2 ^ 32 = n"
  then obtain xs where xs: "linked h p xs" "length xs mod 2 ^ 32 = n" by blast
  have "linked h p ([] @ xs)" using xs(1) by simp
  from fsck_walk_accepts [OF this] show "order_fsck n (h, p, t) = returned ()"
    using xs chain_at_head [OF xs(1)] assms by (simp add: order_fsck_def)
qed

section \<open>Programs\<close>

datatype order_op = Order_add addr | Order_add_inorder addr | Order_delete addr | Order_sort

fun order_step :: "(addr \<Rightarrow> addr \<Rightarrow> int) \<Rightarrow> order_op \<Rightarrow> app_order \<Rightarrow> app_order run" where
  "order_step cmp (Order_add e) = order_add e"
| "order_step cmp (Order_add_inorder e) = order_add_inorder cmp e"
| "order_step cmp (Order_delete e) = order_delete e"
| "order_step cmp Order_sort = order_sort cmp"

fun items_after :: "order_op \<Rightarrow> nat \<Rightarrow> nat" where
  "items_after (Order_delete e) n = (n + (2 ^ 32 - 1)) mod 2 ^ 32"
| "items_after Order_sort n = n"
| "items_after _ n = (n + 1) mod 2 ^ 32"

text \<open>A program compiled with \<open>HASH_DEBUG\<close>: the check runs after each operation.\<close>

fun run_orders :: "(addr \<Rightarrow> addr \<Rightarrow> int) \<Rightarrow> order_op list \<Rightarrow> app_order \<Rightarrow> nat \<Rightarrow> (app_order \<times> nat) run" where
  "run_orders cmp [] s n = returned (s, n)"
| "run_orders cmp (op # ops) s n =
     then_run (order_step cmp op s) (\<lambda>s.
     then_run (order_fsck (items_after op n) s) (\<lambda>_. run_orders cmp ops s (items_after op n)))"

fun order_spec :: "(addr \<Rightarrow> 'k::linorder) \<Rightarrow> order_op \<Rightarrow> addr list \<Rightarrow> addr list option" where
  "order_spec key (Order_add e) xs = (if e \<in> set xs \<or> length xs + 1 \<ge> 2 ^ 32 then None else Some (xs @ [e]))"
| "order_spec key (Order_add_inorder e) xs =
     (if e \<in> set xs \<or> length xs + 1 \<ge> 2 ^ 32 then None
      else Some (takeWhile (\<lambda>x. key x \<le> key e) xs @ e # dropWhile (\<lambda>x. key x \<le> key e) xs))"
| "order_spec key (Order_delete e) xs = (if e \<in> set xs then Some (remove1 e xs) else None)"
| "order_spec key Order_sort xs = (if length xs \<le> 2 ^ 30 then Some (sort_key key xs) else None)"

fun orders_spec :: "(addr \<Rightarrow> 'k::linorder) \<Rightarrow> order_op list \<Rightarrow> addr list \<Rightarrow> addr list option" where
  "orders_spec key [] xs = Some xs"
| "orders_spec key (op # ops) xs = Option.bind (order_spec key op xs) (orders_spec key ops)"

fun order_added :: "order_op \<Rightarrow> addr set" where
  "order_added (Order_add e) = {e}"
| "order_added (Order_add_inorder e) = {e}"
| "order_added _ = {}"

lemma order_spec_set: "order_spec key op xs = Some ys \<Longrightarrow> set ys \<subseteq> set xs \<union> order_added op"
  by (cases op) (auto split: if_splits dest: set_takeWhileD set_dropWhileD set_remove1_subset [THEN subsetD])

lemma order_spec_length:
  assumes "order_spec key op xs = Some ys" "length xs < 2 ^ 32"
  shows "items_after op (length xs) = length ys \<and> length ys < 2 ^ 32"
proof (cases op)
  case (Order_delete e)
  then have "e \<in> set xs" "ys = remove1 e xs" using assms(1) by (auto split: if_splits)
  moreover from this have "0 < length xs" by (cases xs) auto
  moreover have "(n + (2 ^ 32 - 1)) mod 2 ^ 32 = n - 1" if "0 < n" "n < 2 ^ 32" for n :: nat
  proof -
    have "n + (2 ^ 32 - 1) = (n - 1) + 2 ^ 32" using that by simp
    then show ?thesis using that by (metis mod_add_self2 mod_less less_imp_diff_less)
  qed
  ultimately show ?thesis using assms(2) Order_delete by (simp add: length_remove1 less_imp_diff_less)
next
  case (Order_add_inorder e)
  have "length (takeWhile P xs) + length (dropWhile P xs) = length xs" for P
    by (metis length_append takeWhile_dropWhile_id)
  then show ?thesis using assms Order_add_inorder by (auto split: if_splits)
qed (use assms in \<open>auto split: if_splits\<close>)

lemma order_step_returns:
  assumes "app s xs" "\<forall>e\<in>order_added op. node (fst s) e" "by_key cmp key" "order_spec key op xs = Some ys"
  shows "app_returns (order_step cmp op s) ys (set xs \<union> order_added op) (fst s)"
proof (cases op)
  case (Order_add e)
  then show ?thesis using order_add_returns [OF assms(1)] assms(2,4) by (auto split: if_splits)
next
  case (Order_add_inorder e)
  have "(\<lambda>x. \<not> cmp x e > 0) = (\<lambda>x. key x \<le> key e)" using by_key_iff(2) [OF assms(3)] by (auto simp: not_less)
  then show ?thesis using order_add_inorder_returns [OF assms(1), of e cmp] assms(2,4) Order_add_inorder
    by (auto split: if_splits)
next
  case (Order_delete e)
  then have e: "e \<in> set xs" "ys = remove1 e xs" using assms(4) by (auto split: if_splits)
  have "distinct xs" using assms(1) chain_at_distinct by (cases s) auto
  note sp = split_at [OF e(1) this]
  show ?thesis using order_delete_returns [of s "before e xs" e "behind e xs"] assms(1) sp Order_delete e(2) by simp
next
  case Order_sort
  then show ?thesis using order_sort_returns [OF assms(1) _ assms(3)] assms(4) by (auto split: if_splits)
qed

lemma run_orders_returns:
  assumes "app s xs" "length xs < 2 ^ 32" "\<forall>op\<in>set ops. \<forall>e\<in>order_added op. node (fst s) e" "by_key cmp key"
    and "orders_spec key ops xs = Some ys"
  shows "returns (run_orders cmp ops s (length xs))
    (\<lambda>(s', n). app s' ys \<and> n = length ys \<and> only_in (set xs \<union> (\<Union>op\<in>set ops. order_added op)) (fst s) (fst s'))"
  using assms(1-3,5)
proof (induction ops arbitrary: s xs)
  case Nil
  then show ?case by simp
next
  case (Cons op ops)
  obtain zs where zs: "order_spec key op xs = Some zs" "orders_spec key ops zs = Some ys"
    using Cons.prems(4) by (auto simp: bind_eq_Some_conv)
  note len = order_spec_length [OF zs(1) Cons.prems(2)]
  obtain s1 where s1: "order_step cmp op s = returned s1" "app s1 zs" "only_in (set xs \<union> order_added op) (fst s) (fst s1)"
    using order_step_returns [OF Cons.prems(1) _ assms(4) zs(1)] Cons.prems(3)
    by (auto simp: app_returns_def elim!: returnsE)
  have f: "order_fsck (length zs) s1 = returned ()"
  proof -
    obtain h p t where t: "s1 = (h, p, t)" by (cases s1)
    have l: "linked h p zs" using s1(2) t by simp
    show ?thesis
    proof (cases "p = 0")
      case True
      then show ?thesis by (simp add: t order_fsck_def)
    next
      case False
      then show ?thesis unfolding t order_fsck_iff [OF False] using l len by auto
    qed
  qed
  have "\<forall>op\<in>set ops. \<forall>e\<in>order_added op. node (fst s1) e"
    using Cons.prems(3) same_nodes_node [OF only_in_same [OF s1(3)]] by simp
  from Cons.IH [OF s1(2) _ this zs(2)] len obtain s2 n where r: "run_orders cmp ops s1 (length zs) = returned (s2, n)"
      "app s2 ys" "n = length ys" "only_in (set zs \<union> (\<Union>op\<in>set ops. order_added op)) (fst s1) (fst s2)"
    by (auto elim!: returnsE)
  let ?A = "set xs \<union> (\<Union>op\<in>set (op # ops). order_added op)"
  have "only_in ?A (fst s) (fst s1)" by (rule only_in_mono [OF s1(3)]) auto
  moreover have "only_in ?A (fst s1) (fst s2)" by (rule only_in_mono [OF r(4)]) (use order_spec_set [OF zs(1)] in auto)
  ultimately show ?case using s1(1) f len r(1-3) only_in_trans by simp
qed

section \<open>Selecting into another table\<close>

text \<open>
  How \<open>HASH_SELECT\<close> links the selected elements, through their second handle, in the order in
  which it meets them.  \<open>HASH_MAKE_TABLE\<close> makes the first one the tail when the destination is
  empty; nothing moves the tail after that.
\<close>

definition select_link :: "addr \<Rightarrow> addr \<Rightarrow> links \<Rightarrow> links run" where
  "select_link last_elt e h =
     then_run (set_prev e last_elt h) (\<lambda>h.
     then_run (set_next e 0 h) (\<lambda>h.
     if last_elt \<noteq> 0 then set_next last_elt e h else returned h))"

fun select_items :: "addr list \<Rightarrow> addr \<Rightarrow> app_order \<Rightarrow> app_order run" where
  "select_items [] last_elt s = returned s"
| "select_items (e # es) last_elt (h, dst, tail) =
     then_run (select_link last_elt e h) (\<lambda>h.
     select_items es e (if dst = 0 then (h, e, e) else (h, dst, tail)))"

definition order_select :: "addr list \<Rightarrow> app_order \<Rightarrow> app_order run" where
  "order_select es s = select_items es 0 s"

lemma select_link_returns:
  assumes "linked h (hd0 as) as" "node h e" "e \<notin> set as"
  shows "returns (select_link (last0 as) e h) (\<lambda>h'. linked h' (hd0 (as @ [e])) (as @ [e]) \<and> only_in (insert e (set as)) h h')"
proof -
  have e: "e \<noteq> 0" "nexts h e \<noteq> None" "prevs h e \<noteq> None" using assms(2) by (auto simp: node_def)
  have i: "chain_at (if as = [] then (nexts h)(e \<mapsto> 0) else (nexts h)(e \<mapsto> 0, last as \<mapsto> e))
      ((prevs h)(e \<mapsto> last0 as)) (if as = [] then e else hd0 as) (as @ [e])"
    using chain_at_insert [of "nexts h" "prevs h" "hd0 as" as "[]" e] assms e
    by (simp only: append_Nil2 hd0_simps if_True simp_thms)
  show ?thesis
  proof (cases "as = []")
    case True
    then show ?thesis using i e by (auto simp: select_link_def link_simps only_in_def same_nodes_def)
  next
    case False
    then have "last as \<noteq> 0" "nexts h (last as) \<noteq> None" "last as \<in> set as" "last as \<noteq> e"
      using linked_node [OF assms(1), of "last as"] assms(3) by (auto simp: node_def)
    then show ?thesis using False i e
      by (auto simp: select_link_def link_simps only_in_def same_nodes_def hd0_def)
  qed
qed

lemma select_items_returns:
  assumes "linked h (hd0 as) as" "\<forall>e\<in>set es. node h e" "distinct (as @ es)"
    and "as = [] \<longrightarrow> dst = 0" "as \<noteq> [] \<longrightarrow> dst = hd as \<and> tail = hd as"
  shows "returns (select_items es (last0 as) (h, dst, tail))
    (\<lambda>(h', dst', tail'). linked h' (hd0 (as @ es)) (as @ es) \<and> only_in (set (as @ es)) h h' \<and>
       (as @ es \<noteq> [] \<longrightarrow> dst' = hd (as @ es) \<and> tail' = hd (as @ es)))"
  using assms
proof (induction es arbitrary: as h dst tail)
  case Nil
  then show ?case by simp
next
  case (Cons e es)
  obtain h1 where h1: "select_link (last0 as) e h = returned h1"
      "linked h1 (hd0 (as @ [e])) (as @ [e])" "only_in (insert e (set as)) h h1"
    using select_link_returns [OF Cons.prems(1), of e] Cons.prems(2,3) by (auto elim!: returnsE)
  have "as \<noteq> [] \<Longrightarrow> dst \<noteq> 0" using Cons.prems(5) linked_node [OF Cons.prems(1), of "hd as"] by (auto simp: node_def)
  then have s: "(if dst = 0 then (h1, e, e) else (h1, dst, tail)) = (h1, hd (as @ [e]), hd (as @ [e]))"
    using Cons.prems(4,5) by (cases as) auto
  have n: "\<forall>e\<in>set es. node h1 e"
    using Cons.prems(2) same_nodes_node [OF only_in_same [OF h1(3)]] by simp
  have "select_items (e # es) (last0 as) (h, dst, tail) =
      select_items es (last0 (as @ [e])) (h1, hd (as @ [e]), hd (as @ [e]))"
    using h1(1) s by simp
  moreover have "returns (select_items es (last0 (as @ [e])) (h1, hd (as @ [e]), hd (as @ [e])))
      (\<lambda>(h', dst', tail'). linked h' (hd0 ((as @ [e]) @ es)) ((as @ [e]) @ es) \<and>
         only_in (set ((as @ [e]) @ es)) h1 h' \<and>
         ((as @ [e]) @ es \<noteq> [] \<longrightarrow> dst' = hd ((as @ [e]) @ es) \<and> tail' = hd ((as @ [e]) @ es)))"
    by (rule Cons.IH [OF h1(2) n]) (use Cons.prems(3) in auto)
  moreover have "only_in (set (as @ e # es)) h h1" by (rule only_in_mono [OF h1(3)]) auto
  ultimately show ?case by (auto elim!: returnsE intro: only_in_trans)
qed

section \<open>Properties\<close>

text \<open>
  C9. The order of a hash table, with its pointers: a program of insertions, insertions in
  order, deletions and sorts returns and leaves the list that the operations on lists give,
  with the tail at its last element; it writes only the links of the elements, and with
  \<open>HASH_DEBUG\<close> no check fails on the way.
\<close>

theorem hash_order_refines_list:
  assumes "\<forall>op\<in>set ops. \<forall>e\<in>order_added op. node h e" "by_key cmp key" "orders_spec key ops [] = Some ys"
  shows "returns (run_orders cmp ops (h, 0, 0) 0)
    (\<lambda>(s, n). app s ys \<and> n = length ys \<and> only_in (\<Union>op\<in>set ops. order_added op) h (fst s))"
  using run_orders_returns [of "(h, 0, 0)" "[]" ops cmp key ys] assms by simp

definition four_nodes :: links where
  "four_nodes = \<lparr>nexts = [1 \<mapsto> 9, 2 \<mapsto> 9, 3 \<mapsto> 9, 4 \<mapsto> 9], prevs = [1 \<mapsto> 9, 2 \<mapsto> 9, 3 \<mapsto> 9, 4 \<mapsto> 9]\<rparr>"

theorem hash_order_refines_list_witness:
  "returns (run_orders (\<lambda>x y. int x - int y)
      [Order_add 4, Order_add 2, Order_sort, Order_add_inorder 3, Order_delete 4] (four_nodes, 0, 0) 0)
    (\<lambda>(s, n). app s [2, 3] \<and> n = 2 \<and> only_in {2, 3, 4} four_nodes (fst s))"
proof -
  have "by_key (\<lambda>x y. int x - int y) int" by (simp add: by_key_def)
  moreover have "orders_spec int [Order_add 4, Order_add 2, Order_sort, Order_add_inorder 3, Order_delete 4] [] =
      Some [2, 3]" by simp
  moreover have "(\<Union>op\<in>set [Order_add 4, Order_add 2, Order_sort, Order_add_inorder 3, Order_delete 4]. order_added op) =
      {2, 3, 4}" by auto
  ultimately show ?thesis
    using hash_order_refines_list [of "[Order_add 4, Order_add 2, Order_sort, Order_add_inorder 3, Order_delete 4]"
        four_nodes "\<lambda>x y. int x - int y" int "[2, 3]"]
    by (simp add: node_def four_nodes_def)
qed

text \<open>
  C24. \<open>HASH_SELECT\<close> into an empty table links the selected elements in order but leaves the
  tail at the first of them.  Adding an element to that table cuts all the others out of the
  order: an iteration then meets the first and the new element only, and \<open>HASH_FSCK\<close> exits.
\<close>

theorem select_then_add_loses_elements:
  assumes "\<forall>e\<in>set (x # y # es). node h e" "distinct (x # y # es)" "node h a" "a \<notin> set (x # y # es)"
    and "length es < 2 ^ 31"
  shows "returns (order_select (x # y # es) (h, 0, 0)) (\<lambda>s. linked (fst s) x (x # y # es) \<and>
    returns (order_add a s) (\<lambda>s'. app s' [x, a] \<and>
      order_fsck (length (a # x # y # es) mod 2 ^ 32) s' = stopped (Exit (- 1))))"
proof -
  obtain h1 where r: "order_select (x # y # es) (h, 0, 0) = returned (h1, x, x)"
      "linked h1 x (x # y # es)" "only_in (set (x # y # es)) h h1"
    using select_items_returns [of h "[]" "x # y # es" 0 0] assms(1,2)
    by (auto simp: order_select_def elim!: returnsE)
  have "node h1 a" using assms(3) same_nodes_node [OF only_in_same [OF r(3)]] by simp
  then have a: "a \<noteq> 0" "nexts h1 a \<noteq> None" "prevs h1 a \<noteq> None" "a \<noteq> x" using assms(4) by (auto simp: node_def)
  have x: "x \<noteq> 0" "nexts h1 x \<noteq> None" "prevs h1 x = Some 0"
    using chain_at_mid [of "nexts h1" "prevs h1" x "[]" x "y # es"] r(2) by auto
  define h2 where "h2 = h1\<lparr>nexts := (nexts h1)(a \<mapsto> 0, x \<mapsto> a), prevs := (prevs h1)(a \<mapsto> x)\<rparr>"
  have l: "linked h2 x [x, a]" using a x by (simp add: h2_def chain_at_def)
  have add: "order_add a (h1, x, x) = returned (h2, x, a)"
    using a x by (auto simp: order_add_def order_append_def link_simps h2_def)
  have "fsck_walk h2 (x, 0, 0) = returned (0, a, 2)"
    using fsck_walk_accepts [of h2 x "[]" "[x, a]"] l by simp
  moreover have "length (a # x # y # es) mod 2 ^ 32 \<noteq> 2" using assms(5) by simp
  ultimately have "order_fsck (length (a # x # y # es) mod 2 ^ 32) (h2, x, a) = stopped (Exit (- 1))"
    using x(1) by (simp add: order_fsck_def)
  then show ?thesis using r(1,2) add l by simp
qed

theorem select_then_add_loses_elements_witness:
  "returns (order_select [1, 2, 3] (four_nodes, 0, 0)) (\<lambda>s. linked (fst s) 1 [1, 2, 3] \<and>
    returns (order_add 4 s) (\<lambda>s'. app s' [1, 4] \<and> order_fsck 4 s' = stopped (Exit (- 1))))"
  using select_then_add_loses_elements [of 1 2 "[3]" four_nodes 4]
  by (simp add: node_def four_nodes_def)

text \<open>
  The check of \<open>HASH_FSCK\<close> on the order passes exactly when the pointers from the head form a
  list that ends, goes back correctly and has the counted number of elements.
\<close>

theorem hash_fsck_accepts_exactly_lists:
  assumes "p \<noteq> 0"
  shows "order_fsck n (h, p, t) = returned () \<longleftrightarrow>
    (\<exists>xs. path (nexts h) p xs 0 \<and> backs (prevs h) 0 xs \<and> length xs mod 2 ^ 32 = n)"
  using order_fsck_iff [OF assms] by (simp add: chain_at_def)

theorem hash_fsck_accepts_exactly_lists_witness:
  "order_fsck 3 (\<lparr>nexts = [1 \<mapsto> 2, 2 \<mapsto> 3, 3 \<mapsto> 0], prevs = [1 \<mapsto> 0, 2 \<mapsto> 1, 3 \<mapsto> 2]\<rparr>, 1, 3) = returned ()"
  by (subst hash_fsck_accepts_exactly_lists) (simp_all, intro exI [of _ "[1, 2, 3]"], simp)

end
