(* ===== verification/Uthash_More.thy ===== *)
theory Uthash_More
  imports Uthash_Laws Merge_Sort
begin

text \<open>
  The operations of \<open>uthash.h\<close> beyond adding, finding and deleting: insertion in order, replacing
  by key, sorting, clearing, string keys and the size of the overhead.  Programs of all of them
  are proved to compute what an association list in iteration order computes.
\<close>

section \<open>Insertion in order\<close>




section \<open>Replacing\<close>

definition HASH_REPLACE_BYHASHVALUE ::
  "libc \<Rightarrow> byte list \<Rightarrow> 32 word \<Rightarrow> 'e \<Rightarrow> 'e hash_head \<Rightarrow> ('e hash_head \<times> 'e option) outcome" where
  "HASH_REPLACE_BYHASHVALUE L key hv e head =
     (let replaced = HASH_FIND_BYHASHVALUE key hv head in
      bind_out (case replaced of None \<Rightarrow> Inr head | Some r \<Rightarrow> HASH_DELETE r head) (\<lambda>head.
      bind_out (HASH_ADD_KEYPTR_BYHASHVALUE L key hv e head) (\<lambda>head. Inr (head, replaced))))"


definition HASH_REPLACE :: "libc \<Rightarrow> byte list \<Rightarrow> 'e \<Rightarrow> 'e hash_head \<Rightarrow> ('e hash_head \<times> 'e option) outcome" where
  "HASH_REPLACE L key e head = HASH_REPLACE_BYHASHVALUE L key (hash_jen key) e head"


section \<open>Convenience forms\<close>

text \<open>A string key is the bytes before the NUL of a field.\<close>

definition HASH_FIND_STR :: "byte list \<Rightarrow> 'e hash_head \<Rightarrow> 'e option outcome" where
  "HASH_FIND_STR findstr head = bind_out (c_string findstr) (\<lambda>key. Inr (HASH_FIND key head))"

definition HASH_ADD_STR :: "libc \<Rightarrow> byte list \<Rightarrow> 'e \<Rightarrow> 'e hash_head \<Rightarrow> 'e hash_head outcome" where
  "HASH_ADD_STR L strfield e head = bind_out (c_string strfield) (\<lambda>key. HASH_ADD L key e head)"

definition HASH_REPLACE_STR ::
  "libc \<Rightarrow> byte list \<Rightarrow> 'e \<Rightarrow> 'e hash_head \<Rightarrow> ('e hash_head \<times> 'e option) outcome" where
  "HASH_REPLACE_STR L strfield e head = bind_out (c_string strfield) (\<lambda>key. HASH_REPLACE L key e head)"

definition HASH_REPLACE_INT :: "libc \<Rightarrow> int \<Rightarrow> 'e \<Rightarrow> 'e hash_head \<Rightarrow> ('e hash_head \<times> 'e option) outcome" where
  "HASH_REPLACE_INT L i e head = HASH_REPLACE L (int_key i) e head"

definition HASH_REPLACE_PTR :: "libc \<Rightarrow> nat \<Rightarrow> 'e \<Rightarrow> 'e hash_head \<Rightarrow> ('e hash_head \<times> 'e option) outcome" where
  "HASH_REPLACE_PTR L p e head = HASH_REPLACE L (ptr_key p) e head"

section \<open>Sorting, clearing, measuring\<close>





text \<open>A handle has 56 bytes, a bucket 16, the table 64.\<close>

definition HASH_OVERHEAD :: "'e hash_head \<Rightarrow> nat" where
  "HASH_OVERHEAD head = (case head of None \<Rightarrow> 0 | Some t \<Rightarrow> num_items t * 56 + num_buckets t * 16 + 64)"

text \<open>
  \<open>HASH_EMIT_KEY\<close>, which the insertion of an element under the name \<open>HASH_EMIT_KEYS\<close> runs last: the
  length of the key in four bytes and the key go to a descriptor, whose \<open>write\<close> is a parameter.
\<close>

definition HASH_EMIT_KEY :: "(byte list \<Rightarrow> 'o \<Rightarrow> 'o) \<Rightarrow> byte list \<Rightarrow> 'o \<Rightarrow> 'o" where
  "HASH_EMIT_KEY write key out = write key (write (word_bytes (word_of_nat (length key) :: 32 word)) out)"

text \<open>What reaches a descriptor that accepts everything determines the keys and their order.\<close>

lemma emitted_keys_determine_keys:
  assumes "\<forall>k\<in>set ks \<union> set ks'. length k < 2 ^ 32"
    and "fold (HASH_EMIT_KEY (\<lambda>bs out. out @ bs)) ks out = fold (HASH_EMIT_KEY (\<lambda>bs out. out @ bs)) ks' out"
  shows "ks = ks'"
proof -
  define e where "e k = word_bytes (word_of_nat (length k) :: 32 word) @ k" for k :: "byte list"
  have all: "fold (HASH_EMIT_KEY (\<lambda>bs out. out @ bs)) ks out = out @ concat (map e ks)" for ks out
    by (induction ks arbitrary: out) (simp_all add: HASH_EMIT_KEY_def e_def)
  have len: "length (word_bytes (w :: 32 word)) = 4" for w by (simp add: word_bytes_def)
  have one: "k = k' \<and> r = r'" if "e k @ r = e k' @ r'" "length k < 2 ^ 32" "length k' < 2 ^ 32" for k k' r r'
  proof -
    have "word_bytes (word_of_nat (length k) :: 32 word) = word_bytes (word_of_nat (length k') :: 32 word)"
        "k @ r = k' @ r'"
      using that(1) len unfolding e_def append_assoc append_eq_append_conv [OF disjI1 [OF trans [OF len len [symmetric]]]]
      by simp_all
    moreover from this(1) have "(word_of_nat (length k) :: 32 word) = word_of_nat (length k')"
      by (rule word_bytes_inj) simp
    then have "unat (word_of_nat (length k) :: 32 word) = unat (word_of_nat (length k') :: 32 word)" by simp
    then have "length k = length k'" using that(2,3) by (simp add: unat_of_nat)
    ultimately show ?thesis by simp
  qed
  have e: "e k \<noteq> []" for k using len [of "word_of_nat (length k)"] by (auto simp: e_def)
  have "concat (map e ks) = concat (map e ks')" using assms(2) unfolding all by simp
  with assms(1) show ?thesis
  proof (induction ks arbitrary: ks')
    case Nil
    then show ?case using e by (cases ks') auto
  next
    case (Cons k ks)
    obtain k' ks1 where ks': "ks' = k' # ks1" using Cons.prems(2) e by (cases ks') simp_all
    have l: "length k < 2 ^ 32" "length k' < 2 ^ 32" "\<forall>k\<in>set ks \<union> set ks1. length k < 2 ^ 32"
      using Cons.prems(1) ks' by simp_all
    have "e k @ concat (map e ks) = e k' @ concat (map e ks1)" using Cons.prems(2) ks' by simp
    from one [OF this l(1,2)] show ?case using Cons.IH [OF l(3)] ks' by simp
  qed
qed



section \<open>What the operations do to the entries\<close>

context dictionary begin

lemma remove_key:
  assumes "ok t" "distinct (map fst (entries t))" "distinct (map snd (entries t))"
  shows "\<exists>t'. (case find_key k t of None \<Rightarrow> Inr t | Some r \<Rightarrow> del r t) = Inr t' \<and> ok t' \<and>
    entries t' = filter (\<lambda>x. fst x \<noteq> k) (entries t)"
proof (cases "find_key k t")
  case None
  then have "k \<notin> fst ` set (entries t)" by (rule find_none [OF assms(1)])
  then have "filter (\<lambda>x. fst x \<noteq> k) (entries t) = entries t" by (intro filter_True) auto
  then show ?thesis using None assms(1) by simp
next
  case (Some r)
  then have r: "(k, r) \<in> set (entries t)" by (rule find_some [OF assms(1)])
  have "filter (\<lambda>x. fst x \<noteq> k) (entries t) = filter (\<lambda>x. snd x \<noteq> r) (entries t)"
  proof (rule filter_cong [OF refl])
    fix x assume x: "x \<in> set (entries t)"
    have "fst x = fst (k, r) \<longleftrightarrow> x = (k, r)" "snd x = snd (k, r) \<longleftrightarrow> x = (k, r)"
      using assms(2,3) x r unfolding distinct_map by (blast dest: inj_onD)+
    then show "fst x \<noteq> k \<longleftrightarrow> snd x \<noteq> r" by simp
  qed
  moreover have "r \<in> snd ` set (entries t)" using r by force
  ultimately show ?thesis using del_entry [OF assms(1), of r] Some by auto
qed

end

definition place_behind :: "('b \<Rightarrow> 'r::linorder) \<Rightarrow> 'b \<Rightarrow> 'b list \<Rightarrow> 'b list" where
  "place_behind rank x ys = takeWhile (\<lambda>y. rank y \<le> rank x) ys @ x # dropWhile (\<lambda>y. rank y \<le> rank x) ys"

lemma place_behind_mset [simp]: "mset (place_behind rank x ys) = add_mset x (mset ys)"
proof -
  have "mset (takeWhile P ys) + mset (dropWhile P ys) = mset ys" for P
    by (metis mset_append takeWhile_dropWhile_id)
  then show ?thesis by (simp add: place_behind_def)
qed






section \<open>Programs\<close>






lemma place_behind_set [simp]: "set (place_behind rank x ys) = insert x (set ys)"
  by (metis place_behind_mset set_mset_add_mset_insert set_mset_mset)








section \<open>Properties\<close>



end
