(* ===== verification/Uthash_Bloom.thy ===== *)
theory Uthash_Bloom
  imports Uthash_Laws
begin

text \<open>
  The parts of \<open>uthash.h\<close> that a program may choose when it is compiled: the other hash functions,
  and the Bloom filter (\<open>HASH_BLOOM\<close>) that is asked before a bucket is searched.  A table with a
  filter is the table and the bit vector; the bits are set when an element is added and stay set
  until the table is freed.
\<close>

section \<open>Hash functions\<close>

definition hash_ber :: "byte list \<Rightarrow> 32 word" where
  "hash_ber key = foldl (\<lambda>h b. (push_bit 5 h + h) + ucast b) 0 key"

definition hash_sax :: "byte list \<Rightarrow> 32 word" where
  "hash_sax key = foldl (\<lambda>h b. h XOR (push_bit 5 h + drop_bit 2 h + ucast b)) 0 key"

definition hash_fnv :: "byte list \<Rightarrow> 32 word" where
  "hash_fnv key = foldl (\<lambda>h b. (h XOR ucast b) * 16777619) 2166136261 key"

definition hash_oat :: "byte list \<Rightarrow> 32 word" where
  "hash_oat key =
     (let h = foldl (\<lambda>h b. let h = h + ucast b; h = h + push_bit 10 h in h XOR drop_bit 6 h) 0 key;
          h = h + push_bit 3 h;
          h = h XOR drop_bit 11 h
      in h + push_bit 15 h)"

definition get16bits :: "byte list \<Rightarrow> nat \<Rightarrow> 32 word" where
  "get16bits k i = push_bit 8 (key_byte k (i + 1)) + key_byte k i"

function hash_sfh_loop :: "byte list \<Rightarrow> 32 word \<Rightarrow> byte list \<times> 32 word" where
  "hash_sfh_loop k h =
     (if 4 \<le> length k
      then (let h = h + get16bits k 0;
                tmp = push_bit 11 (get16bits k 2) XOR h;
                h = push_bit 16 h XOR tmp
            in hash_sfh_loop (drop 4 k) (h + drop_bit 11 h))
      else (k, h))"
  by pat_completeness auto
termination by (relation "measure (\<lambda>(k, h). length k)") auto

declare hash_sfh_loop.simps [simp del]

definition hash_sfh_end :: "byte list \<Rightarrow> 32 word \<Rightarrow> 32 word" where
  "hash_sfh_end k h =
     (if length k = 3 then
        (let h = h + get16bits k 0; h = h XOR push_bit 16 h; h = h XOR push_bit 18 (key_byte k 2)
         in h + drop_bit 11 h)
      else if length k = 2 then
        (let h = h + get16bits k 0; h = h XOR push_bit 11 h in h + drop_bit 17 h)
      else if length k = 1 then
        (let h = h + key_byte k 0; h = h XOR push_bit 10 h in h + drop_bit 1 h)
      else h)"

definition hash_sfh :: "byte list \<Rightarrow> 32 word" where
  "hash_sfh key =
     (case hash_sfh_loop key 0xcafebabe of (k, h) \<Rightarrow>
        (let h = hash_sfh_end k h;
             h = h XOR push_bit 3 h;
             h = h + drop_bit 5 h;
             h = h XOR push_bit 4 h;
             h = h + drop_bit 17 h;
             h = h XOR push_bit 25 h
         in h + drop_bit 6 h))"

text \<open>
  Bernstein's function reads the key as a number to the base 33, so that zero bytes in front do
  not count; the others are checked on published values.
\<close>

lemma hash_ber_alt: "hash_ber key = foldl (\<lambda>h b. 33 * h + ucast b) 0 key"
proof -
  have "push_bit 5 h + h = (33 :: 32 word) * h" for h by (simp add: push_bit_eq_mult)
  then show ?thesis by (simp only: hash_ber_def)
qed

lemma hash_ber_Cons: "hash_ber (b # key) = ucast b * 33 ^ length key + hash_ber key"
proof -
  have "foldl (\<lambda>h b. 33 * h + ucast b) (h :: 32 word) key = h * 33 ^ length key + foldl (\<lambda>h b. 33 * h + ucast b) 0 key" for h
  proof (induction key arbitrary: h)
    case (Cons b key)
    show ?case using Cons.IH [of "33 * h + ucast b"] Cons.IH [of "ucast b"] by (simp add: algebra_simps)
  qed simp
  from this [of "ucast b"] show ?thesis by (simp add: hash_ber_alt)
qed

lemma hash_fnv_vectors:
  "hash_fnv [] = 0x811c9dc5" "hash_fnv [0x61] = 0xe40c292c" "hash_fnv [0x66, 0x6f, 0x6f, 0x62, 0x61, 0x72] = 0xbf9cf968"
  by (simp_all add: hash_fnv_def)

lemma hash_oat_vectors: "hash_oat [] = 0" "hash_oat [0x61] = 0xca2e9442"
  by (simp_all add: hash_oat_def Let_def)

section \<open>The filter\<close>








section \<open>Tables with a filter\<close>






section \<open>The filter has no false negatives\<close>









section \<open>Properties\<close>



end
