(* ===== verification/Uthash_Oom.thy ===== *)
theory Uthash_Oom
  imports Uthash_Laws
begin

text \<open>
  \<open>uthash.h\<close> compiled with \<open>HASH_NONFATAL_OOM\<close>: when \<open>malloc\<close> refuses, an insertion does not exit
  but undoes its work and reports the failure.  The flag \<open>oomed\<close> is the second component of the
  results.
\<close>

section \<open>The macros\<close>

definition HASH_MAKE_TABLE_OOM :: "libc \<Rightarrow> 'e hash_handle \<Rightarrow> 'e hash_table option" where
  "HASH_MAKE_TABLE_OOM L h =
     (if \<not> malloc_ok L 64 then None
      else if \<not> malloc_ok L (HASH_INITIAL_NUM_BUCKETS * 16) then None
      else Some \<lparr>buckets = replicate HASH_INITIAL_NUM_BUCKETS empty_bucket,
          num_buckets = HASH_INITIAL_NUM_BUCKETS, log2_num_buckets = HASH_INITIAL_NUM_BUCKETS_LOG2,
          num_items = 0, app_order = [h], ideal_chain_maxlen = 0, nonideal_items = 0,
          ineff_expands = 0, noexpand = False\<rparr>)"

definition HASH_EXPAND_BUCKETS_OOM :: "libc \<Rightarrow> 'e hash_table \<Rightarrow> ('e hash_table \<times> bool) outcome" where
  "HASH_EXPAND_BUCKETS_OOM L t =
     (if \<not> malloc_ok L (16 * num_buckets t * 2) then Inr (t, True)
      else bind_out (HASH_EXPAND_BUCKETS L t) (\<lambda>t. Inr (t, False)))"

text \<open>When the expansion fails, the handle is taken out of its bucket again.\<close>

definition HASH_ADD_TO_BKT_OOM ::
  "libc \<Rightarrow> 'e hash_handle \<Rightarrow> nat \<Rightarrow> 'e hash_table \<Rightarrow> ('e hash_table \<times> bool) outcome" where
  "HASH_ADD_TO_BKT_OOM L h i t =
     (let b = buckets t ! i;
          b' = b\<lparr>count' := count' b + 1, chain := h # chain b\<rparr>;
          t' = t\<lparr>buckets := (buckets t)[i := b']\<rparr> in
      if count' b' \<ge> (expand_mult b' + 1) * HASH_BKT_CAPACITY_THRESH \<and> \<not> noexpand t'
      then bind_out (HASH_EXPAND_BUCKETS_OOM L t') (\<lambda>(t, oomed).
        Inr (if oomed then t\<lparr>buckets := (buckets t)[i := HASH_DEL_IN_BKT h (buckets t ! i)]\<rparr> else t, oomed))
      else Inr (t', False))"

text \<open>
  The count that \<open>HASH_DEL_IN_BKT\<close> took is given back, since \<open>HASH_DELETE_HH\<close> will take it again;
  the handle's bucket pointers are reset, so that it finds nothing to unlink there.
\<close>

definition HASH_ROLLBACK_BKT :: "'e hash_handle \<Rightarrow> 'e hash_table \<Rightarrow> 'e hash_table" where
  "HASH_ROLLBACK_BKT h t =
     (let i = HASH_TO_BKT (hashv h) (num_buckets t) in
      t\<lparr>buckets := (buckets t)[i := (buckets t ! i)\<lparr>count' := count' (buckets t ! i) + 1\<rparr>]\<rparr>)"

definition HASH_ADD_TO_TABLE_OOM ::
  "libc \<Rightarrow> 'e hash_handle \<Rightarrow> 'e hash_table \<Rightarrow> ('e hash_head \<times> bool) outcome" where
  "HASH_ADD_TO_TABLE_OOM L h t =
     (let t = t\<lparr>num_items := num_items t + 1\<rparr> in
      bind_out (HASH_ADD_TO_BKT_OOM L h (HASH_TO_BKT (hashv h) (num_buckets t)) t) (\<lambda>(t, oomed).
      if oomed then bind_out (HASH_DELETE (elem h) (Some (HASH_ROLLBACK_BKT h t))) (\<lambda>head. Inr (head, True))
      else Inr (Some t, False)))"

definition HASH_ADD_OOM :: "libc \<Rightarrow> byte list \<Rightarrow> 'e \<Rightarrow> 'e hash_head \<Rightarrow> ('e hash_head \<times> bool) outcome" where
  "HASH_ADD_OOM L key e head =
     (let h = \<lparr>elem = e, hh_key = key, hashv = hash_jen key\<rparr> in
      case head of
        None \<Rightarrow> (case HASH_MAKE_TABLE_OOM L h of
            None \<Rightarrow> Inr (None, True)
          | Some t \<Rightarrow> HASH_ADD_TO_TABLE_OOM L h t)
      | Some t \<Rightarrow> HASH_ADD_TO_TABLE_OOM L h (HASH_APPEND_LIST h t))"

section \<open>Rolling back\<close>

lemma undo_push:
  assumes "\<forall>h'\<in>set (chain b). elem h' \<noteq> elem h"
  shows "HASH_DEL_IN_BKT h ((HASH_DEL_IN_BKT h (b\<lparr>count' := count' b + 1, chain := h # chain b\<rparr>))\<lparr>count' := count' b + 1\<rparr>) = b"
  using assms by (simp add: HASH_DEL_IN_BKT_def filter_id_conv)

lemma find_last: "\<forall>x\<in>set xs. \<not> P x \<Longrightarrow> P y \<Longrightarrow> find P (xs @ [y]) = Some y"
  by (induction xs) auto

text \<open>The bucket and the table with the new handle, before an expansion.\<close>

definition pushed :: "'e hash_handle \<Rightarrow> 'e hash_table \<Rightarrow> 'e hash_table" where
  "pushed h t = (let i = HASH_TO_BKT (hashv h) (num_buckets t); b = buckets t ! i in
     t\<lparr>app_order := app_order t @ [h], num_items := num_items t + 1,
       buckets := (buckets t)[i := b\<lparr>count' := count' b + 1, chain := h # chain b\<rparr>]\<rparr>)"

definition must_expand :: "'e hash_handle \<Rightarrow> 'e hash_table \<Rightarrow> bool" where
  "must_expand h t \<longleftrightarrow> (let b = buckets t ! HASH_TO_BKT (hashv h) (num_buckets t) in
     count' b + 1 \<ge> (expand_mult b + 1) * HASH_BKT_CAPACITY_THRESH \<and> \<not> noexpand t)"

lemma add_cases:
  assumes "HASH_TO_BKT (hashv h) (num_buckets t) < length (buckets t)"
  shows "HASH_ADD_TO_TABLE L h (HASH_APPEND_LIST h t) =
      (if must_expand h t then HASH_EXPAND_BUCKETS L (pushed h t) else Inr (pushed h t))"
    "HASH_ADD_TO_BKT_OOM L h (HASH_TO_BKT (hashv h) (num_buckets t)) ((HASH_APPEND_LIST h t)\<lparr>num_items := num_items t + 1\<rparr>) =
      (if must_expand h t then bind_out (HASH_EXPAND_BUCKETS_OOM L (pushed h t)) (\<lambda>(t', oomed).
         Inr (if oomed then t'\<lparr>buckets := (buckets t')[HASH_TO_BKT (hashv h) (num_buckets t) :=
                HASH_DEL_IN_BKT h (buckets t' ! HASH_TO_BKT (hashv h) (num_buckets t))]\<rparr> else t', oomed))
       else Inr (pushed h t, False))"
  using assms
  by (simp_all add: HASH_ADD_TO_TABLE_def HASH_ADD_TO_BKT_def HASH_ADD_TO_BKT_OOM_def HASH_APPEND_LIST_def
      pushed_def must_expand_def Let_def cong: if_cong)

lemma rollback_restores:
  assumes t: "table_ok t" "app_order t \<noteq> []" "elem h \<notin> elem ` set (app_order t)"
    and i: "i = HASH_TO_BKT (hashv h) (num_buckets t)"
  shows "HASH_DELETE (elem h) (Some (HASH_ROLLBACK_BKT h
      ((pushed h t)\<lparr>buckets := (buckets (pushed h t))[i := HASH_DEL_IN_BKT h (buckets (pushed h t) ! i)]\<rparr>))) = Inr (Some t)"
proof -
  note ok = table_okD [OF t(1)]
  have il: "i < num_buckets t" "i < length (buckets t)" using ok HASH_TO_BKT_less by (simp_all add: i buckets_ok_def)
  define b where "b = buckets t ! i"
  define b' where "b' = b\<lparr>count' := count' b + 1, chain := h # chain b\<rparr>"
  have ch: "\<forall>h'\<in>set (chain b). elem h' \<noteq> elem h"
    using handle_of_bucket [OF ok(1) il(1)] t(3) unfolding b_def by (metis image_eqI)
  define t4 where "t4 = t\<lparr>app_order := app_order t @ [h], num_items := num_items t + 1,
      buckets := (buckets t)[i := (HASH_DEL_IN_BKT h b')\<lparr>count' := count' b + 1\<rparr>]\<rparr>"
  have r: "HASH_ROLLBACK_BKT h
      ((pushed h t)\<lparr>buckets := (buckets (pushed h t))[i := HASH_DEL_IN_BKT h (buckets (pushed h t) ! i)]\<rparr>) = t4"
    using il by (simp add: HASH_ROLLBACK_BKT_def t4_def pushed_def Let_def HASH_DEL_IN_BKT_def b'_def b_def flip: i)
  have ne: "\<forall>x\<in>set (app_order t). elem x \<noteq> elem h" using t(3) by (metis image_eqI)
  then have f: "find (\<lambda>h'. elem h' = elem h) (app_order t @ [h]) = Some h" by (intro find_last) simp_all
  have flt: "filter (\<lambda>h'. elem h' \<noteq> elem h) (app_order t @ [h]) = app_order t"
    using ne by (simp add: filter_id_conv)
  have "(buckets t)[i := HASH_DEL_IN_BKT h (buckets t4 ! i)] = buckets t"
    using il undo_push [OF ch] by (simp add: t4_def b'_def b_def)
  then show ?thesis
    using f flt t(2) unfolding r by (simp add: HASH_DELETE_def t4_def Let_def flip: i)
qed

section \<open>Properties\<close>

text \<open>
  C23. With \<open>HASH_NONFATAL_OOM\<close>, an insertion for which \<open>malloc\<close> refuses, the table, its buckets or
  their expansion, reports it and leaves the table exactly as it was; in all other cases it does
  what an insertion without the option does, which otherwise ends in \<open>exit(-1)\<close>.
\<close>

theorem hash_add_survives_oom:
  assumes "bounded_memory L" "hash_ok head" "e \<notin> snd ` set (hash_entries head)"
  shows "HASH_ADD_OOM L k e head =
    (case HASH_ADD L k e head of Inl x \<Rightarrow> Inr (head, True) | Inr head' \<Rightarrow> Inr (head', False))"
proof -
  define h where "h = \<lparr>elem = e, hh_key = k, hashv = hash_jen k\<rparr>"
  show ?thesis
  proof (cases head)
    case None
    have "HASH_TO_BKT (hash_jen k) HASH_INITIAL_NUM_BUCKETS < HASH_INITIAL_NUM_BUCKETS"
      by (rule HASH_TO_BKT_less) (simp_all add: HASH_INITIAL_NUM_BUCKETS_def)
    then have "replicate HASH_INITIAL_NUM_BUCKETS empty_bucket ! HASH_TO_BKT (hash_jen k) HASH_INITIAL_NUM_BUCKETS =
        (empty_bucket :: 'a hash_bucket)" by simp
    then show ?thesis using None
      by (auto simp: empty_bucket_def HASH_BKT_CAPACITY_THRESH_def HASH_ADD_OOM_def HASH_MAKE_TABLE_OOM_def HASH_ADD_TO_TABLE_OOM_def HASH_ADD_TO_BKT_OOM_def
          hash_add_defs bind_out_def Let_def)
  next
    case (Some t)
    have t: "table_ok t" "app_order t \<noteq> []" "elem h \<notin> elem ` set (app_order t)"
      using assms(2,3) by (auto simp: hash_ok_def Some hash_entries_snd handles_def h_def)
    note ok = table_okD [OF t(1)]
    define i where "i = HASH_TO_BKT (hashv h) (num_buckets t)"
    have "i < length (buckets t)" using ok HASH_TO_BKT_less by (simp add: i_def buckets_ok_def)
    note c = add_cases [of h t L, folded i_def, OF this]
    have add: "HASH_ADD L k e head = bind_out (HASH_ADD_TO_TABLE L h (HASH_APPEND_LIST h t)) (\<lambda>t'. Inr (Some t'))"
      by (simp add: HASH_ADD_def HASH_ADD_KEYPTR_BYHASHVALUE_def h_def Let_def Some bind_out_def)
    have oom: "HASH_ADD_OOM L k e head = HASH_ADD_TO_TABLE_OOM L h (HASH_APPEND_LIST h t)"
      by (simp add: HASH_ADD_OOM_def h_def Let_def Some)
    have tab: "HASH_ADD_TO_TABLE_OOM L h (HASH_APPEND_LIST h t) =
        bind_out (HASH_ADD_TO_BKT_OOM L h i ((HASH_APPEND_LIST h t)\<lparr>num_items := num_items t + 1\<rparr>)) (\<lambda>(t, oomed).
        if oomed then bind_out (HASH_DELETE (elem h) (Some (HASH_ROLLBACK_BKT h t))) (\<lambda>head. Inr (head, True))
        else Inr (Some t, False))"
      by (simp add: HASH_ADD_TO_TABLE_OOM_def Let_def HASH_APPEND_LIST_def i_def)
    show ?thesis
    proof (cases "must_expand h t \<and> \<not> malloc_ok L (16 * num_buckets (pushed h t) * 2)")
      case True
      then have "HASH_EXPAND_BUCKETS L (pushed h t) = Inl (Exit (- 1))"
        by (simp add: HASH_EXPAND_BUCKETS_def uthash_malloc_def bind_out_def)
      then show ?thesis using True rollback_restores [OF t i_def]
        unfolding oom tab c add by (simp add: HASH_EXPAND_BUCKETS_OOM_def bind_out_def Some)
    next
      case False
      have "HASH_EXPAND_BUCKETS L (pushed h t) = Inl x \<Longrightarrow> \<not> malloc_ok L (16 * num_buckets (pushed h t) * 2)" for x
        using assms(1) unfolding HASH_EXPAND_BUCKETS_def bounded_memory_def
        by (auto simp: uthash_malloc_def bind_out_def Let_def split: if_splits prod.splits)
      then show ?thesis using False unfolding oom tab c add
        by (auto simp: HASH_EXPAND_BUCKETS_OOM_def bind_out_def split: sum.splits)
    qed
  qed
qed

definition no_big_blocks :: libc where
  "no_big_blocks = \<lparr>malloc_ok = (\<lambda>n. n < 64), realloc0_frees = True, indet = (\<lambda>_. 0)\<rparr>"

theorem hash_add_survives_oom_witness:
  "HASH_ADD_OOM no_big_blocks [1] (7::nat) None = Inr (None, True)"
  using hash_add_survives_oom [of no_big_blocks None "7::nat" "[1]"]
  by (simp add: bounded_memory_def no_big_blocks_def hash_add_defs bind_out_def Let_def)

end
