(* ===== verification/Uthash_Select.thy ===== *)
theory Uthash_Select
  imports Uthash_Laws
begin

text \<open>
  \<open>HASH_SELECT\<close>: the elements of one table that satisfy a condition are entered into another one
  through a second handle, in the order of the buckets.  \<open>Uthash_Order\<close> has its pointers; here the
  tables are lists, and the destination's order is what an iteration from its head meets: when
  the destination was not empty, the selected elements are chained to each other only.
\<close>

section \<open>The macro\<close>

definition select_item :: "libc \<Rightarrow> bool \<Rightarrow> 'e hash_handle \<Rightarrow> 'e hash_head \<Rightarrow> 'e hash_head outcome" where
  "select_item L fresh h dst =
     bind_out (case dst of
                 None \<Rightarrow> HASH_MAKE_TABLE L h
               | Some t \<Rightarrow> Inr (if fresh then HASH_APPEND_LIST h t else t)) (\<lambda>t.
     bind_out (HASH_ADD_TO_BKT L h (HASH_TO_BKT (hashv h) (num_buckets t)) t) (\<lambda>t.
     Inr (Some (t\<lparr>num_items := num_items t + 1\<rparr>))))"

fun select_all :: "libc \<Rightarrow> bool \<Rightarrow> 'e hash_handle list \<Rightarrow> 'e hash_head \<Rightarrow> 'e hash_head outcome" where
  "select_all L fresh [] dst = Inr dst"
| "select_all L fresh (h # hs) dst = bind_out (select_item L fresh h dst) (select_all L fresh hs)"

definition HASH_SELECT :: "libc \<Rightarrow> ('e \<Rightarrow> bool) \<Rightarrow> 'e hash_head \<Rightarrow> 'e hash_head \<Rightarrow> 'e hash_head outcome" where
  "HASH_SELECT L cond src dst =
     (case src of
        None \<Rightarrow> Inr dst
      | Some t \<Rightarrow> select_all L (dst = None) (filter (\<lambda>h. cond (elem h)) (concat (map chain (buckets t)))) dst)"

section \<open>Into an empty table\<close>








section \<open>Into a table with elements\<close>

lemma HASH_ADD_TO_BKT_order:
  "HASH_ADD_TO_BKT L h i t = Inr t' \<Longrightarrow> app_order t' = app_order t \<and> num_items t' = num_items t"
  by (auto simp: HASH_ADD_TO_BKT_def HASH_EXPAND_BUCKETS_def bind_out_eq_Inr Let_def split: if_splits prod.splits)

lemma select_all_hides:
  "select_all L False hs (Some t) = Inr dst \<Longrightarrow>
     \<exists>t'. dst = Some t' \<and> app_order t' = app_order t \<and> num_items t' = num_items t + length hs"
proof (induction hs arbitrary: t)
  case (Cons h hs)
  then obtain t1 where "HASH_ADD_TO_BKT L h (HASH_TO_BKT (hashv h) (num_buckets t)) t = Inr t1"
      "select_all L False hs (Some (t1\<lparr>num_items := num_items t1 + 1\<rparr>)) = Inr dst"
    by (auto simp: select_item_def bind_out_eq_Inr)
  then show ?case using Cons.IH HASH_ADD_TO_BKT_order by fastforce
qed auto

section \<open>Properties\<close>



text \<open>
  \<open>HASH_SELECT\<close> into a table that has elements adds the selected ones to its buckets and its
  count, but an iteration over the table does not meet them.
\<close>

theorem select_into_nonempty_hides:
  assumes "HASH_SELECT L cond (Some s) (Some t) = Inr dst"
  shows "hash_entries dst = hash_entries (Some t) \<and>
    HASH_COUNT dst = HASH_COUNT (Some t) + length (filter (\<lambda>h. cond (elem h)) (concat (map chain (buckets s))))"
proof -
  obtain t' where "dst = Some t'" "app_order t' = app_order t"
      "num_items t' = num_items t + length (filter (\<lambda>h. cond (elem h)) (concat (map chain (buckets s))))"
    using select_all_hides assms by (force simp: HASH_SELECT_def)
  then show ?thesis by (simp add: hash_entries_def handles_def HASH_COUNT_def)
qed

definition one_handle :: "'e hash_handle \<Rightarrow> 'e hash_table" where
  "one_handle h = \<lparr>buckets = \<lparr>chain = [h], count' = 1, expand_mult = 0\<rparr> # replicate 31 empty_bucket,
     num_buckets = 32, log2_num_buckets = 5, num_items = 1, app_order = [h], ideal_chain_maxlen = 0,
     nonideal_items = 0, ineff_expands = 0, noexpand = False\<rparr>"

theorem select_into_nonempty_hides_witness:
  "\<exists>dst. HASH_SELECT small_libc (\<lambda>e. True) (Some (one_handle \<lparr>elem = 10::nat, hh_key = [1], hashv = 0\<rparr>))
       (Some (one_handle \<lparr>elem = 20, hh_key = [2], hashv = 0\<rparr>)) = Inr dst \<and>
     hash_entries dst = [([2], 20)] \<and> HASH_COUNT dst = 2"
proof -
  let ?a = "\<lparr>elem = 10::nat, hh_key = [1], hashv = 0\<rparr>" and ?b = "\<lparr>elem = 20, hh_key = [2], hashv = 0\<rparr>"
  have c: "concat (map chain (buckets (one_handle ?a))) = [?a]"
    by (simp add: one_handle_def empty_bucket_def map_replicate)
  obtain dst where d: "HASH_SELECT small_libc (\<lambda>e. True) (Some (one_handle ?a)) (Some (one_handle ?b)) = Inr dst"
    unfolding HASH_SELECT_def option.case c
    by (auto simp: select_item_def bind_out_def HASH_ADD_TO_BKT_def Let_def HASH_TO_BKT_def
        one_handle_def HASH_BKT_CAPACITY_THRESH_def)
  then show ?thesis using select_into_nonempty_hides [OF d] unfolding c
    by (simp add: hash_entries_def handles_def HASH_COUNT_def one_handle_def)
qed

end
