(* ===== verification/Uthash_Buckets.thy ===== *)
theory Uthash_Buckets
  imports Uthash_Order Uthash_Laws
begin

text \<open>
  The buckets of a hash table with their pointers: the \<open>hh_prev\<close> and \<open>hh_next\<close> of the handles, the
  \<open>hh_head\<close> of each bucket, and the relinking of all handles when the buckets are doubled.  An
  element stands for its handle; what its key and hash value are is a function of the element.
\<close>

section \<open>The macros\<close>

record bkt =
  hh_head :: addr
  bkt_count :: nat
  bkt_mult :: nat

record bkt_table =
  bkts :: "bkt list"
  bt_num :: nat
  bt_log2 :: nat
  bt_items :: nat
  bt_ideal :: nat
  bt_nonideal :: nat
  bt_ineff :: nat
  bt_noexpand :: bool

definition zero_bkt :: bkt where
  "zero_bkt = \<lparr>hh_head = 0, bkt_count = 0, bkt_mult = 0\<rparr>"

text \<open>An allocation that fails ends the process.\<close>

definition alloc_run :: "libc \<Rightarrow> nat \<Rightarrow> 'a run \<Rightarrow> 'a run" where
  "alloc_run L n m = (if malloc_ok L n then m else stopped (Exit (- 1)))"

text \<open>
  One round of the inner loop of \<open>HASH_EXPAND_BUCKETS\<close>: the handle \<open>thh\<close> goes to the front of its
  new bucket.
\<close>

definition hh_move :: "(addr \<Rightarrow> 32 word) \<Rightarrow> nat \<Rightarrow> nat \<Rightarrow> links \<times> bkt list \<times> nat \<times> addr \<Rightarrow>
    (links \<times> bkt list \<times> nat \<times> addr) run" where
  "hh_move hv nb ideal = (\<lambda>(h, bs, nonideal, thh).
     then_run (get_next h thh) (\<lambda>nxt.
     let i = HASH_TO_BKT (hv thh) nb; b = bs ! i; c = bkt_count b + 1;
         over = c > ideal;
         b' = \<lparr>hh_head = thh, bkt_count = c,
               bkt_mult = (if over \<and> c > bkt_mult b * ideal then bkt_mult b + 1 else bkt_mult b)\<rparr> in
     then_run (set_prev thh 0 h) (\<lambda>h.
     then_run (set_next thh (hh_head b) h) (\<lambda>h.
     then_run (if hh_head b \<noteq> 0 then set_prev (hh_head b) thh h else returned h) (\<lambda>h.
     returned (h, bs[i := b'], if over then nonideal + 1 else nonideal, nxt))))))"

definition hh_move_chain :: "(addr \<Rightarrow> 32 word) \<Rightarrow> nat \<Rightarrow> nat \<Rightarrow> links \<times> bkt list \<times> nat \<times> addr \<Rightarrow>
    (links \<times> bkt list \<times> nat \<times> addr) run" where
  "hh_move_chain hv nb ideal =
     while_run (\<lambda>(h, bs, nonideal, thh). returned (thh \<noteq> 0)) (hh_move hv nb ideal)"

fun hh_move_all :: "(addr \<Rightarrow> 32 word) \<Rightarrow> nat \<Rightarrow> nat \<Rightarrow> bkt list \<Rightarrow> links \<times> bkt list \<times> nat \<Rightarrow>
    (links \<times> bkt list \<times> nat) run" where
  "hh_move_all hv nb ideal [] s = returned s"
| "hh_move_all hv nb ideal (b # old) (h, bs, nonideal) =
     then_run (hh_move_chain hv nb ideal (h, bs, nonideal, hh_head b)) (\<lambda>(h, bs, nonideal, thh).
     hh_move_all hv nb ideal old (h, bs, nonideal))"

definition hh_expand :: "libc \<Rightarrow> (addr \<Rightarrow> 32 word) \<Rightarrow> links \<times> bkt_table \<Rightarrow> (links \<times> bkt_table) run" where
  "hh_expand L hv = (\<lambda>(h, t).
     alloc_run L (16 * bt_num t * 2)
       (if bt_num t * 2 \<ge> 2 ^ 32 then stopped Undefined
        else
          let nb = bt_num t * 2;
              ideal = drop_bit (bt_log2 t + 1) (bt_items t) + (if bt_items t AND (nb - 1) \<noteq> 0 then 1 else 0) in
          then_run (hh_move_all hv nb ideal (bkts t) (h, replicate nb zero_bkt, 0)) (\<lambda>(h, bs, nonideal).
          let ineff = (if nonideal > drop_bit 1 (bt_items t) then bt_ineff t + 1 else 0) in
          returned (h, t\<lparr>bkts := bs, bt_num := nb, bt_log2 := bt_log2 t + 1, bt_ideal := ideal,
            bt_nonideal := nonideal, bt_ineff := ineff,
            bt_noexpand := (if ineff > 1 then True else bt_noexpand t)\<rparr>))))"

definition hh_add_to_bkt :: "libc \<Rightarrow> (addr \<Rightarrow> 32 word) \<Rightarrow> addr \<Rightarrow> nat \<Rightarrow> links \<times> bkt_table \<Rightarrow> (links \<times> bkt_table) run" where
  "hh_add_to_bkt L hv add i = (\<lambda>(h, t).
     let b = bkts t ! i; c = bkt_count b + 1 in
     then_run (set_next add (hh_head b) h) (\<lambda>h.
     then_run (set_prev add 0 h) (\<lambda>h.
     then_run (if hh_head b \<noteq> 0 then set_prev (hh_head b) add h else returned h) (\<lambda>h.
     let t' = t\<lparr>bkts := (bkts t)[i := b\<lparr>bkt_count := c, hh_head := add\<rparr>]\<rparr> in
     if c \<ge> (bkt_mult b + 1) * HASH_BKT_CAPACITY_THRESH \<and> \<not> bt_noexpand t' then hh_expand L hv (h, t')
     else returned (h, t')))))"

definition hh_add_to_table :: "libc \<Rightarrow> (addr \<Rightarrow> 32 word) \<Rightarrow> addr \<Rightarrow> links \<times> bkt_table \<Rightarrow> (links \<times> bkt_table) run" where
  "hh_add_to_table L hv add = (\<lambda>(h, t).
     let t' = t\<lparr>bt_items := bt_items t + 1\<rparr> in
     hh_add_to_bkt L hv add (HASH_TO_BKT (hv add) (bt_num t')) (h, t'))"

definition hh_del_in_bkt :: "addr \<Rightarrow> bkt \<Rightarrow> links \<Rightarrow> (links \<times> bkt) run" where
  "hh_del_in_bkt del b h =
     (let b1 = b\<lparr>bkt_count := bkt_count b - 1\<rparr> in
      then_run (if hh_head b1 = del then then_run (get_next h del) (\<lambda>n. returned (b1\<lparr>hh_head := n\<rparr>)) else returned b1)
        (\<lambda>b2.
      then_run (get_prev h del) (\<lambda>p.
      then_run (if p \<noteq> 0 then then_run (get_next h del) (\<lambda>n. set_next p n h) else returned h) (\<lambda>h.
      then_run (get_next h del) (\<lambda>n.
      then_run (if n \<noteq> 0 then then_run (get_prev h del) (\<lambda>p. set_prev n p h) else returned h) (\<lambda>h.
      returned (h, b2)))))))"

definition hh_find_in_bkt :: "(addr \<Rightarrow> byte list) \<Rightarrow> (addr \<Rightarrow> 32 word) \<Rightarrow> byte list \<Rightarrow> 32 word \<Rightarrow> links \<Rightarrow> bkt \<Rightarrow> addr run" where
  "hh_find_in_bkt key hv k v h b =
     foreach get_next h (\<lambda>out. hv out = v \<and> length (key out) = length k \<and> key out = k) (hh_head b)"

text \<open>The half of \<open>HASH_FSCK\<close> that checks the buckets.\<close>

fun hh_fsck_bkts :: "links \<Rightarrow> bkt list \<Rightarrow> nat \<Rightarrow> nat run" where
  "hh_fsck_bkts h [] cnt = returned cnt"
| "hh_fsck_bkts h (b # bs) cnt =
     then_run (fsck_walk h (hh_head b, 0, 0)) (\<lambda>(thh, prev, bkt_cnt).
     if bkt_count b \<noteq> bkt_cnt then stopped (Exit (- 1))
     else hh_fsck_bkts h bs ((cnt + bkt_cnt) mod 2 ^ 32))"

definition hh_fsck :: "links \<times> bkt_table \<Rightarrow> unit run" where
  "hh_fsck = (\<lambda>(h, t).
     then_run (hh_fsck_bkts h (bkts t) 0) (\<lambda>cnt.
     if cnt \<noteq> bt_items t then stopped (Exit (- 1)) else returned ()))"

section \<open>Whole tables\<close>

text \<open>
  A table is the order of its elements, the links of its buckets and the fields of the table; it
  has no fields while its head is NULL.
\<close>

type_synonym ptr_hash = "app_order \<times> links \<times> bkt_table"

definition hh_make_table :: "libc \<Rightarrow> bkt_table run" where
  "hh_make_table L =
     alloc_run L 64 (alloc_run L (HASH_INITIAL_NUM_BUCKETS * 16)
       (returned \<lparr>bkts = replicate HASH_INITIAL_NUM_BUCKETS zero_bkt, bt_num = HASH_INITIAL_NUM_BUCKETS,
          bt_log2 = HASH_INITIAL_NUM_BUCKETS_LOG2, bt_items = 0, bt_ideal = 0, bt_nonideal = 0, bt_ineff = 0,
          bt_noexpand = False\<rparr>))"

definition ptr_FSCK :: "ptr_hash \<Rightarrow> ptr_hash run" where
  "ptr_FSCK = (\<lambda>(ord, h, t).
     if fst (snd ord) = 0 then returned (ord, h, t)
     else
       then_run (hh_fsck (h, t)) (\<lambda>_.
       then_run (order_fsck (bt_items t) ord) (\<lambda>_. returned (ord, h, t))))"

definition ptr_ADD :: "libc \<Rightarrow> (addr \<Rightarrow> 32 word) \<Rightarrow> addr \<Rightarrow> ptr_hash \<Rightarrow> ptr_hash run" where
  "ptr_ADD L hv add = (\<lambda>(ord, h, t).
     then_run (if fst (snd ord) = 0 then hh_make_table L else returned t) (\<lambda>t.
     then_run (order_add add ord) (\<lambda>ord.
     then_run (hh_add_to_table L hv add (h, t)) (\<lambda>(h, t). ptr_FSCK (ord, h, t)))))"

definition ptr_DELETE :: "(addr \<Rightarrow> 32 word) \<Rightarrow> addr \<Rightarrow> ptr_hash \<Rightarrow> ptr_hash run" where
  "ptr_DELETE hv del = (\<lambda>(ord, h, t).
     then_run (order_delete del ord) (\<lambda>ord.
     if fst (snd ord) = 0 then returned (ord, h, t)
     else
       let i = HASH_TO_BKT (hv del) (bt_num t) in
       then_run (hh_del_in_bkt del (bkts t ! i) h) (\<lambda>(h, b).
       ptr_FSCK (ord, h, t\<lparr>bkts := (bkts t)[i := b], bt_items := bt_items t - 1\<rparr>))))"

definition ptr_FIND :: "(addr \<Rightarrow> byte list) \<Rightarrow> (addr \<Rightarrow> 32 word) \<Rightarrow> byte list \<Rightarrow> ptr_hash \<Rightarrow> addr run" where
  "ptr_FIND key hv k = (\<lambda>(ord, h, t).
     if fst (snd ord) = 0 then returned 0
     else hh_find_in_bkt key hv k (hash_jen k) h (bkts t ! HASH_TO_BKT (hash_jen k) (bt_num t)))"

section \<open>Putting a handle in front\<close>

definition push_links :: "addr \<Rightarrow> addr \<Rightarrow> links \<Rightarrow> links" where
  "push_links e p h = h\<lparr>nexts := (nexts h)(e \<mapsto> p),
     prevs := (if p = 0 then (prevs h)(e \<mapsto> 0) else (prevs h)(e \<mapsto> 0, p \<mapsto> e))\<rparr>"

lemma push_run:
  assumes "node h e" "p \<noteq> 0 \<Longrightarrow> node h p" "p \<noteq> e"
  shows "then_run (set_next e p h) (\<lambda>h. then_run (set_prev e 0 h) (\<lambda>h.
      then_run (if p \<noteq> 0 then set_prev p e h else returned h) f)) = f (push_links e p h)"
    "then_run (set_prev e 0 h) (\<lambda>h. then_run (set_next e p h) (\<lambda>h.
      then_run (if p \<noteq> 0 then set_prev p e h else returned h) f)) = f (push_links e p h)"
proof -
  have e: "e \<noteq> 0" "nexts h e \<noteq> None" "prevs h e \<noteq> None" using assms(1) by (auto simp: node_def)
  have p: "p \<noteq> 0 \<Longrightarrow> prevs h p \<noteq> None" using assms(2) by (auto simp: node_def)
  show "then_run (set_next e p h) (\<lambda>h. then_run (set_prev e 0 h) (\<lambda>h.
      then_run (if p \<noteq> 0 then set_prev p e h else returned h) f)) = f (push_links e p h)"
    using e p assms(3) by (cases "p = 0") (simp_all add: push_links_def set_next_def set_prev_def)
  have swap: "h\<lparr>prevs := a, nexts := b\<rparr> = h\<lparr>nexts := b, prevs := a\<rparr>" for a b by simp
  show "then_run (set_prev e 0 h) (\<lambda>h. then_run (set_next e p h) (\<lambda>h.
      then_run (if p \<noteq> 0 then set_prev p e h else returned h) f)) = f (push_links e p h)"
    using e p assms(3) by (cases "p = 0") (simp_all add: push_links_def set_next_def set_prev_def swap)
qed

lemma push_linked:
  assumes "linked h p xs" "e \<noteq> 0" "e \<notin> set xs"
  shows "linked (push_links e p h) e (e # xs)"
proof -
  have "chain_at ((nexts h)(e \<mapsto> hd0 xs)) (if xs = [] then (prevs h)(e \<mapsto> 0) else (prevs h)(e \<mapsto> 0, hd xs \<mapsto> e)) e (e # xs)"
    using chain_at_insert [of "nexts h" "prevs h" p "[]" xs e] assms by (simp cong: if_cong)
  moreover have "p = hd0 xs" "p = 0 \<longleftrightarrow> xs = []"
    using chain_at_head [OF assms(1)] chain_at_nonzero [OF assms(1)] by (cases xs; simp)+
  ultimately show ?thesis by (cases xs) (simp_all add: push_links_def)
qed

lemma push_other:
  assumes "x \<noteq> e" "x \<noteq> p"
  shows "nexts (push_links e p h) x = nexts h x" "prevs (push_links e p h) x = prevs h x"
  using assms by (simp_all add: push_links_def)

lemma push_only:
  assumes "node h e" "p \<noteq> 0 \<Longrightarrow> node h p"
  shows "only_in {e, p} h (push_links e p h)" "nexts (push_links e p h) = (nexts h)(e \<mapsto> p)"
  using assms by (auto simp: push_links_def only_in_def same_nodes_def node_def)

section \<open>The buckets in memory\<close>

text \<open>What the element at an address holds, and the chains of a table as addresses.\<close>

definition handle_of :: "(addr \<Rightarrow> byte list) \<Rightarrow> (addr \<Rightarrow> 32 word) \<Rightarrow> addr \<Rightarrow> addr hash_handle" where
  "handle_of key hv e = \<lparr>elem = e, hh_key = key e, hashv = hv e\<rparr>"

lemma handle_of_simps [simp]:
  "elem (handle_of key hv e) = e" "hh_key (handle_of key hv e) = key e" "hashv (handle_of key hv e) = hv e"
  by (simp_all add: handle_of_def)

abbreviation addrs :: "addr hash_handle list \<Rightarrow> addr list" where
  "addrs hs \<equiv> map elem hs"

abbreviation all_chains :: "'e hash_bucket list \<Rightarrow> 'e hash_handle list" where
  "all_chains bs \<equiv> concat (map chain bs)"

definition bkt_rel :: "links \<Rightarrow> bkt \<Rightarrow> addr hash_bucket \<Rightarrow> bool" where
  "bkt_rel h b b' \<longleftrightarrow> linked h (hh_head b) (addrs (chain b')) \<and> bkt_count b = count' b' \<and> bkt_mult b = expand_mult b'"

definition bkts_rel :: "links \<Rightarrow> bkt list \<Rightarrow> addr hash_bucket list \<Rightarrow> bool" where
  "bkts_rel h bs bs' \<longleftrightarrow> list_all2 (bkt_rel h) bs bs' \<and> distinct (addrs (all_chains bs'))"

lemma all_chains_nth: "i < length bs \<Longrightarrow> set (chain (bs ! i)) \<subseteq> set (all_chains bs)"
  using nth_mem by fastforce

lemma chains_disjoint:
  assumes "distinct (addrs (all_chains bs))" "i < length bs" "j < length bs" "i \<noteq> j"
  shows "elem ` set (chain (bs ! i)) \<inter> elem ` set (chain (bs ! j)) = {}"
  using assms
proof (induction bs arbitrary: i j)
  case (Cons b bs)
  have "elem ` set (chain (bs ! k)) \<subseteq> elem ` set (all_chains bs)" if "k < length bs" for k
    using all_chains_nth [OF that] by blast
  then show ?case using Cons by (cases i; cases j) (auto simp: image_iff, fast+)
qed simp

lemma bkts_rel_nth:
  assumes "bkts_rel h bs bs'" "i < length bs'"
  shows "linked h (hh_head (bs ! i)) (addrs (chain (bs' ! i)))" "bkt_count (bs ! i) = count' (bs' ! i)"
    "bkt_mult (bs ! i) = expand_mult (bs' ! i)" "length bs = length bs'"
  using assms by (auto simp: bkts_rel_def bkt_rel_def list_all2_conv_all_nth)

text \<open>One bucket changes, and links of its elements and of others that are in no bucket.\<close>

lemma bkts_rel_update:
  assumes "bkts_rel h bs bs'" "i < length bs'" "bkt_rel h1 b b'" "distinct (addrs (all_chains (bs'[i := b'])))"
    and same: "\<And>x. x \<in> elem ` set (all_chains bs') \<Longrightarrow> x \<notin> elem ` set (chain (bs' ! i)) \<Longrightarrow>
      nexts h1 x = nexts h x \<and> prevs h1 x = prevs h x"
  shows "bkts_rel h1 (bs[i := b]) (bs'[i := b'])"
proof -
  have len: "length bs = length bs'" using bkts_rel_nth(4) [OF assms(1,2)] .
  have d: "distinct (addrs (all_chains bs'))" using assms(1) by (simp add: bkts_rel_def)
  have "bkt_rel h1 (bs ! j) (bs' ! j)" if j: "j < length bs'" "j \<noteq> i" for j
  proof -
    have "nexts h1 x = nexts h x \<and> prevs h1 x = prevs h x" if "x \<in> set (addrs (chain (bs' ! j)))" for x
    proof (rule same)
      show "x \<in> elem ` set (all_chains bs')" using that all_chains_nth [OF j(1)] by auto
      show "x \<notin> elem ` set (chain (bs' ! i))" using that chains_disjoint [OF d j(1) assms(2) j(2)] by auto
    qed
    then have "linked h1 p (addrs (chain (bs' ! j))) = linked h p (addrs (chain (bs' ! j)))" for p
      by (intro chain_at_cong) auto
    then show ?thesis using assms(1) j(1) len by (simp add: bkts_rel_def bkt_rel_def list_all2_conv_all_nth)
  qed
  then have "bkt_rel h1 (bs[i := b] ! j) (bs'[i := b'] ! j)" if "j < length bs'" for j
    using assms(2,3) len that by (cases "j = i") simp_all
  then show ?thesis using assms(4) len by (simp add: bkts_rel_def list_all2_conv_all_nth)
qed

lemma distinct_push:
  assumes "distinct (addrs (all_chains bs))" "i < length bs" "chain b = x # chain (bs ! i)"
    "elem x \<notin> elem ` set (all_chains bs)"
  shows "distinct (addrs (all_chains (bs[i := b])))"
    "mset (all_chains (bs[i := b])) = add_mset x (mset (all_chains bs))"
proof -
  have "mset (all_chains (bs[i := b])) + mset (chain (bs ! i)) = mset (all_chains bs) + mset (chain b)"
    by (rule mset_concat_update [OF assms(2)])
  then show m: "mset (all_chains (bs[i := b])) = add_mset x (mset (all_chains bs))" using assms(3) by simp
  have "mset (addrs (all_chains (bs[i := b]))) = add_mset (elem x) (mset (addrs (all_chains bs)))"
    unfolding mset_map m by simp
  moreover have "distinct (elem x # addrs (all_chains bs))" using assms(1,4) by auto
  ultimately show "distinct (addrs (all_chains (bs[i := b])))"
    by (metis mset.simps(2) mset_eq_imp_distinct_iff)
qed

text \<open>An element that is in no bucket goes to the front of bucket \<open>i\<close>.\<close>

lemma push_rel:
  assumes r: "bkts_rel h bs bs'" and i: "i < length bs'" and e: "node h (elem x)" "elem x \<notin> elem ` set (all_chains bs')"
    and b: "hh_head b = elem x" "bkt_count b = count' b'" "bkt_mult b = expand_mult b'" "chain b' = x # chain (bs' ! i)"
  defines "p \<equiv> hh_head (bs ! i)"
  shows "bkts_rel (push_links (elem x) p h) (bs[i := b]) (bs'[i := b'])"
    "p \<noteq> 0 \<Longrightarrow> node h p" "p \<noteq> elem x" "p = 0 \<or> p \<in> elem ` set (all_chains bs')"
proof -
  note at = bkts_rel_nth [OF r i]
  have sub: "elem ` set (chain (bs' ! i)) \<subseteq> elem ` set (all_chains bs')" using all_chains_nth [OF i] by blast
  have p: "p = hd0 (addrs (chain (bs' ! i)))" using chain_at_head [OF at(1)] by (simp add: p_def)
  have ex: "elem x \<noteq> 0" using e(1) by (simp add: node_def)
  show "p \<noteq> 0 \<Longrightarrow> node h p" using linked_node [OF at(1), of p] p by (cases "chain (bs' ! i)") auto
  show pin: "p = 0 \<or> p \<in> elem ` set (all_chains bs')" using p sub by (cases "chain (bs' ! i)") auto
  then show pe: "p \<noteq> elem x" using e(2) ex by auto
  show "bkts_rel (push_links (elem x) p h) (bs[i := b]) (bs'[i := b'])"
  proof (rule bkts_rel_update [OF r i])
    have "linked (push_links (elem x) p h) (elem x) (elem x # addrs (chain (bs' ! i)))"
      by (rule push_linked) (use at(1) e(2) ex sub in \<open>auto simp: p_def\<close>)
    then show "bkt_rel (push_links (elem x) p h) b b'" using b by (simp add: bkt_rel_def)
    show "distinct (addrs (all_chains (bs'[i := b'])))"
      by (rule distinct_push [OF _ i b(4) e(2)]) (use r in \<open>simp add: bkts_rel_def\<close>)
  next
    fix y assume y: "y \<in> elem ` set (all_chains bs')" "y \<notin> elem ` set (chain (bs' ! i))"
    have "0 \<notin> elem ` set (all_chains bs')"
    proof
      assume "0 \<in> elem ` set (all_chains bs')"
      then obtain b0 where "b0 \<in> set bs'" "0 \<in> elem ` set (chain b0)" by auto
      then obtain j where "j < length bs'" "0 \<in> set (addrs (chain (bs' ! j)))" by (auto simp: in_set_conv_nth)
      then show False using chain_at_nonzero [OF bkts_rel_nth(1) [OF r]] by blast
    qed
    then have "y \<noteq> p" using y p by (cases "chain (bs' ! i)") auto
    moreover have "y \<noteq> elem x" using y(1) e(2) by metis
    ultimately show "nexts (push_links (elem x) p h) y = nexts h y \<and> prevs (push_links (elem x) p h) y = prevs h y"
      using push_other by blast
  qed
qed

section \<open>Moving a chain to the new buckets\<close>

text \<open>
  The rest of a chain that is being moved: its elements are linked to the end, and are in none of the
  new buckets; \<open>others\<close> are the chains that are still to be moved.
\<close>

definition waiting :: "links \<Rightarrow> addr \<Rightarrow> addr list \<Rightarrow> bool" where
  "waiting h p xs \<longleftrightarrow> path (nexts h) p xs 0 \<and> (\<forall>x\<in>set xs. node h x)"

lemma waiting_linked: "linked h p xs \<Longrightarrow> waiting h p xs"
  unfolding waiting_def using linked_node by (auto simp: chain_at_def)

lemma waiting_same:
  assumes "waiting h p xs" "\<And>x. x \<in> set xs \<Longrightarrow> nexts h1 x = nexts h x" "same_nodes h h1"
  shows "waiting h1 p xs"
  using assms path_cong [of xs "nexts h1" "nexts h" p 0] same_nodes_node [OF assms(3)]
  by (auto simp: waiting_def)

lemma hh_move_run:
  assumes r: "bkts_rel h bs bs'" "length bs' = nb" "0 < nb" "nb < 2 ^ 32"
    and w: "waiting h (elem x) (addrs (x # xs))" "elem x \<notin> elem ` set (all_chains bs')" "x = handle_of key hv (elem x)"
    and ex: "expand_item nb ideal x (bs', n) = (bs1', n1)"
  shows "\<exists>p bs1. hh_move hv nb ideal (h, bs, n, elem x) = returned (push_links (elem x) p h, bs1, n1, hd0 (addrs xs)) \<and>
    bkts_rel (push_links (elem x) p h) bs1 bs1' \<and> length bs1' = nb \<and>
    mset (all_chains bs1') = add_mset x (mset (all_chains bs')) \<and>
    same_nodes h (push_links (elem x) p h) \<and> nexts (push_links (elem x) p h) = (nexts h)(elem x \<mapsto> p)"
proof -
  define i where "i = HASH_TO_BKT (hv (elem x)) nb"
  have hx: "hashv x = hv (elem x)" using w(3) by (metis handle_of_simps(3))
  have i: "i < length bs'" using HASH_TO_BKT_less [OF r(3,4)] r(2) by (simp add: i_def)
  note at = bkts_rel_nth [OF r(1) i]
  define b where "b = \<lparr>hh_head = elem x, bkt_count = bkt_count (bs ! i) + 1,
    bkt_mult = (if ideal < bkt_count (bs ! i) + 1 \<and> bkt_mult (bs ! i) * ideal < bkt_count (bs ! i) + 1
      then bkt_mult (bs ! i) + 1 else bkt_mult (bs ! i))\<rparr>"
  define b' where "b' = bs1' ! i"
  have e: "bs1' = bs'[i := b']" "n1 = (if ideal < bkt_count (bs ! i) + 1 then n + 1 else n)"
      "chain b' = x # chain (bs' ! i)" "bkt_count b = count' b'" "bkt_mult b = expand_mult b'"
    using ex i at(2,3) by (auto simp: expand_item_def Let_def hx b_def b'_def simp flip: i_def)
  have nx: "node h (elem x)" "get_next h (elem x) = returned (hd0 (addrs xs))"
    using w(1) path_hd [of "nexts h" _ "addrs xs"] by (auto simp: waiting_def link_simps)
  define p where "p = hh_head (bs ! i)"
  have "bkts_rel (push_links (elem x) p h) (bs[i := b]) (bs'[i := b'])" "p \<noteq> 0 \<Longrightarrow> node h p" "p \<noteq> elem x"
    unfolding p_def by (rule push_rel [OF r(1) i nx(1) w(2), of b b']; (simp add: e)?; simp add: b_def)+
  moreover have "hh_move hv nb ideal (h, bs, n, elem x) =
      then_run (set_prev (elem x) 0 h) (\<lambda>h. then_run (set_next (elem x) p h) (\<lambda>h.
      then_run (if p \<noteq> 0 then set_prev p (elem x) h else returned h) (\<lambda>h.
      returned (h, bs[i := b], n1, hd0 (addrs xs)))))"
    by (simp only: hh_move_def prod.case nx(2) then_run_simps Let_def e(2) b_def p_def i_def)
  then have "hh_move hv nb ideal (h, bs, n, elem x) =
      returned (push_links (elem x) p h, bs[i := b], n1, hd0 (addrs xs))"
    using push_run(2) [OF nx(1) calculation(2,3)] by simp
  moreover have "mset (all_chains (bs'[i := b'])) = add_mset x (mset (all_chains bs'))"
    by (rule distinct_push(2) [OF _ i e(3) w(2)]) (use r(1) in \<open>simp add: bkts_rel_def\<close>)
  moreover have "same_nodes h (push_links (elem x) p h)" "nexts (push_links (elem x) p h) = (nexts h)(elem x \<mapsto> p)"
    using push_only [of h "elem x" p] nx(1) calculation(2) only_in_same by blast+
  ultimately show ?thesis using r(2) unfolding e(1) by (metis length_list_update)
qed

text \<open>What moving the elements of \<open>xs\<close> leaves.\<close>

definition moved :: "links \<Rightarrow> addr hash_handle list \<Rightarrow> addr hash_bucket list \<Rightarrow> links \<Rightarrow> bkt list \<Rightarrow> addr hash_bucket list \<Rightarrow> bool" where
  "moved h xs bs' h1 bs1 bs1' \<longleftrightarrow>
     bkts_rel h1 bs1 bs1' \<and> length bs1' = length bs' \<and> mset (all_chains bs1') = mset xs + mset (all_chains bs') \<and>
     same_nodes h h1 \<and> (\<forall>y. y \<notin> set (addrs xs) \<longrightarrow> nexts h1 y = nexts h y)"

lemma moved_trans:
  "moved h xs bs' h1 bs1 bs1' \<Longrightarrow> moved h1 ys bs1' h2 bs2 bs2' \<Longrightarrow> moved h (xs @ ys) bs' h2 bs2 bs2'"
  by (auto simp: moved_def intro: same_nodes_trans)

lemma hh_move_chain_run:
  assumes "0 < nb" "nb < 2 ^ 32" "\<forall>x\<in>set xs. x = handle_of key hv (elem x)"
    and "bkts_rel h bs bs'" "length bs' = nb" "waiting h p (addrs xs)" "distinct (addrs xs)"
    and "elem ` set xs \<inter> elem ` set (all_chains bs') = {}"
    and "fold (expand_item nb ideal) xs (bs', n) = (bs1', n1)"
  shows "\<exists>h1 bs1. hh_move_chain hv nb ideal (h, bs, n, p) = returned (h1, bs1, n1, 0) \<and> moved h xs bs' h1 bs1 bs1'"
  using assms(3-)
proof (induction xs arbitrary: h bs bs' n p)
  case Nil
  then show ?case by (simp add: hh_move_chain_def while_run_step moved_def waiting_def)
next
  case (Cons x xs)
  obtain bs2' n2 where ex: "expand_item nb ideal x (bs', n) = (bs2', n2)" by fastforce
  have p: "p = elem x" "elem x \<noteq> 0" using Cons.prems(4) by (auto simp: waiting_def)
  have w0: "waiting h (elem x) (addrs (x # xs))" and notin: "elem x \<notin> elem ` set (all_chains bs')"
    and hx: "x = handle_of key hv (elem x)"
    using Cons.prems(1,4,6) p by auto
  obtain q bs2 where m: "hh_move hv nb ideal (h, bs, n, elem x) =
        returned (push_links (elem x) q h, bs2, n2, hd0 (addrs xs))"
      "bkts_rel (push_links (elem x) q h) bs2 bs2'" "length bs2' = nb"
      "mset (all_chains bs2') = add_mset x (mset (all_chains bs'))"
      "same_nodes h (push_links (elem x) q h)" "nexts (push_links (elem x) q h) = (nexts h)(elem x \<mapsto> q)"
    using hh_move_run [OF Cons.prems(2,3) assms(1,2) w0 notin hx ex] by blast
  have "waiting h (hd0 (addrs xs)) (addrs xs)"
    using Cons.prems(4) path_hd [of "nexts h" _ "addrs xs"] by (auto simp: waiting_def)
  then have w: "waiting (push_links (elem x) q h) (hd0 (addrs xs)) (addrs xs)"
  proof (rule waiting_same [OF _ _ m(5)])
    fix y assume "y \<in> set (addrs xs)"
    moreover have "elem x \<notin> set (addrs xs)" using Cons.prems(5) by simp
    ultimately have "y \<noteq> elem x" by metis
    then show "nexts (push_links (elem x) q h) y = nexts h y" by (simp add: m(6))
  qed
  have "set (all_chains bs2') = insert x (set (all_chains bs'))"
    using m(4) by (metis set_mset_add_mset_insert set_mset_mset)
  then have "elem ` set xs \<inter> elem ` set (all_chains bs2') = {}" using Cons.prems(5,6) by auto
  from Cons.IH [OF _ m(2,3) w _ this, of n2] Cons.prems(1,5,7) ex obtain h1 bs1 where
    i: "hh_move_chain hv nb ideal (push_links (elem x) q h, bs2, n2, hd0 (addrs xs)) = returned (h1, bs1, n1, 0)"
      "moved (push_links (elem x) q h) xs bs2' h1 bs1 bs1'"
    by auto
  have "moved h [x] bs' (push_links (elem x) q h) bs2 bs2'"
    using m(2-6) Cons.prems(3) by (auto simp: moved_def)
  from moved_trans [OF this i(2)] have "moved h (x # xs) bs' h1 bs1 bs1'" by simp
  then show ?case using i(1) m(1) p by (auto simp: hh_move_chain_def while_run_step)
qed

lemma hh_move_all_run:
  assumes "0 < nb" "nb < 2 ^ 32" "\<forall>x\<in>set (all_chains os'). x = handle_of key hv (elem x)"
    and "bkts_rel h bs bs'" "length bs' = nb"
    and "list_all2 (\<lambda>b b'. waiting h (hh_head b) (addrs (chain b'))) os os'" "distinct (addrs (all_chains os'))"
    and "elem ` set (all_chains os') \<inter> elem ` set (all_chains bs') = {}"
    and "fold (expand_item nb ideal) (all_chains os') (bs', n) = (bs1', n1)"
  shows "\<exists>h1 bs1. hh_move_all hv nb ideal os (h, bs, n) = returned (h1, bs1, n1) \<and>
    moved h (all_chains os') bs' h1 bs1 bs1'"
  using assms(3-)
proof (induction os' arbitrary: os h bs bs' n)
  case Nil
  then show ?case by (simp add: moved_def)
next
  case (Cons b' os')
  obtain b os1 where os: "os = b # os1" "waiting h (hh_head b) (addrs (chain b'))"
      "list_all2 (\<lambda>b b'. waiting h (hh_head b) (addrs (chain b'))) os1 os'"
    using Cons.prems(4) by (auto simp: list_all2_Cons2)
  obtain bs2' n2 where ex: "fold (expand_item nb ideal) (chain b') (bs', n) = (bs2', n2)" by fastforce
  have d: "elem ` set (chain b') \<inter> elem ` set (all_chains bs') = {}" "distinct (addrs (chain b'))"
      "\<forall>x\<in>set (chain b'). x = handle_of key hv (elem x)"
    using Cons.prems(1,5,6) by auto
  obtain h2 bs2 where c: "hh_move_chain hv nb ideal (h, bs, n, hh_head b) = returned (h2, bs2, n2, 0)"
      "moved h (chain b') bs' h2 bs2 bs2'"
    using hh_move_chain_run [OF assms(1,2) d(3) Cons.prems(2,3) os(2) d(2,1) ex] by blast
  have m: "bkts_rel h2 bs2 bs2'" "length bs2' = nb" "mset (all_chains bs2') = mset (chain b') + mset (all_chains bs')"
      "same_nodes h h2" "\<forall>y. y \<notin> set (addrs (chain b')) \<longrightarrow> nexts h2 y = nexts h y"
    using c(2) Cons.prems(3) by (simp_all add: moved_def)
  have "distinct (addrs (chain b') @ addrs (all_chains os'))" using Cons.prems(5) by simp
  then have apart: "elem ` set (all_chains os') \<inter> elem ` set (chain b') = {}"
    unfolding distinct_append set_map by blast
  have w: "list_all2 (\<lambda>b b'. waiting h2 (hh_head b) (addrs (chain b'))) os1 os'"
    unfolding list_all2_conv_all_nth
  proof (intro conjI allI impI)
    show len: "length os1 = length os'" using os(3) by (rule list_all2_lengthD)
    fix i assume i: "i < length os1"
    have "elem ` set (chain (os' ! i)) \<subseteq> elem ` set (all_chains os')"
      by (rule image_mono [OF all_chains_nth]) (use i len in simp)
    then have "set (addrs (chain (os' ! i))) \<inter> set (addrs (chain b')) = {}"
      unfolding set_map using apart by blast
    then show "waiting h2 (hh_head (os1 ! i)) (addrs (chain (os' ! i)))"
      using m(5) by (intro waiting_same [OF list_all2_nthD [OF os(3) i] _ m(4)]) blast
  qed
  have "set (all_chains bs2') = set (chain b') \<union> set (all_chains bs')"
    using arg_cong [OF m(3), of set_mset] by simp
  moreover have "elem ` set (all_chains os') \<inter> elem ` set (all_chains bs') = {}" using Cons.prems(6) by auto
  ultimately have d1: "elem ` set (all_chains os') \<inter> elem ` set (all_chains bs2') = {}"
    unfolding image_Un using apart by blast
  have d2: "distinct (addrs (all_chains os'))" using Cons.prems(5) by simp
  have "set (all_chains os') \<subseteq> set (all_chains (b' # os'))" by simp
  then have d3: "\<forall>x\<in>set (all_chains os'). x = handle_of key hv (elem x)"
    using Cons.prems(1) by (meson subset_iff)
  have "fold (expand_item nb ideal) (all_chains os') (bs2', n2) = (bs1', n1)" using Cons.prems(7) ex by simp
  from Cons.IH [OF d3 m(1,2) w d2 d1 this] obtain h1 bs1 where
    "hh_move_all hv nb ideal os1 (h2, bs2, n2) = returned (h1, bs1, n1)" "moved h2 (all_chains os') bs2' h1 bs1 bs1'"
    by blast
  then show ?case using c moved_trans [OF c(2)] os(1) by simp
qed

end
