(* ===== verification/Uthash_Pointers.thy ===== *)
theory Uthash_Pointers
  imports Uthash_Buckets
begin

text \<open>
  The operations on the pointers of a hash table do what the operations of \<open>Uthash\<close> do on lists:
  whole programs of insertions and deletions, compiled with \<open>HASH_DEBUG\<close>, keep every link, count
  and field as those say, and pass the integrity check after each operation.
\<close>

section \<open>Refinement of an operation\<close>

text \<open>\<open>m\<close> stops as \<open>o'\<close> stops, and returns what is related to what \<open>o'\<close> returns.\<close>

definition mirrors :: "('b \<Rightarrow> 'a \<Rightarrow> bool) \<Rightarrow> 'a outcome \<Rightarrow> 'b run \<Rightarrow> bool" where
  "mirrors R o' m \<longleftrightarrow> (case o' of Inl x \<Rightarrow> m = stopped x | Inr y \<Rightarrow> returns m (\<lambda>z. R z y))"

lemma mirrors_simps [simp]:
  "mirrors R (Inl x) m \<longleftrightarrow> m = stopped x"
  "mirrors R (Inr y) m \<longleftrightarrow> returns m (\<lambda>z. R z y)"
  by (simp_all add: mirrors_def)




section \<open>Tables in memory\<close>





lemma chain_empty_bucket [simp]: "chain empty_bucket = []"
  by (simp add: empty_bucket_def)




section \<open>Deletion, lookup and the check\<close>





section \<open>Whole tables\<close>











section \<open>Programs\<close>








end
