(* ===== verification/Win_Sync.thy ===== *)
theory Win_Sync
  imports Win32 Logs
begin

text \<open>
  The rest of the Windows layer: the mutexes and condition variables of \<open>os/win32/pthread.c\<close>, which are
  the critical sections and condition variables of the API, and the console of \<open>os/win32/window.c\<close>.
  An object is named by its address, a number.  The texts of errors (\<open>src/util/error.c\<close>) are those of
  \<open>strerror\<close>.
\<close>

unbundle bit_operations_syntax

section \<open>Mutexes and condition variables\<close>

definition win_mutex_init :: "int \<Rightarrow> ('z io_scheme, int) prog" where
  "win_mutex_init mutex = bnd (win_do (InitializeCriticalSection mutex)) (\<lambda>_. ret 0)"

definition win_mutex_lock :: "int \<Rightarrow> ('z io_scheme, int) prog" where
  "win_mutex_lock mutex = bnd (win_do (EnterCriticalSection mutex)) (\<lambda>_. ret 0)"

definition win_mutex_unlock :: "int \<Rightarrow> ('z io_scheme, int) prog" where
  "win_mutex_unlock mutex = bnd (win_do (LeaveCriticalSection mutex)) (\<lambda>_. ret 0)"

definition win_mutex_destroy :: "int \<Rightarrow> ('z io_scheme, int) prog" where
  "win_mutex_destroy mutex = bnd (win_do (DeleteCriticalSection mutex)) (\<lambda>_. ret 0)"

definition win_cond_init :: "int \<Rightarrow> ('z io_scheme, int) prog" where
  "win_cond_init cond = bnd (win_do (InitializeConditionVariable cond)) (\<lambda>_. ret 0)"

definition win_cond_signal :: "int \<Rightarrow> ('z io_scheme, int) prog" where
  "win_cond_signal cond = bnd (win_do (WakeConditionVariable cond)) (\<lambda>_. ret 0)"

definition win_cond_wait :: "int \<Rightarrow> int \<Rightarrow> ('z io_scheme, int) prog" where
  "win_cond_wait cond mutex =
     bnd (win_fn (SleepConditionVariable cond mutex)) (\<lambda>ok.
     if ok = 0 then win_fn GetLastError else ret 0)"

definition win_cond_destroy :: "int \<Rightarrow> ('z io_scheme, int) prog" where
  "win_cond_destroy cond = ret 0"

text \<open>
  A program that uses the emulation, as a list of calls, with the results of those that it ran.  The
  calls of the API that it makes are those of the list, one for one, with a call that asks for the
  error behind every wait that failed; and nothing but such a wait returns a value other than 0.
\<close>

datatype sync_op =
    Mutex_init int | Mutex_lock int | Mutex_unlock int | Mutex_destroy int
  | Cond_init int | Cond_signal int | Cond_wait int int | Cond_destroy int

fun sync_step :: "sync_op \<Rightarrow> ('z io_scheme, int) prog" where
  "sync_step (Mutex_init m) = win_mutex_init m"
| "sync_step (Mutex_lock m) = win_mutex_lock m"
| "sync_step (Mutex_unlock m) = win_mutex_unlock m"
| "sync_step (Mutex_destroy m) = win_mutex_destroy m"
| "sync_step (Cond_init c) = win_cond_init c"
| "sync_step (Cond_signal c) = win_cond_signal c"
| "sync_step (Cond_wait c m) = win_cond_wait c m"
| "sync_step (Cond_destroy c) = win_cond_destroy c"

fun sync_run :: "sync_op list \<Rightarrow> ('z io_scheme, int list) prog" where
  "sync_run [] = ret []"
| "sync_run (p # ps) = bnd (sync_step p) (\<lambda>r. bnd (sync_run ps) (\<lambda>rs. ret (r # rs)))"

fun api_calls :: "sync_op \<Rightarrow> win_call list" where
  "api_calls (Mutex_init m) = [InitializeCriticalSection m]"
| "api_calls (Mutex_lock m) = [EnterCriticalSection m]"
| "api_calls (Mutex_unlock m) = [LeaveCriticalSection m]"
| "api_calls (Mutex_destroy m) = [DeleteCriticalSection m]"
| "api_calls (Cond_init c) = [InitializeConditionVariable c]"
| "api_calls (Cond_signal c) = [WakeConditionVariable c]"
| "api_calls (Cond_wait c m) = [SleepConditionVariable c m]"
| "api_calls (Cond_destroy c) = []"

lemmas sync_defs = win_mutex_init_def win_mutex_lock_def win_mutex_unlock_def win_mutex_destroy_def
  win_cond_init_def win_cond_signal_def win_cond_wait_def win_cond_destroy_def

lemma sync_step_runs:
  "\<exists>r s' cs. sync_step p s = (Inr r, s') \<and> log s' = log s @ cs \<and>
     (r \<noteq> 0 \<longrightarrow> (\<exists>c m. p = Cond_wait c m)) \<and>
     filter (\<lambda>c. c \<noteq> SysWin GetLastError) (map fst cs) = map SysWin (api_calls p)"
  by (cases p) (auto simp: sync_defs win_fn_def sys_run bnd_sys ret_run)

lemma sync_run_calls:
  "\<exists>rs s' cs. sync_run ps s = (Inr rs, s') \<and> log s' = log s @ cs \<and>
     list_all2 (\<lambda>p r. r \<noteq> 0 \<longrightarrow> (\<exists>c m. p = Cond_wait c m)) ps rs \<and>
     filter (\<lambda>c. c \<noteq> SysWin GetLastError) (map fst cs) = map SysWin (concat (map api_calls ps))"
proof (induction ps arbitrary: s)
  case (Cons p ps)
  obtain r s1 cs where p: "sync_step p s = (Inr r, s1)" "log s1 = log s @ cs"
      "r \<noteq> 0 \<longrightarrow> (\<exists>c m. p = Cond_wait c m)"
      "filter (\<lambda>c. c \<noteq> SysWin GetLastError) (map fst cs) = map SysWin (api_calls p)"
    using sync_step_runs by blast
  obtain rs s' ds where ps: "sync_run ps s1 = (Inr rs, s')" "log s' = log s1 @ ds"
      "list_all2 (\<lambda>p r. r \<noteq> 0 \<longrightarrow> (\<exists>c m. p = Cond_wait c m)) ps rs"
      "filter (\<lambda>c. c \<noteq> SysWin GetLastError) (map fst ds) = map SysWin (concat (map api_calls ps))"
    using Cons.IH by blast
  have "sync_run (p # ps) s = (Inr (r # rs), s')" by (simp add: bnd_def p(1) ps(1) ret_run)
  then show ?case using p ps
    by (intro exI [of _ "r # rs"] exI [of _ s'] exI [of _ "cs @ ds"]) simp
qed (simp add: ret_run)

section \<open>The console\<close>

definition ENABLE_VIRTUAL_TERMINAL_PROCESSING :: "32 word" where
  "ENABLE_VIRTUAL_TERMINAL_PROCESSING = 4"

text \<open>A call that does not fill in the mode leaves the 0 of the initialisation there.\<close>

definition win_window_init :: "('z io_scheme, unit) prog" where
  "win_window_init =
     bnd (win_fn GetStdHandle) (\<lambda>h.
     bnd (sys (SysWin (GetConsoleMode h))) (\<lambda>r.
     let mode = (if rep_ret r = 0 then 0 else rep_status r) in
     bnd (win_do (SetConsoleMode h (mode OR ENABLE_VIRTUAL_TERMINAL_PROCESSING))) (\<lambda>_.
     win_do (SetConsoleTitle ''neblina''))))"

definition win_window_close :: "('z io_scheme, unit) prog" where
  "win_window_close = ret ()"

definition win_vnprintf :: "string \<Rightarrow> log_state \<Rightarrow> log_state" where
  "win_vnprintf msg s = s\<lparr>stdout := stdout s @
     ESC @ ''[0;'' @ percent_d (logging_color s) @ ''m'' @ percent_minus_13_s (service s) @ '': '' @
     msg @ ESC @ ''[0m'' @ [CHR 0x0A]\<rparr>"

definition win_vnprintf_error :: "string \<Rightarrow> log_state \<Rightarrow> log_state" where
  "win_vnprintf_error msg s = s\<lparr>stderr := stderr s @ service s @ '': '' @ msg @ [CHR 0x0A]\<rparr>"

lemma same_output_on_windows: "win_vnprintf = vnprintf" "win_vnprintf_error = vnprintf_error"
  by (simp_all add: fun_eq_iff win_vnprintf_def vnprintf_def win_vnprintf_error_def vnprintf_error_def)

text \<open>
  The mode that is set has the processing of escape sequences, and every other bit is that of the
  mode that was read, or 0 if it could not be read.
\<close>

lemma window_init_sets_mode:
  "\<exists>s' h r t m. win_window_init s = (Inr (), s') \<and>
     map fst (log s') = map fst (log s) @ map SysWin [GetStdHandle, GetConsoleMode h, SetConsoleMode h m, SetConsoleTitle t] \<and>
     (SysWin (GetConsoleMode h), r) \<in> set (log s') \<and> bit m 2 \<and>
     (\<forall>i. i \<noteq> 2 \<longrightarrow> bit m i = (rep_ret r \<noteq> 0 \<and> bit (rep_status r) i))"
proof -
  have four: "bit (ENABLE_VIRTUAL_TERMINAL_PROCESSING :: 32 word) i = (i = 2)" for i
    using bit_exp_iff [of 2 i, where ?'a = "32 word"] by (auto simp: ENABLE_VIRTUAL_TERMINAL_PROCESSING_def)
  define h where "h = rep_ret (env s (log s) (SysWin GetStdHandle))"
  define r where "r = env s (log s @ [(SysWin GetStdHandle, env s (log s) (SysWin GetStdHandle))]) (SysWin (GetConsoleMode h))"
  define m where "m = (if rep_ret r = 0 then 0 else rep_status r) OR ENABLE_VIRTUAL_TERMINAL_PROCESSING"
  have "\<exists>s'. win_window_init s = (Inr (), s') \<and>
     map fst (log s') = map fst (log s) @ map SysWin [GetStdHandle, GetConsoleMode h, SetConsoleMode h m, SetConsoleTitle ''neblina''] \<and>
     (SysWin (GetConsoleMode h), r) \<in> set (log s')"
    by (simp add: win_window_init_def bnd_sys Let_def flip: h_def)
      (simp add: win_do_def bnd_sys ret_run m_def flip: r_def)
  moreover have "bit m 2" "\<forall>i. i \<noteq> 2 \<longrightarrow> bit m i = (rep_ret r \<noteq> 0 \<and> bit (rep_status r) i)"
    by (simp_all add: m_def bit_or_iff four)
  ultimately show ?thesis by blast
qed

text \<open>The text of an error is that of \<open>strerror\<close>.\<close>

definition n_error :: "(int \<Rightarrow> string) \<Rightarrow> int \<Rightarrow> string" where
  "n_error strerror errn = strerror errn"

end
