(* ===== verification/Win_Sockets.thy ===== *)
theory Win_Sockets
  imports Client Tcp Win32
begin

text \<open>
  The Windows branches of the TCP transport (\<open>tcp_server_accept_new_connection\<close>) and of the client
  (\<open>open_connection_\<close>, \<open>tcpclient_recv_spinlock\<close>): sockets are made non-blocking with \<open>ioctlsocket\<close>,
  whose failure is only logged, errors come from \<open>WSAGetLastError\<close>, and the time from the
  performance counter.
\<close>

definition EWOULDBLOCK :: int where "EWOULDBLOCK = 140"
definition WSAEWOULDBLOCK :: int where "WSAEWOULDBLOCK = 10035"

section \<open>New connections\<close>

definition win_accept_new_connection :: "('d server, int) prog" where
  "win_accept_new_connection =
     bnd (gets server_fd) (\<lambda>listener.
     bnd (sys (SysAccept listener)) (\<lambda>r.
     let client = ret_of r in
     if client = - 1 then ret INVALID_SOCKET
     else bnd (win_do (IoctlSocket client)) (\<lambda>_. ret client)))"

fun win_connect_first :: "nat list \<Rightarrow> int \<Rightarrow> ('z io_scheme, int \<times> bool) prog" where
  "win_connect_first [] sockfd = ret (sockfd, False)"
| "win_connect_first (a # as) _ =
     bnd (sys (SysSocket a)) (\<lambda>r.
     let sockfd = ret_of r in
     if sockfd = - 1 then win_connect_first as sockfd
     else
       bnd (sys (SysConnect sockfd a)) (\<lambda>r.
       if ret_of r = - 1
       then bnd (win_close sockfd) (\<lambda>_. win_connect_first as sockfd)
       else ret (sockfd, True)))"

definition win_open_connection :: "string \<Rightarrow> int \<Rightarrow> ('z io_scheme, int) prog" where
  "win_open_connection host port =
     bnd (sys (SysGetaddrinfo (Some host) port)) (\<lambda>r.
     if rep_ret r \<noteq> 0 then ret INVALID_SOCKET
     else
       bnd (win_connect_first (rep_addrs r) INVALID_SOCKET) (\<lambda>(sockfd, connected).
       if \<not> connected then ret INVALID_SOCKET
       else
         bnd (win_do (IoctlSocket sockfd)) (\<lambda>_.
         bnd (sys SysFreeaddrinfo) (\<lambda>_.
         ret sockfd))))"

section \<open>Receiving\<close>

text \<open>The comparison of the elapsed milliseconds, a \<open>double\<close>, with the time-out, in exact arithmetic.\<close>

fun win_spinlock_loop ::
  "nat \<Rightarrow> 'z tcp_client \<Rightarrow> int \<Rightarrow> int \<Rightarrow> size_t \<Rightarrow> size_t \<Rightarrow> block option \<Rightarrow> nat \<Rightarrow> size_t \<Rightarrow>
     ('z io_scheme, (int \<times> block option) option) prog" where
  "win_spinlock_loop 0 t hz start sz timeout_ms buf off pos = ret None"
| "win_spinlock_loop (Suc fuel) t hz start sz timeout_ms buf off pos =
     (if \<not> pos < sz then ret (Some (uint pos, buf))
      else
        bnd (cl_recv (client_vt t) (client_fd t) (sz - pos)) (\<lambda>(r, bytes, errno).
        bnd (lift (mem_write buf (off + unat pos) bytes)) (\<lambda>buf'.
        bnd (win_fn WSAGetLastError) (\<lambda>err.
        if r < 0 \<and> err \<noteq> EWOULDBLOCK \<and> err \<noteq> WSAEWOULDBLOCK then ret (Some (r, buf'))
        else
          let pos' = (if r > 0 then pos + word_of_int r else pos);
              off' = (if r > 0 then off + nat r else off) in
          bnd (guard_do (pos' < sz) (win_os_sleep_ms 1)) (\<lambda>_.
          bnd (win_fn QueryPerformanceCounter) (\<lambda>c.
          if (c - start) * 1000 > uint timeout_ms * hz
          then ret (Some (uint pos', buf'))
          else win_spinlock_loop fuel t hz start sz timeout_ms buf' off' pos'))))))"

definition win_tcpclient_recv_spinlock ::
  "nat \<Rightarrow> 'z tcp_client \<Rightarrow> block option \<Rightarrow> size_t \<Rightarrow> size_t \<Rightarrow>
     ('z io_scheme, (int \<times> block option) option) prog" where
  "win_tcpclient_recv_spinlock fuel t buf sz timeout_ms =
     bnd (win_fn QueryPerformanceFrequency) (\<lambda>hz.
     bnd (win_fn QueryPerformanceCounter) (\<lambda>start.
     win_spinlock_loop fuel t hz start sz timeout_ms buf 0 0))"

section \<open>How the branches differ\<close>

text \<open>On Windows a new connection is reported as it was accepted, whether or not it could be configured.\<close>

lemma win_accept_reports_accepted:
  "fst (win_accept_new_connection s) = Inr (ret_of (env s (log s) (SysAccept (server_fd s))))"
  by (simp add: win_accept_new_connection_def bnd_sys win_do_def Let_def INVALID_SOCKET_def)

text \<open>
  A peer that has closed the connection: on POSIX the call returns 0 after one receive; on Windows
  the receive is repeated as long as the performance counter leaves time.
\<close>

lemma posix_spinlock_reports_close:
  assumes "r = env s (log s @ [(SysClock, env s (log s) SysClock)]) (SysRecv fd sz)" "rep_ret r = 0" "rep_bytes r = []"
    and "rep_errno r \<noteq> EAGAIN" "0 < sz"
  shows "fst (tcpclient_recv_spinlock (Suc fuel) (plain_client fd) buf sz ms s) = Inr (Some (0, buf))"
  using assms by (simp add: tcpclient_recv_spinlock_def bnd_sys plain_client_def client_recv_def recv_result_def
      mem_write_def bnd_lift)

lemma win_spinlock_waits_for_clock:
  assumes "\<forall>h. rep_ret (env s h (SysRecv fd sz)) = 0 \<and> rep_bytes (env s h (SysRecv fd sz)) = []" "0 < sz"
    and "\<forall>h. (rep_ret (env s h (SysWin QueryPerformanceCounter)) - start) * 1000 \<le> uint ms * hz"
  shows "fst (win_spinlock_loop fuel (plain_client fd) hz start sz ms buf 0 0 (s\<lparr>log := h\<rparr>)) = Inr None"
proof (induction fuel arbitrary: h)
  case 0
  then show ?case by simp
next
  case (Suc fuel)
  then show ?case using assms
    by (simp add: bnd_sys plain_client_def client_recv_def recv_result_def mem_write_def bnd_lift win_fn_def
        win_os_sleep_ms_def win_do_def not_less)
qed

end
