(* ===== verification/Programs.thy ===== *)
theory Programs
  imports Server_Sessions Ssl
begin

text \<open>
  The two programs that are services: the main functions of the parrot (\<open>tmp/tests/parrot.c\<close>) and of
  the parrot over SSL (\<open>tmp/tests/sparrot.c\<close>), from the command line to the status.
\<close>

section \<open>The main loop with the workers\<close>

text \<open>
  \<open>server_run\<close> as it runs while the threads of the pool are at work: in a round, the workers
  \<open>ws k i\<close> make a pass before the event in slot \<open>i\<close> is handled, and \<open>ws k 64\<close> after all events, where
  \<open>k\<close> numbers the round from the end.  \<open>stops\<close> says after which histories a signal has arrived.
\<close>

fun interleaved_run ::
  "(history \<Rightarrow> bool) \<Rightarrow> 'd server_vtable \<Rightarrow> (nat \<Rightarrow> nat \<Rightarrow> nat list) \<Rightarrow> nat \<Rightarrow> ('d server, bool) prog" where
  "interleaved_run stops vt ws 0 = ret False"
| "interleaved_run stops vt ws (Suc fuel) =
     bnd (modify (\<lambda>s. s\<lparr>termination_requested := termination_requested s \<or> stops (log s)\<rparr>)) (\<lambda>_.
     bnd (gets termination_requested) (\<lambda>t.
     if t then ret True
     else
       bnd (interleaved_iterate vt (ws fuel) 50) (\<lambda>_.
       bnd (for_each (spool_worker_pass vt) (ws fuel 64)) (\<lambda>_.
       interleaved_run stops vt ws fuel))))"

lemma interleaved_run_alone: "interleaved_run stops vt (\<lambda>_ _. []) fuel = server_run stops vt fuel"
  by (induction fuel) (simp_all add: interleaved_none cong: if_cong)

lemma server_inv_termination [simp]:
  "server_inv mem_ok sinv (s\<lparr>termination_requested := b\<rparr>) cs = server_inv mem_ok sinv s cs"
  by (simp add: server_inv_def world_ok_def conns_inv_def conns_rep_def pool_inv_def pool_rep_def)





section \<open>The main functions\<close>

definition verbose_if_asked :: "string list \<Rightarrow> ('z os_scheme, unit) prog" where
  "verbose_if_asked argv =
     guard_do (length argv = 2 \<and> argv ! 1 = ''-d'') (modify (\<lambda>s. s\<lparr>logs_verbose := True\<rparr>))"


definition sparrot_main ::
  "(int \<Rightarrow> bool) \<Rightarrow> (history \<Rightarrow> bool) \<Rightarrow> (nat \<Rightarrow> nat \<Rightarrow> nat list) \<Rightarrow> nat \<Rightarrow> ssl_key \<Rightarrow> string list \<Rightarrow>
     (unit server, int option) prog" where
  "sparrot_main thread_ok stops ws fuel key argv =
     bnd (verbose_if_asked argv) (\<lambda>_.
     bnd os_handle_ctrl_c (\<lambda>_.
     bnd (ssl_server_create thread_ok 23457 False 0 key) (\<lambda>_.
     bnd (interleaved_run stops (ssl_vtable sparrot_session_create) ws fuel) (\<lambda>ended.
     if \<not> ended then ret None
     else bnd (ssl_server_destroy (ssl_vtable sparrot_session_create)) (\<lambda>_. ret (Some EXIT_SUCCESS))))))"

text \<open>The creation of an SSL server does not return NULL, so the main function never reports that.\<close>

lemma sparrot_main_status: "fst (sparrot_main thread_ok stops ws fuel key argv s) \<noteq> Inr (Some EXIT_FAILURE)"
  by (auto simp: sparrot_main_def bnd_def EXIT_FAILURE_def EXIT_SUCCESS_def ret_run
      split: prod.splits sum.splits if_splits)



end
