(* ===== verification/Ut_List_Plain.thy ===== *)
theory Ut_List_Plain
  imports Ut_List_Laws
begin

text \<open>
  The variants of the list macros for compilers without \<open>__typeof\<close> (\<open>NO_DECLTYPE\<close> in \<open>utlist.h\<close>).
  They cannot declare a variable of the type of an element, so a walk uses the head of the list
  itself, which is restored afterwards, or the \<open>next\<close> field of the element that is added.  The
  macros that are not redefined are the ones of \<open>Ut_List\<close>, \<open>Ut_Dlist\<close> and \<open>Ut_Cdlist\<close>.
\<close>

section \<open>The macros\<close>


definition LL_CONCAT2_nd :: "addr \<Rightarrow> links \<Rightarrow> addr \<Rightarrow> (links \<times> addr) run" where
  "LL_CONCAT2_nd head2 h head1 =
     (if head1 \<noteq> 0 then
        let tmp = head1 in
        then_run (seek h (\<lambda>n. n \<noteq> 0) head1) (\<lambda>head1.
        then_run (set_next head1 head2 h) (\<lambda>h. returned (h, tmp)))
      else returned (h, head2))"











section \<open>Singly linked lists\<close>



lemma LL_CONCAT2_nd: "LL_CONCAT2_nd = LL_CONCAT2"
  by (simp add: fun_eq_iff LL_CONCAT2_nd_def LL_CONCAT2_def Let_def)








section \<open>Doubly linked and circular lists\<close>




section \<open>Programs\<close>

text \<open>A kind of list whose operations are replaced by others that do the same on every list.\<close>

context linked_list
begin

lemma programs_agree:
  assumes agree: "\<And>op h p xs ys. lst h p xs \<Longrightarrow> \<forall>e\<in>added op. el h e \<Longrightarrow> link_spec key op xs = Some ys \<Longrightarrow>
      step' op h p = step cmp op h p"
    and "lst h p xs" "\<forall>op\<in>set ops. \<forall>e\<in>added op. el h e" "three_way cmp (key :: addr \<Rightarrow> int)"
      "links_spec key ops xs = Some ys"
  shows "run_links step' ops h p = run_links (step cmp) ops h p"
  using assms(2,3,5)
proof (induction ops arbitrary: h p xs)
  case (Cons op ops)
  obtain zs where zs: "link_spec key op xs = Some zs" "links_spec key ops zs = Some ys"
    using Cons.prems(3) by (auto simp: bind_eq_Some_conv)
  obtain h1 p1 where s: "step cmp op h p = returned (h1, p1)" "lst h1 p1 zs"
      "only_in (set xs \<union> added op) h h1"
    using any_step [OF Cons.prems(1) _ assms(4) zs(1)] Cons.prems(2) by (auto elim!: returnsE)
  have "\<forall>op\<in>set ops. \<forall>e\<in>added op. el h1 e"
    using Cons.prems(2) el_same [OF only_in_same [OF s(3)]] by simp
  moreover have "step' op h p = step cmp op h p"
    using agree [OF Cons.prems(1) _ zs(1)] Cons.prems(2) by simp
  ultimately show ?case using Cons.IH [OF s(2) _ zs(2)] s(1) by simp
qed simp

end






end
