(* ===== verification/Ut_Array_Strings.thy ===== *)
theory Ut_Array_Strings
  imports Ut_Array_Spec
begin

text \<open>
  The callbacks of \<open>utarray.h\<close> for arrays of strings, \<open>ut_str_icd\<close>: an element is a pointer, the copy
  constructor allocates a copy of the string, the destructor frees it.  By
  \<open>array_elements_destroyed_once\<close> the elements destroyed in the life of an array are those that were
  copied into it; what is shown here is that such a sequence of calls frees every copy once and
  nothing else.
\<close>

section \<open>The callbacks\<close>

text \<open>The strings in memory by address; 0 is NULL.\<close>

record str_heap =
  str_at :: "nat \<Rightarrow> byte list option"
  str_next :: nat

definition utarray_str_cpy :: "libc \<Rightarrow> nat \<Rightarrow> str_heap \<Rightarrow> (nat \<times> str_heap) run" where
  "utarray_str_cpy L src h =
     (if src = 0 then returned (0, h)
      else case str_at h src of
        None \<Rightarrow> stopped Undefined
      | Some b \<Rightarrow> then_run (Some (c_string b)) (\<lambda>s.
          if malloc_ok L (length s + 1)
          then returned (str_next h, h\<lparr>str_at := (str_at h)(str_next h \<mapsto> s @ [0]), str_next := str_next h + 1\<rparr>)
          else stopped (Exit (- 1))))"

definition utarray_str_dtor :: "nat \<Rightarrow> str_heap \<Rightarrow> str_heap run" where
  "utarray_str_dtor elt h =
     (if elt = 0 then returned h
      else if str_at h elt = None then stopped Undefined
      else returned (h\<lparr>str_at := (str_at h)(elt := None)\<rparr>))"

fun str_copies :: "libc \<Rightarrow> nat list \<Rightarrow> str_heap \<Rightarrow> (nat list \<times> str_heap) run" where
  "str_copies L [] h = returned ([], h)"
| "str_copies L (p # ps) h =
     then_run (utarray_str_cpy L p h) (\<lambda>(q, h).
     then_run (str_copies L ps h) (\<lambda>(qs, h). returned (q # qs, h)))"

fun str_dtors :: "nat list \<Rightarrow> str_heap \<Rightarrow> str_heap run" where
  "str_dtors [] h = returned h"
| "str_dtors (p # ps) h = then_run (utarray_str_dtor p h) (str_dtors ps)"

section \<open>Copies and their release\<close>

definition str_heap_ok :: "str_heap \<Rightarrow> bool" where
  "str_heap_ok h \<longleftrightarrow> (\<forall>p. str_at h p \<noteq> None \<longrightarrow> 0 < p \<and> p < str_next h) \<and> 0 < str_next h"

text \<open>The string that a pointer points to, if there is one.\<close>

definition str_value :: "str_heap \<Rightarrow> nat \<Rightarrow> byte list outcome option" where
  "str_value h p = (if p = 0 then None else map_option c_string (str_at h p))"

definition str_ptr :: "str_heap \<Rightarrow> nat \<Rightarrow> bool" where
  "str_ptr h p \<longleftrightarrow> p = 0 \<or> (\<exists>s. str_value h p = Some (Inr s))"

lemma c_string_copy: "c_string b = Inr s \<Longrightarrow> c_string (s @ [0]) = Inr s"
  by (auto simp: c_string_def takeWhile_append split: if_splits dest: set_takeWhileD)

lemma utarray_str_cpy_returns:
  assumes "str_heap_ok h" "str_ptr h p" "allocates L"
  shows "returns (utarray_str_cpy L p h) (\<lambda>(q, h1). str_heap_ok h1 \<and> str_value h1 q = str_value h p \<and>
    (q = 0 \<and> h1 = h \<or> q = str_next h \<and> q < str_next h1 \<and> str_at h1 q \<noteq> None \<and>
       str_at h1 = (str_at h)(q := str_at h1 q)))"
proof (cases "p = 0")
  case True
  then show ?thesis using assms(1) by (simp add: utarray_str_cpy_def str_value_def)
next
  case False
  then obtain b s where b: "str_at h p = Some b" "c_string b = Inr s"
    using assms(2) by (auto simp: str_ptr_def str_value_def)
  have "malloc_ok L (length s + 1)" using assms(3) by (simp add: allocates_def)
  then show ?thesis using False b assms(1) c_string_copy [OF b(2)]
    by (auto simp: utarray_str_cpy_def str_value_def str_heap_ok_def less_Suc_eq)
qed

lemma str_copies_returns:
  assumes "str_heap_ok h" "\<forall>p\<in>set ps. str_ptr h p" "allocates L"
  shows "returns (str_copies L ps h) (\<lambda>(qs, h1). str_heap_ok h1 \<and> str_next h \<le> str_next h1 \<and>
    map (str_value h1) qs = map (str_value h) ps \<and> distinct (filter (\<lambda>q. q \<noteq> 0) qs) \<and>
    (\<forall>q\<in>set qs. q \<noteq> 0 \<longrightarrow> str_next h \<le> q \<and> str_at h1 q \<noteq> None) \<and>
    (\<forall>p. p < str_next h \<longrightarrow> str_at h1 p = str_at h p) \<and>
    str_at h1 |` (- set qs) = str_at h)"
  using assms(1,2)
proof (induction ps arbitrary: h)
  case Nil
  then show ?case by (simp add: restrict_map_def)
next
  case (Cons p ps)
  obtain q h1 where c: "utarray_str_cpy L p h = returned (q, h1)" "str_heap_ok h1" "str_value h1 q = str_value h p"
      "q = 0 \<and> h1 = h \<or> q = str_next h \<and> q < str_next h1 \<and> str_at h1 q \<noteq> None \<and>
        str_at h1 = (str_at h)(q := str_at h1 q)"
    using utarray_str_cpy_returns [OF Cons.prems(1) _ assms(3), of p] Cons.prems(2) by (auto elim!: returnsE)
  have old: "str_at h1 r = str_at h r" if "r < str_next h" for r
    using c(4) that by (metis fun_upd_other less_irrefl)
  have le: "str_next h \<le> str_next h1" using c(4) by auto
  have vals: "str_value h1 r = str_value h r" if "str_ptr h r" for r
    using that old Cons.prems(1) by (auto simp: str_ptr_def str_value_def str_heap_ok_def)
  then have "\<forall>r\<in>set ps. str_ptr h1 r" using Cons.prems(2) by (auto simp: str_ptr_def)
  from Cons.IH [OF c(2) this] obtain qs h2 where r: "str_copies L ps h1 = returned (qs, h2)" "str_heap_ok h2"
      "str_next h1 \<le> str_next h2" "map (str_value h2) qs = map (str_value h1) ps" "distinct (filter (\<lambda>q. q \<noteq> 0) qs)"
      "\<forall>q\<in>set qs. q \<noteq> 0 \<longrightarrow> str_next h1 \<le> q \<and> str_at h2 q \<noteq> None"
      "\<forall>p. p < str_next h1 \<longrightarrow> str_at h2 p = str_at h1 p" "str_at h2 |` (- set qs) = str_at h1"
    by (auto elim!: returnsE)
  have q: "str_value h2 q = str_value h p"
    using c(3,4) r(7) by (auto simp: str_value_def)
  have "map (str_value h1) ps = map (str_value h) ps" using vals Cons.prems(2) by simp
  moreover have "q \<noteq> 0 \<Longrightarrow> q \<notin> set qs" using c(4) r(6) by auto
  moreover have "q \<noteq> 0 \<Longrightarrow> str_next h \<le> q \<and> str_at h2 q \<noteq> None" using c(4) r(7) by auto
  moreover have "str_at h2 |` (- set (q # qs)) = str_at h"
  proof
    fix x
    have fresh: "str_at h (str_next h) = None" using Cons.prems(1) by (fastforce simp: str_heap_ok_def)
    have zero: "str_at h 0 = None" using Cons.prems(1) by (fastforce simp: str_heap_ok_def)
    have "str_at h2 |` (- set (q # qs)) = (str_at h2 |` (- set qs))(q := None)"
      by (auto simp: restrict_map_def fun_eq_iff)
    then have "str_at h2 |` (- set (q # qs)) = (str_at h1)(q := None)" using r(8) by simp
    then show "(str_at h2 |` (- set (q # qs))) x = str_at h x"
      using c(4) fresh zero by (metis fun_upd_apply)
  qed
  moreover have "\<forall>x. x < str_next h \<longrightarrow> str_at h2 x = str_at h x" using r(7) old le by auto
  ultimately show ?case using c(1) r q le by auto
qed

lemma str_dtors_returns:
  assumes "distinct (filter (\<lambda>p. p \<noteq> 0) ps)" "\<forall>p\<in>set ps. p \<noteq> 0 \<longrightarrow> str_at h p \<noteq> None" "str_at h 0 = None"
  shows "returns (str_dtors ps h) (\<lambda>h1. str_at h1 = str_at h |` (- set ps))"
  using assms
proof (induction ps arbitrary: h)
  case Nil
  then show ?case by simp
next
  case (Cons p ps)
  define h1 where "h1 = h\<lparr>str_at := (str_at h)(p := None)\<rparr>"
  have d: "utarray_str_dtor p h = returned h1"
    using Cons.prems(2,3) by (cases "p = 0") (auto simp: utarray_str_dtor_def h1_def fun_upd_idem)
  have "\<forall>r\<in>set ps. r \<noteq> 0 \<longrightarrow> str_at h1 r \<noteq> None" using Cons.prems(1,2) by (auto simp: h1_def split: if_splits)
  moreover have "distinct (filter (\<lambda>p. p \<noteq> 0) ps)" using Cons.prems(1) by (auto split: if_splits)
  moreover have "str_at h1 0 = None" using Cons.prems(3) by (simp add: h1_def)
  ultimately have "returns (str_dtors ps h1) (\<lambda>h2. str_at h2 = str_at h1 |` (- set ps))" by (intro Cons.IH)
  moreover have "str_at h1 |` (- set ps) = str_at h |` (- set (p # ps))"
    by (auto simp: h1_def restrict_map_def fun_eq_iff)
  ultimately show ?case using d by simp
qed

text \<open>
  Copying strings gives equal strings in new memory, and destroying the copies in whatever order, as
  the operations of the array may, frees exactly what was allocated.
\<close>

lemma copied_strings_are_freed:
  assumes "str_heap_ok h" "\<forall>p\<in>set ps. str_ptr h p" "allocates L"
  shows "returns (str_copies L ps h) (\<lambda>(qs, h1). map (str_value h1) qs = map (str_value h) ps \<and>
    (\<forall>es. mset es = mset qs \<longrightarrow> returns (str_dtors es h1) (\<lambda>h2. str_at h2 = str_at h)))"
proof -
  obtain qs h1 where c: "str_copies L ps h = returned (qs, h1)" "str_heap_ok h1" "map (str_value h1) qs = map (str_value h) ps"
      "distinct (filter (\<lambda>q. q \<noteq> 0) qs)" "\<forall>q\<in>set qs. q \<noteq> 0 \<longrightarrow> str_at h1 q \<noteq> None"
      "str_at h1 |` (- set qs) = str_at h"
    using str_copies_returns [OF assms] by (auto elim!: returnsE)
  have "returns (str_dtors es h1) (\<lambda>h2. str_at h2 = str_at h)" if m: "mset es = mset qs" for es
  proof -
    have s: "set es = set qs" using m by (rule mset_eq_setD)
    have "mset (filter (\<lambda>q. q \<noteq> 0) es) = mset (filter (\<lambda>q. q \<noteq> 0) qs)" using m by (simp add: mset_filter)
    then have "distinct (filter (\<lambda>q. q \<noteq> 0) es)" using c(4) mset_eq_imp_distinct_iff by blast
    moreover have "str_at h1 0 = None" using c(2) by (fastforce simp: str_heap_ok_def)
    ultimately show ?thesis using str_dtors_returns [of es h1] c(5,6) s by simp
  qed
  then show ?thesis using c(1,3) by simp
qed

end
