(* ===== verification/Repo_Tests.thy ===== *)
theory Repo_Tests
  imports Commbuf
begin

text \<open>
  The unit test of the communication buffer that comes with the repository
  (\<open>test_commbuf\<close> in \<open>tmp/tests/tests.c\<close>), run on the model.
\<close>

definition assert_that :: "bool \<Rightarrow> unit outcome" where
  "assert_that b = (if b then Inr () else Inl Abort)"

text \<open>\<open>memcmp\<close> of a block with the bytes of a literal.\<close>

definition same_bytes :: "block option \<Rightarrow> byte list \<Rightarrow> bool outcome" where
  "same_bytes p bs = bind_out (mem_read p 0 (length bs)) (\<lambda>xs. Inr (xs = bs))"

abbreviation hello_bytes :: "byte list" where
  "hello_bytes \<equiv> [72, 101, 108, 108, 111]"

abbreviation world_bytes :: "byte list" where
  "world_bytes \<equiv> [87, 111, 114, 108, 100]"

abbreviation test_bytes :: "byte list" where
  "test_bytes \<equiv> [116, 101, 115, 116]"

definition test_send_buffer :: "libc \<Rightarrow> commbuf \<Rightarrow> commbuf outcome" where
  "test_send_buffer L conn =
     bind_out (commbuf_add_to_send_buffer L conn hello_bytes) (\<lambda>conn.
     bind_out (commbuf_add_to_send_buffer L conn world_bytes) (\<lambda>conn.
     let (data, sz) = commbuf_send_buffer conn in
     bind_out (assert_that (sz = 10)) (\<lambda>_.
     bind_out (same_bytes data (hello_bytes @ world_bytes)) (\<lambda>eq.
     bind_out (assert_that eq) (\<lambda>_.
     let conn = commbuf_clear_send_buffer conn;
         (data, sz) = commbuf_send_buffer conn in
     bind_out (assert_that (sz = 0)) (\<lambda>_.
     bind_out (commbuf_add_to_send_buffer L conn hello_bytes) (\<lambda>conn.
     let (data, sz) = commbuf_send_buffer conn in
     bind_out (assert_that (sz = 5)) (\<lambda>_.
     bind_out (same_bytes data hello_bytes) (\<lambda>eq.
     bind_out (assert_that eq) (\<lambda>_. Inr conn))))))))))"

definition test_line :: "libc \<Rightarrow> byte list \<Rightarrow> commbuf \<Rightarrow> commbuf outcome" where
  "test_line L line conn =
     bind_out (commbuf_extract_line_from_recv_buffer L conn [10, 0]) (\<lambda>(sz, data3, conn).
     bind_out (assert_that (sz = word_of_nat (length line))) (\<lambda>_.
     bind_out (same_bytes data3 line) (\<lambda>eq.
     bind_out (assert_that eq) (\<lambda>_. Inr conn))))"

definition test_recv_buffer :: "libc \<Rightarrow> commbuf \<Rightarrow> commbuf outcome" where
  "test_recv_buffer L conn =
     bind_out (commbuf_add_to_recv_buffer L conn hello_bytes) (\<lambda>conn.
     bind_out (commbuf_extract_from_recv_buffer L conn) (\<lambda>(sz, data2, conn).
     bind_out (assert_that (sz = 5)) (\<lambda>_.
     bind_out (same_bytes data2 hello_bytes) (\<lambda>eq.
     bind_out (assert_that eq) (\<lambda>_.
     bind_out (commbuf_add_to_recv_buffer L conn (hello_bytes @ [10] @ world_bytes @ [10] @ test_bytes)) (\<lambda>conn.
     bind_out (test_line L (hello_bytes @ [10]) conn) (\<lambda>conn.
     bind_out (test_line L (world_bytes @ [10]) conn) (\<lambda>conn.
     bind_out (commbuf_extract_line_from_recv_buffer L conn [10, 0]) (\<lambda>(sz, data3, conn).
     bind_out (assert_that (sz = 0)) (\<lambda>_. Inr conn))))))))))"

definition test_commbuf :: "libc \<Rightarrow> unit outcome" where
  "test_commbuf L =
     bind_out (commbuf_create L) (\<lambda>conn.
     bind_out (test_send_buffer L conn) (\<lambda>conn.
     bind_out (test_recv_buffer L conn) (\<lambda>conn. Inr ())))"

lemmas test_simps = assert_that_def same_bytes_def commbuf_add_to_send_buffer_def commbuf_add_to_recv_buffer_def
  commbuf_send_buffer_def commbuf_clear_send_buffer_def commbuf_extract_from_recv_buffer_def
  REALLOC_def MALLOC_def CALLOC_def check_ptr_def c_realloc_def c_malloc_def c_calloc_def mem_read_def mem_write_def Let_def

lemma test_send_buffer_passes:
  assumes "\<forall>n. malloc_ok L n" "recv_buf c = None" "recv_buf_sz c = 0" "send_buf c = None" "send_buf_sz c = 0"
  shows "\<exists>c'. test_send_buffer L c = Inr c' \<and> recv_buf c' = None \<and> recv_buf_sz c' = 0"
  using assms by (simp add: test_send_buffer_def test_simps)

lemma test_recv_buffer_passes:
  assumes "\<forall>n. malloc_ok L n" "recv_buf c = None" "recv_buf_sz c = 0"
  shows "\<exists>c'. test_recv_buffer L c = Inr c'"
  using assms by (simp add: test_recv_buffer_def test_line_def test_simps commbuf_extract_line_from_recv_buffer_def
      find_separator.simps c_string_def fits_int_def int_of_size_def)

text \<open>The test passes wherever memory lasts.\<close>

lemma test_commbuf_passes:
  assumes "\<forall>n. malloc_ok L n"
  shows "test_commbuf L = Inr ()"
proof -
  obtain conn where c: "commbuf_create L = Inr conn" "recv_buf conn = None" "recv_buf_sz conn = 0"
      "send_buf conn = None" "send_buf_sz conn = 0"
    using assms by (simp add: commbuf_create_def CALLOC_ok)
  obtain conn1 where s: "test_send_buffer L conn = Inr conn1" "recv_buf conn1 = None" "recv_buf_sz conn1 = 0"
    using test_send_buffer_passes [OF assms c(2-5)] by blast
  obtain conn2 where "test_recv_buffer L conn1 = Inr conn2"
    using test_recv_buffer_passes [OF assms s(2,3)] by blast
  then show ?thesis using c(1) s(1) by (simp add: test_commbuf_def)
qed

end
