(* ===== verification/Spec2Isabelle.thy ===== *)
theory Spec2Isabelle
  imports Watchdog_Laws Uthash_Laws Server_Sessions Spool_Rounds Client Future Ssl Win32 Logs
    Ring_Buffer Ut_String_Laws Ut_List_Laws Uthash_Order Uthash_More
    Uthash_Bloom Uthash_Oom Uthash_Select Uthash_Buckets Uthash_Pointers Win_Sync Win_Sockets Programs
    Ut_List_Plain Ut_Array_Strings Repo_Tests
begin

text \<open>
  A verification development for neblina-server, a library for services that run in processes of
  their own under a watchdog.  Paths are relative to the root of the repository.

  THE PROGRAM.  A service gives the server a function that creates sessions.  The server
  (\<open>src/server/server.c\<close>) opens a listening socket through its transport
  (\<open>src/server/tcp/tcp_server.c\<close>, \<open>tmp/ssl/ssl_server.c\<close>), waits for events with a poller
  (\<open>os/linux\<close>, \<open>os/bsd\<close>, \<open>os/win32/poller.c\<close>) and keeps a hash table of sessions
  (\<open>src/contrib/uthash/uthash.h\<close>).  A new connection becomes a session (\<open>src/service/session.c\<close>)
  with a communication buffer (\<open>src/server/commbuf.c\<close>), assigned to one of the threads of the session
  pool (\<open>src/server/spool/spool.c\<close>).  When data arrive the pool is told, and a worker receives them,
  lets the session answer and sends the answer.  The watchdog (\<open>src/watchdog/watchdog.c\<close>) starts and
  restarts services through \<open>os/posix/os.c\<close> or \<open>os/win32/os.c\<close>.  The client
  (\<open>src/client/tcpclient.c\<close>) and the futures (\<open>src/util/future.c\<close>) stand by themselves.  The
  containers that come with the hash table (\<open>utlist.h\<close>, \<open>utstack.h\<close>, \<open>utarray.h\<close>,
  \<open>utringbuffer.h\<close>, \<open>utstring.h\<close> in \<open>src/contrib/uthash\<close>) are part of the repository for services
  to use.

  HOW IT IS MODELLED.  Every function of the program is a definition of the same name (with a prefix
  where a platform has its own version).  Stateful code is written in a state-and-failure monad
  (\<open>Prelude\<close>): a program maps a state to an outcome and a state, and an outcome is a result or the
  reason why the function did not return: \<open>exit\<close>, \<open>abort\<close>, replacement by \<open>execvp\<close>, or undefined
  behaviour (an access outside an object, to a freed object, a signed overflow, a second join).
  The system is a function \<open>env\<close> from the history of calls and the next call to its answer, and every
  theorem holds for all of them unless it names an assumption (\<open>World\<close>); Windows and OpenSSL calls are
  answered the same way.  What the C library leaves open (which requests succeed, whether
  \<open>realloc(p, 0)\<close> frees, the contents of fresh memory) is the record \<open>libc\<close> (\<open>Alloc\<close>).  Blocks are
  byte lists with the length that was allocated, \<open>size_t\<close> is a 64-bit word, \<open>int\<close> an integer whose
  range is checked, pointers to shared objects are addresses in maps.

  THE THEORIES, from the bottom up.
  \<^item> \<open>Prelude\<close>, \<open>Alloc\<close>, \<open>Lines\<close>, \<open>World\<close>: integers, outcomes, the monad with its two calculi of
    preconditions (\<open>wp\<close>: no undefined behaviour, and what holds if it returns; \<open>twp\<close>: it returns), the
    checked allocator of \<open>src/util/alloc.c\<close>, splitting a byte stream into lines, and the system.
  \<^item> \<open>Commbuf\<close>, \<open>Session\<close>: the communication buffer against a pair of byte queues, the extraction of
    lines against the splitting of a list, and the parrot service (\<open>tmp/tests/parrot.c\<close>).  What it
    shares with the one over SSL (\<open>tmp/tests/sparrot.c\<close>) is the locale \<open>echo_service\<close>.  \<open>Repo_Tests\<close>
    runs the repository's test of the buffer on the model.
  \<^item> \<open>Process\<close>, \<open>Watchdog\<close>, \<open>Watchdog_Laws\<close>: processes and time on POSIX, the watchdog's functions,
    and their refinement of one state machine per service.
  \<^item> \<open>Uthash\<close>, \<open>Uthash_Laws\<close>: the hash function, the operations of the table that the program uses, with
    the doubling of the buckets; the locale \<open>dictionary\<close> states what a client relies on.
  \<^item> \<open>Uthash_More\<close>, \<open>Uthash_Bloom\<close>, \<open>Uthash_Oom\<close>, \<open>Uthash_Select\<close>: the operations of \<open>uthash.h\<close> for
    other users: insertion in order, replacement, sorting, string keys, the other hash functions, the
    Bloom filter, insertions that survive a refused allocation, selection into another table.
  \<^item> \<open>Chain_Links\<close>, \<open>Uthash_Order\<close>, \<open>Uthash_Buckets\<close>, \<open>Uthash_Pointers\<close>: the table with its pointers.  The
    elements are linked in their order, the handles in their buckets; \<open>Uthash_Order\<close> has the first list
    and its check, \<open>Uthash_Buckets\<close> the second and the relinking of all handles when the buckets are
    doubled, \<open>Uthash_Pointers\<close> whole tables, which mirror those of \<open>Uthash\<close>.
  \<^item> \<open>Poller\<close>: the three pollers, with the event array as a list of slots that may be unassigned.
  \<^item> \<open>Server_State\<close>, \<open>Spool\<close>, \<open>Server\<close>, \<open>Tcp\<close>: the server, the pool and the transport.
  \<^item> \<open>Server_Safety\<close>, \<open>Spool_Safety\<close>, \<open>Server_Events\<close>, \<open>Server_Run\<close>, \<open>Server_Shutdown\<close>: the
    representation invariant that ties the two tables to a list of connections, every handler against
    that list, interleavings of events with worker rounds, and the shutdown.  They work in the locale
    \<open>session_server\<close> (a transport and a service), which extends \<open>service\<close>.
  \<^item> \<open>Parrot_Service\<close>, \<open>Server_Laws\<close>, \<open>Server_Props\<close>, \<open>Server_Sessions\<close>: the interpretations for the
    parrot over TCP, and the properties of the server.
  \<^item> \<open>Spool_Threads\<close>, \<open>Spool_Shutdown\<close>, \<open>Spool_Rounds\<close>: the threads of the pool step by step, under
    every schedule, and the proof that they only do what whole worker rounds do.
  \<^item> \<open>Client\<close>, \<open>Future\<close>, \<open>Ssl\<close>, \<open>Win32\<close>, \<open>Logs\<close>: the remaining components of the program;
    \<open>Win_Sync\<close> and \<open>Win_Sockets\<close> have the mutexes, condition variables and console of Windows and the
    Windows branches of the transport and the client.
  \<^item> \<open>Programs\<close>: the main functions of the two parrots, with the whole process interleaved with its
    workers.
  \<^item> \<open>Loops\<close>: programs with loops that may not end.  \<open>while_run\<close> is the least fixed point of a C loop,
    \<open>None\<close> is not returning, and \<open>returns m Q\<close> is total correctness; the containers are written in it.
  \<^item> \<open>Ut_Array\<close>, \<open>Ut_Array_Spec\<close>, \<open>Ring_Buffer\<close>: the dynamic array and the ring buffer, as blocks of
    slots with 32-bit indices, against lists and against the history of pushes; \<open>Ut_Array_Strings\<close>: the
    callbacks for arrays of strings.
  \<^item> \<open>Ut_String\<close>, \<open>Kmp\<close>, \<open>Kmp_Reverse\<close>, \<open>Ut_String_Laws\<close>: the dynamic string, and its two searches by
    the method of Knuth, Morris and Pratt; the search from the right is the mirror image of the other.
  \<^item> \<open>Link_Heap\<close>, \<open>Merge_Sort\<close>, \<open>Link_Ops\<close>: elements with \<open>next\<close> and \<open>prev\<close> pointers in a heap; the
    merge sort of the list macros, once, in the locale \<open>sort_links\<close>; the operations as a datatype with
    their meaning on plain lists, and the locale \<open>linked_list\<close> of a kind of list.
  \<^item> \<open>Ut_List\<close>, \<open>Double_Links\<close>, \<open>Ut_Dlist\<close>, \<open>Ut_Cdlist\<close>, \<open>Ut_List_Laws\<close>: the singly linked, doubly
    linked and circular lists, each interpreting both locales, the stack, and their laws;
    \<open>Ut_List_Plain\<close>: the variants of the macros for compilers without \<open>__typeof\<close>.

  WHAT IS SHOWN.  The parrot as a whole process never has undefined behaviour, and after a signal it
  returns with everything released.  A server that is created, handles events and worker rounds in any interleaving and is
  destroyed never has undefined behaviour and leaves no object; each round does to its tables what
  abstract events do to a list of connections; the shutdown returns and closes every socket once.  The
  pool loses no wake-up, processes a session only while it is in the table, refines the machine of
  rounds, and its shutdown ends.  Lines and echoes do not depend on how the stream is cut.  The hash
  table is a dictionary, also on its pointers and with every check of \<open>HASH_FSCK\<close> passed, with or
  without the Bloom filter, and after an allocation that failed; the three kinds of list, the array, the string and the ring buffer are the
  lists they stand for, their loops end, their sorts are stable and their searches find the first or
  last occurrence.  The watchdog never starts a service more than ten times in ten seconds.  The
  remaining properties describe single functions on all branches, and the places where the code does
  not do what it means to; these are listed with the properties in the manifest.

  BOUNDS AND FUEL.  Loops that may run forever take fuel, and their theorems say how much is enough:
  \<open>server_run\<close> needs one round more than the calls until the flag is set, \<open>wait_for_death\<close> more than the
  clock readings that five seconds take, \<open>disconnect_all\<close> the number of connections,
  \<open>tcpclient_recv_spinlock\<close> the number of pieces.  The bound \<open>shutdown_steps\<close> of the pool's shutdown is
  computed from its state.  The loops of the containers need no fuel: each is proved to end, or, for
  the growth of an array beyond \<open>2 ^ 31\<close> slots, never to.  The sorts are proved for up to \<open>2 ^ 30\<close>
  elements, the counts below \<open>2 ^ 31\<close>, where \<open>int\<close> suffices.

  ASSUMPTIONS.  Accessing zero bytes through any pointer has no effect.  Addresses of freed objects are
  not used again by the model (\<open>next_addr\<close>).  The counters of uthash are unbounded, only the number of
  buckets is checked against its 32 bits.  \<open>small_memory\<close>: no request of 2 GiB or more is granted.
  \<open>kernel_ok\<close>: \<open>accept\<close> returns a socket that is not open, its flags can be read, and the poller reports
  events with at least one of the flags it was asked for.  A worker round is one step in \<open>Server_Run\<close>,
  which \<open>Spool_Rounds\<close> justifies; reads of the tables without the lock by the only thread that changes
  them are atomic.  The elapsed time of the client is exact.  Log messages are left out, except in
  \<open>Logs\<close>.

  NOT MODELLED.  The sorts of \<open>utlist.h\<close> as compiled without \<open>__typeof\<close>, which differ from the others
  in casts through the head; the operations of \<open>uthash.h\<close> beyond insertion, deletion, lookup, sorting
  and selection with their pointers (with lists they are there); the printing of OpenSSL's errors and
  the texts of the key pair; the formatting of messages by \<open>vfprintf\<close>; the tests other than
  \<open>test_commbuf\<close>; the empty \<open>main\<close>; \<open>doctest.h\<close>, which is another project's test framework.
\<close>

end
